(* ===== verification/Mach_Prelude.thy ===== *)
theory Mach_Prelude
  imports Main "HOL-Library.Word"
begin

text \<open>
  Shared vocabulary of the development: the machine types of the i386 target (16-bit
  unsigned short, 32-bit int and long), the faults a C function can run into, the sequencing
  operator for computations that may fault, and the generic facts on words, carries and lists
  the component theories share.
\<close>

unbundle bit_operations_syntax

section \<open>Machine types\<close>

type_synonym u8 = "8 word"
type_synonym u16 = "16 word"
type_synonym u32 = "32 word"

text \<open>
  What a C function can do other than return: dereference a null pointer, dereference memory
  that is not (or no longer) allocated, index an array out of its bounds, trap on a division by
  zero, or loop for ever.
\<close>

datatype fault = Null_Deref | Bad_Address | Out_Of_Bounds | Divide_Trap | Diverges

type_synonym 'a result = "fault + 'a"

definition bindE :: "'e + 'a \<Rightarrow> ('a \<Rightarrow> 'e + 'b) \<Rightarrow> 'e + 'b" where
  "bindE m f = (case m of Inl e \<Rightarrow> Inl e | Inr x \<Rightarrow> f x)"

named_theorems fault_simps \<open>how a computation that may fault continues or stops\<close>

lemma bindE_Inl [simp, fault_simps]: "bindE (Inl e) f = Inl e"
  by (simp add: bindE_def)

lemma bindE_Inr [simp, fault_simps]: "bindE (Inr x) f = f x"
  by (simp add: bindE_def)

lemma bindE_eq_Inr [fault_simps]: "bindE m f = Inr y \<longleftrightarrow> (\<exists>x. m = Inr x \<and> f x = Inr y)"
  by (cases m) auto

lemma bindE_InrE: "bindE m f = Inr y \<Longrightarrow> (\<And>x. m = Inr x \<Longrightarrow> f x = Inr y \<Longrightarrow> P) \<Longrightarrow> P"
  by (cases m) auto

lemma bindE_cong [fundef_cong]:
  "m = m' \<Longrightarrow> (\<And>x. m' = Inr x \<Longrightarrow> f x = f' x) \<Longrightarrow> bindE m f = bindE m' f'"
  by (cases m') auto

lemma bindE_bindE: "bindE (bindE m f) g = bindE m (\<lambda>x. bindE (f x) g)"
  by (cases m) simp_all

text \<open>A loop over the elements of a list whose body may fault.\<close>

primrec foldE :: "('a \<Rightarrow> 's \<Rightarrow> 'e + 's) \<Rightarrow> 'a list \<Rightarrow> 's \<Rightarrow> 'e + 's" where
  "foldE f [] s = Inr s"
| "foldE f (x # xs) s = bindE (f x s) (foldE f xs)"

lemma foldE_append [fault_simps]: "foldE f (xs @ ys) s = bindE (foldE f xs s) (foldE f ys)"
proof (induction xs arbitrary: s)
  case (Cons x xs)
  then show ?case by (cases "f x s") simp_all
qed simp

lemma foldE_invariant:
  assumes "foldE f xs s = Inr t" "P s" "\<And>x s s'. x \<in> set xs \<Longrightarrow> P s \<Longrightarrow> f x s = Inr s' \<Longrightarrow> P s'"
  shows "P t"
  using assms
proof (induction xs arbitrary: s)
  case (Cons x xs)
  then obtain u where u: "f x s = Inr u" "foldE f xs u = Inr t" by (auto simp: bindE_eq_Inr)
  have "P u" using Cons.prems(2,3) u(1) by auto
  then show ?case using Cons.IH [OF u(2)] Cons.prems(3) by auto
qed simp

section \<open>Integers modulo a machine word\<close>

lemma mod_small_neg: "- m \<le> v \<Longrightarrow> v < 0 \<Longrightarrow> (v :: int) mod m = v + m"
  by (metis add.commute add_less_same_cancel1 diff_ge_0_iff_ge diff_minus_eq_add mod_add_self2
      mod_pos_pos_trivial)

lemma same_residue_eq:
  fixes a b :: int
  assumes "a mod m = b mod m" "l \<le> a" "a < l + m" "l \<le> b" "b < l + m"
  shows "a = b"
proof -
  have "(a - l) mod m = (b - l) mod m"
    using assms(1) by (metis mod_diff_left_eq)
  then have "a - l = b - l"
    using assms(2-) by simp
  then show ?thesis by simp
qed

section \<open>Words of different width\<close>

named_theorems width_simps \<open>reading a word after a change of width or a shift by a digit\<close>

lemma unat_u16_lt: "unat (x :: u16) < 65536"
  using unsigned_less [of x] by simp

lemma unat_u32_lt: "unat (x :: u32) < 4294967296"
  using unsigned_less [of x] by simp

lemma unat_u8_lt: "unat (x :: u8) < 256"
  using unsigned_less [of x] by simp

lemma unat_widen [width_simps]: "unat (ucast (x :: u16) :: u32) = unat x"
  using unat_u16_lt [of x] by (simp add: unsigned_ucast_eq take_bit_eq_mod)

lemma unat_narrow [width_simps]: "unat (ucast (x :: u32) :: u16) = unat x mod 65536"
  by (simp add: unsigned_ucast_eq take_bit_eq_mod)

lemma unat_high [width_simps]: "unat (drop_bit 16 (x :: u32)) = unat x div 65536"
  by (simp add: drop_bit_eq_div unat_div)

lemma unat_add_u32 [width_simps]: "unat ((x :: u32) + y) = (unat x + unat y) mod 4294967296"
  by (simp add: unat_word_ariths)

lemma unat_mul_u32 [width_simps]: "unat ((x :: u32) * y) = (unat x * unat y) mod 4294967296"
  by (simp add: unat_word_ariths)

lemma unat_div_u32 [width_simps]: "unat ((x :: u32) div y) = unat x div unat y"
  by (simp add: unat_div)

lemma unat_mod_u32 [width_simps]: "unat ((x :: u32) mod y) = unat x mod unat y"
  by (simp add: unat_mod)

lemma sint_small_u32: "unat (x :: u32) < 2 ^ 31 \<Longrightarrow> sint x = int (unat x)"
proof -
  assume "unat x < 2 ^ 31"
  then have "signed_take_bit 31 (int (unat x)) = int (unat x)"
    by (intro signed_take_bit_int_eq_self) (simp_all del: of_nat_unat)
  then show ?thesis by (simp add: sint_uint)
qed

lemma sint_nonneg_u32: "0 \<le> sint (x :: u32) \<longleftrightarrow> unat x < 2 ^ 31"
proof
  assume "0 \<le> sint x"
  then have "sint x = sint x mod 2 ^ 32" using sint_lt [of x] by simp
  also have "\<dots> = int (unat x)" using uint_sint [of x] by (simp add: take_bit_eq_mod)
  finally have "int (unat x) < 2 ^ 31" using sint_lt [of x] by simp
  then show "unat x < 2 ^ 31" by (simp del: of_nat_unat)
qed (simp add: sint_small_u32)

lemma sint_succ_u32: "0 \<le> sint (x :: u32) \<Longrightarrow> sint x < 2 ^ 31 - 1 \<Longrightarrow> sint (x + 1) = sint x + 1"
proof -
  assume "0 \<le> sint x" "sint x < 2 ^ 31 - 1"
  then have "signed_take_bit 31 (sint x + 1) = sint x + 1" by (intro signed_take_bit_int_eq_self) simp_all
  then show ?thesis by (simp add: sint_word_ariths)
qed

lemma distinct_concat_upt:
  assumes "\<And>i. i < n \<Longrightarrow> distinct (cs i)"
    and "\<And>i j c. i < n \<Longrightarrow> j < n \<Longrightarrow> c \<in> set (cs i) \<Longrightarrow> c \<in> set (cs j) \<Longrightarrow> i = j"
  shows "distinct (concat (map cs [0..<n]))"
  using assms
proof (induction n)
  case (Suc n)
  have "distinct (concat (map cs [0..<n]))"
    by (rule Suc.IH) (use Suc.prems(1) in simp, meson Suc.prems(2) less_SucI)
  moreover have "c \<notin> set (cs n)" if "i < n" "c \<in> set (cs i)" for i c
    using Suc.prems(2) [of i n c] that by auto
  ultimately show ?case using Suc.prems(1) [of n] by auto
qed simp

lemma sint_word_inject: "sint (a :: 'a::len word) = sint b \<Longrightarrow> a = b"
  by (metis uint_sint word_uint_eq_iff)

end
