(* ===== verification/Dlong.thy ===== *)
theory Dlong
  imports Mach_Prelude
begin

text \<open>
  Double length long arithmetic: the type \<open>dlong_t\<close> of local_include/dlong.h, four 16-bit
  digits from the most to the least significant, with the conversions, addition, negation,
  subtraction, multiplication and comparison of lib/mach3/us/dlong.c and the macro versions
  of dlong.h. The accumulator \<open>dlong_ac_t\<close> is a 32-bit unsigned long, so every
  intermediate value is a \<^typ>\<open>32 word\<close>: the operands of type unsigned short are widened
  to it, and the store into a digit keeps the low 16 bits.

  The routines are related to the value \<open>dlong_uint\<close> of the four digits read as one unsigned
  64-bit number, and to \<open>dlong_sint\<close>, the same bits read in two's complement.
\<close>

section \<open>Data\<close>

record dlong_t =
  d0 :: u16
  d1 :: u16
  d2 :: u16
  d3 :: u16

abbreviation ac :: "u16 \<Rightarrow> u32" where
  "ac x \<equiv> ucast x"

abbreviation digit :: "u32 \<Rightarrow> u16" where
  "digit x \<equiv> ucast x"

definition dlong_base :: u32 where
  "dlong_base = 65536"

definition mk_dlong :: "u16 \<Rightarrow> u16 \<Rightarrow> u16 \<Rightarrow> u16 \<Rightarrow> dlong_t" where
  "mk_dlong a b c e = \<lparr>d0 = a, d1 = b, d2 = c, d3 = e\<rparr>"

definition isneg :: "dlong_t \<Rightarrow> bool" where
  "isneg x = (d0 x AND 0x8000 \<noteq> 0)"

definition dlong_gets_zero :: dlong_t where
  "dlong_gets_zero = mk_dlong 0 0 0 0"

section \<open>Type conversions\<close>

text \<open>An int and a long are both 32 bits; the sign test reads the word in two's complement.\<close>

definition int_to_dlong :: "u32 \<Rightarrow> dlong_t" where
  "int_to_dlong x =
     (let s = (if sint x < 0 then NOT 0 else 0)
      in mk_dlong s s (digit (signed_drop_bit 16 x)) (digit x))"

definition long_to_dlong :: "u32 \<Rightarrow> dlong_t" where
  "long_to_dlong x =
     (let s = (if sint x < 0 then NOT 0 else 0)
      in mk_dlong s s (digit (signed_drop_bit 16 x)) (digit x))"

definition u_int_to_dlong :: "u32 \<Rightarrow> dlong_t" where
  "u_int_to_dlong x = mk_dlong 0 0 (digit (drop_bit 16 x)) (digit x)"

definition u_long_to_dlong :: "u32 \<Rightarrow> dlong_t" where
  "u_long_to_dlong x = mk_dlong 0 0 (digit (drop_bit 16 x)) (digit x)"

definition dlong_to_int :: "dlong_t \<Rightarrow> u32" where
  "dlong_to_int x = ac (d2 x) * dlong_base + ac (d3 x)"

definition dlong_to_long :: "dlong_t \<Rightarrow> u32" where
  "dlong_to_long x = ac (d2 x) * dlong_base + ac (d3 x)"

definition dlong_to_u_int :: "dlong_t \<Rightarrow> u32" where
  "dlong_to_u_int x = ac (d2 x) * dlong_base + ac (d3 x)"

definition dlong_to_u_long :: "dlong_t \<Rightarrow> u32" where
  "dlong_to_u_long x = ac (d2 x) * dlong_base + ac (d3 x)"

section \<open>Addition, negation and subtraction\<close>

definition dlong_add :: "dlong_t \<Rightarrow> dlong_t \<Rightarrow> dlong_t" where
  "dlong_add x y =
     (let ac3 = ac (d3 x) + ac (d3 y);
          ac2 = ac (d2 x) + ac (d2 y) + drop_bit 16 ac3;
          ac1 = ac (d1 x) + ac (d1 y) + drop_bit 16 ac2;
          ac0 = ac (d0 x) + ac (d0 y) + drop_bit 16 ac1
      in mk_dlong (digit ac0) (digit ac1) (digit ac2) (digit ac3))"

definition borrow :: "u32 \<Rightarrow> u32" where
  "borrow t = (if drop_bit 16 t \<noteq> 0 then 1 else 0)"

definition dlong_neg :: "dlong_t \<Rightarrow> dlong_t" where
  "dlong_neg x =
     (let ac3 = - ac (d3 x);
          ac2 = - ac (d2 x) - borrow ac3;
          ac1 = - ac (d1 x) - borrow ac2;
          ac0 = - ac (d0 x) - borrow ac1
      in mk_dlong (digit ac0) (digit ac1) (digit ac2) (digit ac3))"

definition dlong_sub :: "dlong_t \<Rightarrow> dlong_t \<Rightarrow> dlong_t" where
  "dlong_sub x y =
     (let ac3 = ac (d3 x) - ac (d3 y);
          ac2 = ac (d2 x) - ac (d2 y) - borrow ac3;
          ac1 = ac (d1 x) - ac (d1 y) - borrow ac2;
          ac0 = ac (d0 x) - ac (d0 y) - borrow ac1
      in mk_dlong (digit ac0) (digit ac1) (digit ac2) (digit ac3))"

section \<open>Multiplication\<close>

text \<open>
  The loops index the digit arrays, so they run on the list of the four digits. The inner
  loop adds \<open>u * v_j\<close> into the digits \<open>w[iplusj]\<close> down to \<open>w[0]\<close>, carrying \<open>k\<close>; the outer
  loop runs \<open>j\<close> from 3 down to 0 and skips a zero multiplier digit.
\<close>

definition digits :: "dlong_t \<Rightarrow> u16 list" where
  "digits x = [d0 x, d1 x, d2 x, d3 x]"

definition of_digits :: "u16 list \<Rightarrow> dlong_t" where
  "of_digits w = mk_dlong (w ! 0) (w ! 1) (w ! 2) (w ! 3)"

primrec mul_inner :: "u16 list \<Rightarrow> u32 \<Rightarrow> nat \<Rightarrow> nat \<Rightarrow> u32 \<Rightarrow> u16 list \<Rightarrow> u16 list" where
  "mul_inner u v_j 0 i k w =
     (let t = ac (u ! i) * v_j + ac (w ! 0) + k in w[0 := digit t])"
| "mul_inner u v_j (Suc iplusj) i k w =
     (let t = ac (u ! i) * v_j + ac (w ! Suc iplusj) + k
      in mul_inner u v_j iplusj (i - 1) (t div dlong_base) (w[Suc iplusj := digit t]))"

definition mul_row :: "u16 list \<Rightarrow> u16 list \<Rightarrow> nat \<Rightarrow> u16 list \<Rightarrow> u16 list" where
  "mul_row u v j w = (if v ! j = 0 then w else mul_inner u (ac (v ! j)) j 3 0 w)"

primrec mul_outer :: "u16 list \<Rightarrow> u16 list \<Rightarrow> nat \<Rightarrow> u16 list \<Rightarrow> u16 list" where
  "mul_outer u v 0 w = mul_row u v 0 w"
| "mul_outer u v (Suc j) w = mul_outer u v j (mul_row u v (Suc j) w)"

definition dlong_mul :: "dlong_t \<Rightarrow> dlong_t \<Rightarrow> dlong_t" where
  "dlong_mul u v =
     (let negative = isneg u;
          u = (if isneg u then dlong_neg u else u);
          negative = (if isneg v then \<not> negative else negative);
          v = (if isneg v then dlong_neg v else v);
          w = of_digits (mul_outer (digits u) (digits v) 3 (digits dlong_gets_zero))
      in if negative then dlong_neg w else w)"

section \<open>Comparison\<close>

fun dlong_cmp_digits :: "u16 list \<Rightarrow> u16 list \<Rightarrow> int" where
  "dlong_cmp_digits (x # xs) (y # ys) =
     (if x \<noteq> y then (if y < x then 1 else - 1) else dlong_cmp_digits xs ys)"
| "dlong_cmp_digits _ _ = 0"

definition dlong_cmp :: "dlong_t \<Rightarrow> dlong_t \<Rightarrow> int" where
  "dlong_cmp x y =
     (if (d0 x XOR d0 y) AND 0x8000 \<noteq> 0
      then (if d0 x AND 0x8000 = 0 then 1 else - 1)
      else dlong_cmp_digits (digits x) (digits y))"

definition DLONG_SGN :: "dlong_t \<Rightarrow> int" where
  "DLONG_SGN x =
     (if d3 x = 0 \<and> d2 x = 0 \<and> d1 x = 0 \<and> d0 x = 0 then 0
      else if d0 x AND 0x8000 \<noteq> 0 then - 1 else 1)"

section \<open>The macros of dlong.h\<close>

definition DLONG_ADD :: "dlong_t \<Rightarrow> dlong_t \<Rightarrow> dlong_t" where
  "DLONG_ADD x y =
     (let ac3 = ac (d3 x) + ac (d3 y);
          ac2 = ac (d2 x) + ac (d2 y) + drop_bit 16 ac3;
          ac1 = ac (d1 x) + ac (d1 y) + drop_bit 16 ac2
      in mk_dlong (digit (ac (d0 x) + ac (d0 y) + drop_bit 16 ac1))
           (digit ac1) (digit ac2) (digit ac3))"

definition DLONG_NEG :: "dlong_t \<Rightarrow> dlong_t" where
  "DLONG_NEG x =
     (let ac3 = - ac (d3 x);
          ac2 = - ac (d2 x) - borrow ac3;
          ac1 = - ac (d1 x) - borrow ac2
      in mk_dlong (digit (- ac (d0 x) - borrow ac1)) (digit ac1) (digit ac2) (digit ac3))"

definition DLONG_SUB :: "dlong_t \<Rightarrow> dlong_t \<Rightarrow> dlong_t" where
  "DLONG_SUB x y =
     (let ac3 = ac (d3 x) - ac (d3 y);
          ac2 = ac (d2 x) - ac (d2 y) - borrow ac3;
          ac1 = ac (d1 x) - ac (d1 y) - borrow ac2
      in mk_dlong (digit (ac (d0 x) - ac (d0 y) - borrow ac1)) (digit ac1) (digit ac2) (digit ac3))"

definition LONG_TO_DLONG :: "u32 \<Rightarrow> dlong_t" where
  "LONG_TO_DLONG x =
     (let s = (if sint x < 0 then NOT 0 else 0)
      in mk_dlong s s (digit (signed_drop_bit 16 x)) (digit x))"

definition U_LONG_TO_DLONG :: "u32 \<Rightarrow> dlong_t" where
  "U_LONG_TO_DLONG x = mk_dlong 0 0 (digit (drop_bit 16 x)) (digit x)"

definition SHORT_TO_DLONG :: "u16 \<Rightarrow> dlong_t" where
  "SHORT_TO_DLONG x =
     (let s = (if sint x < 0 then NOT 0 else 0) in mk_dlong s s s x)"

definition U_SHORT_TO_DLONG :: "u16 \<Rightarrow> dlong_t" where
  "U_SHORT_TO_DLONG x = mk_dlong 0 0 0 x"

definition DLONG_ZERO :: dlong_t where
  "DLONG_ZERO = U_SHORT_TO_DLONG 0"

definition DLONG_TO_LONG :: "dlong_t \<Rightarrow> u32" where
  "DLONG_TO_LONG x = push_bit 16 (ac (d2 x)) + ac (d3 x)"

text \<open>
  The composite macros update \<open>result\<close> in place; the middle digits are only touched when a
  carry (or a borrow) reaches them.
\<close>

definition ADD_LONG_TO_DLONG :: "dlong_t \<Rightarrow> u32 \<Rightarrow> dlong_t" where
  "ADD_LONG_TO_DLONG r x =
     (let a3 = ac (d3 r) + (x AND (dlong_base - 1));
          r = r\<lparr>d3 := digit a3\<rparr>;
          a2 = ac (d2 r) + (signed_drop_bit 16 x AND (dlong_base - 1)) + drop_bit 16 a3;
          r = r\<lparr>d2 := digit a2\<rparr>
      in if 0 \<le> sint x then
           (if drop_bit 16 a2 \<noteq> 0 then
              (let a1 = ac (d1 r) + 1; r = r\<lparr>d1 := digit a1\<rparr>
               in if drop_bit 16 a1 \<noteq> 0 then r\<lparr>d0 := digit (ac (d0 r) + 1)\<rparr> else r)
            else r)
         else
           (if drop_bit 16 a2 = 0 then
              (let a1 = ac (d1 r) + (dlong_base - 1); r = r\<lparr>d1 := digit a1\<rparr>
               in if drop_bit 16 a1 = 0 then r\<lparr>d0 := digit (ac (d0 r) + (dlong_base - 1))\<rparr> else r)
            else r))"

definition ADD_U_LONG_TO_DLONG :: "dlong_t \<Rightarrow> u32 \<Rightarrow> dlong_t" where
  "ADD_U_LONG_TO_DLONG r x =
     (let a3 = ac (d3 r) + (x AND (dlong_base - 1));
          r = r\<lparr>d3 := digit a3\<rparr>;
          a2 = ac (d2 r) + (drop_bit 16 x AND (dlong_base - 1)) + drop_bit 16 a3;
          r = r\<lparr>d2 := digit a2\<rparr>
      in if drop_bit 16 a2 \<noteq> 0 then
           (let a1 = ac (d1 r) + 1; r = r\<lparr>d1 := digit a1\<rparr>
            in if drop_bit 16 a1 \<noteq> 0 then r\<lparr>d0 := digit (ac (d0 r) + 1)\<rparr> else r)
         else r)"

definition SUB_LONG_FROM_DLONG :: "dlong_t \<Rightarrow> u32 \<Rightarrow> dlong_t" where
  "SUB_LONG_FROM_DLONG r x =
     (let a3 = ac (d3 r) - (x AND (dlong_base - 1));
          r = r\<lparr>d3 := digit a3\<rparr>;
          a2 = ac (d2 r) - (signed_drop_bit 16 x AND (dlong_base - 1)) - borrow a3;
          r = r\<lparr>d2 := digit a2\<rparr>
      in if 0 \<le> sint x then
           (if drop_bit 16 a2 \<noteq> 0 then
              (let a1 = ac (d1 r) - 1; r = r\<lparr>d1 := digit a1\<rparr>
               in if drop_bit 16 a1 \<noteq> 0 then r\<lparr>d0 := digit (ac (d0 r) - 1)\<rparr> else r)
            else r)
         else
           (if drop_bit 16 a2 = 0 then
              (let a1 = ac (d1 r) - (dlong_base - 1); r = r\<lparr>d1 := digit a1\<rparr>
               in if drop_bit 16 a1 = 0 then r\<lparr>d0 := digit (ac (d0 r) - (dlong_base - 1))\<rparr> else r)
            else r))"

definition SUB_U_LONG_FROM_DLONG :: "dlong_t \<Rightarrow> u32 \<Rightarrow> dlong_t" where
  "SUB_U_LONG_FROM_DLONG r x =
     (let a3 = ac (d3 r) - (x AND (dlong_base - 1));
          r = r\<lparr>d3 := digit a3\<rparr>;
          a2 = ac (d2 r) - (drop_bit 16 x AND (dlong_base - 1)) - borrow a3;
          r = r\<lparr>d2 := digit a2\<rparr>
      in if drop_bit 16 a2 \<noteq> 0 then
           (let a1 = ac (d1 r) - 1; r = r\<lparr>d1 := digit a1\<rparr>
            in if drop_bit 16 a1 \<noteq> 0 then r\<lparr>d0 := digit (ac (d0 r) - 1)\<rparr> else r)
         else r)"

section \<open>Values\<close>

definition dlong_unat :: "dlong_t \<Rightarrow> nat" where
  "dlong_unat x =
     ((unat (d0 x) * 65536 + unat (d1 x)) * 65536 + unat (d2 x)) * 65536 + unat (d3 x)"

definition dlong_sint :: "dlong_t \<Rightarrow> int" where
  "dlong_sint x = (if isneg x then int (dlong_unat x) - 2 ^ 64 else int (dlong_unat x))"

lemma mk_dlong_sel [simp]:
  "d0 (mk_dlong a b c e) = a" "d1 (mk_dlong a b c e) = b"
  "d2 (mk_dlong a b c e) = c" "d3 (mk_dlong a b c e) = e"
  by (simp_all add: mk_dlong_def)

lemma dlong_unat_lt: "dlong_unat x < 2 ^ 64"
  using unat_u16_lt [of "d0 x"] unat_u16_lt [of "d1 x"] unat_u16_lt [of "d2 x"]
    unat_u16_lt [of "d3 x"]
  by (simp add: dlong_unat_def)

subsection \<open>One digit with its carry or borrow\<close>

lemma no_carry_in: "unat (0 :: u32) \<le> 1"
  by simp

lemma carry_step:
  assumes "unat c \<le> 1" and "t = ac a + ac b + c"
  shows "unat (digit t) + 65536 * unat (drop_bit 16 t) = unat a + unat b + unat c"
    and "unat (drop_bit 16 t) \<le> 1"
proof -
  have "unat t = unat a + unat b + unat c"
    using assms unat_u16_lt [of a] unat_u16_lt [of b] by (simp add: width_simps)
  then show "unat (digit t) + 65536 * unat (drop_bit 16 t) = unat a + unat b + unat c"
    and "unat (drop_bit 16 t) \<le> 1"
    using assms unat_u16_lt [of a] unat_u16_lt [of b] by (simp_all add: width_simps)
qed

lemma unat_sub_u32:
  "unat ((x :: u32) - y) = (if unat y \<le> unat x then unat x - unat y else unat x + 2 ^ 32 - unat y)"
  by (simp add: unat_sub_if_size word_size)

lemma borrow_le_1: "unat (borrow t) \<le> 1"
  by (simp add: borrow_def)

lemma borrow_step:
  assumes c: "unat c \<le> 1" and t: "t = ac a - ac b - c"
  shows "unat (digit t) + unat b + unat c = unat a + 65536 * unat (borrow t)"
proof -
  note bounds = unat_u16_lt [of a] unat_u16_lt [of b] c
  show ?thesis
  proof (cases "unat b + unat c \<le> unat a")
    case True
    then have "unat t = unat a - unat b - unat c"
      using t bounds by (simp add: unat_sub_u32 width_simps)
    moreover from this have "drop_bit 16 t = 0"
      using bounds by (simp add: width_simps unat_eq_0 [symmetric] del: unat_eq_0)
    ultimately show ?thesis
      using True bounds by (simp add: borrow_def width_simps)
  next
    case False
    then have ut: "unat t = unat a + 4294967296 - unat b - unat c"
      using t bounds by (auto simp add: unat_sub_u32 width_simps)
    then have "unat (drop_bit 16 t) \<noteq> 0"
      using bounds by (simp add: width_simps)
    then have "drop_bit 16 t \<noteq> 0" by auto
    moreover have "unat (digit t) = unat a + 65536 - unat b - unat c"
    proof -
      have "unat t = (unat a + 65536 - unat b - unat c) + 65536 * 65535"
        using ut False bounds by simp
      then have "unat t mod 65536 = (unat a + 65536 - unat b - unat c) mod 65536"
        by (simp only: mod_mult_self2)
      then show ?thesis
        using False bounds by (simp add: width_simps)
    qed
    ultimately show ?thesis
      using False bounds by (simp add: borrow_def)
  qed
qed

subsection \<open>Addition, negation and subtraction are those of the integers modulo \<open>2\<^sup>6\<^sup>4\<close>\<close>

lemma dlong_add_exact:
  "\<exists>c. dlong_unat (dlong_add x y) + 2 ^ 64 * c = dlong_unat x + dlong_unat y"
proof -
  define ac3 where "ac3 = ac (d3 x) + ac (d3 y) + 0"
  define ac2 where "ac2 = ac (d2 x) + ac (d2 y) + drop_bit 16 ac3"
  define ac1 where "ac1 = ac (d1 x) + ac (d1 y) + drop_bit 16 ac2"
  define ac0 where "ac0 = ac (d0 x) + ac (d0 y) + drop_bit 16 ac1"
  have r: "dlong_add x y = mk_dlong (digit ac0) (digit ac1) (digit ac2) (digit ac3)"
    by (simp add: dlong_add_def Let_def ac3_def ac2_def ac1_def ac0_def)
  note s3 = carry_step [OF no_carry_in ac3_def]
  note s2 = carry_step [OF s3(2) ac2_def]
  note s1 = carry_step [OF s2(2) ac1_def]
  note s0 = carry_step [OF s1(2) ac0_def]
  have "dlong_unat (dlong_add x y) + 2 ^ 64 * unat (drop_bit 16 ac0) = dlong_unat x + dlong_unat y"
    using s3(1) s2(1) s1(1) s0(1) by (simp add: r dlong_unat_def)
  then show ?thesis ..
qed

lemma dlong_sub_exact:
  "\<exists>c. dlong_unat (dlong_sub x y) + dlong_unat y = dlong_unat x + 2 ^ 64 * c"
proof -
  define ac3 where "ac3 = ac (d3 x) - ac (d3 y) - 0"
  define ac2 where "ac2 = ac (d2 x) - ac (d2 y) - borrow ac3"
  define ac1 where "ac1 = ac (d1 x) - ac (d1 y) - borrow ac2"
  define ac0 where "ac0 = ac (d0 x) - ac (d0 y) - borrow ac1"
  have r: "dlong_sub x y = mk_dlong (digit ac0) (digit ac1) (digit ac2) (digit ac3)"
    by (simp add: dlong_sub_def Let_def ac3_def ac2_def ac1_def ac0_def)
  note s3 = borrow_step [OF no_carry_in ac3_def]
  note s2 = borrow_step [OF borrow_le_1 ac2_def]
  note s1 = borrow_step [OF borrow_le_1 ac1_def]
  note s0 = borrow_step [OF borrow_le_1 ac0_def]
  have "dlong_unat (dlong_sub x y) + dlong_unat y = dlong_unat x + 2 ^ 64 * unat (borrow ac0)"
    using s3 s2 s1 s0 by (simp add: r dlong_unat_def)
  then show ?thesis ..
qed

lemma dlong_neg_is_sub: "dlong_neg x = dlong_sub dlong_gets_zero x"
  by (simp add: dlong_neg_def dlong_sub_def dlong_gets_zero_def)

lemma dlong_unat_zero [simp]: "dlong_unat dlong_gets_zero = 0"
  by (simp add: dlong_unat_def dlong_gets_zero_def)

lemma cong_dlong_unat:
  "int (dlong_unat z) + 2 ^ 64 * k = v \<Longrightarrow> int (dlong_unat z) = v mod 2 ^ 64"
  using dlong_unat_lt [of z] by auto

lemma dlong_add_unat:
  "int (dlong_unat (dlong_add x y)) = (int (dlong_unat x) + int (dlong_unat y)) mod 2 ^ 64"
proof -
  obtain c where "dlong_unat (dlong_add x y) + 2 ^ 64 * c = dlong_unat x + dlong_unat y"
    using dlong_add_exact by blast
  then have "int (dlong_unat (dlong_add x y)) + 2 ^ 64 * int c = int (dlong_unat x) + int (dlong_unat y)"
    by (metis of_nat_add of_nat_mult of_nat_numeral of_nat_power)
  then show ?thesis by (rule cong_dlong_unat)
qed

lemma dlong_sub_unat:
  "int (dlong_unat (dlong_sub x y)) = (int (dlong_unat x) - int (dlong_unat y)) mod 2 ^ 64"
proof -
  obtain c where "dlong_unat (dlong_sub x y) + dlong_unat y = dlong_unat x + 2 ^ 64 * c"
    using dlong_sub_exact by blast
  then have "int (dlong_unat (dlong_sub x y)) + int (dlong_unat y) = int (dlong_unat x) + 2 ^ 64 * int c"
    by (metis of_nat_add of_nat_mult of_nat_numeral of_nat_power)
  then have "int (dlong_unat (dlong_sub x y)) + 2 ^ 64 * (- int c) = int (dlong_unat x) - int (dlong_unat y)"
    by simp
  then show ?thesis by (rule cong_dlong_unat)
qed

lemma dlong_neg_unat: "int (dlong_unat (dlong_neg x)) = (- int (dlong_unat x)) mod 2 ^ 64"
  by (simp add: dlong_neg_is_sub dlong_sub_unat)

subsection \<open>The sign\<close>

lemma top_bit_u16: "(x :: u16) AND 0x8000 = 0 \<longleftrightarrow> unat x < 32768"
proof -
  have "x AND 0x8000 = 0 \<longleftrightarrow> \<not> bit x 15"
    using and_exp_eq_0_iff_not_bit [of x 15] by simp
  also have "bit x 15 = bit (unat x) 15"
    by (simp add: bit_unsigned_iff)
  also have "bit (unat x) 15 = odd (unat x div 32768)"
    by (simp add: bit_iff_odd)
  also have "odd (unat x div 32768) \<longleftrightarrow> \<not> unat x < 32768"
  proof (cases "unat x < 32768")
    case False
    then have "unat x div 32768 = 1"
      using unat_u16_lt [of x] by (intro div_nat_eqI) simp_all
    with False show ?thesis by simp
  qed simp
  finally show ?thesis by simp
qed

lemma isneg_iff: "isneg x \<longleftrightarrow> 2 ^ 63 \<le> dlong_unat x"
  using unat_u16_lt [of "d1 x"] unat_u16_lt [of "d2 x"] unat_u16_lt [of "d3 x"]
  by (simp add: isneg_def top_bit_u16 dlong_unat_def) linarith

definition wrap64 :: "int \<Rightarrow> int" where
  "wrap64 v = (v + 2 ^ 63) mod 2 ^ 64 - 2 ^ 63"

lemma wrap64_range: "- (2 ^ 63) \<le> wrap64 v" "wrap64 v < 2 ^ 63"
  using pos_mod_bound [of "2 ^ 64" "v + 2 ^ 63"] pos_mod_sign [of "2 ^ 64" "v + 2 ^ 63"]
  by (simp_all add: wrap64_def)

lemma wrap64_id: "- (2 ^ 63) \<le> v \<Longrightarrow> v < 2 ^ 63 \<Longrightarrow> wrap64 v = v"
  by (simp add: wrap64_def)

lemma wrap64_cong: "v mod 2 ^ 64 = w mod 2 ^ 64 \<Longrightarrow> wrap64 v = wrap64 w"
  unfolding wrap64_def by (metis mod_add_cong)

lemma wrap64_mod: "wrap64 v mod 2 ^ 64 = v mod 2 ^ 64"
  unfolding wrap64_def by (metis add_diff_cancel_right' mod_diff_left_eq)

lemma dlong_sint_wrap: "dlong_sint x = wrap64 (int (dlong_unat x))"
proof (cases "isneg x")
  case True
  then have "wrap64 (int (dlong_unat x)) = wrap64 (int (dlong_unat x) - 2 ^ 64)"
    by (intro wrap64_cong) simp
  also have "\<dots> = int (dlong_unat x) - 2 ^ 64"
    using True dlong_unat_lt [of x] by (intro wrap64_id) (simp_all add: isneg_iff)
  finally show ?thesis
    using True by (simp add: dlong_sint_def)
next
  case False
  then show ?thesis
    by (simp add: dlong_sint_def isneg_iff wrap64_id)
qed

lemma dlong_sint_mod: "dlong_sint x mod 2 ^ 64 = int (dlong_unat x)"
  using dlong_unat_lt [of x] unfolding dlong_sint_wrap wrap64_mod by simp

lemma dlong_sint_range: "- (2 ^ 63) \<le> dlong_sint x" "dlong_sint x < 2 ^ 63"
  by (simp_all only: dlong_sint_wrap wrap64_range)

lemma dlong_sintI: "int (dlong_unat z) = v mod 2 ^ 64 \<Longrightarrow> dlong_sint z = wrap64 v"
  unfolding dlong_sint_wrap by (rule wrap64_cong) simp

lemma digits_inject:
  assumes "a * 65536 + b = a' * 65536 + (b' :: nat)" "b < 65536" "b' < 65536"
  shows "a = a'" "b = b'"
proof -
  have "(a * 65536 + b) mod 65536 = b" "(a' * 65536 + b') mod 65536 = b'"
    using assms(2,3) by simp_all
  with assms(1) show b: "b = b'" by simp
  with assms(1) show "a = a'" by simp
qed

lemma dlong_unat_inject: "dlong_unat x = dlong_unat y \<Longrightarrow> x = y"
proof -
  assume "dlong_unat x = dlong_unat y"
  note s3 = digits_inject [OF this [unfolded dlong_unat_def] unat_u16_lt unat_u16_lt]
  note s2 = digits_inject [OF s3(1) unat_u16_lt unat_u16_lt]
  note s1 = digits_inject [OF s2(1) unat_u16_lt unat_u16_lt]
  show "x = y"
    using s3(2) s2(2) s1 by (intro dlong_t.equality) (simp_all add: word_unat_eq_iff)
qed

lemma dlong_sint_inject: "dlong_sint x = dlong_sint y \<Longrightarrow> x = y"
  by (metis dlong_sint_mod dlong_unat_inject nat_int)

section \<open>Numbers as lists of digits\<close>

primrec dval :: "u16 list \<Rightarrow> nat" where
  "dval [] = 0"
| "dval (x # xs) = unat x * 65536 ^ length xs + dval xs"

lemma dval_append [simp]: "dval (xs @ ys) = dval xs * 65536 ^ length ys + dval ys"
  by (induction xs) (simp_all add: power_add algebra_simps)

lemma dval_lt: "dval xs < 65536 ^ length xs"
proof (induction xs)
  case (Cons x xs)
  have "unat x * 65536 ^ length xs + dval xs < (unat x + 1) * 65536 ^ length xs"
    using Cons by simp
  also have "\<dots> \<le> 65536 * 65536 ^ length xs"
    using unat_u16_lt [of x] by (intro mult_le_mono1) simp
  finally show ?case by simp
qed simp

lemma dval_digits: "dval (digits x) = dlong_unat x"
  by (simp add: digits_def dlong_unat_def)

lemma of_digits_digits [simp]: "of_digits (digits x) = x"
  by (simp add: of_digits_def digits_def mk_dlong_def)

lemma length_digits [simp]: "length (digits x) = 4"
  by (simp add: digits_def)

lemma digits_of_digits: "length w = 4 \<Longrightarrow> digits (of_digits w) = w"
  by (simp add: of_digits_def digits_def numeral_eq_Suc length_Suc_conv) auto

lemma dlong_unat_of_digits: "length w = 4 \<Longrightarrow> dlong_unat (of_digits w) = dval w"
  by (simp add: dval_digits [symmetric] digits_of_digits)

lemma dval_snoc: "p < length w \<Longrightarrow> dval (take (Suc p) w) = dval (take p w) * 65536 + unat (w ! p)"
  by (simp add: take_Suc_conv_app_nth)

text \<open>One step of a multiply loop: the product, the digit and the carry fit the accumulator.\<close>

lemma mul_step:
  assumes t: "t = ac a * v + b + k" and v: "unat v < 65536" and b: "unat b < 65536"
    and k: "unat k < 65536"
  shows "unat (digit t) + 65536 * unat (t div 65536) = unat a * unat v + unat b + unat k"
    and "unat (t div 65536) < 65536"
proof -
  have "unat a * unat v \<le> 65535 * 65535"
    using v unat_u16_lt [of a] by (intro mult_le_mono) simp_all
  then have ut: "unat t = unat a * unat v + unat b + unat k"
    using t b k by (simp add: width_simps)
  then show "unat (digit t) + 65536 * unat (t div 65536) = unat a * unat v + unat b + unat k"
    by (simp add: width_simps)
  show "unat (t div 65536) < 65536"
    using unat_u32_lt [of t] by (simp add: width_simps less_mult_imp_div_less)
qed

lemma length_mul_inner [simp]: "length (mul_inner u v p i k w) = length w"
  by (induction p arbitrary: i k w) (simp_all add: Let_def)

lemma mul_inner_above: "p < q \<Longrightarrow> mul_inner u v p i k w ! q = w ! q"
  by (induction p arbitrary: i k w) (simp_all add: Let_def)

lemma drop_mul_inner: "drop (Suc p) (mul_inner u v p i k w) = drop (Suc p) w"
  by (rule nth_equalityI) (simp_all add: mul_inner_above)

lemma mul_inner_dval:
  assumes "unat v < 65536"
  shows "\<lbrakk>unat k < 65536; p < length w; p \<le> i; i < length u\<rbrakk> \<Longrightarrow>
    \<exists>c. dval (take (Suc p) (mul_inner u v p i k w)) + 65536 ^ Suc p * c
        = dval (take (Suc p) w) + unat v * dval (take (Suc p) (drop (i - p) u)) + unat k"
proof (induction p arbitrary: i k w)
  case 0
  define t where "t = ac (u ! i) * v + ac (w ! 0) + k"
  note step = mul_step [OF t_def assms _ 0(1), unfolded unat_widen, OF unat_u16_lt]
  have "take (Suc 0) (drop i u) = [u ! i]"
    using 0 by (simp add: take_Suc_conv_app_nth)
  moreover have "take (Suc 0) w = [w ! 0]"
    using 0 by (simp add: take_Suc_conv_app_nth)
  moreover have "take (Suc 0) (mul_inner u v 0 i k w) = [digit t]"
    using 0 by (simp add: take_Suc_conv_app_nth t_def)
  ultimately show ?case
    using step(1) by (intro exI [of _ "unat (t div 65536)"]) (simp add: algebra_simps)
next
  case (Suc p)
  define t where "t = ac (u ! i) * v + ac (w ! Suc p) + k"
  define w1 where "w1 = w[Suc p := digit t]"
  note step = mul_step [OF t_def assms _ Suc.prems(1), unfolded unat_widen, OF unat_u16_lt]
  have eq: "mul_inner u v (Suc p) i k w = mul_inner u v p (i - 1) (t div 65536) w1"
    by (simp add: t_def w1_def dlong_base_def Let_def)
  have "\<exists>c. dval (take (Suc p) (mul_inner u v p (i - 1) (t div 65536) w1)) + 65536 ^ Suc p * c
      = dval (take (Suc p) w1) + unat v * dval (take (Suc p) (drop (i - 1 - p) u)) + unat (t div 65536)"
    using Suc.prems by (intro Suc.IH [OF step(2)]) (simp_all add: w1_def)
  then obtain c where c: "dval (take (Suc p) (mul_inner u v p (i - 1) (t div 65536) w1)) + 65536 ^ Suc p * c
      = dval (take (Suc p) w) + unat v * dval (take (Suc p) (drop (i - Suc p) u)) + unat (t div 65536)"
    by (auto simp: w1_def)
  have top: "dval (take (Suc (Suc p)) (mul_inner u v (Suc p) i k w))
      = dval (take (Suc p) (mul_inner u v p (i - 1) (t div 65536) w1)) * 65536 + unat (digit t)"
    using Suc.prems
    by (subst dval_snoc) (simp_all del: mul_inner.simps add: eq mul_inner_above w1_def)
  have "dval (take (Suc (Suc p)) (drop (i - Suc p) u))
      = dval (take (Suc p) (drop (i - Suc p) u)) * 65536 + unat (u ! i)"
    using Suc.prems by (subst dval_snoc) simp_all
  moreover have "dval (take (Suc (Suc p)) w) = dval (take (Suc p) w) * 65536 + unat (w ! Suc p)"
    using Suc.prems by (intro dval_snoc)
  moreover have "65536 * (dval (take (Suc p) (mul_inner u v p (i - 1) (t div 65536) w1)) + 65536 ^ Suc p * c)
      = 65536 * (dval (take (Suc p) w) + unat v * dval (take (Suc p) (drop (i - Suc p) u)) + unat (t div 65536))"
    by (simp only: c)
  ultimately show ?case
    using step(1) by (intro exI [of _ c]) (simp del: mul_inner.simps add: top algebra_simps)
qed

lemma mul_row_frame: "length (mul_row u v j w) = length w"
  by (simp add: mul_row_def)

text \<open>Row \<open>j\<close> adds \<open>u * v[j] * base\<^bsup>3-j\<^esup>\<close>, modulo the size of the result.\<close>

lemma mul_row_dval:
  assumes "length u = 4" "length w = 4" "j < 4"
  shows "dval (mul_row u v j w) mod 65536 ^ 4 = (dval w + dval u * unat (v ! j) * 65536 ^ (3 - j)) mod 65536 ^ 4"
proof (cases "v ! j = 0")
  case False
  let ?w = "mul_inner u (ac (v ! j)) j 3 0 w"
  let ?s = "65536 ^ (3 - j) :: nat"
  have tk: "take (Suc j) (drop (3 - j) u) = drop (3 - j) u"
    using assms by simp
  have "\<exists>c. dval (take (Suc j) ?w) + 65536 ^ Suc j * c
      = dval (take (Suc j) w) + unat (ac (v ! j)) * dval (take (Suc j) (drop (3 - j) u)) + unat (0 :: u32)"
    using assms by (intro mul_inner_dval) (simp_all add: width_simps unat_u16_lt)
  then obtain c where c: "dval (take (Suc j) ?w) + 65536 ^ Suc j * c
      = dval (take (Suc j) w) + unat (v ! j) * dval (drop (3 - j) u)"
    by (simp only: tk unat_widen unat_0 add_0_right) blast
  have four_minus: "4 - Suc j = 3 - j"
    by simp
  have split: "dval xs = dval (take (Suc j) xs) * ?s + dval (drop (Suc j) xs)" if "length xs = 4" for xs
    using that assms dval_append [of "take (Suc j) xs" "drop (Suc j) xs"] by (simp add: four_minus)
  have usplit: "dval u = dval (take (3 - j) u) * 65536 ^ Suc j + dval (drop (3 - j) u)"
    using assms dval_append [of "take (3 - j) u" "drop (3 - j) u"] by simp
  have pow: "65536 ^ 4 = ?s * 65536 ^ Suc j"
    using assms(3) by (simp only: power_add [symmetric]) simp
  have "dval ?w + 65536 ^ 4 * (c + dval (take (3 - j) u) * unat (v ! j))
      = (dval (take (Suc j) ?w) + 65536 ^ Suc j * c) * ?s + dval (drop (Suc j) w)
        + dval (take (3 - j) u) * 65536 ^ Suc j * unat (v ! j) * ?s"
    unfolding pow by (simp add: split [of ?w] assms drop_mul_inner algebra_simps del: power_Suc)
  also have "\<dots> = dval w + dval u * unat (v ! j) * ?s"
    unfolding c by (simp add: split [of w] assms usplit algebra_simps del: power_Suc)
  finally have "dval ?w + 65536 ^ 4 * (c + dval (take (3 - j) u) * unat (v ! j))
      = dval w + dval u * unat (v ! j) * ?s" .
  then have "dval ?w mod 65536 ^ 4 = (dval w + dval u * unat (v ! j) * ?s) mod 65536 ^ 4"
    by (metis mod_mult_self2)
  with False show ?thesis by (simp add: mul_row_def)
qed (simp add: mul_row_def)

lemma length_mul_row [simp]: "length (mul_row u v j w) = length w"
  by (simp add: mul_row_def)

lemma length_mul_outer [simp]: "length (mul_outer u v j w) = length w"
  by (induction j arbitrary: w) simp_all

lemma mul_outer_dval:
  assumes "length u = 4"
  shows "length w = 4 \<Longrightarrow> j < 4 \<Longrightarrow> dval (mul_outer u v j w) mod 65536 ^ 4
    = (dval w + dval u * (\<Sum>i\<le>j. unat (v ! i) * 65536 ^ (3 - i))) mod 65536 ^ 4"
proof (induction j arbitrary: w)
  case 0
  then show ?case using mul_row_dval [OF assms, of w 0 v] by (simp add: mult.assoc)
next
  case (Suc j)
  let ?w = "mul_row u v (Suc j) w" and ?S = "\<Sum>i\<le>j. unat (v ! i) * 65536 ^ (3 - i)"
  have "dval (mul_outer u v (Suc j) w) mod 65536 ^ 4 = (dval ?w + dval u * ?S) mod 65536 ^ 4"
    using Suc by simp
  also have "\<dots> = (dval w + dval u * unat (v ! Suc j) * 65536 ^ (3 - Suc j) + dval u * ?S) mod 65536 ^ 4"
    by (rule mod_add_cong [OF mul_row_dval [OF assms Suc.prems] refl])
  also have "\<dots> = (dval w + dval u * (\<Sum>i\<le>Suc j. unat (v ! i) * 65536 ^ (3 - i))) mod 65536 ^ 4"
    by (simp add: algebra_simps)
  finally show ?case .
qed

lemma mul_outer_digits:
  "dval (mul_outer (digits u) (digits v) 3 (digits dlong_gets_zero)) = (dlong_unat u * dlong_unat v) mod 2 ^ 64"
proof -
  let ?w = "mul_outer (digits u) (digits v) 3 (digits dlong_gets_zero)"
  have "(\<Sum>i\<le>3. unat (digits v ! i) * 65536 ^ (3 - i)) = dlong_unat v"
    by (simp add: digits_def dlong_unat_def numeral_3_eq_3 atMost_Suc)
  then have "dval ?w mod 65536 ^ 4 = (dlong_unat u * dlong_unat v) mod 65536 ^ 4"
    using mul_outer_dval [of "digits u" "digits dlong_gets_zero" 3 "digits v"]
    by (simp add: dval_digits)
  moreover have "dval ?w < 65536 ^ 4"
    using dval_lt [of ?w] by simp
  ultimately show ?thesis by simp
qed

lemma dlong_mul_unat:
  "int (dlong_unat (dlong_mul u v)) = (int (dlong_unat u) * int (dlong_unat v)) mod 2 ^ 64"
proof -
  define a where "a = (if isneg u then dlong_neg u else u)"
  define b where "b = (if isneg v then dlong_neg v else v)"
  define w where "w = of_digits (mul_outer (digits a) (digits b) 3 (digits dlong_gets_zero))"
  define su where "su = (if isneg u then - 1 else 1 :: int)"
  define sv where "sv = (if isneg v then - 1 else 1 :: int)"
  have r: "dlong_mul u v = (if isneg u = isneg v then w else dlong_neg w)"
    by (simp add: dlong_mul_def Let_def a_def b_def w_def)
  have a: "int (dlong_unat a) mod 2 ^ 64 = (su * int (dlong_unat u)) mod 2 ^ 64"
    by (simp add: a_def su_def dlong_neg_unat)
  have b: "int (dlong_unat b) mod 2 ^ 64 = (sv * int (dlong_unat v)) mod 2 ^ 64"
    by (simp add: b_def sv_def dlong_neg_unat)
  have "int (dlong_unat w) = (int (dlong_unat a) * int (dlong_unat b)) mod 2 ^ 64"
    by (simp add: w_def dlong_unat_of_digits mul_outer_digits zmod_int)
  also have "\<dots> = (su * int (dlong_unat u) * (sv * int (dlong_unat v))) mod 2 ^ 64"
    using a b by (rule mod_mult_cong)
  finally have w: "int (dlong_unat w) = (su * sv * (int (dlong_unat u) * int (dlong_unat v))) mod 2 ^ 64"
    by (simp add: ac_simps)
  show ?thesis
  proof (cases "isneg u = isneg v")
    case True
    then have "su * sv = 1" by (simp add: su_def sv_def)
    with True w r show ?thesis by simp
  next
    case False
    then have "su * sv = - 1" by (auto simp: su_def sv_def)
    with False w r show ?thesis by (simp add: dlong_neg_unat mod_minus_eq)
  qed
qed

subsection \<open>Comparison\<close>

lemma dlong_cmp_digits_sgn:
  "length xs = length ys \<Longrightarrow> dlong_cmp_digits xs ys = sgn (int (dval xs) - int (dval ys))"
proof (induction xs ys rule: dlong_cmp_digits.induct)
  case (1 x xs y ys)
  have lt: "unat p * 65536 ^ length ps + dval ps < unat q * 65536 ^ length ps + dval qs"
    if "unat p < unat q" "length ps = length qs" for p q and ps qs :: "u16 list"
  proof -
    have "unat p * 65536 ^ length ps + dval ps < (unat p + 1) * 65536 ^ length ps"
      using dval_lt [of ps] by simp
    also have "\<dots> \<le> unat q * 65536 ^ length ps"
      using that by (intro mult_le_mono1) simp
    finally show ?thesis by simp
  qed
  consider "x = y" | "unat x < unat y" | "unat y < unat x"
    using word_unat_eq_iff [of x y] by linarith
  then show ?case
  proof cases
    case 1
    with "1.IH" "1.prems" show ?thesis by simp
  next
    case 2
    then have "dval (x # xs) < dval (y # ys)" "x \<noteq> y" "\<not> y < x"
      using lt [of x y xs ys] "1.prems" by (auto simp: word_less_nat_alt)
    then show ?thesis by (simp del: dval.simps)
  next
    case 3
    then have "dval (y # ys) < dval (x # xs)" "x \<noteq> y" "y < x"
      using lt [of y x ys xs] "1.prems" by (auto simp: word_less_nat_alt)
    then show ?thesis by (simp del: dval.simps)
  qed
qed simp_all

lemma xor_top_bit: "((x :: u16) XOR y) AND 0x8000 \<noteq> 0 \<longleftrightarrow> (x AND 0x8000 = 0) \<noteq> (y AND 0x8000 = 0)"
  using and_exp_eq_0_iff_not_bit [of "x XOR y" 15] and_exp_eq_0_iff_not_bit [of x 15]
    and_exp_eq_0_iff_not_bit [of y 15]
  by (auto simp: bit_xor_iff)

lemma dlong_cmp_sgn: "dlong_cmp x y = sgn (dlong_sint x - dlong_sint y)"
proof -
  have "d0 z AND 0x8000 = 0 \<longleftrightarrow> \<not> isneg z" for z
    by (simp add: isneg_def)
  then show ?thesis
    using dlong_unat_lt [of x] dlong_unat_lt [of y]
    by (auto simp: dlong_cmp_def xor_top_bit dlong_sint_def isneg_iff dlong_cmp_digits_sgn
        dval_digits)
qed

lemma DLONG_SGN_sgn: "DLONG_SGN x = sgn (dlong_sint x)"
proof -
  have "(d3 x = 0 \<and> d2 x = 0 \<and> d1 x = 0 \<and> d0 x = 0) = (dlong_unat x = 0)"
    by (auto simp: dlong_unat_def unat_eq_0)
  then show ?thesis
    using dlong_unat_lt [of x]
    by (auto simp: DLONG_SGN_def dlong_sint_def isneg_def [symmetric] isneg_iff)
qed

subsection \<open>Conversions\<close>

lemma unat_sint_u32: "int (unat (x :: u32)) = (if sint x < 0 then sint x + 2 ^ 32 else sint x)"
proof -
  have "int (unat x) = sint x mod 2 ^ 32"
    using uint_sint [of x] by (simp add: take_bit_eq_mod)
  moreover have "- (2 ^ 31) \<le> sint x" "sint x < 2 ^ 31"
    using sint_ge [of x] sint_lt [of x] by simp_all
  ultimately show ?thesis by (simp add: mod_small_neg)
qed

lemma digit_signed_shift: "digit (signed_drop_bit 16 x) = digit (drop_bit 16 x)"
  by (rule bit_word_eqI) (auto simp: bit_simps)

lemma u_long_to_dlong_unat: "dlong_unat (u_long_to_dlong x) = unat x"
  using unat_u32_lt [of x] by (simp add: u_long_to_dlong_def dlong_unat_def width_simps)

lemma long_to_dlong_sint: "dlong_sint (long_to_dlong x) = sint x"
proof -
  have "unat (NOT 0 :: u16) = 65535"
    by (simp add: unsigned_minus_1_eq_mask mask_eq_exp_minus_1)
  then have u: "dlong_unat (long_to_dlong x)
      = (if sint x < 0 then (2 ^ 32 - 1) * 2 ^ 32 + unat x else unat x)"
    using unat_u32_lt [of x]
    by (simp add: long_to_dlong_def dlong_unat_def digit_signed_shift width_simps Let_def)
  have r: "- (2 ^ 31) \<le> sint x" "sint x < 2 ^ 31"
    using sint_ge [of x] sint_lt [of x] by simp_all
  have "int (dlong_unat (long_to_dlong x)) = (if sint x < 0 then sint x + 2 ^ 64 else sint x)"
    using unat_sint_u32 [of x] by (simp add: u)
  then have "int (dlong_unat (long_to_dlong x)) = sint x mod 2 ^ 64"
    using r by (simp add: mod_small_neg)
  then have "dlong_sint (long_to_dlong x) = wrap64 (sint x)" by (rule dlong_sintI)
  then show ?thesis using r by (simp add: wrap64_id)
qed

lemma unat_dlong_to_long: "unat (dlong_to_long x) = dlong_unat x mod 2 ^ 32"
proof -
  have "unat (dlong_to_long x) = unat (d2 x) * 65536 + unat (d3 x)"
    using unat_u16_lt [of "d2 x"] unat_u16_lt [of "d3 x"]
    by (simp add: dlong_to_long_def dlong_base_def width_simps)
  also have "\<dots> = dlong_unat x mod 2 ^ 32"
  proof -
    have "dlong_unat x = (unat (d2 x) * 65536 + unat (d3 x)) + 2 ^ 32 * (unat (d0 x) * 65536 + unat (d1 x))"
      by (simp add: dlong_unat_def)
    then show ?thesis
      using unat_u16_lt [of "d2 x"] unat_u16_lt [of "d3 x"] by (simp only: mod_mult_self2) simp
  qed
  finally show ?thesis .
qed

lemma sint_dlong_to_long:
  assumes "- (2 ^ 31) \<le> dlong_sint x" "dlong_sint x < 2 ^ 31"
  shows "sint (dlong_to_long x) = dlong_sint x"
proof -
  have "int (unat (dlong_to_long x)) = dlong_sint x mod 2 ^ 64 mod 2 ^ 32"
    by (simp only: unat_dlong_to_long dlong_sint_mod zmod_int) simp
  also have "\<dots> = dlong_sint x mod 2 ^ 32"
    by (simp add: mod_mod_cancel)
  finally have "(if sint (dlong_to_long x) < 0 then sint (dlong_to_long x) + 2 ^ 32
      else sint (dlong_to_long x)) mod 2 ^ 32 = dlong_sint x mod 2 ^ 32"
    by (simp only: unat_sint_u32) simp
  then have "sint (dlong_to_long x) mod 2 ^ 32 = dlong_sint x mod 2 ^ 32"
    by (simp split: if_splits)
  then show ?thesis
    by (rule same_residue_eq [where l = "- (2 ^ 31)"])
      (use assms sint_ge [of "dlong_to_long x"] sint_lt [of "dlong_to_long x"] in simp_all)
qed

subsection \<open>The macros agree with the routines\<close>

lemma DLONG_macros:
  "DLONG_ADD x y = dlong_add x y" "DLONG_NEG x = dlong_neg x" "DLONG_SUB x y = dlong_sub x y"
  "LONG_TO_DLONG a = long_to_dlong a" "U_LONG_TO_DLONG a = u_long_to_dlong a"
  "DLONG_ZERO = dlong_gets_zero"
  by (simp_all add: DLONG_ADD_def dlong_add_def DLONG_NEG_def dlong_neg_def DLONG_SUB_def
      dlong_sub_def LONG_TO_DLONG_def long_to_dlong_def U_LONG_TO_DLONG_def u_long_to_dlong_def
      DLONG_ZERO_def U_SHORT_TO_DLONG_def dlong_gets_zero_def)

lemma low_digit_mask: "(x :: u32) AND (dlong_base - 1) = ac (digit x)"
proof -
  have "dlong_base - 1 = mask 16"
    by (simp add: dlong_base_def mask_eq_exp_minus_1)
  then show ?thesis
    by (simp only:) (rule bit_word_eqI, auto simp: bit_simps)
qed

lemma ac_minus_1: "ac (- 1) = dlong_base - 1"
  by (simp add: dlong_base_def word_unat_eq_iff width_simps unsigned_minus_1_eq_mask
      mask_eq_exp_minus_1)

lemma digit_ac [simp]: "digit (ac a) = a"
  by (rule bit_word_eqI) (auto simp: bit_simps)

lemma high_ac [simp]: "drop_bit 16 (ac a) = 0"
  by (rule bit_word_eqI) (auto simp: bit_simps dest: bit_imp_le_length)

lemma u32_le_1: "unat (c :: u32) \<le> 1 \<Longrightarrow> c = 0 \<or> c = 1"
  using word_unat_eq_iff [of c 0] word_unat_eq_iff [of c 1] by auto

lemma ac_plus_base: "digit (ac a + 65536) = a" "drop_bit 16 (ac a + 65536) = 1"
proof -
  have u: "unat (ac a + 65536) = unat a + 65536"
    using unat_u16_lt [of a] by (simp add: width_simps)
  show "digit (ac a + 65536) = a"
    using unat_u16_lt [of a] by (simp add: word_unat_eq_iff width_simps u)
  show "drop_bit 16 (ac a + 65536) = 1"
    using unat_u16_lt [of a] by (simp add: word_unat_eq_iff width_simps u)
qed

lemma ac_minus_base: "digit (ac a - 65536) = a" "borrow (ac a - 65536) = 1"
proof -
  have u: "unat (ac a - 65536) = unat a + 65536 * 65535"
    using unat_u16_lt [of a] by (simp add: width_simps unat_sub_u32)
  have "(unat a + 65536 * 65535) mod 65536 = unat a"
    using unat_u16_lt [of a] by (subst mod_mult_self2) simp
  then show "digit (ac a - 65536) = a"
    by (simp only: word_unat_eq_iff unat_narrow u)
  have "unat (drop_bit 16 (ac a - 65536)) \<noteq> 0"
    by (simp add: width_simps u)
  then have "drop_bit 16 (ac a - 65536) \<noteq> 0" by auto
  then show "borrow (ac a - 65536) = 1"
    by (simp add: borrow_def)
qed

lemma borrow_ac [simp]: "borrow (ac a) = 0"
  by (simp add: borrow_def)

lemmas long_to_dlong_digits = long_to_dlong_def [unfolded digit_signed_shift]

lemma carry_pair:
  assumes "a3 = ac x3 + ac y3" and "a2 = ac x2 + ac y2 + drop_bit 16 a3"
  shows "drop_bit 16 a2 = 0 \<or> drop_bit 16 a2 = 1"
proof -
  have "unat (drop_bit 16 a3) \<le> 1"
    using carry_step(2) [OF no_carry_in, of a3 x3 y3] assms(1) by simp
  then show ?thesis
    using carry_step(2) assms(2) u32_le_1 by blast
qed

lemma carry_out: "drop_bit 16 (ac a + 1) = 0 \<or> drop_bit 16 (ac a + 1) = 1"
  using carry_step(2) [of 1 "ac a + 1" a 0] u32_le_1 by simp

lemma ADD_U_LONG_TO_DLONG_eq: "ADD_U_LONG_TO_DLONG r x = dlong_add r (u_long_to_dlong x)"
proof -
  define a3 where "a3 = ac (d3 r) + ac (digit x)"
  define a2 where "a2 = ac (d2 r) + ac (digit (drop_bit 16 x)) + drop_bit 16 a3"
  show ?thesis
    using carry_pair [OF a3_def a2_def] carry_out [of "d1 r"]
    by (auto simp: ADD_U_LONG_TO_DLONG_def dlong_add_def u_long_to_dlong_def Let_def
        low_digit_mask a3_def [symmetric] a2_def [symmetric] mk_dlong_def)
qed

lemma ADD_LONG_TO_DLONG_eq: "ADD_LONG_TO_DLONG r x = dlong_add r (long_to_dlong x)"
proof -
  define a3 where "a3 = ac (d3 r) + ac (digit x)"
  define a2 where "a2 = ac (d2 r) + ac (digit (drop_bit 16 x)) + drop_bit 16 a3"
  define a1 where "a1 = ac (d1 r) + (dlong_base - 1)"
  have a1: "drop_bit 16 a1 = 0 \<or> drop_bit 16 a1 = 1"
    using carry_step(2) [OF no_carry_in, of a1 "d1 r" "- 1"] u32_le_1 by (simp add: a1_def ac_minus_1)
  have full: "a1 + 1 = ac (d1 r) + 65536" "ac b + (dlong_base - 1) + 1 = ac b + 65536"
    "ac b + dlong_base = ac b + 65536" for b
    by (simp_all add: a1_def dlong_base_def)
  show ?thesis
    using carry_pair [OF a3_def a2_def] carry_out [of "d1 r"] a1
    by (auto simp: ADD_LONG_TO_DLONG_def dlong_add_def long_to_dlong_digits Let_def
        low_digit_mask digit_signed_shift ac_minus_1 a3_def [symmetric] a2_def [symmetric]
        a1_def [symmetric] mk_dlong_def full ac_plus_base)
qed

lemma borrow_cases: "borrow t = 0 \<or> borrow t = 1"
  by (simp add: borrow_def)

lemma borrow_0_iff: "borrow t = 0 \<longleftrightarrow> drop_bit 16 t = 0"
  by (simp add: borrow_def)

lemma SUB_U_LONG_FROM_DLONG_eq: "SUB_U_LONG_FROM_DLONG r x = dlong_sub r (u_long_to_dlong x)"
proof -
  define a3 where "a3 = ac (d3 r) - ac (digit x)"
  define a2 where "a2 = ac (d2 r) - ac (digit (drop_bit 16 x)) - borrow a3"
  show ?thesis
    using borrow_cases [of a2] borrow_cases [of "ac (d1 r) - 1"]
    by (auto simp: SUB_U_LONG_FROM_DLONG_def dlong_sub_def u_long_to_dlong_def Let_def
        low_digit_mask a3_def [symmetric] a2_def [symmetric] mk_dlong_def borrow_0_iff [symmetric])
qed

lemma SUB_LONG_FROM_DLONG_eq: "SUB_LONG_FROM_DLONG r x = dlong_sub r (long_to_dlong x)"
proof -
  define a3 where "a3 = ac (d3 r) - ac (digit x)"
  define a2 where "a2 = ac (d2 r) - ac (digit (drop_bit 16 x)) - borrow a3"
  define a1 where "a1 = ac (d1 r) - (dlong_base - 1)"
  have full: "a1 - 1 = ac (d1 r) - 65536" "ac b - (dlong_base - 1) - 1 = ac b - 65536" for b
    by (simp_all add: a1_def dlong_base_def)
  show ?thesis
    using borrow_cases [of a2] borrow_cases [of "ac (d1 r) - 1"] borrow_cases [of a1]
    by (auto simp: SUB_LONG_FROM_DLONG_def dlong_sub_def long_to_dlong_digits Let_def
        low_digit_mask digit_signed_shift ac_minus_1 a3_def [symmetric] a2_def [symmetric]
        a1_def [symmetric] mk_dlong_def borrow_0_iff [symmetric] full ac_minus_base)
qed

section \<open>The contract of 64-bit arithmetic\<close>

text \<open>
  What a client of the package relies on: a representation of the 64-bit two's complement
  integers, with operations that compute the exact result wrapped into that range. The ring
  laws and the exactness of every operation that does not overflow follow once, for the
  routines and for the macros alike.
\<close>

lemma wrap64_wrap:
  "wrap64 (wrap64 a + b) = wrap64 (a + b)" "wrap64 (a + wrap64 b) = wrap64 (a + b)"
  "wrap64 (wrap64 a - b) = wrap64 (a - b)" "wrap64 (a - wrap64 b) = wrap64 (a - b)"
  "wrap64 (wrap64 a * b) = wrap64 (a * b)" "wrap64 (a * wrap64 b) = wrap64 (a * b)"
  "wrap64 (- wrap64 a) = wrap64 (- a)"
  by (rule wrap64_cong, metis wrap64_mod mod_add_left_eq mod_add_right_eq mod_diff_left_eq
      mod_diff_right_eq mod_mult_left_eq mod_mult_right_eq mod_minus_eq)+

locale wrap64_arith =
  fixes val :: "'d \<Rightarrow> int"
    and add sub mul :: "'d \<Rightarrow> 'd \<Rightarrow> 'd"
    and neg :: "'d \<Rightarrow> 'd"
  assumes val_inject: "val x = val y \<Longrightarrow> x = y"
    and val_range: "- (2 ^ 63) \<le> val x" "val x < 2 ^ 63"
    and val_add: "val (add x y) = wrap64 (val x + val y)"
    and val_sub: "val (sub x y) = wrap64 (val x - val y)"
    and val_mul: "val (mul x y) = wrap64 (val x * val y)"
    and val_neg: "val (neg x) = wrap64 (- val x)"
begin

lemmas val_ops = val_add val_sub val_mul val_neg

lemma val_wrap: "wrap64 (val x) = val x"
  using val_range by (rule wrap64_id)

lemma add_exact: "- (2 ^ 63) \<le> val x + val y \<Longrightarrow> val x + val y < 2 ^ 63 \<Longrightarrow> val (add x y) = val x + val y"
  by (simp add: val_add wrap64_id)

lemma sub_exact: "- (2 ^ 63) \<le> val x - val y \<Longrightarrow> val x - val y < 2 ^ 63 \<Longrightarrow> val (sub x y) = val x - val y"
  by (simp add: val_sub wrap64_id)

lemma mul_exact: "- (2 ^ 63) \<le> val x * val y \<Longrightarrow> val x * val y < 2 ^ 63 \<Longrightarrow> val (mul x y) = val x * val y"
  by (simp add: val_mul wrap64_id)

lemma neg_exact: "val x \<noteq> - (2 ^ 63) \<Longrightarrow> val (neg x) = - val x"
  using val_range [of x] by (simp add: val_neg wrap64_id)

lemma add_commute: "add x y = add y x"
  by (rule val_inject) (simp add: val_ops add.commute)

lemma add_assoc: "add (add x y) z = add x (add y z)"
  by (rule val_inject) (simp add: val_ops wrap64_wrap add.assoc)

lemma sub_add_cancel: "add (sub x y) y = x"
  by (rule val_inject) (simp add: val_ops wrap64_wrap val_wrap)

lemma sub_is_add_neg: "sub x y = add x (neg y)"
  by (rule val_inject) (simp add: val_ops wrap64_wrap)

lemma neg_neg: "neg (neg x) = x"
  by (rule val_inject) (simp add: val_ops wrap64_wrap val_wrap)

lemma mul_commute: "mul x y = mul y x"
  by (rule val_inject) (simp add: val_ops mult.commute)

lemma mul_assoc: "mul (mul x y) z = mul x (mul y z)"
  by (rule val_inject) (simp add: val_ops wrap64_wrap mult.assoc)

lemma mul_distrib: "mul x (add y z) = add (mul x y) (mul x z)"
  by (rule val_inject) (simp add: val_ops wrap64_wrap distrib_left)

end

lemma dlong_ops_sint:
  "dlong_sint (dlong_add x y) = wrap64 (dlong_sint x + dlong_sint y)"
  "dlong_sint (dlong_sub x y) = wrap64 (dlong_sint x - dlong_sint y)"
  "dlong_sint (dlong_mul x y) = wrap64 (dlong_sint x * dlong_sint y)"
  "dlong_sint (dlong_neg x) = wrap64 (- dlong_sint x)"
  by (simp_all only: dlong_sintI [OF dlong_add_unat] dlong_sintI [OF dlong_sub_unat]
      dlong_sintI [OF dlong_mul_unat] dlong_sintI [OF dlong_neg_unat]
      dlong_sint_wrap [of x] dlong_sint_wrap [of y] wrap64_wrap)

interpretation dl: wrap64_arith dlong_sint dlong_add dlong_sub dlong_mul dlong_neg
  by unfold_locales (simp_all only: dlong_sint_inject dlong_sint_range dlong_ops_sint)

interpretation DL: wrap64_arith dlong_sint DLONG_ADD DLONG_SUB dlong_mul DLONG_NEG
  by unfold_locales (simp_all only: DLONG_macros dlong_sint_inject dlong_sint_range dlong_ops_sint)

section \<open>Properties\<close>

text \<open>
  C32. The arithmetic routines of dlong.c compute the two's complement 64-bit result: sum,
  difference, product and negation of the signed values, wrapped into the range of 64 bits.
\<close>

theorem dlong_arith_correct:
  "dlong_sint (dlong_add x y) = wrap64 (dlong_sint x + dlong_sint y) \<and>
   dlong_sint (dlong_sub x y) = wrap64 (dlong_sint x - dlong_sint y) \<and>
   dlong_sint (dlong_mul x y) = wrap64 (dlong_sint x * dlong_sint y) \<and>
   dlong_sint (dlong_neg x) = wrap64 (- dlong_sint x)"
  by (simp only: dl.val_ops)

text \<open>
  The digit arrays with \<open>dlong_add\<close>, \<open>dlong_neg\<close> and \<open>dlong_mul\<close> form a commutative ring in
  which \<open>dlong_sub\<close> undoes \<open>dlong_add\<close>: no sign or carry case breaks associativity,
  distributivity or cancellation.
\<close>

lemma dlong_ring_laws:
  "dlong_add (dlong_add x y) z = dlong_add x (dlong_add y z) \<and>
   dlong_add x y = dlong_add y x \<and>
   dlong_add (dlong_sub x y) y = x \<and>
   dlong_neg (dlong_neg x) = x \<and>
   dlong_mul (dlong_mul x y) z = dlong_mul x (dlong_mul y z) \<and>
   dlong_mul x y = dlong_mul y x \<and>
   dlong_mul x (dlong_add y z) = dlong_add (dlong_mul x y) (dlong_mul x z)"
  by (intro conjI dl.add_assoc dl.add_commute dl.sub_add_cancel dl.neg_neg dl.mul_assoc
      dl.mul_commute dl.mul_distrib)

text \<open>
  \<open>dlong_cmp\<close> returns 1, 0 or -1 exactly as the signed values compare, so it is the order
  of the signed 64-bit integers although it compares digits as unsigned numbers;
  \<open>DLONG_SGN\<close> is the sign.
\<close>

lemma dlong_cmp_correct:
  "dlong_cmp x y = sgn (dlong_sint x - dlong_sint y) \<and> DLONG_SGN x = sgn (dlong_sint x)"
  by (simp only: dlong_cmp_sgn DLONG_SGN_sgn)

text \<open>
  The combined macros of dlong.h, which stop as soon as no carry or borrow is left, give
  the same digits as the conversion of the long followed by the full-length routine.
\<close>

lemma dlong_composite_macros:
  "ADD_LONG_TO_DLONG r a = dlong_add r (long_to_dlong a) \<and>
   ADD_U_LONG_TO_DLONG r a = dlong_add r (u_long_to_dlong a) \<and>
   SUB_LONG_FROM_DLONG r a = dlong_sub r (long_to_dlong a) \<and>
   SUB_U_LONG_FROM_DLONG r a = dlong_sub r (u_long_to_dlong a)"
  by (simp only: ADD_LONG_TO_DLONG_eq ADD_U_LONG_TO_DLONG_eq SUB_LONG_FROM_DLONG_eq
      SUB_U_LONG_FROM_DLONG_eq)

text \<open>
  Converting a long to a dlong and back gives the long, and a dlong whose value fits a long
  survives the way back: the conversions lose nothing but what does not fit.
\<close>

lemma dlong_long_roundtrip:
  assumes "- (2 ^ 31) \<le> dlong_sint x" and "dlong_sint x < 2 ^ 31"
  shows "dlong_to_long (long_to_dlong a) = a \<and> long_to_dlong (dlong_to_long x) = x"
proof
  have "- (2 ^ 31) \<le> dlong_sint (long_to_dlong a)" "dlong_sint (long_to_dlong a) < 2 ^ 31"
    using sint_ge [of a] sint_lt [of a] by (simp_all add: long_to_dlong_sint)
  then have "sint (dlong_to_long (long_to_dlong a)) = sint a"
    by (simp only: sint_dlong_to_long long_to_dlong_sint)
  then show "dlong_to_long (long_to_dlong a) = a"
    by (rule sint_word_inject)
  show "long_to_dlong (dlong_to_long x) = x"
    using assms by (intro dlong_sint_inject) (simp only: sint_dlong_to_long long_to_dlong_sint)
qed

lemma dlong_long_roundtrip_example:
  "dlong_sint (mk_dlong 65535 65535 65535 65534) = - 2 \<and>
   long_to_dlong (dlong_to_long (mk_dlong 65535 65535 65535 65534))
     = mk_dlong 65535 65535 65535 65534"
proof -
  have v: "dlong_sint (mk_dlong 65535 65535 65535 65534) = - 2"
    by (simp add: dlong_sint_def isneg_def dlong_unat_def)
  show ?thesis
    using v dlong_long_roundtrip [of "mk_dlong 65535 65535 65535 65534"] by simp
qed

end
