(* ===== verification/Dlong_Div.thy ===== *)
theory Dlong_Div
  imports Dlong "HOL-Library.Signed_Division"
begin

text \<open>
  Division of dlongs: \<open>dlong_divrem\<close> of lib/mach3/us/dlong.c, its special cases and Knuth's
  algorithm D (volume 2, section 4.3.1) for divisors of two digits and more. A loop of the C
  code that runs over a digit array from its last to its first element is a recursion that
  handles the tail of the list first; the local arrays \<open>uv\<close>, \<open>vv\<close>, \<open>nv\<close> and \<open>qv\<close> are lists of
  exactly the elements the code writes.

  The theorem is total correctness: for every dividend and every divisor other than zero the
  routine returns the quotient truncated towards zero and the remainder with the sign of the
  dividend, and a zero divisor traps.
\<close>

section \<open>The loops over digit arrays\<close>

fun zero_digits :: "u16 list \<Rightarrow> nat" where
  "zero_digits [] = 0"
| "zero_digits (x # xs) = (if x = 0 then Suc (zero_digits xs) else 0)"

text \<open>Multiply by one digit: \<open>t = x * q + k; digit = t; k = t / dlong_base\<close>.\<close>

fun mul_digits :: "u16 list \<Rightarrow> u32 \<Rightarrow> u16 \<Rightarrow> u16 list \<times> u16" where
  "mul_digits [] q k = ([], k)"
| "mul_digits (x # xs) q k =
     (let (ys, k1) = mul_digits xs q k; t = ac x * q + ac k1
      in (digit t # ys, digit (t div dlong_base)))"

text \<open>Subtract with borrow: \<open>t = x - y - borrow\<close>, where a negative \<open>t\<close> has a high half.\<close>

fun sub_digits :: "u16 list \<Rightarrow> u16 list \<Rightarrow> u32 \<Rightarrow> u16 list \<times> u32" where
  "sub_digits (x # xs) (y # ys) b =
     (let (zs, b1) = sub_digits xs ys b; t = ac x - ac y - b1
      in (digit t # zs, if t div dlong_base \<noteq> 0 then 1 else 0))"
| "sub_digits _ _ b = ([], b)"

text \<open>Add with carry, the step "add back".\<close>

fun add_digits :: "u16 list \<Rightarrow> u16 list \<Rightarrow> u16 \<Rightarrow> u16 list \<times> u16" where
  "add_digits (x # xs) (y # ys) k =
     (let (zs, k1) = add_digits xs ys k; t = ac x + ac y + ac k1
      in (digit t # zs, digit (t div dlong_base)))"
| "add_digits _ _ k = ([], k)"

text \<open>Divide by one digit, from the most significant digit on.\<close>

fun div_digits :: "u16 list \<Rightarrow> u16 \<Rightarrow> u32 \<Rightarrow> u16 list \<times> u32" where
  "div_digits [] vi prevu = ([], prevu)"
| "div_digits (x # xs) vi prevu =
     (let t = ac x + prevu * dlong_base; tmpq = digit (t div ac vi);
          (qs, r) = div_digits xs vi (t - ac vi * ac tmpq)
      in (tmpq # qs, r))"

section \<open>Algorithm D\<close>

text \<open>Step D3: the trial quotient digit and its correction loop.\<close>

definition q_hat_start :: "u16 \<Rightarrow> u16 \<Rightarrow> u16 \<Rightarrow> u32" where
  "q_hat_start u_j u_j1 v1 =
     (if u_j = v1 then dlong_base - 1 else (ac u_j * dlong_base + ac u_j1) div ac v1)"

function q_hat_adjust :: "u32 \<Rightarrow> u32 \<Rightarrow> u32 \<Rightarrow> u32 \<Rightarrow> u32 \<Rightarrow> u32 \<Rightarrow> u32" where
  "q_hat_adjust u_j u_j1 u_j2 v1 v2 q_hat =
     (let u_j_q_hat = (u_j * dlong_base + u_j1) - q_hat * v1
      in if u_j_q_hat div dlong_base \<noteq> 0 then q_hat
         else if v2 * q_hat \<le> u_j_q_hat * dlong_base + u_j2 then q_hat
         else q_hat_adjust u_j u_j1 u_j2 v1 v2 (q_hat - 1))"
  by pat_completeness auto
termination
proof (relation "measure (\<lambda>(_, _, _, _, _, q). unat q)", simp, simp only: in_measure prod.case)
  fix u_j u_j1 u_j2 v1 v2 q_hat x :: u32
  assume "\<not> v2 * q_hat \<le> x * dlong_base + u_j2"
  then have "q_hat \<noteq> 0" by auto
  then have "0 < unat q_hat" by (simp add: word_unat_eq_iff)
  then show "unat (q_hat - 1) < unat q_hat"
    using \<open>q_hat \<noteq> 0\<close> by (simp add: unat_minus_one)
qed

declare q_hat_adjust.simps [simp del]

text \<open>
  One quotient digit: trial quotient (D3), multiply and subtract (D4), test and add back
  (D5, D6). The argument is the window \<open>uv[j..j+n]\<close>; the result is the new window and \<open>qv[j]\<close>.
\<close>

definition div_step :: "u16 list \<Rightarrow> u16 list \<Rightarrow> u16 list \<times> u16" where
  "div_step vv win =
     (let v1 = vv ! 0; v2 = vv ! 1;
          q_hat = q_hat_adjust (ac (win ! 0)) (ac (win ! 1)) (ac (win ! 2)) (ac v1) (ac v2)
                    (q_hat_start (win ! 0) (win ! 1) v1);
          (ns, k) = mul_digits vv q_hat 0;
          (win1, bor) = sub_digits win (k # ns) 0;
          qv = digit q_hat
      in if bor \<noteq> 0
         then (let (zs, k1) = add_digits (tl win1) vv 0
               in (digit (ac (hd win1) + ac k1) # zs, digit (ac qv - 1)))
         else (win1, qv))"

text \<open>Steps D2 and D7: the loop over the digits of the quotient.\<close>

primrec div_loop :: "u16 list \<Rightarrow> nat \<Rightarrow> nat \<Rightarrow> nat \<Rightarrow> u16 list \<Rightarrow> u16 list \<Rightarrow> u16 list \<times> u16 list" where
  "div_loop vv n 0 j uv qv = (uv, qv)"
| "div_loop vv n (Suc c) j uv qv =
     (let (win, q) = div_step vv (take (Suc n) (drop j uv))
      in div_loop vv n c (Suc j) (take j uv @ win @ drop (j + Suc n) uv) (qv @ [q]))"

text \<open>Steps D1 (normalize) and D8 (unnormalize).\<close>

definition normalizer :: "u16 list \<Rightarrow> u16" where
  "normalizer vd = digit (dlong_base div (ac (vd ! 0) + 1))"

definition divrem_general :: "u16 list \<Rightarrow> u16 list \<Rightarrow> nat \<Rightarrow> nat \<Rightarrow> dlong_t \<times> dlong_t" where
  "divrem_general ud vd m n =
     (let d = normalizer vd;
          uv = (if d = 1 then 0 # ud else (let (us, k) = mul_digits ud (ac d) 0 in k # us));
          vv = (if d = 1 then vd else fst (mul_digits vd (ac d) 0));
          (uv1, qv) = div_loop vv n (Suc m) 0 uv [];
          rv = (if d = 1 then drop (Suc m) uv1 else fst (div_digits (drop (Suc m) uv1) d 0))
      in (of_digits (replicate (3 - m) 0 @ qv), of_digits (replicate (4 - n) 0 @ rv)))"

section \<open>The routine\<close>

definition apply_sign :: "bool \<Rightarrow> dlong_t \<Rightarrow> dlong_t" where
  "apply_sign negative x = (if negative then dlong_neg x else x)"

definition dlong_divrem :: "dlong_t \<Rightarrow> dlong_t \<Rightarrow> (dlong_t \<times> dlong_t) result" where
  "dlong_divrem u v =
     (let negremainder = isneg u;
          u = (if isneg u then dlong_neg u else u);
          negquotient = (if isneg v then \<not> negremainder else negremainder);
          v = (if isneg v then dlong_neg v else v);
          uoffset = zero_digits (digits u); m_n = 4 - uoffset;
          voffset = zero_digits (digits v); n = 4 - voffset;
          ud = drop uoffset (digits u); vd = drop voffset (digits v);
          cmp = dlong_cmp_digits ud vd
      in if n = 0 then Inl Divide_Trap
         else if n \<le> 2 \<and> m_n \<le> 2 then
           (let lu = ac (d2 u) * dlong_base + ac (d3 u);
                lv = ac (d2 v) * dlong_base + ac (d3 v)
            in Inr (apply_sign negquotient (u_long_to_dlong (lu div lv)),
                    apply_sign negremainder (u_long_to_dlong (lu mod lv))))
         else if n = 1 then
           (let (qs, prevu) = div_digits ud (d3 v) 0
            in Inr (apply_sign negquotient (of_digits (replicate uoffset 0 @ qs)),
                    apply_sign negremainder (u_long_to_dlong prevu)))
         else if m_n < n then Inr (dlong_gets_zero, apply_sign negremainder u)
         else if m_n = n \<and> cmp < 0 then Inr (dlong_gets_zero, apply_sign negremainder u)
         else if m_n = n \<and> cmp = 0 then
           Inr (if negquotient then mk_dlong (NOT 0) (NOT 0) (NOT 0) (NOT 0) else mk_dlong 0 0 0 1,
                dlong_gets_zero)
         else
           (let (q, r) = divrem_general ud vd (m_n - n) n
            in Inr (apply_sign negquotient q, apply_sign negremainder r)))"

definition dlong_div :: "dlong_t \<Rightarrow> dlong_t \<Rightarrow> dlong_t result" where
  "dlong_div u v = bindE (dlong_divrem u v) (\<lambda>(quotient, remainder). Inr quotient)"

definition dlong_rem :: "dlong_t \<Rightarrow> dlong_t \<Rightarrow> dlong_t result" where
  "dlong_rem u v = bindE (dlong_divrem u v) (\<lambda>(quotient, remainder). Inr remainder)"

section \<open>What the digit loops compute\<close>

lemma length_mul_digits: "length (fst (mul_digits xs q k)) = length xs"
  by (induction xs) (simp_all add: Let_def split_beta)

lemma mul_digits_dval:
  "unat q < 65536 \<Longrightarrow> dval (fst (mul_digits xs q k)) + 65536 ^ length xs * unat (snd (mul_digits xs q k))
     = dval xs * unat q + unat k"
proof (induction xs)
  case (Cons x xs)
  obtain ys k1 where m: "mul_digits xs q k = (ys, k1)" by (cases "mul_digits xs q k")
  define t where "t = ac x * q + 0 + ac k1"
  have len: "length ys = length xs"
    using length_mul_digits [of xs q k] m by simp
  have IH: "dval ys + 65536 ^ length xs * unat k1 = dval xs * unat q + unat k"
    using Cons m by simp
  have s: "unat (digit t) + 65536 * unat (t div 65536) = unat x * unat q + unat k1"
    and k: "unat (t div 65536) < 65536"
    using mul_step [OF t_def Cons.prems] unat_u16_lt [of k1] by (simp_all add: unat_widen)
  have "mul_digits (x # xs) q k = (digit t # ys, digit (t div 65536))"
    by (simp add: m t_def dlong_base_def Let_def)
  moreover have "unat (digit (t div 65536)) = unat (t div 65536)"
    using k by (simp add: unat_narrow)
  ultimately have "dval (fst (mul_digits (x # xs) q k)) + 65536 ^ length (x # xs) * unat (snd (mul_digits (x # xs) q k))
      = 65536 ^ length xs * (unat (digit t) + 65536 * unat (t div 65536)) + dval ys"
    by (simp add: len algebra_simps)
  also have "\<dots> = dval (x # xs) * unat q + unat k"
    unfolding s using IH by (simp add: algebra_simps)
  finally show ?case .
qed simp

lemma length_sub_digits: "length xs = length ys \<Longrightarrow> length (fst (sub_digits xs ys b)) = length xs"
  by (induction xs ys rule: list_induct2) (simp_all add: Let_def split_beta)

lemma borrow_high: "(if t div dlong_base \<noteq> 0 then 1 else 0) = borrow t"
  by (simp add: borrow_def dlong_base_def drop_bit_eq_div)

lemma sub_digits_dval:
  assumes "unat b \<le> 1"
  shows "length xs = length ys \<Longrightarrow>
    dval (fst (sub_digits xs ys b)) + dval ys + unat b
      = dval xs + 65536 ^ length xs * unat (snd (sub_digits xs ys b)) \<and>
    unat (snd (sub_digits xs ys b)) \<le> 1"
proof (induction xs ys rule: list_induct2)
  case (Cons x xs y ys)
  obtain zs b1 where m: "sub_digits xs ys b = (zs, b1)" by (cases "sub_digits xs ys b")
  define t where "t = ac x - ac y - b1"
  have len: "length zs = length xs"
    using length_sub_digits [OF Cons.hyps, of b] m by simp
  have IH: "dval zs + dval ys + unat b = dval xs + 65536 ^ length xs * unat b1" and b1: "unat b1 \<le> 1"
    using Cons.IH m by simp_all
  have r: "sub_digits (x # xs) (y # ys) b = (digit t # zs, borrow t)"
    by (simp add: m t_def borrow_high Let_def)
  have s: "unat (digit t) + unat y + unat b1 = unat x + 65536 * unat (borrow t)"
    by (rule borrow_step [OF b1 t_def])
  have "dval (digit t # zs) + dval (y # ys) + unat b
      = 65536 ^ length xs * (unat (digit t) + unat y) + (dval zs + dval ys + unat b)"
    using Cons.hyps by (simp add: len algebra_simps)
  also have "\<dots> = 65536 ^ length xs * (unat (digit t) + unat y + unat b1) + dval xs"
    unfolding IH by (simp add: algebra_simps)
  also have "\<dots> = dval (x # xs) + 65536 ^ length (x # xs) * unat (borrow t)"
    unfolding s by (simp add: algebra_simps)
  finally show ?case
    using borrow_le_1 by (simp only: r fst_conv snd_conv simp_thms)
qed (use assms in simp)

lemma length_add_digits: "length xs = length ys \<Longrightarrow> length (fst (add_digits xs ys k)) = length xs"
  by (induction xs ys rule: list_induct2) (simp_all add: Let_def split_beta)

lemma add_digits_dval:
  "length xs = length ys \<Longrightarrow> unat k \<le> 1 \<Longrightarrow>
    dval (fst (add_digits xs ys k)) + 65536 ^ length xs * unat (snd (add_digits xs ys k))
      = dval xs + dval ys + unat k \<and> unat (snd (add_digits xs ys k)) \<le> 1"
proof (induction xs ys rule: list_induct2)
  case (Cons x xs y ys)
  obtain zs k1 where m: "add_digits xs ys k = (zs, k1)" by (cases "add_digits xs ys k")
  define t where "t = ac x + ac y + ac k1"
  have len: "length zs = length xs"
    using length_add_digits [OF Cons.hyps, of k] m by simp
  have IH: "dval zs + 65536 ^ length xs * unat k1 = dval xs + dval ys + unat k" and k1: "unat k1 \<le> 1"
    using Cons.IH Cons.prems m by simp_all
  have "unat (ac k1) \<le> 1" using k1 by (simp add: unat_widen)
  note s = carry_step [OF this t_def, unfolded unat_widen]
  have hi: "t div 65536 = drop_bit 16 t" by (simp add: drop_bit_eq_div)
  have hi16: "unat (digit (drop_bit 16 t)) = unat (drop_bit 16 t)"
    using s(2) by (simp add: unat_narrow)
  have r: "add_digits (x # xs) (y # ys) k = (digit t # zs, digit (drop_bit 16 t))"
    by (simp add: m t_def dlong_base_def drop_bit_eq_div Let_def)
  have "dval (digit t # zs) + 65536 ^ length (x # xs) * unat (drop_bit 16 t)
      = 65536 ^ length xs * (unat (digit t) + 65536 * unat (drop_bit 16 t)) + dval zs"
    by (simp add: len algebra_simps)
  also have "\<dots> = dval (x # xs) + dval (y # ys) + unat k"
    unfolding s(1) using IH Cons.hyps by (simp add: algebra_simps)
  finally show ?case
    using s(2) by (simp only: r fst_conv snd_conv hi16 simp_thms)
qed simp

lemma div_digits_dval:
  assumes vi: "vi \<noteq> 0"
  shows "unat p < unat vi \<Longrightarrow>
    length (fst (div_digits xs vi p)) = length xs \<and>
    unat p * 65536 ^ length xs + dval xs
      = dval (fst (div_digits xs vi p)) * unat vi + unat (snd (div_digits xs vi p)) \<and>
    unat (snd (div_digits xs vi p)) < unat vi"
proof (induction xs arbitrary: p)
  case (Cons x xs)
  define t where "t = ac x + p * dlong_base"
  define tmpq where "tmpq = digit (t div ac vi)"
  define p1 where "p1 = t - ac vi * ac tmpq"
  have vpos: "0 < unat vi" using vi by (simp add: word_unat_eq_iff)
  have pb: "unat p \<le> 65534"
    using Cons.prems unat_u16_lt [of vi] by simp
  then have ut: "unat t = unat x + unat p * 65536"
    using unat_u16_lt [of x] by (simp add: t_def dlong_base_def width_simps)
  have "unat x + unat p * 65536 < unat vi * 65536"
  proof -
    have "unat x + unat p * 65536 < (unat p + 1) * 65536"
      using unat_u16_lt [of x] by simp
    also have "\<dots> \<le> unat vi * 65536"
      using Cons.prems by (intro mult_le_mono1) simp
    finally show ?thesis .
  qed
  then have "unat t div unat vi < 65536"
    by (simp add: ut less_mult_imp_div_less mult.commute)
  then have uq: "unat tmpq = unat t div unat vi"
    by (simp add: tmpq_def width_simps)
  have le: "unat vi * (unat t div unat vi) \<le> unat t" by simp
  then have "unat (ac vi * ac tmpq) = unat vi * (unat t div unat vi)"
    unfolding unat_mul_u32 unat_widen uq
    using unat_u32_lt [of t] by (intro mod_less) (rule le_less_trans)
  then have up: "unat p1 = unat t mod unat vi"
    using le by (simp add: p1_def unat_sub_u32 minus_mult_div_eq_mod)
  then have lt: "unat p1 < unat vi"
    using vpos by simp
  obtain qs r where m: "div_digits xs vi p1 = (qs, r)" by (cases "div_digits xs vi p1")
  have r: "div_digits (x # xs) vi p = (tmpq # qs, r)"
    using m by (simp add: Let_def t_def tmpq_def p1_def)
  have IH: "length qs = length xs" "unat p1 * 65536 ^ length xs + dval xs = dval qs * unat vi + unat r"
    "unat r < unat vi"
    using Cons.IH [OF lt] m by simp_all
  have split: "unat x + unat p * 65536 = unat tmpq * unat vi + unat p1"
    unfolding uq up ut [symmetric] by simp
  have "unat p * 65536 ^ length (x # xs) + dval (x # xs)
      = 65536 ^ length xs * (unat x + unat p * 65536) + dval xs"
    by (simp add: algebra_simps)
  also have "\<dots> = 65536 ^ length xs * (unat tmpq * unat vi) + (unat p1 * 65536 ^ length xs + dval xs)"
    unfolding split by (simp add: algebra_simps)
  also have "\<dots> = dval (tmpq # qs) * unat vi + unat r"
    unfolding IH(2) by (simp add: IH(1) algebra_simps)
  finally show ?case
    using IH by (simp only: r fst_conv snd_conv list.size simp_thms)
qed simp

lemma zero_digits_le: "zero_digits xs \<le> length xs"
  by (induction xs) simp_all

lemma dval_drop_zero_digits: "dval (drop (zero_digits xs) xs) = dval xs"
  by (induction xs) simp_all

lemma zero_digits_nonzero: "zero_digits xs < length xs \<Longrightarrow> xs ! zero_digits xs \<noteq> 0"
  by (induction xs) auto

lemma zero_digits_all: "zero_digits xs = length xs \<longleftrightarrow> dval xs = 0"
proof (induction xs)
  case (Cons x xs)
  then show ?case
    using zero_digits_le [of xs] by (auto simp: unat_eq_0)
qed simp

section \<open>The trial quotient\<close>

lemma q_hat_start_spec:
  assumes "unat u0 \<le> unat v1" "v1 \<noteq> 0"
  shows "unat (q_hat_start u0 u1 v1) < 65536"
    and "unat (q_hat_start u0 u1 v1) * unat v1 \<le> unat u0 * 65536 + unat u1"
    and "q * unat v1 \<le> unat u0 * 65536 + unat u1 \<Longrightarrow> q < 65536 \<Longrightarrow> q \<le> unat (q_hat_start u0 u1 v1)"
proof -
  have vpos: "0 < unat v1" using assms(2) by (simp add: word_unat_eq_iff)
  have ut: "unat (ac u0 * dlong_base + ac u1) = unat u0 * 65536 + unat u1"
    using unat_u16_lt [of u0] unat_u16_lt [of u1] by (simp add: dlong_base_def width_simps)
  have "unat (q_hat_start u0 u1 v1) < 65536 \<and>
    unat (q_hat_start u0 u1 v1) * unat v1 \<le> unat u0 * 65536 + unat u1 \<and>
    (\<forall>q. q * unat v1 \<le> unat u0 * 65536 + unat u1 \<longrightarrow> q < 65536 \<longrightarrow> q \<le> unat (q_hat_start u0 u1 v1))"
  proof (cases "u0 = v1")
    case True
    then have "unat (q_hat_start u0 u1 v1) = 65535"
      by (simp add: q_hat_start_def dlong_base_def)
    with True show ?thesis by simp
  next
    case False
    then have q: "unat (q_hat_start u0 u1 v1) = (unat u0 * 65536 + unat u1) div unat v1"
      by (simp add: q_hat_start_def unat_div_u32 ut unat_widen)
    from False assms have "unat u0 < unat v1" by (metis le_neq_implies_less word_unat_eq_iff)
    then have "unat u0 * 65536 + unat u1 < unat v1 * 65536"
      using unat_u16_lt [of u1] by linarith
    then show ?thesis
      using vpos by (simp add: q less_mult_imp_div_less mult.commute less_eq_div_iff_mult_less_eq)
  qed
  then show "unat (q_hat_start u0 u1 v1) < 65536"
    and "unat (q_hat_start u0 u1 v1) * unat v1 \<le> unat u0 * 65536 + unat u1"
    and "q * unat v1 \<le> unat u0 * 65536 + unat u1 \<Longrightarrow> q < 65536 \<Longrightarrow> q \<le> unat (q_hat_start u0 u1 v1)"
    by blast+
qed

text \<open>
  The correction loop stops at the largest candidate that the two leading digits of the
  divisor and the three leading digits of the window do not refute.
\<close>

lemma q_hat_test:
  assumes q: "unat q * v1 \<le> u0 * 65536 + u1"
    and lt: "u0 < 65536" "u1 < 65536" "u2 < 65536" "v1 < 65536" "v2 < 65536" "unat q < 65536"
    and r_def: "r = (of_nat u0 * dlong_base + of_nat u1) - q * of_nat v1"
  shows "(r div dlong_base \<noteq> 0 \<or> of_nat v2 * q \<le> r * dlong_base + of_nat u2)
    \<longleftrightarrow> unat q * (v1 * 65536 + v2) \<le> (u0 * 65536 + u1) * 65536 + u2"
proof -
  have n: "unat (of_nat k :: u32) = k" if "k < 65536" for k
    using that by (simp add: unat_of_nat take_bit_eq_mod)
  have "unat q * v1 \<le> 65535 * 65535" "v2 * unat q \<le> 65535 * 65535"
    using lt by (intro mult_le_mono; simp)+
  then have ur: "unat r = u0 * 65536 + u1 - unat q * v1" and uq: "unat (of_nat v2 * q) = v2 * unat q"
    using lt q by (simp_all add: r_def unat_sub_u32 width_simps dlong_base_def n)
  have hi: "r div dlong_base \<noteq> 0 \<longleftrightarrow> 65536 \<le> unat r"
    by (simp add: dlong_base_def word_unat_eq_iff unat_div_u32 div_eq_0_iff not_less)
  show ?thesis
  proof (cases "65536 \<le> unat r")
    case True
    then have "unat q * v1 + 65536 \<le> u0 * 65536 + u1"
      using ur by simp
    then have "(unat q * v1 + 65536) * 65536 \<le> (u0 * 65536 + u1) * 65536"
      by (rule mult_le_mono1)
    moreover have "unat q * (v1 * 65536 + v2) \<le> (unat q * v1 + 65536) * 65536"
      using \<open>v2 * unat q \<le> 65535 * 65535\<close> by (simp add: algebra_simps)
    ultimately show ?thesis
      using True hi by simp
  next
    case False
    then have "unat (r * dlong_base + of_nat u2) = unat r * 65536 + u2"
      using lt by (simp add: width_simps dlong_base_def n)
    then have "of_nat v2 * q \<le> r * dlong_base + of_nat u2 \<longleftrightarrow> v2 * unat q \<le> unat r * 65536 + u2"
      by (simp only: word_le_nat_alt uq)
    also have "\<dots> \<longleftrightarrow> unat q * (v1 * 65536 + v2) \<le> (u0 * 65536 + u1) * 65536 + u2"
      unfolding ur using q by (simp add: algebra_simps diff_mult_distrib) linarith
    finally show ?thesis
      using False hi by simp
  qed
qed

lemma q_hat_adjust_spec:
  assumes lt: "u0 < 65536" "u1 < 65536" "u2 < 65536" "v1 < 65536" "v2 < 65536"
  shows "unat q * v1 \<le> u0 * 65536 + u1 \<Longrightarrow> unat q < 65536 \<Longrightarrow>
    (let r = unat (q_hat_adjust (of_nat u0) (of_nat u1) (of_nat u2) (of_nat v1) (of_nat v2) q)
     in r \<le> unat q \<and> r * (v1 * 65536 + v2) \<le> (u0 * 65536 + u1) * 65536 + u2 \<and>
        (\<forall>q'. q' * (v1 * 65536 + v2) \<le> (u0 * 65536 + u1) * 65536 + u2 \<longrightarrow> q' \<le> unat q \<longrightarrow> q' \<le> r))"
proof (induction "unat q" arbitrary: q rule: less_induct)
  case less
  let ?r = "(of_nat u0 * dlong_base + of_nat u1) - q * of_nat v1 :: u32"
  let ?ok = "unat q * (v1 * 65536 + v2) \<le> (u0 * 65536 + u1) * 65536 + u2"
  note test = q_hat_test [OF less.prems(1) lt less.prems(2) refl]
  have unfold: "q_hat_adjust (of_nat u0) (of_nat u1) (of_nat u2) (of_nat v1) (of_nat v2) q
      = (if ?ok then q else q_hat_adjust (of_nat u0) (of_nat u1) (of_nat u2) (of_nat v1) (of_nat v2) (q - 1))"
    by (subst q_hat_adjust.simps) (use test in \<open>auto simp: Let_def\<close>)
  show ?case
  proof (cases ?ok)
    case True
    then show ?thesis by (simp add: unfold)
  next
    case False
    then have pos: "0 < unat q" by (metis mult_zero_left le0 gr0I)
    then have "q \<noteq> 0" by auto
    then have uq: "unat (q - 1) = unat q - 1" by (rule unat_minus_one)
    then have lt1: "unat (q - 1) < unat q" using pos by linarith
    have "unat (q - 1) * v1 \<le> u0 * 65536 + u1"
      using less.prems(1) lt1 by (meson less_imp_le_nat le_trans mult_le_mono1)
    note IH = less.hyps [OF lt1 this]
    have "q' \<le> unat q - 1" if "q' * (v1 * 65536 + v2) \<le> (u0 * 65536 + u1) * 65536 + u2" "q' \<le> unat q" for q'
      using that False by (cases "q' = unat q") auto
    then show ?thesis
      using IH less.prems(2) lt1 False by (simp add: unfold uq Let_def)
  qed
qed

lemma q_bounds:
  fixes W V :: nat
  assumes "W = U3 * P + ur" "V = V2 * P + vr" "vr < P" "qh * V2 \<le> U3" "qh \<le> V2"
  shows "qh * V \<le> W + V"
proof -
  have "qh * V = qh * V2 * P + qh * vr"
    by (simp add: assms(2) algebra_simps)
  also have "\<dots> \<le> U3 * P + V2 * P"
    using assms(3-5) by (intro add_mono mult_le_mono) auto
  also have "\<dots> \<le> W + V"
    using assms(1,2) by simp
  finally show ?thesis .
qed

lemma q_upper:
  fixes W V :: nat
  assumes "W = U3 * P + ur" "V = V2 * P + vr" "ur < P" "q * V \<le> W"
  shows "q * V2 \<le> U3"
proof -
  have "q * V2 * P \<le> q * V"
    by (simp add: assms(2) algebra_simps)
  also have "\<dots> \<le> W" by fact
  also have "\<dots> < (U3 + 1) * P" using assms by simp
  finally have "q * V2 < U3 + 1" by (simp only: mult_less_cancel2)
  then show ?thesis by simp
qed

lemma dval_Cons2: "dval (a # b # xs) = (unat a * 65536 + unat b) * 65536 ^ length xs + dval xs"
  by (simp add: algebra_simps)

lemma dval_Cons3:
  "dval (a # b # c # xs) = ((unat a * 65536 + unat b) * 65536 + unat c) * 65536 ^ length xs + dval xs"
  by (simp add: algebra_simps)

lemma trial_quotient:
  fixes u0 u1 u2 v1 v2 :: u16
  assumes len: "length us = length vs" and v1: "v1 \<noteq> 0"
    and lt: "dval (u0 # u1 # u2 # us) < 65536 * dval (v1 # v2 # vs)"
  defines "qh \<equiv> unat (q_hat_adjust (ac u0) (ac u1) (ac u2) (ac v1) (ac v2) (q_hat_start u0 u1 v1))"
    and "W \<equiv> dval (u0 # u1 # u2 # us)" and "V \<equiv> dval (v1 # v2 # vs)"
  shows "qh < 65536" and "W div V \<le> qh" and "qh * V \<le> W + V"
proof -
  let ?P = "65536 ^ length vs :: nat"
  let ?U3 = "(unat u0 * 65536 + unat u1) * 65536 + unat u2" and ?V2 = "unat v1 * 65536 + unat v2"
  have W: "W = ?U3 * ?P + dval us" and V: "V = ?V2 * ?P + dval vs"
    by (simp_all only: W_def V_def dval_Cons3 dval_Cons2 [of v1] len)
  have us: "dval us < ?P" and vs: "dval vs < ?P"
    using dval_lt [of us] dval_lt [of vs] len by simp_all
  have "0 < unat v1" using v1 by (simp add: word_unat_eq_iff)
  then have V2: "65536 \<le> ?V2" and Vpos: "0 < V" using V by auto
  have "unat u0 * 65536 * 65536 * ?P \<le> W"
    unfolding W by (simp add: algebra_simps)
  also have "W < 65536 * ((unat v1 * 65536 + unat v2 + 1) * ?P)"
    using lt vs V unfolding W_def [symmetric] V_def [symmetric] by simp
  also have "\<dots> \<le> 65536 * ((unat v1 + 1) * 65536 * ?P)"
    using unat_u16_lt [of v2] by (intro mult_le_mono) simp_all
  finally have "unat u0 * (65536 * 65536 * ?P) < (unat v1 + 1) * (65536 * 65536 * ?P)"
    by (simp add: algebra_simps)
  then have "unat u0 < unat v1 + 1" by (simp only: mult_less_cancel2)
  then have "unat u0 \<le> unat v1" by simp
  note start = q_hat_start_spec [OF this v1]
  have cast: "(of_nat (unat x) :: u32) = ac x" for x :: u16
    by (simp add: word_unat_eq_iff unat_widen unat_of_nat)
  note adj = q_hat_adjust_spec [OF unat_u16_lt [of u0] unat_u16_lt [of u1] unat_u16_lt [of u2]
      unat_u16_lt [of v1] unat_u16_lt [of v2] start(2,1), unfolded cast Let_def, folded qh_def]
  show qh: "qh < 65536" using adj start(1) [of u1] by linarith
  have below: "qh * ?V2 \<le> ?U3" using adj by blast
  show "qh * V \<le> W + V"
    by (rule q_bounds [OF W V vs below]) (use qh V2 in linarith)
  have "W div V * V \<le> W" by simp
  then have q3: "W div V * ?V2 \<le> ?U3" by (rule q_upper [OF W V us])
  have qB: "W div V < 65536"
    using lt Vpos unfolding W_def [symmetric] V_def [symmetric] by (simp add: less_mult_imp_div_less)
  have "W div V * ?V2 div 65536 \<le> ?U3 div 65536" using q3 by (rule div_le_mono)
  moreover have "W div V * unat v1 \<le> W div V * ?V2 div 65536"
    by (simp add: less_eq_div_iff_mult_less_eq algebra_simps)
  moreover have "?U3 div 65536 = unat u0 * 65536 + unat u1"
    using unat_u16_lt [of u2] by simp
  ultimately have "W div V \<le> unat (q_hat_start u0 u1 v1)"
    using start(3) [of "W div V" u1] qB by linarith
  then show "W div V \<le> qh" using adj q3 by blast
qed

lemma mod_split_nat: "(W :: nat) = q * V + r \<Longrightarrow> r < V \<Longrightarrow> q = W div V \<and> r = W mod V"
  by auto

lemma same_residue_nat: "(a :: nat) + m * k = b + m * l \<Longrightarrow> a < m \<Longrightarrow> b < m \<Longrightarrow> a = b"
  by (metis mod_less mod_mult_self2)

lemma add_back:
  assumes len: "length w = Suc n" "length vv = n"
    and sum: "dval w + dval vv = R + 65536 ^ Suc n" and R: "R < 65536 ^ Suc n"
    and ab: "add_digits (tl w) vv 0 = (zs, k)"
  shows "length (digit (ac (hd w) + ac k) # zs) = Suc n"
    and "dval (digit (ac (hd w) + ac k) # zs) = R"
proof -
  obtain x xs where w: "w = x # xs" and xs: "length xs = n"
    using len(1) by (cases w) auto
  have zs: "length zs = n"
    using length_add_digits [of xs vv 0] ab w xs len(2) by simp
  then show "length (digit (ac (hd w) + ac k) # zs) = Suc n" by simp
  have add: "dval zs + 65536 ^ n * unat k = dval xs + dval vv" "unat k \<le> 1"
    using add_digits_dval [of xs vv 0] ab w xs len(2) by simp_all
  have "unat (ac x + ac k) = unat x + unat k"
    using add(2) unat_u16_lt [of x] by (simp add: width_simps)
  then obtain c where c: "unat x + unat k = unat (digit (ac x + ac k)) + 65536 * c"
    by (metis unat_narrow mod_mult_div_eq)
  have "dval (digit (ac x + ac k) # zs) + 65536 ^ Suc n * c
      = 65536 ^ n * (unat (digit (ac x + ac k)) + 65536 * c) + dval zs"
    by (simp add: zs algebra_simps)
  also have "\<dots> = R + 65536 ^ Suc n * 1"
    unfolding c [symmetric] using add(1) sum by (simp add: w xs algebra_simps)
  finally have "dval (digit (ac x + ac k) # zs) = R"
    by (rule same_residue_nat) (use dval_lt [of "digit (ac x + ac k) # zs"] R zs in simp_all)
  then show "dval (digit (ac (hd w) + ac k) # zs) = R" by (simp add: w)
qed

lemma div_step_correct:
  assumes len: "length vv = n" "length win = Suc n" "2 \<le> n" and v: "vv ! 0 \<noteq> 0"
    and lt: "dval win < 65536 * dval vv"
  shows "\<exists>w q. div_step vv win = (w, q) \<and> length w = Suc n \<and>
    dval win = unat q * dval vv + dval w \<and> dval w < dval vv"
proof -
  obtain v1 v2 vs where vv: "vv = v1 # v2 # vs"
    using len by (cases vv; cases "tl vv") auto
  obtain u0 u1 u2 us where win: "win = u0 # u1 # u2 # us"
    using len by (cases win; cases "tl win"; cases "tl (tl win)") auto
  define q where "q = q_hat_adjust (ac u0) (ac u1) (ac u2) (ac v1) (ac v2) (q_hat_start u0 u1 v1)"
  have qeq: "q_hat_adjust (ac (win ! 0)) (ac (win ! 1)) (ac (win ! 2)) (ac (vv ! 0)) (ac (vv ! 1))
      (q_hat_start (win ! 0) (win ! 1) (vv ! 0)) = q"
    by (simp add: q_def vv win)
  let ?W = "dval win" and ?V = "dval vv" and ?B = "65536 ^ n :: nat"
  have "length us = length vs" "v1 \<noteq> 0" using len v vv win by simp_all
  note trial = trial_quotient [OF this, of u0 u1 u2 v2, folded vv win q_def, OF lt]
  have Vpos: "0 < ?V" using lt by (cases "?V") simp_all
  obtain ns k where m: "mul_digits vv q 0 = (ns, k)" by (cases "mul_digits vv q 0")
  have ns: "length ns = n" using length_mul_digits [of vv q 0] m len by simp
  have prod: "dval (k # ns) = unat q * ?V"
    using mul_digits_dval [OF trial(1), of vv 0] m len ns by (simp add: algebra_simps)
  obtain w bor where s: "sub_digits win (k # ns) 0 = (w, bor)" by (cases "sub_digits win (k # ns) 0")
  have wl: "length w = Suc n" using length_sub_digits [of win "k # ns" 0] s len ns by simp
  have diff: "dval w + unat q * ?V = ?W + 65536 ^ Suc n * unat bor" and b1: "unat bor \<le> 1"
    using sub_digits_dval [of 0 win "k # ns"] s len ns prod by simp_all
  have uq: "unat (digit q) = unat q" using trial(1) by (simp add: unat_narrow)
  have step: "div_step vv win = (if bor \<noteq> 0
      then (let (zs, k1) = add_digits (tl w) vv 0
            in (digit (ac (hd w) + ac k1) # zs, digit (ac (digit q) - 1)))
      else (w, digit q))"
    unfolding div_step_def Let_def qeq m s prod.case by (rule refl)
  show ?thesis
  proof (cases "bor = 0")
    case True
    then have eq: "?W = unat q * ?V + dval w" using diff by simp
    then have "unat q \<le> ?W div ?V"
      using Vpos by (simp add: less_eq_div_iff_mult_less_eq)
    with trial(2) have "unat q = ?W div ?V" by simp
    then have "dval w = ?W mod ?V" using eq by (metis div_mult_mod_eq add_left_imp_eq)
    then have "dval w < ?V" using Vpos by (metis mod_less_divisor)
    then show ?thesis using eq wl True step uq by simp
  next
    case False
    then have "unat bor = 1" using b1 by (metis unat_eq_0 le_SucE le_zero_eq One_nat_def)
    then have diff: "dval w + unat q * ?V = ?W + 65536 ^ Suc n" using diff by simp
    have "?W < unat q * ?V"
      using diff dval_lt [of w] wl by simp
    then have qpos: "0 < unat q" by (cases "unat q") simp_all
    define R where "R = ?W + ?V - unat q * ?V"
    have eq: "?W = (unat q - 1) * ?V + R"
      using trial(3) qpos by (simp add: R_def diff_mult_distrib)
    have "R < ?V" using \<open>?W < unat q * ?V\<close> trial(3) unfolding R_def by linarith
    moreover have "?V < 65536 ^ n" using dval_lt [of vv] len by simp
    ultimately have Rlt: "R < 65536 ^ Suc n" by simp
    have sum: "dval w + ?V = R + 65536 ^ Suc n"
      using diff trial(3) unfolding R_def by linarith
    obtain zs k1 where ab: "add_digits (tl w) vv 0 = (zs, k1)" by (cases "add_digits (tl w) vv 0")
    note restored = add_back [OF wl len(1) sum Rlt ab]
    have "unat (ac (digit q) - 1) = unat q - 1"
      using qpos uq by (simp add: unat_sub_u32 unat_widen)
    then have "unat (digit (ac (digit q) - 1)) = unat q - 1"
      using trial(1) by (simp add: unat_narrow)
    then show ?thesis
      using restored eq \<open>R < ?V\<close> False by (simp add: step ab del: dval.simps)
  qed
qed

text \<open>
  The loop keeps the window above the next digit below the divisor; what is left of the
  dividend is the quotient so far times the divisor plus the last \<open>n\<close> digits.
\<close>

lemma div_loop_correct:
  assumes vv: "length vv = n" "2 \<le> n" "vv ! 0 \<noteq> 0"
  shows "j + c + n = length uv \<Longrightarrow> dval (take n (drop j uv)) < dval vv \<Longrightarrow>
    \<exists>uv' qs. div_loop vv n c j uv qv = (uv', qv @ qs) \<and> length uv' = length uv \<and> length qs = c \<and>
      dval (drop j uv) = dval qs * dval vv + dval (drop (j + c) uv') \<and> dval (drop (j + c) uv') < dval vv"
proof (induction c arbitrary: j uv qv)
  case 0
  then show ?case by simp
next
  case (Suc c)
  define win where "win = take (Suc n) (drop j uv)"
  have wl: "length win = Suc n" using Suc.prems(1) by (simp add: win_def)
  obtain x where x: "win = take n (drop j uv) @ [x]"
    using Suc.prems(1) by (simp add: win_def take_Suc_conv_app_nth)
  have "dval win < (dval (take n (drop j uv)) + 1) * 65536"
    using unat_u16_lt [of x] by (simp add: x)
  also have "\<dots> \<le> dval vv * 65536"
    using Suc.prems(2) by (intro mult_le_mono1) simp
  finally have "dval win < 65536 * dval vv" by simp
  from div_step_correct [OF vv(1) wl vv(2,3) this] obtain w q
    where d: "div_step vv win = (w, q)" and wl': "length w = Suc n"
      and eq: "dval win = unat q * dval vv + dval w" and lt: "dval w < dval vv"
    by blast
  define uv1 where "uv1 = take j uv @ w @ drop (j + Suc n) uv"
  have l1: "length uv1 = length uv" using Suc.prems(1) wl' by (simp add: uv1_def)
  have dr: "drop j uv1 = w @ drop (j + Suc n) uv" using Suc.prems(1) by (simp add: uv1_def)
  obtain y ys where y: "w = y # ys" "length ys = n" using wl' by (cases w) auto
  have "unat y = 0"
  proof (rule ccontr)
    assume "unat y \<noteq> 0"
    then have "1 * 65536 ^ n \<le> unat y * 65536 ^ n" by (intro mult_le_mono1) simp
    then have "65536 ^ n \<le> dval w" by (simp only: y dval.simps mult_1 trans_le_add1)
    then show False using lt dval_lt [of vv] vv(1) by simp
  qed
  then have y0: "dval w = dval ys" by (simp add: y)
  have drS: "drop (Suc j) uv1 = ys @ drop (j + Suc n) uv"
    using dr y by (metis append_Cons drop_Suc list.sel(3) tl_drop)
  then have "dval (take n (drop (Suc j) uv1)) < dval vv" using lt y y0 by simp
  from Suc.IH [OF _ this, of "qv @ [q]"] obtain uv' qs
    where r: "div_loop vv n c (Suc j) uv1 (qv @ [q]) = (uv', qv @ q # qs)" "length uv' = length uv" "length qs = c"
      and e: "dval (drop (Suc j) uv1) = dval qs * dval vv + dval (drop (j + Suc c) uv')"
        "dval (drop (j + Suc c) uv') < dval vv"
    using Suc.prems(1) l1 by auto
  have c: "length (drop (j + Suc n) uv) = c" using Suc.prems(1) by simp
  have "drop j uv = win @ drop (j + Suc n) uv"
    unfolding win_def by (metis append_take_drop_id drop_drop add.commute)
  then have "dval (drop j uv) = (unat q * dval vv + dval ys) * 65536 ^ c + dval (drop (j + Suc n) uv)"
    by (simp only: dval_append c eq y0)
  also have "\<dots> = unat q * dval vv * 65536 ^ c + dval (drop (Suc j) uv1)"
    by (simp only: drS dval_append c) (simp add: algebra_simps)
  also have "\<dots> = dval (q # qs) * dval vv + dval (drop (j + Suc c) uv')"
    unfolding e(1) by (simp add: r(3) algebra_simps)
  finally have total: "dval (drop j uv) = dval (q # qs) * dval vv + dval (drop (j + Suc c) uv')" .
  have "div_loop vv n (Suc c) j uv qv = (uv', qv @ q # qs)"
    by (simp only: div_loop.simps Let_def win_def [symmetric] d prod.case uv1_def [symmetric] r(1))
  with total r e(2) show ?case by (intro exI [of _ uv'] exI [of _ "q # qs"]) simp
qed

section \<open>Normalization\<close>

lemma dval_lead:
  assumes "length vd = Suc n"
  shows "dval vd < (unat (vd ! 0) + 1) * 65536 ^ n" and "unat (vd ! 0) * 65536 ^ n \<le> dval vd"
proof -
  obtain v vs where "vd = v # vs" "length vs = n" using assms by (cases vd) auto
  then show "dval vd < (unat (vd ! 0) + 1) * 65536 ^ n" "unat (vd ! 0) * 65536 ^ n \<le> dval vd"
    using dval_lt [of vs] by simp_all
qed

lemma normalizer_correct:
  assumes "length vd = n" "2 \<le> n" "vd ! 0 \<noteq> 0"
  shows "0 < unat (normalizer vd)" and "dval vd * unat (normalizer vd) < 65536 ^ n"
proof -
  obtain p where n: "n = Suc p" using assms(2) by (cases n) simp_all
  let ?v = "unat (vd ! 0)" and ?d = "unat (normalizer vd)"
  have v: "0 < ?v" using assms(3) by (simp add: word_unat_eq_iff)
  have "unat (ac (vd ! 0) + 1) = ?v + 1"
    using unat_u16_lt [of "vd ! 0"] by (simp add: width_simps)
  moreover have "65536 div (?v + 1) < 65536"
    using v by (intro div_less_dividend) simp_all
  ultimately have d: "?d = 65536 div (?v + 1)"
    by (simp add: normalizer_def dlong_base_def width_simps)
  then show pos: "0 < ?d"
    using unat_u16_lt [of "vd ! 0"] by (simp add: div_greater_zero_iff)
  have "dval vd * ?d < (?v + 1) * 65536 ^ p * ?d"
    using dval_lead(1) [of vd p] assms(1) n pos by (intro mult_strict_right_mono) simp_all
  also have "\<dots> = (?v + 1) * ?d * 65536 ^ p" by (simp only: mult_ac)
  also have "\<dots> \<le> 65536 * 65536 ^ p"
    unfolding d by (intro mult_le_mono1) (rule times_div_less_eq_dividend)
  finally show "dval vd * ?d < 65536 ^ n" by (simp add: n)
qed

lemma scale_digits:
  assumes "mul_digits xs (ac d) 0 = (ys, k)"
  shows "length ys = length xs" and "dval ys + 65536 ^ length xs * unat k = dval xs * unat d"
  using mul_digits_dval [of "ac d" xs 0] length_mul_digits [of xs "ac d" 0] assms unat_u16_lt [of d]
  by (simp_all add: unat_widen)

lemma scale_fits: "(a :: nat) + b * k = c \<Longrightarrow> c < b \<Longrightarrow> k = 0 \<and> a = c"
  by (cases k) auto

lemma divrem_general_correct:
  assumes len: "length vd = n" "length ud = m + n" "2 \<le> n" "m + n \<le> 4" and v: "vd ! 0 \<noteq> 0"
  shows "\<exists>q r. divrem_general ud vd m n = (q, r) \<and>
    dlong_unat q = dval ud div dval vd \<and> dlong_unat r = dval ud mod dval vd"
proof -
  define d where "d = normalizer vd"
  define uv where "uv = (if d = 1 then 0 # ud else (let (us, k) = mul_digits ud (ac d) 0 in k # us))"
  define vv where "vv = (if d = 1 then vd else fst (mul_digits vd (ac d) 0))"
  let ?U = "dval ud" and ?V = "dval vd" and ?d = "unat d"
  note norm = normalizer_correct [OF len(1,3) v, folded d_def]
  obtain p where n: "n = Suc p" using len(3) by (cases n) simp_all
  have "0 < unat (vd ! 0)" using v by (simp add: word_unat_eq_iff)
  then have "1 * 65536 ^ p \<le> unat (vd ! 0) * 65536 ^ p" by (intro mult_le_mono1) simp
  also have "\<dots> \<le> ?V" using dval_lead(2) [of vd p] len(1) n by simp
  finally have Vlow: "65536 ^ p \<le> ?V" by simp
  then have Vpos: "0 < ?V" by (rule less_le_trans [rotated]) simp
  have uv: "length uv = Suc (m + n)" "dval uv = ?U * ?d"
    using scale_digits [of ud d] len(2)
    by (auto simp: uv_def Let_def split: prod.split) (simp add: algebra_simps)
  have vv: "length vv = n" "dval vv = ?V * ?d"
    using scale_digits [of vd d] scale_fits [OF _ norm(2)] len(1)
    by (auto simp: vv_def Let_def split_beta prod_eq_iff)
  have "vv ! 0 \<noteq> 0"
  proof
    assume "vv ! 0 = 0"
    then have "?V * ?d < 65536 ^ p" using dval_lead(1) [of vv p] vv n by simp
    moreover have "?V * 1 \<le> ?V * ?d" using norm(1) by (intro mult_le_mono2) simp
    ultimately show False using Vlow by simp
  qed
  have "length (drop n uv) = Suc m" using uv by simp
  then have "dval (take n uv) * 65536 ^ Suc m + dval (drop n uv) = dval uv"
    using dval_append [of "take n uv" "drop n uv"] by (simp only: append_take_drop_id)
  then have "dval (take n uv) * 65536 ^ Suc m \<le> ?U * ?d" by (simp only: uv(2) [symmetric])
  also have "\<dots> < 65536 ^ (m + n) * ?d"
    using dval_lt [of ud] len(2) norm(1) by simp
  also have "\<dots> = 65536 ^ p * ?d * 65536 ^ Suc m" by (simp add: n power_add)
  also have "\<dots> \<le> ?V * ?d * 65536 ^ Suc m" using Vlow by (intro mult_le_mono1)
  finally have "dval (take n uv) < ?V * ?d" by (simp only: mult_less_cancel2)
  then have "dval (take n (drop 0 uv)) < dval vv" by (simp add: vv)
  from div_loop_correct [OF vv(1) len(3) \<open>vv ! 0 \<noteq> 0\<close> _ this, of "Suc m" "[]"] obtain uv1 qs
    where loop: "div_loop vv n (Suc m) 0 uv [] = (uv1, qs)" "length uv1 = length uv" "length qs = Suc m"
      and eq: "?U * ?d = dval qs * (?V * ?d) + dval (drop (Suc m) uv1)" and lt: "dval (drop (Suc m) uv1) < ?V * ?d"
    using uv vv by auto
  define rest where "rest = drop (Suc m) uv1"
  define rv where "rv = (if d = 1 then rest else fst (div_digits rest d 0))"
  have restl: "length rest = n" using loop(2) uv(1) by (simp add: rest_def)
  have q: "dval qs = ?U div ?V" and r: "dval rest = (?U mod ?V) * ?d"
    using mod_split_nat [OF eq lt] norm(1) unfolding rest_def [symmetric]
    by (simp_all only: div_mult_mult2 mult_mod_left neq0_conv)
  have rv: "length rv = n" "dval rv = ?U mod ?V"
  proof -
    have "d \<noteq> 0" using norm(1) by auto
    note dd = div_digits_dval [OF this, of 0 rest]
    have "dval (fst (div_digits rest d 0)) = (?U mod ?V) * ?d div ?d"
      using mod_split_nat dd norm(1) r by simp
    then have "dval (fst (div_digits rest d 0)) = ?U mod ?V" using norm(1) by simp
    then show "length rv = n" "dval rv = ?U mod ?V"
      using dd norm(1) restl r by (simp_all add: rv_def)
  qed
  have "divrem_general ud vd m n = (of_digits (replicate (3 - m) 0 @ qs), of_digits (replicate (4 - n) 0 @ rv))"
    unfolding divrem_general_def Let_def d_def [symmetric] uv_def [unfolded Let_def, symmetric] vv_def [symmetric]
    by (simp only: loop(1) prod.case rest_def [symmetric] rv_def [symmetric])
  moreover have "dval (replicate k 0 @ xs) = dval xs" for k xs
    by (induction k) simp_all
  ultimately show ?thesis
    using len loop(3) q rv by (simp add: dlong_unat_of_digits)
qed

section \<open>Signs\<close>

definition dlong_mag :: "dlong_t \<Rightarrow> dlong_t" where
  "dlong_mag x = (if isneg x then dlong_neg x else x)"

lemma dlong_mag_unat: "int (dlong_unat (dlong_mag x)) = \<bar>dlong_sint x\<bar>"
proof (cases "isneg x")
  case True
  then have "int (dlong_unat (dlong_mag x)) = (- dlong_sint x) mod 2 ^ 64"
    by (simp add: dlong_mag_def dlong_neg_unat dlong_sint_def mod_diff_right_eq)
  moreover have "dlong_sint x < 0"
    using True dlong_unat_lt [of x] by (simp add: dlong_sint_def)
  ultimately show ?thesis using dlong_sint_range(1) [of x] by simp
qed (simp add: dlong_mag_def dlong_sint_def)

lemma dlong_sint_neg_iff: "dlong_sint x < 0 \<longleftrightarrow> isneg x"
  using dlong_unat_lt [of x] by (auto simp: dlong_sint_def)

lemma dlong_sint_zero_iff: "dlong_sint x = 0 \<longleftrightarrow> x = dlong_gets_zero"
  using dlong_sint_inject [of x dlong_gets_zero] by (auto simp: dlong_sint_wrap [of dlong_gets_zero] wrap64_id)

lemma apply_sign_sint:
  "dlong_sint (apply_sign neg x) = wrap64 (if neg then - int (dlong_unat x) else int (dlong_unat x))"
  by (simp add: apply_sign_def dlong_sint_wrap) (intro impI wrap64_cong, simp add: dlong_neg_unat)

lemma apply_sign_zero: "apply_sign neg dlong_gets_zero = dlong_gets_zero"
  by (simp add: apply_sign_def dlong_neg_def dlong_gets_zero_def borrow_def)

lemma digit_minus_1: "digit (- 1) = - 1"
  by (simp add: word_unat_eq_iff unat_narrow unsigned_minus_1_eq_mask mask_eq_exp_minus_1)

lemma apply_sign_one:
  "(if neg then mk_dlong (NOT 0) (NOT 0) (NOT 0) (NOT 0) else mk_dlong 0 0 0 1) = apply_sign neg (mk_dlong 0 0 0 1)"
  by (simp add: apply_sign_def dlong_neg_def borrow_def drop_bit_eq_div Let_def digit_minus_1)

section \<open>Correctness of the routine\<close>

text \<open>The offset of a value is the number of its leading zero digits.\<close>

lemma significant_digits:
  fixes x :: dlong_t
  defines "k \<equiv> zero_digits (digits x)"
  shows "k \<le> 4" and "length (drop k (digits x)) = 4 - k" and "dval (drop k (digits x)) = dlong_unat x"
    and "dlong_unat x < 65536 ^ (4 - k)" and "k < 4 \<Longrightarrow> drop k (digits x) ! 0 \<noteq> 0"
    and "k = 4 \<longleftrightarrow> dlong_unat x = 0"
proof -
  show k: "k \<le> 4" using zero_digits_le [of "digits x"] by (simp add: k_def)
  show "length (drop k (digits x)) = 4 - k" by simp
  show d: "dval (drop k (digits x)) = dlong_unat x"
    by (simp add: k_def dval_drop_zero_digits dval_digits)
  show "dlong_unat x < 65536 ^ (4 - k)"
    using dval_lt [of "drop k (digits x)"] by (simp add: d)
  show "k < 4 \<Longrightarrow> drop k (digits x) ! 0 \<noteq> 0"
    using zero_digits_nonzero [of "digits x"] by (simp add: k_def)
  show "k = 4 \<longleftrightarrow> dlong_unat x = 0"
    using zero_digits_all [of "digits x"] by (simp add: k_def dval_digits)
qed

lemma significant_low: "k < 4 \<Longrightarrow> k = zero_digits (digits x) \<Longrightarrow> 65536 ^ (3 - k) \<le> dlong_unat x"
proof -
  assume k: "k < 4" "k = zero_digits (digits x)"
  note s = significant_digits [of x, folded k(2)]
  have "0 < unat (drop k (digits x) ! 0)" using s(5) k by (simp add: word_unat_eq_iff del: nth_drop)
  then have "1 * 65536 ^ (3 - k) \<le> unat (drop k (digits x) ! 0) * 65536 ^ (3 - k)"
    by (intro mult_le_mono1) simp
  also have "\<dots> \<le> dval (drop k (digits x))"
    using k by (intro dval_lead(2)) (simp add: Suc_diff_le)
  finally show ?thesis by (simp only: s(3) mult_1)
qed

lemma unat_low_word: "dlong_unat x < 65536 ^ 2 \<Longrightarrow> unat (ac (d2 x) * dlong_base + ac (d3 x)) = dlong_unat x"
  using unat_dlong_to_long [of x] by (simp add: dlong_to_long_def)

lemma unat_low_digit: "dlong_unat x < 65536 \<Longrightarrow> unat (d3 x) = dlong_unat x"
  using unat_u16_lt [of "d3 x"] by (simp add: dlong_unat_def)

lemma dval_pad: "dval (replicate k 0 @ xs) = dval xs"
  by (induction k) simp_all

lemma dlong_divrem_magnitude:
  fixes u v :: dlong_t
  assumes "v \<noteq> dlong_gets_zero"
  defines "A \<equiv> dlong_unat (dlong_mag u)" and "B \<equiv> dlong_unat (dlong_mag v)"
  shows "\<exists>q r. dlong_divrem u v = Inr (apply_sign (isneg u \<noteq> isneg v) q, apply_sign (isneg u) r) \<and>
    dlong_unat q = A div B \<and> dlong_unat r = A mod B"
proof -
  define a b where "a = dlong_mag u" and "b = dlong_mag v"
  define i k where "i = zero_digits (digits a)" and "k = zero_digits (digits b)"
  define ud vd where "ud = drop i (digits a)" and "vd = drop k (digits b)"
  define nq where "nq = (isneg u \<noteq> isneg v)"
  have AB: "A = dlong_unat a" "B = dlong_unat b" by (simp_all add: A_def B_def a_def b_def)
  note ua = significant_digits [of a, folded i_def, folded ud_def AB]
  note vb = significant_digits [of b, folded k_def, folded vd_def AB]
  have "dlong_sint v \<noteq> 0" using dlong_sint_zero_iff assms(1) by simp
  then have Bpos: "0 < B" using dlong_mag_unat [of v] by (simp add: B_def)
  then have k4: "k < 4" using vb(1,6) by linarith
  have r: "dlong_divrem u v =
      (if 4 - k \<le> 2 \<and> 4 - i \<le> 2 then
         (let lu = ac (d2 a) * dlong_base + ac (d3 a); lv = ac (d2 b) * dlong_base + ac (d3 b)
          in Inr (apply_sign nq (u_long_to_dlong (lu div lv)), apply_sign (isneg u) (u_long_to_dlong (lu mod lv))))
       else if 4 - k = 1 then
         (let (qs, prevu) = div_digits ud (d3 b) 0
          in Inr (apply_sign nq (of_digits (replicate i 0 @ qs)), apply_sign (isneg u) (u_long_to_dlong prevu)))
       else if 4 - i < 4 - k then Inr (dlong_gets_zero, apply_sign (isneg u) a)
       else if 4 - i = 4 - k \<and> dlong_cmp_digits ud vd < 0 then Inr (dlong_gets_zero, apply_sign (isneg u) a)
       else if 4 - i = 4 - k \<and> dlong_cmp_digits ud vd = 0 then Inr (apply_sign nq (mk_dlong 0 0 0 1), dlong_gets_zero)
       else (let (q, r) = divrem_general ud vd (4 - i - (4 - k)) (4 - k)
             in Inr (apply_sign nq q, apply_sign (isneg u) r)))"
    using k4 unfolding dlong_divrem_def Let_def dlong_mag_def [symmetric] a_def [symmetric] b_def [symmetric]
      i_def [symmetric] k_def [symmetric] ud_def [symmetric] vd_def [symmetric]
      apply_sign_one [unfolded if_distrib]
    by (simp add: nq_def apply_sign_one)
  consider "4 - k \<le> 2 \<and> 4 - i \<le> 2" | "4 - k = 1" "\<not> 4 - i \<le> 2" | "\<not> 4 - k \<le> 1" "\<not> (4 - k \<le> 2 \<and> 4 - i \<le> 2)"
    using k4 by (cases "4 - k = 1"; cases "4 - i \<le> 2"; force)
  then show ?thesis
  proof cases
    case 1
    then have "(65536::nat) ^ (4 - i) \<le> 65536 ^ 2" "(65536::nat) ^ (4 - k) \<le> 65536 ^ 2"
      by (intro power_increasing; simp)+
    then have "A < 65536 ^ 2" "B < 65536 ^ 2" using ua(4) vb(4) by linarith+
    then show ?thesis
      using 1 unfolding r nq_def
      by (auto simp: Let_def AB u_long_to_dlong_unat unat_div_u32 unat_mod_u32 unat_low_word intro!: exI)
  next
    case 2
    then have vi: "unat (d3 b) = B" using vb(4) by (simp add: AB unat_low_digit)
    then have "d3 b \<noteq> 0" using Bpos by auto
    note dd = div_digits_dval [OF this, of 0 ud, unfolded vi]
    obtain qs p where p: "div_digits ud (d3 b) 0 = (qs, p)" by (cases "div_digits ud (d3 b) 0")
    have "A = dval qs * B + unat p" "unat p < B" "length qs = 4 - i"
      using dd Bpos p ua(2,3) by simp_all
    moreover have "dlong_unat (of_digits (replicate i 0 @ qs)) = dval qs"
      using \<open>length qs = 4 - i\<close> ua(1) by (subst dlong_unat_of_digits) (simp_all add: dval_pad del: dval_append)
    ultimately have "dlong_unat (of_digits (replicate i 0 @ qs)) = A div B" "dlong_unat (u_long_to_dlong p) = A mod B"
      using mod_split_nat by (simp_all add: u_long_to_dlong_unat)
    then show ?thesis
      using 2 unfolding r nq_def by (auto simp: p)
  next
    case 3
    have low: "65536 ^ (3 - k) \<le> B" using significant_low [OF k4 k_def] AB by simp
    have less: "A < B" if "4 - i < 4 - k"
    proof -
      have "(65536::nat) ^ (4 - i) \<le> 65536 ^ (3 - k)" using that by (intro power_increasing) auto
      then show ?thesis using low ua(4) by linarith
    qed
    have cmp: "dlong_cmp_digits ud vd = sgn (int A - int B)" if "4 - i = 4 - k"
      using dlong_cmp_digits_sgn [of ud vd] ua vb that by simp
    consider "A < B" "4 - i < 4 - k \<or> 4 - i = 4 - k \<and> dlong_cmp_digits ud vd < 0"
      | "A = B" "4 - i = 4 - k \<and> dlong_cmp_digits ud vd = 0"
      | "4 - k < 4 - i \<or> 4 - i = 4 - k \<and> 0 < dlong_cmp_digits ud vd"
      using less cmp by (cases "4 - i" "4 - k" rule: linorder_cases) (auto simp: sgn_if split: if_splits)
    then show ?thesis
    proof cases
      case 1
      then show ?thesis
        using 3 unfolding r nq_def by (intro exI [of _ dlong_gets_zero] exI [of _ a]) (auto simp: AB apply_sign_zero)
    next
      case 2
      then show ?thesis
        using 3 Bpos unfolding r nq_def
        by (intro exI [of _ "mk_dlong 0 0 0 1"] exI [of _ dlong_gets_zero])
          (auto simp: apply_sign_zero dlong_unat_def [of "mk_dlong 0 0 0 1"])
    next
      case g: 3
      have "4 - k \<le> 4 - i" using g by auto
      then have m: "4 - i - (4 - k) + (4 - k) = 4 - i" by simp
      have "\<exists>q t. divrem_general ud vd (4 - i - (4 - k)) (4 - k) = (q, t) \<and>
          dlong_unat q = dval ud div dval vd \<and> dlong_unat t = dval ud mod dval vd"
        by (rule divrem_general_correct [OF vb(2)]) (use m ua(2) vb(5) k4 3(1) in simp_all)
      then obtain q t where qt: "divrem_general ud vd (4 - i - (4 - k)) (4 - k) = (q, t)"
        "dlong_unat q = A div B" "dlong_unat t = A mod B"
        unfolding ua(3) vb(3) by blast
      have "4 - k \<noteq> 1" "\<not> 4 - i < 4 - k" "\<not> (4 - i = 4 - k \<and> dlong_cmp_digits ud vd < 0)"
        "\<not> (4 - i = 4 - k \<and> dlong_cmp_digits ud vd = 0)"
        using 3(1) g by auto
      then show ?thesis
        using 3(2) qt unfolding r nq_def by (simp only: if_False Let_def prod.case) blast
    qed
  qed
qed

lemma dlong_zero_divisor: "dlong_divrem u dlong_gets_zero = Inl Divide_Trap"
  by (simp add: dlong_divrem_def Let_def isneg_def dlong_gets_zero_def digits_def)

lemma dlong_divrem_sint:
  assumes nz: "v \<noteq> dlong_gets_zero"
  shows "\<exists>q r. dlong_divrem u v = Inr (q, r) \<and> dlong_div u v = Inr q \<and> dlong_rem u v = Inr r \<and>
      dlong_sint q = wrap64 (signed_divide (dlong_sint u) (dlong_sint v)) \<and>
      dlong_sint r = signed_modulo (dlong_sint u) (dlong_sint v)"
proof -
  let ?a = "\<bar>dlong_sint u\<bar>" and ?b = "\<bar>dlong_sint v\<bar>"
  from dlong_divrem_magnitude [OF nz, of u] obtain q r
    where eq: "dlong_divrem u v = Inr (apply_sign (isneg u \<noteq> isneg v) q, apply_sign (isneg u) r)"
      and q: "int (dlong_unat q) = ?a div ?b" and r: "int (dlong_unat r) = ?a mod ?b"
    by (auto simp: zdiv_int zmod_int dlong_mag_unat)
  have v0: "dlong_sint v \<noteq> 0" using dlong_sint_zero_iff nz by simp
  have "?a mod ?b < ?b" "0 \<le> ?a mod ?b" using v0 by simp_all
  moreover have "?b \<le> 2 ^ 63" using dlong_sint_range [of v] by linarith
  ultimately have "dlong_sint (apply_sign (isneg u) r) = (if isneg u then - (?a mod ?b) else ?a mod ?b)"
    unfolding apply_sign_sint r by (intro wrap64_id) (auto split: if_splits)
  then have rem: "dlong_sint (apply_sign (isneg u) r) = signed_modulo (dlong_sint u) (dlong_sint v)"
    by (auto simp: signed_modulo_int_def sgn_if dlong_sint_neg_iff [symmetric])
  have quo: "dlong_sint (apply_sign (isneg u \<noteq> isneg v) q) = wrap64 (signed_divide (dlong_sint u) (dlong_sint v))"
    unfolding apply_sign_sint q using v0
    by (auto simp: signed_divide_int_def sgn_if dlong_sint_neg_iff [symmetric] intro: arg_cong [of _ _ wrap64])
  from eq quo rem show ?thesis
    by (simp add: dlong_div_def dlong_rem_def)
qed

text \<open>
  C10. Division is total and correct: for every divisor other than zero \<open>dlong_divrem\<close> returns,
  the quotient is the mathematical one truncated towards zero (it wraps in the single case of
  the least value divided by minus one), the remainder is exact and has the sign of the
  dividend; \<open>dlong_div\<close> and \<open>dlong_rem\<close> return its two components; a zero divisor traps.
\<close>

theorem dlong_divrem_correct:
  "if v = dlong_gets_zero then dlong_divrem u v = Inl Divide_Trap
   else \<exists>q r. dlong_divrem u v = Inr (q, r) \<and> dlong_div u v = Inr q \<and> dlong_rem u v = Inr r \<and>
      dlong_sint q = wrap64 (signed_divide (dlong_sint u) (dlong_sint v)) \<and>
      dlong_sint r = signed_modulo (dlong_sint u) (dlong_sint v)"
  by (simp add: dlong_zero_divisor dlong_divrem_sint)

end
