(* ===== verification/Dlong_Ascii.thy ===== *)
theory Dlong_Ascii
  imports Dlong_Div
begin

text \<open>
  The conversions between dlongs and character strings of lib/mach3/us/dlong_ascii.c. A C
  string is the list of its characters without the terminating zero. The 64 characters of the
  local buffer of \<open>dlong_to_string\<close> bound its loop: a 65th digit would be written past the
  buffer, which is the fault \<^const>\<open>Out_Of_Bounds\<close>; it is proved never to happen.
\<close>

section \<open>Printing\<close>

definition dlong_digits :: string where
  "dlong_digits = ''0123456789abcdefghijklmnopqrstuvwxyz''"

text \<open>Reading \<open>dlong_digits[i]\<close>; the array has a last element, the terminating zero.\<close>

definition dlong_digit_at :: "u32 \<Rightarrow> char result" where
  "dlong_digit_at i =
     (if 0 \<le> sint i \<and> sint i < 37 then Inr ((dlong_digits @ [CHR 0x00]) ! nat (sint i))
      else Inl Out_Of_Bounds)"

primrec to_string_loop :: "nat \<Rightarrow> dlong_t \<Rightarrow> dlong_t \<Rightarrow> dlong_t \<Rightarrow> string \<Rightarrow> (string \<times> dlong_t) result" where
  "to_string_loop 0 b minus_b t ds =
     (if dlong_cmp t minus_b \<le> 0 then Inl Out_Of_Bounds else Inr (ds, t))"
| "to_string_loop (Suc room) b minus_b t ds =
     (if dlong_cmp t minus_b \<le> 0 then
        bindE (dlong_divrem t b) (\<lambda>(quo, rm).
        bindE (dlong_digit_at (- dlong_to_int rm)) (\<lambda>c.
        to_string_loop room b minus_b quo (c # ds)))
      else Inr (ds, t))"

definition dlong_to_string :: "dlong_t \<Rightarrow> u32 \<Rightarrow> string result" where
  "dlong_to_string x base =
     (let b = LONG_TO_DLONG (if 2 \<le> sint base \<and> sint base \<le> 36 then base else 10);
          minus_b = DLONG_NEG b;
          (s, t) = (if DLONG_SGN x < 0 then (''-'', x) else ('''', dlong_neg x))
      in bindE (to_string_loop 64 b minus_b t []) (\<lambda>(ds, t).
         bindE (dlong_digit_at (- dlong_to_int t)) (\<lambda>c. Inr (s @ c # ds))))"

section \<open>Scanning\<close>

definition isspace :: "char \<Rightarrow> bool" where
  "isspace c = (c \<in> {CHR 0x09, CHR 0x0A, CHR 0x0B, CHR 0x0C, CHR 0x0D, CHR '' ''})"

definition isupper :: "char \<Rightarrow> bool" where
  "isupper c = (65 \<le> (of_char c :: nat) \<and> (of_char c :: nat) \<le> 90)"

definition tolower :: "char \<Rightarrow> char" where
  "tolower c = char_of ((of_char c :: nat) + 32)"

fun index :: "string \<Rightarrow> char \<Rightarrow> nat option" where
  "index [] c = None"
| "index (d # ds) c = (if d = c then Some 0 else map_option Suc (index ds c))"

fun scan_loop :: "dlong_t \<Rightarrow> dlong_t \<Rightarrow> string \<Rightarrow> dlong_t \<times> string" where
  "scan_loop b t [] = (t, [])"
| "scan_loop b t (c # s) =
     (case index dlong_digits (if isupper c then tolower c else c) of
        None \<Rightarrow> (t, c # s)
      | Some dx \<Rightarrow> scan_loop b (DLONG_SUB (dlong_mul t b) (int_to_dlong (of_nat dx))) s)"

definition string_to_dlong :: "string \<Rightarrow> u32 \<Rightarrow> dlong_t \<times> string" where
  "string_to_dlong str base =
     (let b = LONG_TO_DLONG base;
          s = dropWhile isspace str;
          (negative, s) = (case s of c # s' \<Rightarrow> if c = CHR ''-'' then (True, s') else (False, s) | [] \<Rightarrow> (False, s));
          (t, s) = scan_loop b DLONG_ZERO s
      in (if negative then t else DLONG_NEG t, s))"

section \<open>Positional notation\<close>

definition horner :: "nat \<Rightarrow> nat list \<Rightarrow> nat" where
  "horner \<beta> ds = foldl (\<lambda>a d. a * \<beta> + d) 0 ds"

definition digit_char :: "nat \<Rightarrow> char" where
  "digit_char d = dlong_digits ! d"

lemma foldl_horner: "foldl (\<lambda>a d. a * \<beta> + d) (a :: nat) ds = a * \<beta> ^ length ds + horner \<beta> ds"
proof (induction ds arbitrary: a)
  case (Cons d ds)
  have "horner \<beta> (d # ds) = d * \<beta> ^ length ds + horner \<beta> ds"
    using Cons.IH [of d] by (simp add: horner_def)
  then show ?case
    using Cons.IH [of "a * \<beta> + d"] by (simp add: algebra_simps)
qed (simp add: horner_def)

lemma horner_Cons: "horner \<beta> (d # ds) = d * \<beta> ^ length ds + horner \<beta> ds"
  using foldl_horner [of \<beta> d ds] by (simp add: horner_def)

lemma horner_Nil [simp]: "horner \<beta> [] = 0"
  by (simp add: horner_def)

lemma length_dlong_digits: "length dlong_digits = 36"
  by (simp add: dlong_digits_def)

lemma dlong_digit_at_ok: "sint i = int k \<Longrightarrow> k < 36 \<Longrightarrow> dlong_digit_at i = Inr (digit_char k)"
  by (simp add: dlong_digit_at_def digit_char_def nth_append length_dlong_digits)

section \<open>Printing\<close>

lemma sint_neg_small: "- 100 \<le> sint (w :: u32) \<Longrightarrow> sint w \<le> 0 \<Longrightarrow> sint (- w) = - sint w"
proof -
  assume "- 100 \<le> sint w" "sint w \<le> 0"
  then have "signed_take_bit 31 (- sint w) = - sint w"
    by (intro signed_take_bit_int_eq_self) simp_all
  then show ?thesis by (simp add: sint_word_ariths)
qed

lemma digit_of_negated:
  assumes "dlong_sint r = - int k" "k < 36"
  shows "dlong_digit_at (- dlong_to_int r) = Inr (digit_char k)"
proof -
  have "sint (dlong_to_long r) = - int k"
    using assms by (subst sint_dlong_to_long) simp_all
  then have "sint (- dlong_to_int r) = int k"
    using assms(2) sint_neg_small [of "dlong_to_long r"] by (simp add: dlong_to_int_def dlong_to_long_def)
  then show ?thesis using assms(2) by (rule dlong_digit_at_ok)
qed

lemma divrem_negated:
  assumes t: "dlong_sint t = - int T" and b: "dlong_sint b = int \<beta>" "0 < \<beta>"
  shows "\<exists>q r. dlong_divrem t b = Inr (q, r) \<and> dlong_sint q = - int (T div \<beta>) \<and> dlong_sint r = - int (T mod \<beta>)"
proof -
  have "b \<noteq> dlong_gets_zero" using b dlong_sint_zero_iff [of b] by auto
  from dlong_divrem_sint [OF this, of t] obtain q r where qr: "dlong_divrem t b = Inr (q, r)"
    "dlong_sint q = wrap64 (signed_divide (- int T) (int \<beta>))" "dlong_sint r = signed_modulo (- int T) (int \<beta>)"
    by (auto simp: t b)
  have "signed_divide (- int T) (int \<beta>) = - int (T div \<beta>)" "signed_modulo (- int T) (int \<beta>) = - int (T mod \<beta>)"
    using b(2) by (cases "T = 0"; simp add: signed_divide_int_def signed_modulo_int_def zdiv_int zmod_int)+
  moreover have "int T \<le> 2 ^ 63" using dlong_sint_range(1) [of t] t by simp
  then have "int (T div \<beta>) \<le> 2 ^ 63" using div_le_dividend [of T \<beta>] by linarith
  ultimately show ?thesis using qr by (simp add: wrap64_id)
qed

lemma to_string_loop_correct:
  assumes b: "dlong_sint b = int \<beta>" "2 \<le> \<beta>" "\<beta> \<le> 36" and mb: "dlong_sint mb = - int \<beta>"
  shows "dlong_sint t = - int T \<Longrightarrow> T < \<beta> ^ Suc room \<Longrightarrow>
    \<exists>ds t' T'. to_string_loop room b mb t cs = Inr (map digit_char ds @ cs, t') \<and>
      dlong_sint t' = - int T' \<and> T' < \<beta> \<and> (\<forall>d \<in> set ds. d < \<beta>) \<and> (T' = 0 \<longrightarrow> ds = []) \<and>
      T = T' * \<beta> ^ length ds + horner \<beta> ds"
proof (induction room arbitrary: t T cs)
  case 0
  then show ?case
    using mb by (auto simp: dlong_cmp_sgn sgn_if intro!: exI [of _ "[]"])
next
  case (Suc room)
  show ?case
  proof (cases "T < \<beta>")
    case True
    then show ?thesis
      using mb Suc.prems(1) by (auto simp: dlong_cmp_sgn sgn_if intro!: exI [of _ "[]"])
  next
    case False
    then have go: "dlong_cmp t mb \<le> 0" using mb Suc.prems(1) by (simp add: dlong_cmp_sgn sgn_if)
    from divrem_negated [OF Suc.prems(1) b(1)] b(2) obtain q r where qr: "dlong_divrem t b = Inr (q, r)"
      and q: "dlong_sint q = - int (T div \<beta>)" and r: "dlong_sint r = - int (T mod \<beta>)"
      by auto
    have m: "T mod \<beta> < \<beta>" using b(2) by simp
    then have c: "dlong_digit_at (- dlong_to_int r) = Inr (digit_char (T mod \<beta>))"
      using b(3) by (intro digit_of_negated [OF r]) simp
    have "T div \<beta> < \<beta> ^ Suc room"
      using Suc.prems(2) by (simp add: less_mult_imp_div_less mult.commute)
    from Suc.IH [OF q this, of "digit_char (T mod \<beta>) # cs"] obtain ds t' T'
      where IH: "to_string_loop room b mb q (digit_char (T mod \<beta>) # cs) = Inr (map digit_char ds @ digit_char (T mod \<beta>) # cs, t')"
        "dlong_sint t' = - int T'" "T' < \<beta>" "\<forall>d \<in> set ds. d < \<beta>" "T' = 0 \<longrightarrow> ds = []"
        and v: "T div \<beta> = T' * \<beta> ^ length ds + horner \<beta> ds"
      by blast
    have "T = T div \<beta> * \<beta> + T mod \<beta>" by simp
    also have "\<dots> = T' * \<beta> ^ length (ds @ [T mod \<beta>]) + horner \<beta> (ds @ [T mod \<beta>])"
      unfolding v by (simp add: horner_def algebra_simps)
    finally have total: "T = T' * \<beta> ^ length (ds @ [T mod \<beta>]) + horner \<beta> (ds @ [T mod \<beta>])" .
    have "T div \<beta> \<noteq> 0" using False b(2) by (simp add: div_eq_0_iff)
    then have "T' \<noteq> 0" using v IH(5) by auto
    have "to_string_loop (Suc room) b mb t cs = Inr (map digit_char (ds @ [T mod \<beta>]) @ cs, t')"
      using go qr c IH(1) by simp
    then show ?thesis
      using total IH(2-4) \<open>T' \<noteq> 0\<close> m by (intro exI [of _ "ds @ [T mod \<beta>]"] exI [of _ t'] exI [of _ T']) auto
  qed
qed

definition effective_base :: "u32 \<Rightarrow> nat" where
  "effective_base base = (if 2 \<le> sint base \<and> sint base \<le> 36 then nat (sint base) else 10)"

lemma dlong_to_string_digits:
  "\<exists>ds. dlong_to_string x base = Inr ((if dlong_sint x < 0 then ''-'' else '''') @ map digit_char ds) \<and>
    ds \<noteq> [] \<and> list_all (\<lambda>d. d < effective_base base) ds \<and> (if hd ds = 0 then ds = [0] else True) \<and>
    int (horner (effective_base base) ds) = \<bar>dlong_sint x\<bar>"
proof -
  define \<beta> where "\<beta> = effective_base base"
  define b where "b = LONG_TO_DLONG (if 2 \<le> sint base \<and> sint base \<le> 36 then base else 10)"
  define t where "t = (if dlong_sint x < 0 then x else dlong_neg x)"
  define T where "T = nat \<bar>dlong_sint x\<bar>"
  have b: "dlong_sint b = int \<beta>" "2 \<le> \<beta>" "\<beta> \<le> 36"
    by (auto simp: b_def \<beta>_def effective_base_def DLONG_macros long_to_dlong_sint)
  have mb: "dlong_sint (DLONG_NEG b) = - int \<beta>"
    using b by (subst DL.neg_exact) simp_all
  have t: "dlong_sint t = - int T"
    using dl.neg_exact [of x] by (simp add: t_def T_def)
  have "T \<le> 2 ^ 63" using dlong_sint_range [of x] by (simp add: T_def)
  also have "\<dots> < (2 :: nat) ^ Suc 64" by simp
  also have "\<dots> \<le> \<beta> ^ Suc 64" using b(2) by (intro power_mono) simp_all
  finally have "T < \<beta> ^ Suc 64" .
  from to_string_loop_correct [OF b mb t this, of "[]"] obtain ds t' T'
    where l: "to_string_loop 64 b (DLONG_NEG b) t [] = Inr (map digit_char ds, t')"
      "dlong_sint t' = - int T'" "T' < \<beta>" "\<forall>d \<in> set ds. d < \<beta>" "T' = 0 \<longrightarrow> ds = []"
      "T = T' * \<beta> ^ length ds + horner \<beta> ds"
    by auto
  have "int T = \<bar>dlong_sint x\<bar>" by (simp add: T_def)
  then have num: "int (horner \<beta> (T' # ds)) = \<bar>dlong_sint x\<bar>" by (simp only: horner_Cons l(6))
  have "dlong_digit_at (- dlong_to_int t') = Inr (digit_char T')"
    using l(3) b(3) by (intro digit_of_negated [OF l(2)]) simp
  then have "dlong_to_string x base = Inr ((if dlong_sint x < 0 then ''-'' else '''') @ map digit_char (T' # ds))"
    using l(1) unfolding t_def dlong_to_string_def b_def [symmetric] Let_def DLONG_SGN_sgn sgn_less
    by (cases "dlong_sint x < 0") simp_all
  then show ?thesis
    using l(3-5) num unfolding \<beta>_def [symmetric]
    by (intro exI [of _ "T' # ds"]) (simp add: list_all_iff)
qed

section \<open>Scanning\<close>

definition digit_value :: "char \<Rightarrow> nat option" where
  "digit_value c = index dlong_digits (if isupper c then tolower c else c)"

definition is_digit :: "char \<Rightarrow> bool" where
  "is_digit c = (digit_value c \<noteq> None)"

lemma index_bound: "index ds c = Some k \<Longrightarrow> k < length ds"
  by (induction ds arbitrary: k) (auto split: if_splits)

lemma digit_value_bound: "digit_value c = Some k \<Longrightarrow> k < 36"
  using index_bound length_dlong_digits by (metis digit_value_def)

lemma small_to_dlong_sint: "k < 36 \<Longrightarrow> dlong_sint (int_to_dlong (of_nat k)) = int k"
proof -
  assume "k < 36"
  then have "signed_take_bit 31 (int k) = int k" by (intro signed_take_bit_int_eq_self) simp_all
  then have "sint (of_nat k :: u32) = int k" by (simp add: signed_of_nat)
  then show ?thesis by (metis int_to_dlong_def long_to_dlong_def long_to_dlong_sint)
qed

lemma foldl_wrap:
  "wrap64 (foldl (\<lambda>a d. a * \<beta> - int d) (wrap64 a) ds) = wrap64 (foldl (\<lambda>a d. a * \<beta> - int d) a ds)"
proof (induction ds rule: rev_induct)
  case (snoc d ds)
  then show ?case by simp (metis wrap64_wrap(3,5))
qed (simp add: wrap64_wrap(1) [of a 0, simplified])

lemma scan_loop_Cons:
  "scan_loop b t (c # s) = (case digit_value c of None \<Rightarrow> (t, c # s)
     | Some dx \<Rightarrow> scan_loop b (DLONG_SUB (dlong_mul t b) (int_to_dlong (of_nat dx))) s)"
  by (simp add: digit_value_def)

lemma scan_loop_correct:
  "\<exists>t'. scan_loop b t s = (t', dropWhile is_digit s) \<and>
    dlong_sint t' = wrap64 (foldl (\<lambda>a d. a * dlong_sint b - int d) (dlong_sint t)
      (map (the \<circ> digit_value) (takeWhile is_digit s)))"
proof (induction s arbitrary: t)
  case Nil
  then show ?case by (simp add: dl.val_wrap)
next
  case (Cons c s)
  show ?case
  proof (cases "digit_value c")
    case None
    then show ?thesis
      by (simp add: is_digit_def dl.val_wrap scan_loop_Cons del: scan_loop.simps)
  next
    case (Some k)
    define t1 where "t1 = DLONG_SUB (dlong_mul t b) (int_to_dlong (of_nat k))"
    have "dlong_sint t1 = wrap64 (dlong_sint t * dlong_sint b - int k)"
      using small_to_dlong_sint [OF digit_value_bound [OF Some]]
      by (simp add: t1_def DL.val_ops wrap64_wrap)
    then show ?thesis
      using Cons.IH [of t1] Some
      by (simp add: is_digit_def foldl_wrap scan_loop_Cons t1_def del: scan_loop.simps)
  qed
qed

lemma foldl_negated: "foldl (\<lambda>a d. a * \<beta> - int d) (- a) ds = - foldl (\<lambda>a d. a * \<beta> + int d) a ds"
proof (induction ds arbitrary: a)
  case (Cons d ds)
  then show ?case by (simp only: foldl_Cons mult_minus_left diff_conv_add_uminus flip: minus_add_distrib)
qed simp

lemma string_to_dlong_value:
  fixes str :: string and base :: u32
  defines "s \<equiv> dropWhile isspace str"
  defines "negative \<equiv> s \<noteq> [] \<and> hd s = CHR ''-''"
  defines "body \<equiv> if negative then tl s else s"
  shows "snd (string_to_dlong str base) = dropWhile is_digit body"
    and "dlong_sint (fst (string_to_dlong str base)) = wrap64 ((if negative then - 1 else 1) *
      foldl (\<lambda>a d. a * sint base + int d) 0 (map (the \<circ> digit_value) (takeWhile is_digit body)))"
proof -
  define b where "b = LONG_TO_DLONG base"
  have b: "dlong_sint b = sint base" by (simp add: b_def DLONG_macros long_to_dlong_sint)
  have z: "dlong_sint DLONG_ZERO = - 0" by (simp add: DLONG_macros dlong_sint_zero_iff)
  from scan_loop_correct [of b DLONG_ZERO body] obtain t where t: "scan_loop b DLONG_ZERO body = (t, dropWhile is_digit body)"
    and tv: "dlong_sint t = wrap64 (- foldl (\<lambda>a d. a * sint base + int d) 0 (map (the \<circ> digit_value) (takeWhile is_digit body)))"
    unfolding z foldl_negated b by blast
  have "(case s of c # s' \<Rightarrow> if c = CHR ''-'' then (True, s') else (False, s) | [] \<Rightarrow> (False, s)) = (negative, body)"
    by (auto simp: negative_def body_def split: list.split)
  then have "string_to_dlong str base = (if negative then t else DLONG_NEG t, dropWhile is_digit body)"
    using t unfolding string_to_dlong_def Let_def s_def [symmetric] b_def [symmetric] by simp
  then show "snd (string_to_dlong str base) = dropWhile is_digit body"
    and "dlong_sint (fst (string_to_dlong str base)) = wrap64 ((if negative then - 1 else 1) *
      foldl (\<lambda>a d. a * sint base + int d) 0 (map (the \<circ> digit_value) (takeWhile is_digit body)))"
    using tv by (simp_all add: DL.val_neg wrap64_wrap)
qed

lemma digit_chars:
  assumes "d < 36"
  shows "digit_value (digit_char d) = Some d" "is_digit (digit_char d)" "\<not> isspace (digit_char d)"
    "digit_char d \<noteq> CHR ''-''"
proof -
  have "list_all (\<lambda>d. digit_value (digit_char d) = Some d \<and> \<not> isspace (digit_char d) \<and> digit_char d \<noteq> CHR ''-'') [0..<36]"
    by code_simp
  then show "digit_value (digit_char d) = Some d" "is_digit (digit_char d)" "\<not> isspace (digit_char d)"
    "digit_char d \<noteq> CHR ''-''"
    using assms by (simp_all add: list_all_iff is_digit_def)
qed

lemma foldl_int_horner: "foldl (\<lambda>a d. a * int \<beta> + int d) 0 ds = int (horner \<beta> ds)"
proof -
  have "foldl (\<lambda>a d. a * int \<beta> + int d) (int a) ds = int (foldl (\<lambda>a d. a * \<beta> + d) a ds)" for a
    by (induction ds arbitrary: a) (simp_all flip: of_nat_mult of_nat_add)
  from this [of 0] show ?thesis by (simp add: horner_def)
qed

lemma dlong_scan_printed:
  assumes base: "2 \<le> sint base" "sint base \<le> 36" and rest: "rest = [] \<or> \<not> is_digit (hd rest)"
  shows "\<exists>s. dlong_to_string x base = Inr s \<and> string_to_dlong (s @ rest) base = (x, rest)"
proof -
  define \<beta> where "\<beta> = effective_base base"
  have \<beta>: "sint base = int \<beta>" "\<beta> \<le> 36" using base by (simp_all add: \<beta>_def effective_base_def)
  from dlong_to_string_digits [of x base, folded \<beta>_def] obtain ds
    where s: "dlong_to_string x base = Inr ((if dlong_sint x < 0 then ''-'' else '''') @ map digit_char ds)"
      and ds: "ds \<noteq> []" "list_all (\<lambda>d. d < \<beta>) ds" and v: "int (horner \<beta> ds) = \<bar>dlong_sint x\<bar>"
    by blast
  define str where "str = (if dlong_sint x < 0 then ''-'' else '''') @ map digit_char ds @ rest"
  obtain d ds' where Cons: "ds = d # ds'" using ds(1) by (cases ds) auto
  have lt: "\<forall>d \<in> set ds. d < 36" using ds(2) \<beta>(2) by (auto simp: list_all_iff)
  have sp: "dropWhile isspace str = str"
    using digit_chars [of d] lt by (simp add: str_def Cons isspace_def)
  have body: "(if dlong_sint x < 0 then tl str else str) = map digit_char ds @ rest"
    and sign: "(str \<noteq> [] \<and> hd str = CHR ''-'') = (dlong_sint x < 0)"
    using digit_chars [of d] lt by (auto simp: str_def Cons)
  have all: "is_digit c" if "c \<in> set (map digit_char ds)" for c
    using that lt digit_chars(2) by auto
  have "takeWhile is_digit rest = []" "dropWhile is_digit rest = rest"
    using rest by (cases rest; simp)+
  then have run: "takeWhile is_digit (map digit_char ds @ rest) = map digit_char ds"
      "dropWhile is_digit (map digit_char ds @ rest) = rest"
    by (simp_all only: takeWhile_append2 [OF all] dropWhile_append2 [OF all] append_Nil2)
  have vals: "map (the \<circ> digit_value) (map digit_char ds) = ds"
    using lt digit_chars by (simp add: map_idI)
  have "dlong_sint (fst (string_to_dlong str base)) = wrap64 ((if dlong_sint x < 0 then - 1 else 1) * \<bar>dlong_sint x\<bar>)"
    by (simp only: string_to_dlong_value(2) sp body sign run vals \<beta>(1) foldl_int_horner v)
  then have "fst (string_to_dlong str base) = x"
    by (intro dlong_sint_inject) (simp add: abs_if dl.val_wrap split: if_splits)
  moreover have "snd (string_to_dlong str base) = rest"
    by (simp only: string_to_dlong_value(1) sp sign body run)
  ultimately show ?thesis
    using s by (auto simp: str_def prod_eq_iff)
qed

section \<open>Properties\<close>

text \<open>
  C33. \<open>dlong_to_string\<close> always returns, never writes past its 64-character buffer, and prints the
  value in positional notation: a minus sign exactly for negative values, then digits below
  the base whose positional value is the absolute value, with no leading zero. This includes
  the least value, whose negation is not representable. A base outside 2 to 36 means 10.
\<close>

theorem dlong_to_string_correct:
  "\<exists>ds. dlong_to_string x base = Inr ((if dlong_sint x < 0 then ''-'' else '''') @ map digit_char ds) \<and>
    ds \<noteq> [] \<and> list_all (\<lambda>d. d < effective_base base) ds \<and> (if hd ds = 0 then ds = [0] else True) \<and>
    int (horner (effective_base base) ds) = \<bar>dlong_sint x\<bar>"
  by (rule dlong_to_string_digits)

text \<open>
  C34. \<open>string_to_dlong\<close> skips leading blanks and one minus sign, reads letters and digits up to
  the first other character, returns what follows them, and its value is the positional value
  of the characters read, wrapped into 64 bits. Every one of the 36 digit characters is read
  whatever the base is.
\<close>

theorem string_to_dlong_correct:
  "let s = dropWhile isspace str; negative = (s \<noteq> [] \<and> hd s = CHR ''-'');
       body = (if negative then tl s else s)
   in snd (string_to_dlong str base) = dropWhile is_digit body \<and>
      dlong_sint (fst (string_to_dlong str base)) = wrap64 ((if negative then - 1 else 1) *
        foldl (\<lambda>a d. a * sint base + int d) 0 (map (the \<circ> digit_value) (takeWhile is_digit body)))"
  by (simp only: Let_def string_to_dlong_value simp_thms)

text \<open>
  C31. What \<open>dlong_to_string\<close> prints, \<open>string_to_dlong\<close> reads back, in every base from 2 to 36 and
  for every value, and it stops exactly where the printed number ends.
\<close>

theorem dlong_string_roundtrip:
  assumes "2 \<le> sint base" "sint base \<le> 36" and "rest = [] \<or> \<not> is_digit (hd rest)"
  shows "\<exists>s. dlong_to_string x base = Inr s \<and> string_to_dlong (s @ rest) base = (x, rest)"
  using assms by (rule dlong_scan_printed)

theorem dlong_string_roundtrip_witness:
  "\<exists>s. dlong_to_string (mk_dlong 0x8000 0 0 0) 16 = Inr s \<and>
    string_to_dlong (s @ '', next'') 16 = (mk_dlong 0x8000 0 0 0, '', next'')"
proof -
  have "\<not> is_digit (CHR '','')" by code_simp
  then show ?thesis by (intro dlong_string_roundtrip) simp_all
qed

text \<open>A digit that does not belong to the base is read all the same: "9" in base 8 is nine.\<close>

lemma string_to_dlong_foreign_digit: "string_to_dlong ''9'' 8 = (mk_dlong 0 0 0 9, [])"
  by code_simp

end
