(* ===== verification/Hash_Table.thy ===== *)
theory Hash_Table
  imports Mach_Prelude "HOL-Library.Signed_Division"
begin

text \<open>
  The hash tables of lib/mach3/us/hash.c: an array of list headers, each the start of a chain
  of malloc'ed entries that are linked in both directions. The model keeps the pointers: the
  heap maps a node, which is an element of the header array or an allocated entry, to its
  fields, and every access through a pointer that does not point to a live node is the fault
  \<^const>\<open>Bad_Address\<close>. The hash and the compare function are the caller's (a null pointer selects
  the default), and so is the answer of \<open>malloc\<close>: both are arguments.

  The tables implement a dictionary: the contract is the locale \<open>dictionary\<close>, with the keys
  taken up to the compare function, interpreted on the code's operations.
\<close>

section \<open>Data\<close>

datatype node = Head nat | Cell nat

record hash_entry =
  ekey :: u32
  evalue :: u32
  enext :: "node option"
  eprev :: "node option"

type_synonym heap = "node \<rightharpoonup> hash_entry"

record hash_table =
  hashfun :: "(u32 \<Rightarrow> u32) option"
  hashcompare :: "(u32 \<Rightarrow> u32 \<Rightarrow> bool) option"
  tlen :: u32
  mem :: heap

definition HASH_INVALID :: u32 where
  "HASH_INVALID = - 1"

definition upd_node :: "heap \<Rightarrow> node \<Rightarrow> (hash_entry \<Rightarrow> hash_entry) \<Rightarrow> heap result" where
  "upd_node m a g = (case m a of None \<Rightarrow> Inl Bad_Address | Some e \<Rightarrow> Inr (m(a \<mapsto> g e)))"

definition deref :: "heap \<Rightarrow> node \<Rightarrow> hash_entry result" where
  "deref m a = (case m a of None \<Rightarrow> Inl Bad_Address | Some e \<Rightarrow> Inr e)"

definition free_node :: "heap \<Rightarrow> node \<Rightarrow> heap result" where
  "free_node m a = (case m a of None \<Rightarrow> Inl Bad_Address | Some e \<Rightarrow> Inr (m(a := None)))"

section \<open>Operations\<close>

text \<open>
  \<open>hash_init\<close>: the two allocations may fail, and the array comes with arbitrary contents, of
  which the loop only sets \<open>next\<close> (twice) and \<open>key\<close>. An entry has 16 bytes, and the size of the
  array in bytes is computed in 32 bits: where it wraps, fewer entries are allocated than the loop writes.
\<close>

definition hash_init ::
    "(u32 \<Rightarrow> u32) option \<Rightarrow> (u32 \<Rightarrow> u32 \<Rightarrow> bool) option \<Rightarrow> u32 \<Rightarrow> bool \<Rightarrow> bool \<Rightarrow> (nat \<Rightarrow> hash_entry) \<Rightarrow> hash_table result" where
  "hash_init hf cf sz ht_ok table_ok junk =
     (if \<not> ht_ok then Inl Null_Deref
      else if \<not> table_ok \<and> sz \<noteq> 0 then Inl Null_Deref
      else if unat (sz * 16) div 16 < unat sz then Inl Out_Of_Bounds
      else Inr \<lparr>hashfun = hf, hashcompare = cf, tlen = sz - 1,
        mem = (\<lambda>a. case a of
            Head i \<Rightarrow> if i < unat sz then Some ((junk i)\<lparr>enext := None, ekey := HASH_INVALID\<rparr>) else None
          | Cell c \<Rightarrow> None)\<rparr>)"

text \<open>
  The index of a key: the low bits of the key, or the hash function's int result modulo the
  table size, with C's remainder, which is negative for a negative hash value.
\<close>

definition hash_index :: "hash_table \<Rightarrow> u32 \<Rightarrow> nat result" where
  "hash_index ht key =
     (case hashfun ht of
        None \<Rightarrow> (let i = sint (key AND tlen ht) in if i < 0 then Inl Out_Of_Bounds else Inr (nat i))
      | Some h \<Rightarrow>
          if tlen ht + 1 = 0 then Inl Divide_Trap
          else (let i = signed_modulo (sint (h key)) (sint (tlen ht + 1))
                in if i < 0 then Inl Out_Of_Bounds else Inr (nat i)))"

definition hash_match :: "hash_table \<Rightarrow> u32 \<Rightarrow> u32 \<Rightarrow> bool" where
  "hash_match ht k key = (case hashcompare ht of None \<Rightarrow> k = key | Some compare \<Rightarrow> compare k key)"

text \<open>
  The loop the operations share: follow \<open>next\<close> from the header until an entry matches or there
  is no next entry; it returns the matching entry or the last node of the chain.
\<close>

partial_function (option) hash_walk :: "heap \<Rightarrow> (u32 \<Rightarrow> bool) \<Rightarrow> node \<Rightarrow> (bool \<times> node) result option" where
  "hash_walk m found entry =
     (case m entry of
        None \<Rightarrow> Some (Inl Bad_Address)
      | Some e \<Rightarrow>
          (case enext e of
             None \<Rightarrow> Some (Inr (False, entry))
           | Some b \<Rightarrow>
               (case m b of
                  None \<Rightarrow> Some (Inl Bad_Address)
                | Some e' \<Rightarrow> if found (ekey e') then Some (Inr (True, b)) else hash_walk m found b)))"

definition loop_result :: "'a result option \<Rightarrow> 'a result" where
  "loop_result r = (case r of None \<Rightarrow> Inl Diverges | Some x \<Rightarrow> x)"

definition hash_search :: "hash_table \<Rightarrow> u32 \<Rightarrow> (bool \<times> node) result" where
  "hash_search ht key =
     bindE (hash_index ht key) (\<lambda>index.
     loop_result (hash_walk (mem ht) (\<lambda>k. hash_match ht k key) (Head index)))"

definition hash_enter :: "nat option \<Rightarrow> hash_table \<Rightarrow> u32 \<Rightarrow> u32 \<Rightarrow> (bool \<times> hash_table) result" where
  "hash_enter malloc ht key val =
     bindE (hash_search ht key) (\<lambda>(found, entry).
     if found then Inr (False, ht)
     else bindE (upd_node (mem ht) entry (\<lambda>e. e\<lparr>enext := map_option Cell malloc\<rparr>)) (\<lambda>m.
       (case malloc of
          None \<Rightarrow> Inl Null_Deref
        | Some c \<Rightarrow> Inr (True, ht\<lparr>mem := m(Cell c \<mapsto>
            \<lparr>ekey = key, evalue = val, enext = None, eprev = Some entry\<rparr>)\<rparr>))))"

definition hash_lookup :: "hash_table \<Rightarrow> u32 \<Rightarrow> u32 result" where
  "hash_lookup ht key =
     bindE (hash_search ht key) (\<lambda>(found, entry).
     if found then bindE (deref (mem ht) entry) (\<lambda>e. Inr (evalue e)) else Inr 0)"

definition unlink_entry :: "heap \<Rightarrow> node \<Rightarrow> heap result" where
  "unlink_entry m entry =
     bindE (deref m entry) (\<lambda>e.
     bindE (case eprev e of None \<Rightarrow> Inr m | Some p \<Rightarrow> upd_node m p (\<lambda>x. x\<lparr>enext := enext e\<rparr>)) (\<lambda>m.
     bindE (deref m entry) (\<lambda>e.
     bindE (case enext e of None \<Rightarrow> Inr m | Some n \<Rightarrow> upd_node m n (\<lambda>x. x\<lparr>eprev := eprev e\<rparr>)) (\<lambda>m.
     free_node m entry))))"

definition hash_remove :: "hash_table \<Rightarrow> u32 \<Rightarrow> (bool \<times> hash_table) result" where
  "hash_remove ht key =
     bindE (hash_search ht key) (\<lambda>(found, entry).
     if found then bindE (unlink_entry (mem ht) entry) (\<lambda>m. Inr (True, ht\<lparr>mem := m\<rparr>))
     else Inr (False, ht))"

partial_function (option) free_chain :: "heap \<Rightarrow> node option \<Rightarrow> heap result option" where
  "free_chain m entry =
     (case entry of
        None \<Rightarrow> Some (Inr m)
      | Some a \<Rightarrow>
          (case m a of
             None \<Rightarrow> Some (Inl Bad_Address)
           | Some e \<Rightarrow> free_chain (m(a := None)) (enext e)))"

primrec free_headers :: "nat \<Rightarrow> nat \<Rightarrow> heap \<Rightarrow> heap result" where
  "free_headers 0 i m = Inr m"
| "free_headers (Suc n) i m =
     bindE (deref m (Head i)) (\<lambda>e.
     bindE (loop_result (free_chain m (enext e))) (\<lambda>m. free_headers n (Suc i) m))"

text \<open>\<open>hash_free\<close> returns the heap that is left: the last step frees the array of headers.\<close>

definition hash_free :: "hash_table \<Rightarrow> heap result" where
  "hash_free ht =
     bindE (free_headers (nat (sint (tlen ht) + 1)) 0 (mem ht)) (\<lambda>m.
     Inr (\<lambda>a. case a of Head i \<Rightarrow> None | Cell c \<Rightarrow> m a))"

text \<open>\<open>hash_apply\<close> returns the values it calls the function on, in the order of the calls.\<close>

partial_function (option) apply_chain :: "heap \<Rightarrow> node option \<Rightarrow> u32 list \<Rightarrow> u32 list result option" where
  "apply_chain m entry calls =
     (case entry of
        None \<Rightarrow> Some (Inr calls)
      | Some a \<Rightarrow>
          (case m a of
             None \<Rightarrow> Some (Inl Bad_Address)
           | Some e \<Rightarrow> apply_chain m (enext e) (calls @ [evalue e])))"

primrec apply_headers :: "nat \<Rightarrow> nat \<Rightarrow> heap \<Rightarrow> u32 list \<Rightarrow> u32 list result" where
  "apply_headers 0 i m calls = Inr calls"
| "apply_headers (Suc n) i m calls =
     bindE (deref m (Head i)) (\<lambda>e.
     bindE (loop_result (apply_chain m (enext e) calls)) (\<lambda>calls. apply_headers n (Suc i) m calls))"

definition hash_apply :: "hash_table \<Rightarrow> (bool \<times> u32 list) result" where
  "hash_apply ht =
     bindE (apply_headers (nat (sint (tlen ht + 1))) 0 (mem ht) []) (\<lambda>calls. Inr (True, calls))"

section \<open>Chains\<close>

definition nx :: "heap \<Rightarrow> node \<Rightarrow> node option option" where
  "nx m a = map_option enext (m a)"

definition pv :: "heap \<Rightarrow> node \<Rightarrow> node option option" where
  "pv m a = map_option eprev (m a)"

definition link :: "heap \<Rightarrow> node \<Rightarrow> node \<Rightarrow> bool" where
  "link m a b \<longleftrightarrow> nx m a = Some (Some b) \<and> pv m b = Some (Some a)"

definition chain :: "heap \<Rightarrow> node list \<Rightarrow> bool" where
  "chain m ns \<longleftrightarrow> ns \<noteq> [] \<and> successively (link m) ns \<and> nx m (last ns) = Some None"

named_theorems chain_simps \<open>links of a heap after an update\<close>

lemma nx_upd [chain_simps]: "nx (m(a \<mapsto> e)) b = (if b = a then Some (enext e) else nx m b)"
  by (simp add: nx_def)

lemma pv_upd [chain_simps]: "pv (m(a \<mapsto> e)) b = (if b = a then Some (eprev e) else pv m b)"
  by (simp add: pv_def)

lemma nx_del [chain_simps]: "nx (m(a := None)) b = (if b = a then None else nx m b)"
  by (simp add: nx_def)

lemma pv_del [chain_simps]: "pv (m(a := None)) b = (if b = a then None else pv m b)"
  by (simp add: pv_def)

lemma nx_mem: "m a = Some e \<Longrightarrow> nx m a = Some (enext e)"
  by (simp add: nx_def)

lemma pv_mem: "m a = Some e \<Longrightarrow> pv m a = Some (eprev e)"
  by (simp add: pv_def)

lemma chain_Cons: "chain m (a # b # ns) \<longleftrightarrow> link m a b \<and> chain m (b # ns)"
  by (auto simp: chain_def)

lemma chain_single: "chain m [a] \<longleftrightarrow> nx m a = Some None"
  by (simp add: chain_def)

lemma chain_mem: "chain m ns \<Longrightarrow> a \<in> set ns \<Longrightarrow> m a \<noteq> None"
proof (induction ns)
  case (Cons b ns)
  then show ?case
    by (cases ns) (auto simp: chain_Cons chain_single link_def nx_def pv_def)
qed simp

lemma chain_frame:
  assumes "chain m ns" "\<And>a. a \<in> set ns \<Longrightarrow> nx m' a = nx m a \<and> pv m' a = pv m a"
  shows "chain m' ns"
  using assms
proof (induction ns)
  case (Cons b ns)
  then show ?case
    by (cases ns) (auto simp: chain_Cons chain_single link_def)
qed (simp add: chain_def)

lemma chain_split:
  assumes "ns \<noteq> []" "ms \<noteq> []"
  shows "chain m (ns @ ms) \<longleftrightarrow> successively (link m) ns \<and> link m (last ns) (hd ms) \<and> chain m ms"
  using assms by (auto simp: chain_def successively_append_iff)

lemma links_frame:
  assumes "successively (link m) ns"
    and "\<And>a. a \<in> set (butlast ns) \<Longrightarrow> nx m' a = nx m a" "\<And>a. a \<in> set (tl ns) \<Longrightarrow> pv m' a = pv m a"
  shows "successively (link m') ns"
  using assms
proof (induction ns)
  case (Cons b ns)
  show ?case
  proof (cases ns)
    case Nil
    then show ?thesis by simp
  next
    case (Cons c cs)
    have "successively (link m') ns"
      using Cons.prems Cons by (intro Cons.IH) (auto dest: in_set_butlastD list.set_sel(2) split: if_splits)
    then show ?thesis using Cons.prems Cons by (auto simp: link_def)
  qed
qed simp

subsection \<open>Searching, appending, unlinking\<close>

lemma hash_walk_chain:
  "chain m (a # ns) \<Longrightarrow> hash_walk m P a = Some (Inr (case find (\<lambda>b. P (ekey (the (m b)))) ns of
     Some b \<Rightarrow> (True, b) | None \<Rightarrow> (False, last (a # ns))))"
proof (induction ns arbitrary: a)
  case Nil
  then obtain e where "m a = Some e" "enext e = None" by (auto simp: chain_single nx_def)
  then show ?case by (subst hash_walk.simps) simp
next
  case (Cons b ns)
  then obtain e e' where "m a = Some e" "enext e = Some b" "m b = Some e'"
    by (auto simp: chain_Cons link_def nx_def pv_def)
  then show ?case
    using Cons by (subst hash_walk.simps) (auto simp: chain_Cons split: option.split)
qed

lemma chain_append:
  assumes "chain m ns" "m z = Some e" "z = last ns" "c \<notin> set ns" "distinct ns"
  shows "chain (m(z \<mapsto> e\<lparr>enext := Some c\<rparr>, c \<mapsto> \<lparr>ekey = k, evalue = v, enext = None, eprev = Some z\<rparr>)) (ns @ [c])"
    (is "chain ?m _")
proof -
  have ne: "ns \<noteq> []" using assms(1) by (simp add: chain_def)
  have zc: "z \<noteq> c" using assms(3,4) ne by auto
  have "successively (link ?m) ns"
  proof (rule links_frame [of m])
    show "successively (link m) ns" using assms(1) by (simp add: chain_def)
    fix a assume "a \<in> set (butlast ns)"
    then have "a \<noteq> z" "a \<noteq> c"
      using assms(3-5) ne by (metis append_butlast_last_id distinct_append disjoint_iff list.set_intros(1) in_set_butlastD)+
    then show "nx ?m a = nx m a" by (simp add: chain_simps)
  next
    fix a assume "a \<in> set (tl ns)"
    then have "a \<noteq> c" using assms(4) ne by (metis list.set_sel(2))
    then show "pv ?m a = pv m a" using assms(2) by (simp add: chain_simps pv_mem)
  qed
  then show ?thesis
    using ne zc assms(3) by (simp add: chain_split chain_single link_def chain_simps)
qed

lemma unlink_chain:
  assumes ch: "chain m (ps @ b # ns)" and ps: "ps \<noteq> []" and dist: "distinct (ps @ b # ns)"
  shows "\<exists>m'. unlink_entry m b = Inr m' \<and> chain m' (ps @ ns) \<and> m' b = None \<and>
    (\<forall>a. a \<notin> set (ps @ b # ns) \<longrightarrow> m' a = m a) \<and>
    (\<forall>a. a \<noteq> b \<longrightarrow> map_option (\<lambda>e. (ekey e, evalue e)) (m' a) = map_option (\<lambda>e. (ekey e, evalue e)) (m a))"
proof -
  obtain xs p where p: "ps = xs @ [p]" using ps by (cases ps rule: rev_cases) auto
  have link: "link m p b" "successively (link m) ps" "chain m (b # ns)"
    using ch chain_split [OF ps, of "b # ns" m] by (simp_all add: p)
  obtain ep eb where ep: "m p = Some ep" and eb: "m b = Some eb" "eprev eb = Some p"
    using link(1) by (auto simp: link_def nx_def pv_def)
  have neq: "p \<noteq> b" "p \<notin> set ns" "b \<notin> set ns" "p \<notin> set xs" "b \<notin> set xs" "set ns \<inter> set xs = {}" using dist p by auto
  have tl: "set (tl (xs @ [p])) \<subseteq> insert p (set xs)" by (cases xs) auto
  let ?m1 = "m(p \<mapsto> ep\<lparr>enext := enext eb\<rparr>)"
  show ?thesis
  proof (cases ns)
    case Nil
    then have nb: "enext eb = None" using link(3) eb by (simp add: chain_single nx_mem)
    let ?m2 = "?m1(b := None)"
    have "unlink_entry m b = Inr ?m2"
      using ep eb nb neq by (simp add: unlink_entry_def deref_def upd_node_def free_node_def)
    moreover have "successively (link ?m2) ps"
      by (rule links_frame [OF link(2)]) (use neq p tl ep in \<open>auto simp: chain_simps pv_mem\<close>)
    then have "chain ?m2 (ps @ ns)"
      using ps neq by (simp add: chain_def Nil p chain_simps nb)
    ultimately show ?thesis
      using ep neq p by (intro exI [of _ ?m2]) auto
  next
    case (Cons n ns')
    then have lk: "link m b n" "chain m ns" using link(3) by (simp_all add: chain_Cons)
    then obtain en where nb: "enext eb = Some n" and en: "m n = Some en" using eb
      by (auto simp: link_def nx_def pv_def)
    have nn: "n \<noteq> p" "n \<noteq> b" "n \<notin> set xs" "n \<in> set ns" using neq Cons by auto
    let ?m2 = "?m1(n \<mapsto> en\<lparr>eprev := Some p\<rparr>)" let ?m3 = "?m2(b := None)"
    have "unlink_entry m b = Inr ?m3"
      using ep eb nb neq nn en by (simp add: unlink_entry_def deref_def upd_node_def free_node_def)
    moreover have "successively (link ?m3) ps"
      by (rule links_frame [OF link(2)]) (use neq nn p tl ep in \<open>auto simp: chain_simps pv_mem\<close>)
    moreover have "chain ?m3 ns"
    proof -
      have "successively (link m) ns" using lk(2) by (simp add: chain_def)
      moreover have "nx ?m3 a = nx m a" if "a \<in> set ns" for a
        using that neq en by (auto simp: chain_simps nx_mem)
      moreover have "pv ?m3 a = pv m a" if "a \<in> set (tl ns)" for a
      proof -
        have "a \<noteq> n" "a \<noteq> p" "a \<noteq> b" using that dist p Cons by auto
        then show ?thesis by (simp add: chain_simps)
      qed
      ultimately have "successively (link ?m3) ns" by (metis links_frame in_set_butlastD)
      moreover have "nx ?m3 (last ns) = nx m (last ns)"
        using neq nn Cons en by (auto simp: chain_simps nx_mem)
      ultimately show ?thesis using lk(2) by (simp add: chain_def)
    qed
    ultimately have "chain ?m3 (ps @ ns)"
      using ps Cons neq nn by (simp add: chain_split) (simp add: p link_def chain_simps nb)
    then show ?thesis
      using \<open>unlink_entry m b = Inr ?m3\<close> ep en neq nn p by (intro exI [of _ ?m3]) auto
  qed
qed

section \<open>The invariant and the abstract dictionary\<close>

definition hash_size :: "hash_table \<Rightarrow> nat" where
  "hash_size ht = nat (sint (tlen ht) + 1)"

text \<open>Key and value of an entry.\<close>

definition kv :: "heap \<Rightarrow> nat \<Rightarrow> (u32 \<times> u32) option" where
  "kv m c = map_option (\<lambda>e. (ekey e, evalue e)) (m (Cell c))"

text \<open>
  What the size and the caller's functions have to satisfy: the size is a positive int,
  comparing is an equivalence, equal keys hash alike, and the remainder of every hash value is
  an index of the table.
\<close>

definition hash_funs_ok :: "hash_table \<Rightarrow> bool" where
  "hash_funs_ok ht \<longleftrightarrow>
     0 \<le> sint (tlen ht) \<and> sint (tlen ht) < 2 ^ 31 - 1 \<and> equivp (hash_match ht) \<and>
     (\<forall>j k. hash_match ht j k \<longrightarrow> hash_index ht j = hash_index ht k) \<and>
     (\<forall>k. \<exists>i < hash_size ht. hash_index ht k = Inr i)"

definition hash_chains :: "hash_table \<Rightarrow> (nat \<Rightarrow> nat list) \<Rightarrow> bool" where
  "hash_chains ht cs \<longleftrightarrow>
     (\<forall>i < hash_size ht. chain (mem ht) (Head i # map Cell (cs i)) \<and> distinct (cs i) \<and>
        (\<forall>c \<in> set (cs i). \<exists>k v. kv (mem ht) c = Some (k, v) \<and> hash_index ht k = Inr i)) \<and>
     (\<forall>c. kv (mem ht) c \<noteq> None \<longrightarrow> (\<exists>i < hash_size ht. c \<in> set (cs i))) \<and>
     (\<forall>i. mem ht (Head i) \<noteq> None \<longleftrightarrow> i < hash_size ht) \<and>
     (\<forall>c k v d k' v'. kv (mem ht) c = Some (k, v) \<longrightarrow> kv (mem ht) d = Some (k', v') \<longrightarrow>
        hash_match ht k k' \<longrightarrow> c = d)"

definition hash_repr :: "hash_table \<Rightarrow> (u32 \<Rightarrow> u32 option) \<Rightarrow> bool" where
  "hash_repr ht M \<longleftrightarrow> hash_funs_ok ht \<and> (\<exists>cs. hash_chains ht cs) \<and>
     (\<forall>k v. M k = Some v \<longleftrightarrow> (\<exists>c k'. kv (mem ht) c = Some (k', v) \<and> hash_match ht k' k))"

lemma mem_update_simps [simp]:
  "hash_match (ht\<lparr>mem := m\<rparr>) = hash_match ht" "hash_index (ht\<lparr>mem := m\<rparr>) = hash_index ht"
  "hash_size (ht\<lparr>mem := m\<rparr>) = hash_size ht"
  by (auto simp: fun_eq_iff hash_match_def hash_index_def hash_size_def split: option.split)

lemma mem_update_funs_ok [simp]: "hash_funs_ok (ht\<lparr>mem := m\<rparr>) = hash_funs_ok ht"
  by (simp add: hash_funs_ok_def)

lemma hash_chainsD:
  assumes "hash_chains ht cs"
  shows "i < hash_size ht \<Longrightarrow> chain (mem ht) (Head i # map Cell (cs i))"
    and "i < hash_size ht \<Longrightarrow> distinct (cs i)"
    and "i < hash_size ht \<Longrightarrow> c \<in> set (cs i) \<Longrightarrow> \<exists>k v. kv (mem ht) c = Some (k, v) \<and> hash_index ht k = Inr i"
    and "kv (mem ht) c = Some p \<Longrightarrow> \<exists>i < hash_size ht. c \<in> set (cs i)"
    and "mem ht (Head i) \<noteq> None \<longleftrightarrow> i < hash_size ht"
    and "kv (mem ht) c = Some (k, v) \<Longrightarrow> kv (mem ht) d = Some (k', v') \<Longrightarrow> hash_match ht k k' \<Longrightarrow> c = d"
  using assms unfolding hash_chains_def by blast+

lemma chains_disjoint:
  assumes "hash_chains ht cs" "i < hash_size ht" "j < hash_size ht" "c \<in> set (cs i)" "c \<in> set (cs j)"
  shows "i = j"
  using hash_chainsD(3) [OF assms(1,2,4)] hash_chainsD(3) [OF assms(1,3,5)] by auto

lemma kv_Some: "kv m c = Some (k, v) \<longleftrightarrow> (\<exists>e. m (Cell c) = Some e \<and> ekey e = k \<and> evalue e = v)"
  by (auto simp: kv_def)

lemma hash_search_spec:
  assumes ok: "hash_funs_ok ht" and cs: "hash_chains ht cs" and i: "hash_index ht key = Inr i" "i < hash_size ht"
  obtains c k v where "hash_search ht key = Inr (True, Cell c)" "c \<in> set (cs i)"
      "kv (mem ht) c = Some (k, v)" "hash_match ht k key"
    | "hash_search ht key = Inr (False, last (Head i # map Cell (cs i)))"
      "\<And>c k v. kv (mem ht) c = Some (k, v) \<Longrightarrow> \<not> hash_match ht k key"
proof -
  let ?P = "\<lambda>b. hash_match ht (ekey (the (mem ht b))) key"
  note walk = hash_walk_chain [OF hash_chainsD(1) [OF cs i(2)], of "\<lambda>k. hash_match ht k key"]
  show thesis
  proof (cases "find ?P (map Cell (cs i))")
    case (Some b)
    then obtain c where c: "b = Cell c" "c \<in> set (cs i)" "?P b"
      by (auto simp: find_Some_iff)
    then show thesis
      using that(1) hash_chainsD(3) [OF cs i(2) c(2)] Some i(1) walk
      by (auto simp: hash_search_def loop_result_def kv_Some)
  next
    case None
    have "\<not> hash_match ht k key" if kv: "kv (mem ht) c = Some (k, v)" for c k v
    proof
      assume m: "hash_match ht k key"
      then have "hash_index ht k = Inr i" using ok i(1) by (auto simp: hash_funs_ok_def)
      moreover obtain j where "j < hash_size ht" "c \<in> set (cs j)" using hash_chainsD(4) [OF cs kv] by auto
      ultimately have "c \<in> set (cs i)" using hash_chainsD(3) [OF cs] kv by fastforce
      then show False using None m kv by (auto simp: find_None_iff kv_Some)
    qed
    then show thesis
      using that(2) None i(1) walk by (simp add: hash_search_def loop_result_def)
  qed
qed

lemma hash_reprD:
  assumes "hash_repr ht M"
  shows "hash_funs_ok ht" and "\<exists>cs. hash_chains ht cs"
    and "M k = Some v \<longleftrightarrow> (\<exists>c k'. kv (mem ht) c = Some (k', v) \<and> hash_match ht k' k)"
    and "\<exists>i < hash_size ht. hash_index ht k = Inr i"
  using assms by (auto simp: hash_repr_def hash_funs_ok_def)

lemma repr_search:
  assumes r: "hash_repr ht M"
  obtains cs i c k' v where "hash_chains ht cs" "i < hash_size ht" "hash_index ht k = Inr i" "M k = Some v"
      "hash_search ht k = Inr (True, Cell c)" "c \<in> set (cs i)" "kv (mem ht) c = Some (k', v)" "hash_match ht k' k"
    | cs i where "hash_chains ht cs" "i < hash_size ht" "hash_index ht k = Inr i" "M k = None"
      "hash_search ht k = Inr (False, last (Head i # map Cell (cs i)))"
proof -
  obtain cs where cs: "hash_chains ht cs" using hash_reprD(2) [OF r] by blast
  obtain i where i: "i < hash_size ht" "hash_index ht k = Inr i" using hash_reprD(4) [OF r] by blast
  show thesis
  proof (rule hash_search_spec [OF hash_reprD(1) [OF r] cs i(2,1)])
    fix c k' v assume "hash_search ht k = Inr (True, Cell c)" "c \<in> set (cs i)" "kv (mem ht) c = Some (k', v)" "hash_match ht k' k"
    then show thesis using that(1) [OF cs i] hash_reprD(3) [OF r] by blast
  next
    assume "hash_search ht k = Inr (False, last (Head i # map Cell (cs i)))"
      and "\<And>c k' v. kv (mem ht) c = Some (k', v) \<Longrightarrow> \<not> hash_match ht k' k"
    then show thesis using that(2) [OF cs i] hash_reprD(3) [OF r, of k] by (metis not_None_eq)
  qed
qed

section \<open>Lookup, enter, remove\<close>

lemma hash_lookup_repr:
  assumes "hash_repr ht M"
  shows "hash_lookup ht k = Inr (case M k of None \<Rightarrow> 0 | Some v \<Rightarrow> v)"
  using assms by (rule repr_search [of _ _ k]) (auto simp: hash_lookup_def deref_def kv_Some)

lemma match_equiv:
  assumes "hash_funs_ok ht"
  shows "hash_match ht k k" "hash_match ht j k \<Longrightarrow> hash_match ht k j"
    "hash_match ht i j \<Longrightarrow> hash_match ht j k \<Longrightarrow> hash_match ht i k"
    "hash_match ht j k \<Longrightarrow> hash_index ht j = hash_index ht k"
  using assms by (auto simp: hash_funs_ok_def elim: equivp_reflp equivp_symp equivp_transp)

lemma chain_nodes:
  assumes "hash_chains ht cs" "i < hash_size ht" "last (Head i # map Cell (cs i)) = z"
  shows "mem ht z \<noteq> None" "z \<in> set (Head i # map Cell (cs i))"
proof -
  show "z \<in> set (Head i # map Cell (cs i))" using assms(3) last_in_set by blast
  then show "mem ht z \<noteq> None" by (rule chain_mem [OF hash_chainsD(1) [OF assms(1,2)]])
qed

lemma other_chain:
  assumes "hash_chains ht cs" "i < hash_size ht" "j < hash_size ht" "i \<noteq> j"
  shows "set (Head i # map Cell (cs i)) \<inter> set (Head j # map Cell (cs j)) = {}"
  using chains_disjoint [OF assms(1-3)] assms(4) by auto

lemma hash_chains_enter:
  assumes cs: "hash_chains ht cs" and i: "i < hash_size ht" "hash_index ht k = Inr i"
    and none: "\<And>c k' v'. kv (mem ht) c = Some (k', v') \<Longrightarrow> \<not> hash_match ht k' k"
    and ok: "hash_funs_ok ht" and fresh: "mem ht (Cell c) = None"
    and z: "z = last (Head i # map Cell (cs i))" "mem ht z = Some ez"
  shows "hash_chains (ht\<lparr>mem := (mem ht)(z \<mapsto> ez\<lparr>enext := Some (Cell c)\<rparr>,
      Cell c \<mapsto> \<lparr>ekey = k, evalue = v, enext = None, eprev = Some z\<rparr>)\<rparr>) (cs(i := cs i @ [c]))"
    and "kv ((mem ht)(z \<mapsto> ez\<lparr>enext := Some (Cell c)\<rparr>,
      Cell c \<mapsto> \<lparr>ekey = k, evalue = v, enext = None, eprev = Some z\<rparr>)) = (kv (mem ht))(c \<mapsto> (k, v))"
proof -
  let ?m = "(mem ht)(z \<mapsto> ez\<lparr>enext := Some (Cell c)\<rparr>,
      Cell c \<mapsto> \<lparr>ekey = k, evalue = v, enext = None, eprev = Some z\<rparr>)"
  have zc: "z \<noteq> Cell c" using fresh z(2) by auto
  show kv: "kv ?m = (kv (mem ht))(c \<mapsto> (k, v))"
    using z(2) by (auto simp: fun_eq_iff kv_def)
  have notin: "c \<notin> set (cs j)" if "j < hash_size ht" for j
    using hash_chainsD(3) [OF cs that, of c] fresh by (auto simp: kv_Some)
  have dist: "distinct (Head i # map Cell (cs i))"
    using hash_chainsD(2) [OF cs i(1)] by (auto simp: distinct_map inj_on_def)
  have new: "chain ?m ((Head i # map Cell (cs i)) @ [Cell c])"
    using chain_append [OF hash_chainsD(1) [OF cs i(1)] z(2,1) _ dist] notin [OF i(1)] by auto
  have old: "chain ?m (Head j # map Cell (cs j))" if j: "j < hash_size ht" "j \<noteq> i" for j
  proof (rule chain_frame [OF hash_chainsD(1) [OF cs j(1)]])
    fix a assume "a \<in> set (Head j # map Cell (cs j))"
    moreover have "z \<in> set (Head i # map Cell (cs i))" by (simp only: z(1)) (rule last_in_set, simp)
    ultimately have "a \<noteq> z" "a \<noteq> Cell c"
      using other_chain [OF cs j(1) i(1) j(2)] notin [OF j(1)] by auto
    then show "nx ?m a = nx (mem ht) a \<and> pv ?m a = pv (mem ht) a" by (simp add: chain_simps)
  qed
  have keys: "\<exists>k' v'. kv ?m d = Some (k', v') \<and> hash_index ht k' = Inr j"
    if "j < hash_size ht" "d \<in> set ((cs(i := cs i @ [c])) j)" for j d
    using that hash_chainsD(3) [OF cs that(1), of d] i notin [OF that(1)] unfolding kv by (auto split: if_splits)
  have uniq: "d = d'" if "kv ?m d = Some (k1, v1)" "kv ?m d' = Some (k2, v2)" "hash_match ht k1 k2" for d d' k1 k2 v1 v2
    using that hash_chainsD(6) [OF cs, of d k1 v1 d' k2 v2] none match_equiv(2) [OF ok] unfolding kv
    by (auto split: if_splits) blast
  have "mem ht (Head j) \<noteq> None \<longleftrightarrow> ?m (Head j) \<noteq> None" for j using z(2) by auto
  then have heads: "?m (Head j) \<noteq> None \<longleftrightarrow> j < hash_size ht" for j using hash_chainsD(5) [OF cs] by blast
  have placed: "\<exists>j < hash_size ht. d \<in> set ((cs(i := cs i @ [c])) j)" if "kv ?m d \<noteq> None" for d
    using that hash_chainsD(4) [OF cs, of d] i(1) unfolding kv by (auto split: if_splits)
  show "hash_chains (ht\<lparr>mem := ?m\<rparr>) (cs(i := cs i @ [c]))"
    unfolding hash_chains_def mem_update_simps hash_table.select_convs
    using new old keys uniq heads placed hash_chainsD(2) [OF cs] notin [OF i(1)] by auto
qed


lemma hash_enter_repr:
  assumes r: "hash_repr ht M" and fresh: "mem ht (Cell c) = None"
  shows "\<exists>ht'. hash_enter (Some c) ht k v = Inr (M k = None, ht') \<and> hash_match ht' = hash_match ht \<and>
    hash_repr ht' (if M k = None then (\<lambda>k'. if hash_match ht k k' then Some v else M k') else M)"
proof (rule repr_search [OF r, of k])
  fix cs i c' k' v' assume "M k = Some v'" "hash_search ht k = Inr (True, Cell c')"
  then show ?thesis using r by (simp add: hash_enter_def)
next
  fix cs i
  assume cs: "hash_chains ht cs" and i: "i < hash_size ht" "hash_index ht k = Inr i" and M: "M k = None"
    and s: "hash_search ht k = Inr (False, last (Head i # map Cell (cs i)))"
  note ok = hash_reprD(1) [OF r]
  define z where "z = last (Head i # map Cell (cs i))"
  obtain ez where ez: "mem ht z = Some ez" using chain_nodes(1) [OF cs i(1)] z_def by blast
  have none: "\<not> hash_match ht k' k" if "kv (mem ht) d = Some (k', v')" for d k' v'
    using that hash_reprD(3) [OF r, of k v'] M by auto
  let ?m = "(mem ht)(z \<mapsto> ez\<lparr>enext := Some (Cell c)\<rparr>,
      Cell c \<mapsto> \<lparr>ekey = k, evalue = v, enext = None, eprev = Some z\<rparr>)"
  have new: "hash_chains (ht\<lparr>mem := ?m\<rparr>) (cs(i := cs i @ [c]))" "kv ?m = (kv (mem ht))(c \<mapsto> (k, v))"
    by (rule hash_chains_enter [OF cs i _ ok fresh z_def ez]; erule none)+
  have "hash_enter (Some c) ht k v = Inr (True, ht\<lparr>mem := ?m\<rparr>)"
    using ez by (simp only: hash_enter_def s bindE_Inr prod.case z_def [symmetric] upd_node_def)
      (simp add: z_def [symmetric])
  moreover have "kv (mem ht) c = None" using fresh by (simp add: kv_def)
  have "(if hash_match ht k k' then Some v else M k') = Some w \<longleftrightarrow>
      (\<exists>d j. ((kv (mem ht))(c \<mapsto> (k, v))) d = Some (j, w) \<and> hash_match ht j k')" for k' w
  proof (cases "hash_match ht k k'")
    case True
    then have "\<not> hash_match ht j k'" if "kv (mem ht) d = Some (j, w)" for d j
      using none [OF that] match_equiv(2,3) [OF ok] by blast
    with True show ?thesis by (auto split: if_splits)
  next
    case False
    then show ?thesis
      using hash_reprD(3) [OF r, of k' w] \<open>kv (mem ht) c = None\<close> by (auto split: if_splits) (metis option.distinct(1))
  qed
  then have "hash_repr (ht\<lparr>mem := ?m\<rparr>) (\<lambda>k'. if hash_match ht k k' then Some v else M k')"
    using new ok unfolding hash_repr_def mem_update_funs_ok mem_update_simps by (simp del: fun_upd_apply) blast
  ultimately show ?thesis using M by auto
qed

lemma hash_chains_remove:
  assumes cs: "hash_chains ht cs" and i: "i < hash_size ht" and c: "c \<in> set (cs i)"
  shows "\<exists>m. unlink_entry (mem ht) (Cell c) = Inr m \<and> kv m = (kv (mem ht))(c := None) \<and>
    hash_chains (ht\<lparr>mem := m\<rparr>) (cs(i := remove1 c (cs i)))"
proof -
  obtain xs ys where xy: "cs i = xs @ c # ys" "c \<notin> set xs" using split_list_first [OF c] by blast
  have dist: "distinct ((Head i # map Cell xs) @ Cell c # map Cell ys)"
    using hash_chainsD(2) [OF cs i] xy by (auto simp: distinct_map inj_on_def)
  have "chain (mem ht) ((Head i # map Cell xs) @ Cell c # map Cell ys)"
    using hash_chainsD(1) [OF cs i] xy by simp
  from unlink_chain [OF this _ dist] obtain m where m: "unlink_entry (mem ht) (Cell c) = Inr m"
    and ch: "chain m (Head i # map Cell (xs @ ys))" and gone: "m (Cell c) = None"
    and frame: "\<And>a. a \<notin> set (Head i # map Cell (cs i)) \<Longrightarrow> m a = mem ht a"
    and data: "\<And>a. a \<noteq> Cell c \<Longrightarrow> map_option (\<lambda>e. (ekey e, evalue e)) (m a) = map_option (\<lambda>e. (ekey e, evalue e)) (mem ht a)"
    using xy by auto
  have kv: "kv m = (kv (mem ht))(c := None)"
    using gone data by (auto simp: fun_eq_iff kv_def)
  have rem: "remove1 c (cs i) = xs @ ys" using xy by (simp add: remove1_append)
  have old: "chain m (Head j # map Cell (cs j))" if j: "j < hash_size ht" "j \<noteq> i" for j
  proof (rule chain_frame [OF hash_chainsD(1) [OF cs j(1)]])
    fix a assume "a \<in> set (Head j # map Cell (cs j))"
    then have "m a = mem ht a" using other_chain [OF cs j(1) i j(2)] by (intro frame) blast
    then show "nx m a = nx (mem ht) a \<and> pv m a = pv (mem ht) a" by (simp add: nx_def pv_def)
  qed
  have cdist: "c \<notin> set (xs @ ys)" "distinct (xs @ ys)" using hash_chainsD(2) [OF cs i] xy by auto
  have cj: "c \<notin> set (cs j)" if "j < hash_size ht" "j \<noteq> i" for j
    using chains_disjoint [OF cs that(1) i _ c] that(2) by blast
  have keys: "\<exists>k' v'. kv m d = Some (k', v') \<and> hash_index ht k' = Inr j"
    if "j < hash_size ht" "d \<in> set ((cs(i := xs @ ys)) j)" for j d
    using that hash_chainsD(3) [OF cs that(1), of d] cj [of j] cdist xy unfolding kv by (auto split: if_splits)
  have heads: "m (Head j) \<noteq> None \<longleftrightarrow> j < hash_size ht" for j
    using data [of "Head j"] hash_chainsD(5) [OF cs, of j] by (cases "m (Head j)"; cases "mem ht (Head j)") auto
  have placed: "\<exists>j < hash_size ht. d \<in> set ((cs(i := xs @ ys)) j)" if "kv m d \<noteq> None" for d
    using that hash_chainsD(4) [OF cs, of d] xy i unfolding kv by (fastforce split: if_splits)
  have uniq: "d = d'" if "kv m d = Some (k1, v1)" "kv m d' = Some (k2, v2)" "hash_match ht k1 k2" for d d' k1 k2 v1 v2
    using that hash_chainsD(6) [OF cs, of d k1 v1 d' k2 v2] unfolding kv by (auto split: if_splits)
  have "hash_chains (ht\<lparr>mem := m\<rparr>) (cs(i := xs @ ys))"
    unfolding hash_chains_def mem_update_simps hash_table.select_convs
    using ch old keys heads placed uniq cdist hash_chainsD(2) [OF cs] by auto
  then show ?thesis using m kv rem by auto
qed

lemma hash_remove_repr:
  assumes r: "hash_repr ht M"
  shows "\<exists>ht'. hash_remove ht k = Inr (M k \<noteq> None, ht') \<and> hash_match ht' = hash_match ht \<and>
    hash_repr ht' (\<lambda>k'. if hash_match ht k k' then None else M k')"
proof (rule repr_search [OF r, of k])
  note ok = hash_reprD(1) [OF r]
  fix cs i c k0 v
  assume cs: "hash_chains ht cs" and i: "i < hash_size ht" and M: "M k = Some v"
    and s: "hash_search ht k = Inr (True, Cell c)" and c: "c \<in> set (cs i)"
    and kv0: "kv (mem ht) c = Some (k0, v)" "hash_match ht k0 k"
  obtain m where m: "unlink_entry (mem ht) (Cell c) = Inr m" "kv m = (kv (mem ht))(c := None)"
    "hash_chains (ht\<lparr>mem := m\<rparr>) (cs(i := remove1 c (cs i)))"
    using hash_chains_remove [OF cs i c] by blast
  have "(if hash_match ht k k' then None else M k') = Some w \<longleftrightarrow>
      (\<exists>d j. kv m d = Some (j, w) \<and> hash_match ht j k')" for k' w
  proof -
    have "d = c" if "kv (mem ht) d = Some (j, w')" "hash_match ht j k'" "hash_match ht k k'" for d j w'
      using hash_chainsD(6) [OF cs that(1) kv0(1)] that match_equiv [OF ok] kv0(2) by metis
    moreover have "\<not> hash_match ht k k' \<Longrightarrow> \<not> hash_match ht k0 k'"
      using kv0(2) match_equiv [OF ok] by metis
    moreover have "kv m d = Some (j, w) \<longleftrightarrow> kv (mem ht) d = Some (j, w) \<and> d \<noteq> c" for d j
      unfolding m(2) by auto
    ultimately show ?thesis
      using hash_reprD(3) [OF r, of k' w] kv0(1) by (metis option.distinct(1) option.inject prod.inject)
  qed
  then have "hash_repr (ht\<lparr>mem := m\<rparr>) (\<lambda>k'. if hash_match ht k k' then None else M k')"
    using m ok unfolding hash_repr_def mem_update_funs_ok mem_update_simps hash_table.select_convs by auto
  then show ?thesis using m s M by (auto simp: hash_remove_def)
next
  note ok = hash_reprD(1) [OF r]
  fix cs i
  assume M: "M k = None" and s: "hash_search ht k = Inr (False, last (Head i # map Cell (cs i)))"
  have "M k' = None" if "hash_match ht k k'" for k'
    using hash_reprD(3) [OF r, of k'] hash_reprD(3) [OF r, of k] M that match_equiv [OF ok]
    by (metis option.exhaust)
  then have "(\<lambda>k'. if hash_match ht k k' then None else M k') = M" by auto
  then show ?thesis using s M r by (simp add: hash_remove_def)
qed

section \<open>Creating a table\<close>

lemma hash_index_default:
  assumes "hashfun ht = None" "0 \<le> sint (tlen ht)"
  shows "\<exists>i < hash_size ht. hash_index ht k = Inr i"
proof -
  have t: "unat (tlen ht) < 2 ^ 31" using assms(2) by (simp only: sint_nonneg_u32)
  have le: "unat (k AND tlen ht) \<le> unat (tlen ht)"
    using word_and_le1 [of k "tlen ht"] by (simp add: word_le_nat_alt)
  then have "sint (k AND tlen ht) = int (unat (k AND tlen ht))" "sint (tlen ht) = int (unat (tlen ht))"
    using t by (intro sint_small_u32; simp)+
  then show ?thesis using assms(1) le by (simp add: hash_index_def hash_size_def nat_add_distrib del: of_nat_unat)
qed

lemma hash_index_fun:
  assumes h: "hashfun ht = Some h" "\<And>k. 0 \<le> sint (h k)" and t: "0 \<le> sint (tlen ht)" "sint (tlen ht) < 2 ^ 31 - 1"
  shows "hash_index ht k = Inr (nat (sint (h k) mod (sint (tlen ht) + 1)))"
    and "nat (sint (h k) mod (sint (tlen ht) + 1)) < hash_size ht"
proof -
  have s: "sint (tlen ht + 1) = sint (tlen ht) + 1" by (rule sint_succ_u32 [OF t])
  then have "tlen ht + 1 \<noteq> 0" using t(1) by (metis add_nonneg_pos less_irrefl sint_0 zero_less_one)
  moreover have "signed_modulo (sint (h k)) (sint (tlen ht) + 1) = sint (h k) mod (sint (tlen ht) + 1)"
    using h(2) [of k] t(1) by (cases "sint (h k) = 0") (simp_all add: signed_modulo_int_def)
  ultimately show "hash_index ht k = Inr (nat (sint (h k) mod (sint (tlen ht) + 1)))"
    using h(1) t(1) pos_mod_sign [of "sint (tlen ht) + 1" "sint (h k)"]
    by (simp add: hash_index_def s Let_def not_less)
  show "nat (sint (h k) mod (sint (tlen ht) + 1)) < hash_size ht"
    using t(1) pos_mod_bound [of "sint (tlen ht) + 1" "sint (h k)"] by (simp add: hash_size_def nat_less_iff)
qed

text \<open>
  The two ways to use the package: with the default functions, and with a compare function
  that is an equivalence and a hash function that respects it and is never negative.
\<close>

definition caller_ok :: "(u32 \<Rightarrow> u32) option \<Rightarrow> (u32 \<Rightarrow> u32 \<Rightarrow> bool) option \<Rightarrow> bool" where
  "caller_ok hf cf \<longleftrightarrow>
     (case cf of None \<Rightarrow> True | Some c \<Rightarrow> equivp c \<and>
        (\<forall>j k. c j k \<longrightarrow> (case hf of None \<Rightarrow> j = k | Some h \<Rightarrow> h j = h k))) \<and>
     (case hf of None \<Rightarrow> True | Some h \<Rightarrow> (\<forall>k. 0 \<le> sint (h k)))"

lemma hash_funs_okI:
  assumes c: "caller_ok (hashfun ht) (hashcompare ht)" and t: "0 \<le> sint (tlen ht)" "sint (tlen ht) < 2 ^ 31 - 1"
  shows "hash_funs_ok ht"
proof -
  have eq: "equivp (hash_match ht)"
    using c identity_equivp by (auto simp: caller_ok_def hash_match_def [abs_def] split: option.splits)
  have idx: "hash_index ht j = hash_index ht k" if "hash_match ht j k" for j k
  proof (cases "hashfun ht")
    case None
    then have "j = k" using c that by (auto simp: caller_ok_def hash_match_def split: option.splits)
    then show ?thesis by simp
  next
    case (Some h)
    then have "h j = h k" using c that by (auto simp: caller_ok_def hash_match_def split: option.splits)
    then show ?thesis using Some by (simp add: hash_index_def)
  qed
  have "\<exists>i < hash_size ht. hash_index ht k = Inr i" for k
  proof (cases "hashfun ht")
    case None
    then show ?thesis using t(1) by (rule hash_index_default)
  next
    case (Some h)
    moreover have "0 \<le> sint (h k)" for k using c Some by (auto simp: caller_ok_def split: option.splits)
    ultimately show ?thesis using hash_index_fun [OF Some _ t] by blast
  qed
  then show ?thesis using eq idx t unfolding hash_funs_ok_def by blast
qed

lemma headers_allocated: "unat (sz * 16) div 16 = unat (sz :: u32) mod 2 ^ 28"
proof -
  have "unat (sz * 16) = unat sz mod 2 ^ 28 * 16" by (simp add: unat_word_ariths mult_mod_left)
  then show ?thesis by simp
qed

lemma headers_short: "unat (sz * 16) div 16 < unat (sz :: u32) \<longleftrightarrow> 2 ^ 28 \<le> unat sz"
proof (cases "unat sz < 2 ^ 28")
  case False
  moreover have "unat sz mod 2 ^ 28 < 2 ^ 28" by simp
  ultimately show ?thesis unfolding headers_allocated by linarith
qed (simp add: headers_allocated)

lemma hash_init_repr:
  assumes "caller_ok hf cf" "0 < unat sz" "unat sz < 2 ^ 28"
  shows "\<exists>ht. hash_init hf cf sz True True junk = Inr ht \<and> hash_repr ht (\<lambda>k. None) \<and>
    hashfun ht = hf \<and> hashcompare ht = cf \<and> finite (dom (mem ht))"
proof -
  have room: "\<not> unat (sz * 16) div 16 < unat sz" using assms(3) unfolding headers_short by simp
  then obtain ht where ht: "hash_init hf cf sz True True junk = Inr ht" by (simp add: hash_init_def)
  then have f: "hashfun ht = hf" "hashcompare ht = cf" "tlen ht = sz - 1"
    and m: "mem ht = (\<lambda>a. case a of
      Head i \<Rightarrow> if i < unat sz then Some ((junk i)\<lparr>enext := None, ekey := HASH_INVALID\<rparr>) else None | Cell c \<Rightarrow> None)"
    using room by (auto simp: hash_init_def)
  have "sz \<noteq> 0" using assms(2) by auto
  then have u: "unat (tlen ht) = unat sz - 1" by (simp add: f unat_minus_one)
  then have t: "sint (tlen ht) = int (unat sz) - 1" using assms(2,3) by (subst sint_small_u32) simp_all
  then have size: "hash_size ht = unat sz" by (simp add: hash_size_def)
  have ok: "hash_funs_ok ht"
    by (rule hash_funs_okI) (use assms(1) f(1,2) in simp, use assms(2,3) in \<open>simp_all only: t\<close>, simp_all del: of_nat_unat)
  have "hash_chains ht (\<lambda>i. [])"
    by (auto simp: hash_chains_def size m chain_single nx_def kv_def)
  then have "hash_repr ht (\<lambda>k. None)"
    using ok by (auto simp: hash_repr_def kv_def m)
  moreover have "dom (mem ht) \<subseteq> Head ` {..<unat sz}" by (auto simp: m split: node.splits if_splits)
  then have "finite (dom (mem ht))" by (rule finite_subset) simp
  ultimately show ?thesis using ht f by auto
qed

section \<open>Freeing a table\<close>

lemma free_chain_list:
  "chain m ns \<Longrightarrow> distinct ns \<Longrightarrow> free_chain m (Some (hd ns)) = Some (Inr (\<lambda>x. if x \<in> set ns then None else m x))"
proof (induction ns arbitrary: m)
  case (Cons a ns)
  then obtain e where e: "m a = Some e" using chain_mem [of m "a # ns" a] by auto
  show ?case
  proof (cases ns)
    case Nil
    then have "enext e = None" using Cons.prems(1) e by (simp add: chain_single nx_mem)
    then show ?thesis
      using Nil e by (subst free_chain.simps) (simp add: free_chain.simps [of _ None] fun_eq_iff)
  next
    case (Cons b ns')
    then have n: "enext e = Some (hd ns)" and c: "chain m ns"
      using Cons.prems(1) e by (simp_all add: chain_Cons link_def nx_mem)
    have "chain (m(a := None)) ns"
      by (rule chain_frame [OF c]) (use Cons.prems(2) in \<open>auto simp: chain_simps\<close>)
    then have "free_chain (m(a := None)) (enext e) = Some (Inr (\<lambda>x. if x \<in> set ns then None else (m(a := None)) x))"
      using Cons.IH Cons.prems(2) n by simp
    then show ?thesis
      using e by (subst free_chain.simps) (auto simp: fun_eq_iff)
  qed
qed (simp add: chain_def)

lemma free_header_chain:
  assumes "chain m (Head i # ns)" "distinct (Head i # ns)" "m (Head i) = Some e"
  shows "loop_result (free_chain m (enext e)) = Inr (\<lambda>x. if x \<in> set ns then None else m x)"
proof (cases ns)
  case Nil
  then have "enext e = None" using assms by (simp add: chain_single nx_mem)
  then show ?thesis using Nil by (subst free_chain.simps) (simp add: loop_result_def)
next
  case (Cons b ns')
  then have "enext e = Some (hd ns)" "chain m ns"
    using assms by (simp_all add: chain_Cons link_def nx_mem)
  then show ?thesis using free_chain_list [of m ns] assms(2) by (simp add: loop_result_def)
qed

lemma free_headers_chains:
  assumes disj: "\<And>j j'. j < N \<Longrightarrow> j' < N \<Longrightarrow> j \<noteq> j' \<Longrightarrow> set (cs j) \<inter> set (cs j') = {}"
    and dist: "\<And>j. j < N \<Longrightarrow> distinct (cs j)"
  shows "i + n = N \<Longrightarrow> (\<And>j. i \<le> j \<Longrightarrow> j < N \<Longrightarrow> chain m (Head j # map Cell (cs j))) \<Longrightarrow>
    free_headers n i m = Inr (\<lambda>x. if \<exists>j c. i \<le> j \<and> j < N \<and> c \<in> set (cs j) \<and> x = Cell c then None else m x)"
proof (induction n arbitrary: i m)
  case 0
  then show ?case by (auto simp: fun_eq_iff)
next
  case (Suc n)
  then have c: "chain m (Head i # map Cell (cs i))" and iN: "i < N" by simp_all
  obtain e where e: "m (Head i) = Some e" using chain_mem [OF c, of "Head i"] by auto
  let ?m = "\<lambda>x. if x \<in> set (map Cell (cs i)) then None else m x"
  have "distinct (Head i # map Cell (cs i))" using dist [OF iN] by (auto simp: distinct_map inj_on_def)
  then have f: "loop_result (free_chain m (enext e)) = Inr ?m" by (rule free_header_chain [OF c _ e])
  have "chain ?m (Head j # map Cell (cs j))" if "Suc i \<le> j" "j < N" for j
    by (rule chain_frame [OF Suc.prems(2)]) (use that disj [of i j] iN in \<open>auto simp: nx_def pv_def\<close>)
  then have IH: "free_headers n (Suc i) ?m
      = Inr (\<lambda>x. if \<exists>j c. Suc i \<le> j \<and> j < N \<and> c \<in> set (cs j) \<and> x = Cell c then None else ?m x)"
    using Suc.prems(1) by (intro Suc.IH) simp_all
  have "(\<lambda>x. if \<exists>j c. Suc i \<le> j \<and> j < N \<and> c \<in> set (cs j) \<and> x = Cell c then None else ?m x)
      = (\<lambda>x. if \<exists>j c. i \<le> j \<and> j < N \<and> c \<in> set (cs j) \<and> x = Cell c then None else m x)"
    using iN by (intro ext) (auto simp: le_eq_less_or_eq Suc_le_eq)
  with IH f e show ?case by (simp add: deref_def)
qed

lemma hash_free_repr:
  assumes r: "hash_repr ht M"
  shows "hash_free ht = Inr (\<lambda>a. None)"
proof -
  obtain cs where cs: "hash_chains ht cs" using hash_reprD(2) [OF r] by blast
  have "free_headers (hash_size ht) 0 (mem ht)
      = Inr (\<lambda>x. if \<exists>j c. 0 \<le> j \<and> j < hash_size ht \<and> c \<in> set (cs j) \<and> x = Cell c then None else mem ht x)"
    by (rule free_headers_chains) (use hash_chainsD(1,2) [OF cs] chains_disjoint [OF cs] in auto)
  then have "hash_free ht = Inr (\<lambda>a. case a of Head i \<Rightarrow> None
      | Cell c \<Rightarrow> if \<exists>j. j < hash_size ht \<and> c \<in> set (cs j) then None else mem ht (Cell c))"
    by (simp add: hash_free_def hash_size_def cong: node.case_cong)
  moreover have "(if \<exists>j. j < hash_size ht \<and> c \<in> set (cs j) then None else mem ht (Cell c)) = None" for c
    using hash_chainsD(4) [OF cs, of c] by (cases "mem ht (Cell c)") (auto simp: kv_def)
  ultimately show ?thesis by (simp add: fun_eq_iff cong: node.case_cong split: node.split)
qed

section \<open>Applying a function\<close>

lemma apply_chain_list:
  "chain m ns \<Longrightarrow> apply_chain m (Some (hd ns)) calls = Some (Inr (calls @ map (\<lambda>a. evalue (the (m a))) ns))"
proof (induction ns arbitrary: calls)
  case (Cons a ns)
  then obtain e where e: "m a = Some e" using chain_mem [of m "a # ns" a] by auto
  show ?case
  proof (cases ns)
    case Nil
    then have "enext e = None" using Cons.prems(1) e by (simp add: chain_single nx_mem)
    then show ?thesis using Nil e by (subst apply_chain.simps) (simp add: apply_chain.simps [of _ None])
  next
    case (Cons b ns')
    then have "enext e = Some (hd ns)" "chain m ns"
      using Cons.prems(1) e by (simp_all add: chain_Cons link_def nx_mem)
    then show ?thesis using e Cons.IH by (subst apply_chain.simps) simp
  qed
qed (simp add: chain_def)

lemma apply_headers_chains:
  "i + n = N \<Longrightarrow> (\<And>j. i \<le> j \<Longrightarrow> j < N \<Longrightarrow> chain m (Head j # map Cell (cs j))) \<Longrightarrow>
    apply_headers n i m calls
      = Inr (calls @ concat (map (\<lambda>j. map (\<lambda>c. evalue (the (m (Cell c)))) (cs j)) [i..<N]))"
proof (induction n arbitrary: i calls)
  case (Suc n)
  then have c: "chain m (Head i # map Cell (cs i))" and iN: "i < N" by simp_all
  obtain e where e: "m (Head i) = Some e" using chain_mem [OF c, of "Head i"] by auto
  have "loop_result (apply_chain m (enext e) calls) = Inr (calls @ map (\<lambda>c. evalue (the (m (Cell c)))) (cs i))"
  proof (cases "cs i")
    case Nil
    then have "enext e = None" using c e by (simp add: chain_single nx_mem)
    then show ?thesis using Nil by (subst apply_chain.simps) (simp add: loop_result_def)
  next
    case (Cons b bs)
    then have "enext e = Some (hd (map Cell (cs i)))" "chain m (map Cell (cs i))"
      using c e by (simp_all add: chain_Cons link_def nx_mem)
    then show ?thesis using apply_chain_list [of m "map Cell (cs i)" calls] by (simp add: loop_result_def)
  qed
  then show ?case
    using Suc.IH [of "Suc i"] Suc.prems e iN by (simp add: deref_def upt_conv_Cons)
qed simp

lemma hash_apply_repr:
  assumes r: "hash_repr ht M"
  shows "\<exists>cs. distinct cs \<and> set cs = {c. mem ht (Cell c) \<noteq> None} \<and>
    hash_apply ht = Inr (True, map (\<lambda>c. evalue (the (mem ht (Cell c)))) cs)"
proof -
  obtain cs where cs: "hash_chains ht cs" using hash_reprD(2) [OF r] by blast
  let ?all = "concat (map cs [0..<hash_size ht])"
  have "nat (sint (tlen ht + 1)) = hash_size ht"
    using hash_reprD(1) [OF r] by (simp add: hash_size_def hash_funs_ok_def sint_succ_u32)
  then have "hash_apply ht = Inr (True, map (\<lambda>c. evalue (the (mem ht (Cell c)))) ?all)"
    using apply_headers_chains [of 0 "hash_size ht" "hash_size ht" "mem ht" cs "[]"] hash_chainsD(1) [OF cs]
    by (simp add: hash_apply_def map_concat comp_def)
  moreover have "set ?all = {c. mem ht (Cell c) \<noteq> None}"
    using hash_chainsD(3,4) [OF cs] by (fastforce simp: kv_def)
  moreover have "distinct ?all"
    by (rule distinct_concat_upt) (use hash_chainsD(2) [OF cs] chains_disjoint [OF cs] in auto)
  ultimately show ?thesis by blast
qed

section \<open>The contract of a dictionary\<close>

text \<open>
  What the clients of the package rely on: a table represents a partial function on keys, up
  to the equivalence of keys of the table; entering, looking up and removing act on it as
  expected and never fault, as long as the allocator returns unused memory.
\<close>

locale dictionary =
  fixes repr :: "'t \<Rightarrow> ('k \<Rightarrow> 'v option) \<Rightarrow> bool"
    and same :: "'t \<Rightarrow> 'k \<Rightarrow> 'k \<Rightarrow> bool"
    and null :: 'v
    and fresh :: "'t \<Rightarrow> 'a \<Rightarrow> bool"
    and lookup :: "'t \<Rightarrow> 'k \<Rightarrow> 'v result"
    and enter :: "'a \<Rightarrow> 't \<Rightarrow> 'k \<Rightarrow> 'v \<Rightarrow> (bool \<times> 't) result"
    and remove :: "'t \<Rightarrow> 'k \<Rightarrow> (bool \<times> 't) result"
  assumes same_refl: "repr t M \<Longrightarrow> same t k k"
    and lookup_repr: "repr t M \<Longrightarrow> lookup t k = Inr (case M k of None \<Rightarrow> null | Some v \<Rightarrow> v)"
    and enter_repr: "repr t M \<Longrightarrow> fresh t a \<Longrightarrow> \<exists>t'. enter a t k v = Inr (M k = None, t') \<and> same t' = same t \<and>
      repr t' (if M k = None then (\<lambda>k'. if same t k k' then Some v else M k') else M)"
    and remove_repr: "repr t M \<Longrightarrow> \<exists>t'. remove t k = Inr (M k \<noteq> None, t') \<and> same t' = same t \<and>
      repr t' (\<lambda>k'. if same t k k' then None else M k')"
begin

lemma enter_lookup:
  assumes "repr t M" "fresh t a" "M k = None"
  shows "\<exists>t'. enter a t k v = Inr (True, t') \<and>
    (\<forall>k'. lookup t' k' = (if same t k k' then Inr v else lookup t k'))"
proof -
  from enter_repr [OF assms(1,2), of k v] assms(3) obtain t'
    where "enter a t k v = Inr (True, t')" "repr t' (\<lambda>k'. if same t k k' then Some v else M k')" by auto
  then show ?thesis using lookup_repr [of t'] lookup_repr [OF assms(1)] by auto
qed

lemma enter_twice:
  assumes "repr t M" "fresh t a" "M k = None" "enter a t k v = Inr (b, t')" "fresh t' a'"
  shows "\<exists>t''. enter a' t' k v' = Inr (False, t'') \<and> lookup t'' k = Inr v"
proof -
  from enter_repr [OF assms(1,2), of k v] assms(3,4) have r: "repr t' (\<lambda>k'. if same t k k' then Some v else M k')"
    by auto
  from enter_repr [OF r assms(5), of k v'] same_refl [OF assms(1)] obtain t''
    where "enter a' t' k v' = Inr (False, t'')" "repr t'' (\<lambda>k'. if same t k k' then Some v else M k')" by auto
  then show ?thesis using lookup_repr [of t''] same_refl [OF assms(1)] by auto
qed

lemma remove_lookup:
  assumes "repr t M"
  shows "\<exists>t'. remove t k = Inr (M k \<noteq> None, t') \<and>
    (\<forall>k'. lookup t' k' = (if same t k k' then Inr null else lookup t k'))"
proof -
  from remove_repr [OF assms, of k] obtain t' where "remove t k = Inr (M k \<noteq> None, t')"
    "repr t' (\<lambda>k'. if same t k k' then None else M k')" by auto
  then show ?thesis using lookup_repr [of t'] lookup_repr [OF assms] by auto
qed

end

interpretation hash: dictionary hash_repr hash_match 0 "\<lambda>ht c. mem ht (Cell c) = None" hash_lookup
    "\<lambda>c. hash_enter (Some c)" hash_remove
proof unfold_locales
  fix ht M k assume "hash_repr ht M"
  then show "hash_match ht k k" by (intro match_equiv hash_reprD(1))
qed (rule hash_lookup_repr hash_enter_repr hash_remove_repr; assumption)+

section \<open>Sequences of operations\<close>

datatype hash_op = Enter u32 u32 | Lookup u32 | Remove u32

datatype hash_ret = Entered bool | Found u32 | Removed bool

fun hash_run :: "(hash_table \<Rightarrow> nat) \<Rightarrow> hash_table \<Rightarrow> hash_op list \<Rightarrow> hash_ret list result" where
  "hash_run malloc ht [] = Inr []"
| "hash_run malloc ht (Enter k v # ops) =
     bindE (hash_enter (Some (malloc ht)) ht k v) (\<lambda>(b, ht).
     bindE (hash_run malloc ht ops) (\<lambda>rs. Inr (Entered b # rs)))"
| "hash_run malloc ht (Lookup k # ops) =
     bindE (hash_lookup ht k) (\<lambda>v. bindE (hash_run malloc ht ops) (\<lambda>rs. Inr (Found v # rs)))"
| "hash_run malloc ht (Remove k # ops) =
     bindE (hash_remove ht k) (\<lambda>(b, ht).
     bindE (hash_run malloc ht ops) (\<lambda>rs. Inr (Removed b # rs)))"

text \<open>The abstract dictionary: a partial function with keys compared by \<open>eq\<close>.\<close>

fun dict_run :: "(u32 \<Rightarrow> u32 \<Rightarrow> bool) \<Rightarrow> (u32 \<Rightarrow> u32 option) \<Rightarrow> hash_op list \<Rightarrow> hash_ret list" where
  "dict_run eq M [] = []"
| "dict_run eq M (Enter k v # ops) =
     (if M k = None then Entered True # dict_run eq (\<lambda>k'. if eq k k' then Some v else M k') ops
      else Entered False # dict_run eq M ops)"
| "dict_run eq M (Lookup k # ops) =
     Found (case M k of None \<Rightarrow> 0 | Some v \<Rightarrow> v) # dict_run eq M ops"
| "dict_run eq M (Remove k # ops) =
     Removed (M k \<noteq> None) # dict_run eq (\<lambda>k'. if eq k k' then None else M k') ops"

text \<open>Memory stays finite, so an allocator can always answer.\<close>

lemma hash_enter_finite: "hash_enter m ht k v = Inr (b, ht') \<Longrightarrow> finite (dom (mem ht)) \<Longrightarrow> finite (dom (mem ht'))"
  by (auto simp: hash_enter_def fault_simps upd_node_def split: if_splits option.splits)

lemma upd_node_dom: "upd_node m a g = Inr m' \<Longrightarrow> dom m' = dom m"
  by (auto simp: upd_node_def split: option.splits if_splits)

lemma hash_remove_finite: "hash_remove ht k = Inr (b, ht') \<Longrightarrow> finite (dom (mem ht)) \<Longrightarrow> finite (dom (mem ht'))"
  by (auto simp: hash_remove_def unlink_entry_def free_node_def fault_simps split: if_splits option.splits
      dest!: upd_node_dom)

lemma hash_run_simulates:
  assumes malloc: "\<And>t. finite (dom (mem t)) \<Longrightarrow> mem t (Cell (malloc t)) = None"
  shows "hash_repr ht M \<Longrightarrow> finite (dom (mem ht)) \<Longrightarrow> hash_run malloc ht ops = Inr (dict_run (hash_match ht) M ops)"
proof (induction ops arbitrary: ht M)
  case (Cons op ops)
  show ?case
  proof (cases op)
    case (Enter k v)
    from hash.enter_repr [OF Cons.prems(1) malloc [OF Cons.prems(2)], of k v] obtain ht'
      where e: "hash_enter (Some (malloc ht)) ht k v = Inr (M k = None, ht')" "hash_match ht' = hash_match ht"
        "hash_repr ht' (if M k = None then (\<lambda>k'. if hash_match ht k k' then Some v else M k') else M)" by auto
    then show ?thesis
      using Cons.IH [OF e(3) hash_enter_finite [OF e(1) Cons.prems(2)]] Enter by simp
  next
    case (Lookup k)
    then show ?thesis using hash.lookup_repr [OF Cons.prems(1), of k] Cons.IH [OF Cons.prems] by simp
  next
    case (Remove k)
    from hash.remove_repr [OF Cons.prems(1), of k] obtain ht'
      where e: "hash_remove ht k = Inr (M k \<noteq> None, ht')" "hash_match ht' = hash_match ht"
        "hash_repr ht' (\<lambda>k'. if hash_match ht k k' then None else M k')" by auto
    then show ?thesis
      using Cons.IH [OF e(3) hash_remove_finite [OF e(1) Cons.prems(2)]] Remove by simp
  qed
qed simp

text \<open>A table with one entry, for use in examples.\<close>

lemma one_entry:
  "\<exists>ht ht'. hash_init None None 8 True True (\<lambda>i. \<lparr>ekey = 5, evalue = 5, enext = None, eprev = None\<rparr>) = Inr ht \<and>
    hash_enter (Some 0) ht 3 7 = Inr (True, ht') \<and> hash_repr ht' (\<lambda>k. if hash_match ht 3 k then Some 7 else None) \<and>
    hash_match ht = (=)"
proof -
  obtain ht where ht: "hash_init None None 8 True True (\<lambda>i. \<lparr>ekey = 5, evalue = 5, enext = None, eprev = None\<rparr>) = Inr ht"
    "hash_repr ht (\<lambda>k. None)" "hashcompare ht = None"
    using hash_init_repr [of None None 8] by (auto simp: caller_ok_def)
  moreover have "mem ht (Cell 0) = None" using ht(1) by (auto simp: hash_init_def)
  moreover have "hash_match ht = (=)" using ht(3) by (auto simp: fun_eq_iff hash_match_def)
  ultimately show ?thesis using hash_enter_repr [OF ht(2), of 0 3 7] by auto
qed

section \<open>Properties\<close>

text \<open>
  C9. A table made by \<open>hash_init\<close>, with any size below \<open>2\<^sup>2\<^sup>8\<close>, answers every sequence of operations exactly as the
  abstract dictionary does, without a fault, for the default functions and for any caller's functions
  that fit together. The allocator is assumed to return memory that is not in use.
\<close>

theorem hash_table_is_dictionary:
  assumes "\<And>t. finite (dom (mem t)) \<Longrightarrow> mem t (Cell (malloc t)) = None"
    and "caller_ok hf cf" and "0 < unat sz" "unat sz < 2 ^ 28"
  shows "\<exists>ht. hash_init hf cf sz True True junk = Inr ht \<and>
    hash_run malloc ht ops = Inr (dict_run (case cf of None \<Rightarrow> (=) | Some c \<Rightarrow> c) (\<lambda>k. None) ops)"
proof -
  obtain ht where ht: "hash_init hf cf sz True True junk = Inr ht" "hash_repr ht (\<lambda>k. None)" "hashcompare ht = cf"
    "finite (dom (mem ht))"
    using hash_init_repr [OF assms(2-4)] by blast
  have "hash_match ht = (case cf of None \<Rightarrow> (=) | Some c \<Rightarrow> c)"
    by (auto simp: fun_eq_iff hash_match_def ht(3) split: option.split)
  then show ?thesis using ht hash_run_simulates [OF assms(1) ht(2,4), of ops] by auto
qed

theorem hash_table_is_dictionary_witness:
  "\<exists>ht. hash_init None None 8 True True (\<lambda>i. \<lparr>ekey = 5, evalue = 5, enext = None, eprev = None\<rparr>) = Inr ht \<and>
    hash_run (\<lambda>t. LEAST c. mem t (Cell c) = None) ht [Enter 3 7, Enter 11 9, Remove 3, Lookup 11]
      = Inr [Entered True, Entered True, Removed True, Found 9]"
proof -
  have fresh: "mem t (Cell (LEAST c. mem t (Cell c) = None)) = None" if "finite (dom (mem t))" for t :: hash_table
  proof (rule LeastI_ex, rule ccontr)
    assume "\<nexists>c. mem t (Cell c) = None"
    then have "range Cell \<subseteq> dom (mem t)" by auto
    then have "finite (range Cell)" using that by (rule finite_subset)
    then show False using finite_imageD [of Cell UNIV] by (simp add: inj_on_def)
  qed
  show ?thesis
    using hash_table_is_dictionary [OF fresh, of None None 8 "\<lambda>i. \<lparr>ekey = 5, evalue = 5, enext = None, eprev = None\<rparr>"
      "[Enter 3 7, Enter 11 9, Remove 3, Lookup 11]"] by (simp add: caller_ok_def)
qed

text \<open>
  The bound is the exact one: from \<open>2\<^sup>2\<^sup>8\<close> entries on, the size in bytes wraps, and \<open>hash_init\<close> writes past the array.
\<close>

lemma hash_init_overflow:
  assumes "2 ^ 28 \<le> unat sz" shows "hash_init hf cf sz True True junk = Inl Out_Of_Bounds"
  using assms unfolding hash_init_def headers_short by simp

lemma hash_init_overflow_witness: "hash_init None None (2 ^ 28 + 1) True True junk = Inl Out_Of_Bounds"
  by (rule hash_init_overflow) simp

text \<open>
  \<open>hash_free\<close> on a table in use frees every entry and every header exactly once and leaves
  nothing allocated; no freed entry is read.
\<close>

lemma hash_free_frees_all:
  assumes "hash_repr ht M"
  shows "hash_free ht = Inr (\<lambda>a. None)"
  using assms by (rule hash_free_repr)

lemma hash_free_frees_all_witness:
  "\<exists>ht ht'. hash_init None None 8 True True (\<lambda>i. \<lparr>ekey = 5, evalue = 5, enext = None, eprev = None\<rparr>) = Inr ht \<and>
    hash_enter (Some 0) ht 3 7 = Inr (True, ht') \<and> hash_free ht' = Inr (\<lambda>a. None)"
  using one_entry hash_free_frees_all by metis

text \<open>
  \<open>hash_apply\<close> calls the function exactly once for every entry of the table, with its value.
\<close>

lemma hash_apply_visits_all:
  assumes "hash_repr ht M"
  shows "\<exists>cs. distinct cs \<and> set cs = {c. mem ht (Cell c) \<noteq> None} \<and>
    hash_apply ht = Inr (True, map (\<lambda>c. evalue (the (mem ht (Cell c)))) cs)"
  using assms by (rule hash_apply_repr)

lemma hash_apply_visits_all_witness:
  "\<exists>ht ht' cs. hash_init None None 8 True True (\<lambda>i. \<lparr>ekey = 5, evalue = 5, enext = None, eprev = None\<rparr>) = Inr ht \<and>
    hash_enter (Some 0) ht 3 7 = Inr (True, ht') \<and> set cs = {c. mem ht' (Cell c) \<noteq> None} \<and>
    hash_apply ht' = Inr (True, map (\<lambda>c. evalue (the (mem ht' (Cell c)))) cs)"
  using one_entry hash_apply_visits_all by metis

text \<open>
  The two ways the package can crash on a sound table: when memory runs out, entering a new
  key dereferences the null pointer it has just tested for, and a negative value of the hash
  function indexes the header array below its start in every operation.
\<close>

lemma hash_faults:
  assumes "hash_repr ht M" "M k = None"
    and "hashfun ht' = Some h" "0 < sint (tlen ht' + 1)" "signed_modulo (sint (h k')) (sint (tlen ht' + 1)) < 0"
  shows "hash_enter None ht k v = Inl Null_Deref \<and>
    hash_lookup ht' k' = Inl Out_Of_Bounds \<and> hash_enter m ht' k' v = Inl Out_Of_Bounds \<and>
    hash_remove ht' k' = Inl Out_Of_Bounds"
proof -
  have "hash_enter None ht k v = Inl Null_Deref"
  proof (rule repr_search [OF assms(1), of k])
    fix cs i assume cs: "hash_chains ht cs" "i < hash_size ht" "hash_index ht k = Inr i"
      and s: "hash_search ht k = Inr (False, last (Head i # map Cell (cs i)))"
    obtain e where "mem ht (last (Head i # map Cell (cs i))) = Some e"
      using chain_nodes(1) [OF cs(1,2) refl] by blast
    then show ?thesis by (simp only: hash_enter_def s bindE_Inr prod.case if_False upd_node_def option.case)
  qed (use assms(2) in simp)
  moreover have "hash_index ht' k' = Inl Out_Of_Bounds"
    using assms(3-5) by (auto simp: hash_index_def Let_def)
  ultimately show ?thesis
    by (simp add: hash_lookup_def hash_enter_def hash_remove_def hash_search_def)
qed

lemma hash_faults_witness:
  "\<exists>ht ht'. hash_init None None 8 True True (\<lambda>i. \<lparr>ekey = 5, evalue = 5, enext = None, eprev = None\<rparr>) = Inr ht \<and>
    hash_enter (Some 0) ht 3 7 = Inr (True, ht') \<and> hash_enter None ht' 4 7 = Inl Null_Deref \<and>
    hash_lookup \<lparr>hashfun = Some id, hashcompare = None, tlen = 7, mem = \<lambda>a. None\<rparr> (- 3) = Inl Out_Of_Bounds"
proof -
  obtain ht ht' where ht: "hash_init None None 8 True True (\<lambda>i. \<lparr>ekey = 5, evalue = 5, enext = None, eprev = None\<rparr>) = Inr ht"
    "hash_enter (Some 0) ht 3 7 = Inr (True, ht')" "hash_repr ht' (\<lambda>k. if hash_match ht 3 k then Some 7 else None)"
    "hash_match ht = (=)"
    using one_entry by metis
  have "signed_modulo (sint (- 3 :: u32)) (sint (7 + 1 :: u32)) < 0" "0 < sint (7 + 1 :: u32)"
    by (simp_all add: signed_modulo_int_def)
  then show ?thesis
    using hash_faults [OF ht(3), of 4 "\<lparr>hashfun = Some id, hashcompare = None, tlen = 7, mem = \<lambda>a. None\<rparr>" id "- 3" 7 None] ht
    by auto
qed

end
