(* ===== verification/Newdes.thy ===== *)
theory Newdes
  imports Mach_Prelude
begin

text \<open>
  The NEWDES block cipher of server/as/newdes.c and the one-way password function
  \<open>encrypt_password\<close> of server/as/cas_utils.c that is built on it. A key is the list of its 16
  bytes (\<open>key_bytes\<close> of key_defs.h, of which the cipher reads the first 15); the eight bytes of
  a block are the local variables \<open>b0\<close> to \<open>b7\<close> of the code, which assigns to four of them from
  the other four in each of its 17 groups of assignments.

  The cipher is a permutation of the blocks under every key, and \<open>newdesdecrypt\<close> inverts
  \<open>newdesencrypt\<close>: this is the contract \<open>block_cipher\<close>, interpreted on the code's two routines.
\<close>

section \<open>The cipher\<close>

definition farray :: "u8 list" where
  "farray =
    [32, 137, 239, 188, 102, 125, 221, 72, 212, 68, 81, 37, 86, 237, 147, 149,
     70, 229, 17, 124, 115, 207, 33, 20, 122, 143, 25, 215, 51, 183, 138, 142,
     146, 211, 110, 173, 1, 228, 189, 14, 103, 78, 162, 36, 253, 167, 116, 255,
     158, 45, 185, 50, 98, 168, 250, 235, 54, 141, 195, 247, 240, 63, 148, 2,
     224, 169, 214, 180, 62, 22, 117, 108, 19, 172, 161, 159, 160, 47, 43, 171,
     194, 175, 178, 56, 196, 112, 23, 220, 89, 21, 164, 130, 157, 8, 85, 251,
     216, 44, 94, 179, 226, 38, 90, 119, 40, 202, 34, 206, 35, 69, 231, 246,
     29, 109, 74, 71, 176, 6, 60, 145, 65, 13, 77, 151, 12, 127, 95, 199,
     57, 101, 5, 232, 150, 210, 129, 24, 181, 10, 121, 187, 48, 193, 139, 252,
     219, 64, 88, 233, 96, 128, 80, 53, 191, 144, 218, 11, 106, 132, 155, 104,
     91, 136, 31, 42, 243, 66, 126, 135, 30, 26, 87, 186, 182, 154, 242, 123,
     82, 166, 208, 39, 152, 190, 113, 205, 114, 105, 225, 84, 73, 163, 99, 111,
     204, 61, 200, 217, 170, 15, 198, 28, 192, 254, 134, 234, 222, 7, 236, 248,
     201, 41, 177, 156, 92, 131, 67, 249, 245, 184, 203, 9, 241, 0, 27, 46,
     133, 174, 75, 18, 93, 209, 100, 120, 76, 213, 16, 83, 4, 107, 140, 52,
     58, 55, 3, 244, 97, 197, 238, 227, 118, 49, 79, 230, 223, 165, 153, 59]"

record block =
  b0 :: u8
  b1 :: u8
  b2 :: u8
  b3 :: u8
  b4 :: u8
  b5 :: u8
  b6 :: u8
  b7 :: u8

definition farray_at :: "u8 \<Rightarrow> u8" where
  "farray_at x = farray ! unat x"

text \<open>The two kinds of groups: assignments to \<open>b4\<close>..\<open>b7\<close>, and to \<open>b1\<close>, \<open>b2\<close>, \<open>b3\<close>, \<open>b0\<close>.\<close>

definition step_a :: "u8 \<Rightarrow> u8 \<Rightarrow> u8 \<Rightarrow> u8 \<Rightarrow> block \<Rightarrow> block" where
  "step_a ka kb kc kd t =
     (let t = t\<lparr>b4 := b4 t XOR farray_at (b0 t XOR ka)\<rparr>;
          t = t\<lparr>b5 := b5 t XOR farray_at (b1 t XOR kb)\<rparr>;
          t = t\<lparr>b6 := b6 t XOR farray_at (b2 t XOR kc)\<rparr>
      in t\<lparr>b7 := b7 t XOR farray_at (b3 t XOR kd)\<rparr>)"

definition step_b :: "u8 \<Rightarrow> u8 \<Rightarrow> u8 \<Rightarrow> block \<Rightarrow> block" where
  "step_b ka kb kc t =
     (let t = t\<lparr>b1 := b1 t XOR farray_at (b4 t XOR ka)\<rparr>;
          t = t\<lparr>b2 := b2 t XOR farray_at (b4 t XOR b5 t)\<rparr>;
          t = t\<lparr>b3 := b3 t XOR farray_at (b6 t XOR kb)\<rparr>
      in t\<lparr>b0 := b0 t XOR farray_at (b7 t XOR kc)\<rparr>)"

definition load_block :: "u8 list \<Rightarrow> block" where
  "load_block text =
     \<lparr>b0 = text ! 0, b1 = text ! 1, b2 = text ! 2, b3 = text ! 3,
      b4 = text ! 4, b5 = text ! 5, b6 = text ! 6, b7 = text ! 7\<rparr>"

definition store_block :: "block \<Rightarrow> u8 list \<Rightarrow> u8 list" where
  "store_block t text =
     text[0 := b0 t, 1 := b1 t, 2 := b2 t, 3 := b3 t, 4 := b4 t, 5 := b5 t, 6 := b6 t, 7 := b7 t]"

definition encrypt_block :: "u8 list \<Rightarrow> block \<Rightarrow> block" where
  "encrypt_block key t =
     (let t = step_a (key ! 0) (key ! 1) (key ! 2) (key ! 3) t;
          t = step_b (key ! 4) (key ! 5) (key ! 6) t;
          t = step_a (key ! 7) (key ! 8) (key ! 9) (key ! 10) t;
          t = step_b (key ! 11) (key ! 12) (key ! 13) t;
          t = step_a (key ! 14) (key ! 0) (key ! 1) (key ! 2) t;
          t = step_b (key ! 3) (key ! 4) (key ! 5) t;
          t = step_a (key ! 6) (key ! 7) (key ! 8) (key ! 9) t;
          t = step_b (key ! 10) (key ! 11) (key ! 12) t;
          t = step_a (key ! 13) (key ! 14) (key ! 0) (key ! 1) t;
          t = step_b (key ! 2) (key ! 3) (key ! 4) t;
          t = step_a (key ! 5) (key ! 6) (key ! 7) (key ! 8) t;
          t = step_b (key ! 9) (key ! 10) (key ! 11) t;
          t = step_a (key ! 12) (key ! 13) (key ! 14) (key ! 0) t;
          t = step_b (key ! 1) (key ! 2) (key ! 3) t;
          t = step_a (key ! 4) (key ! 5) (key ! 6) (key ! 7) t;
          t = step_b (key ! 8) (key ! 9) (key ! 10) t
      in step_a (key ! 11) (key ! 12) (key ! 13) (key ! 14) t)"

definition decrypt_block :: "u8 list \<Rightarrow> block \<Rightarrow> block" where
  "decrypt_block key t =
     (let t = step_a (key ! 11) (key ! 12) (key ! 13) (key ! 14) t;
          t = step_b (key ! 8) (key ! 9) (key ! 10) t;
          t = step_a (key ! 4) (key ! 5) (key ! 6) (key ! 7) t;
          t = step_b (key ! 1) (key ! 2) (key ! 3) t;
          t = step_a (key ! 12) (key ! 13) (key ! 14) (key ! 0) t;
          t = step_b (key ! 9) (key ! 10) (key ! 11) t;
          t = step_a (key ! 5) (key ! 6) (key ! 7) (key ! 8) t;
          t = step_b (key ! 2) (key ! 3) (key ! 4) t;
          t = step_a (key ! 13) (key ! 14) (key ! 0) (key ! 1) t;
          t = step_b (key ! 10) (key ! 11) (key ! 12) t;
          t = step_a (key ! 6) (key ! 7) (key ! 8) (key ! 9) t;
          t = step_b (key ! 3) (key ! 4) (key ! 5) t;
          t = step_a (key ! 14) (key ! 0) (key ! 1) (key ! 2) t;
          t = step_b (key ! 11) (key ! 12) (key ! 13) t;
          t = step_a (key ! 7) (key ! 8) (key ! 9) (key ! 10) t;
          t = step_b (key ! 4) (key ! 5) (key ! 6) t
      in step_a (key ! 0) (key ! 1) (key ! 2) (key ! 3) t)"

definition newdesencrypt :: "u8 list \<Rightarrow> u8 list \<Rightarrow> u8 list" where
  "newdesencrypt key text = store_block (encrypt_block key (load_block text)) text"

definition newdesdecrypt :: "u8 list \<Rightarrow> u8 list \<Rightarrow> u8 list" where
  "newdesdecrypt key text = store_block (decrypt_block key (load_block text)) text"

section \<open>The password function\<close>

definition PASS_WORD_SIZE :: nat where
  "PASS_WORD_SIZE = 16"

text \<open>\<open>strlen\<close> on the array of a password: without a zero byte it reads past the array.\<close>

fun strlen :: "u8 list \<Rightarrow> nat result" where
  "strlen [] = Inl Out_Of_Bounds"
| "strlen (c # cs) = (if c = 0 then Inr 0 else bindE (strlen cs) (\<lambda>n. Inr (Suc n)))"

text \<open>
  The loop \<open>password[i] = password[i - length]\<close>, which writes the elements one after the other:
  what it reads may have been written before.
\<close>

primrec repeat_password :: "nat \<Rightarrow> nat \<Rightarrow> nat \<Rightarrow> u8 list \<Rightarrow> u8 list" where
  "repeat_password 0 i len password = password"
| "repeat_password (Suc n) i len password =
     repeat_password n (Suc i) len (password[i := password ! (i - len)])"

text \<open>\<open>isascii\<close> and \<open>toascii\<close> look at the top bit, \<open>isprint\<close> holds from blank to tilde.\<close>

definition printable :: "u8 \<Rightarrow> u8" where
  "printable c =
     (let c = (if c AND 0x80 \<noteq> 0 then c AND 0x7f else c);
          c = (if c = 0x7f then 0x7e else c)
      in if 0x20 \<le> c \<and> c \<le> 0x7e then c else c + 0x20)"

definition encrypt_password :: "u8 list \<Rightarrow> u8 list result" where
  "encrypt_password password =
     bindE (strlen password) (\<lambda>len.
     (let password = repeat_password (PASS_WORD_SIZE - len) len len password;
          key = map (\<lambda>i. password ! (PASS_WORD_SIZE - i - 1)) [0..<16];
          password = newdesencrypt key password;
          password = take 8 password @ newdesencrypt key (drop 8 password)
      in Inr (map printable password)))"

section \<open>The contract of a block cipher\<close>

locale block_cipher =
  fixes encrypt decrypt :: "'k \<Rightarrow> 'b \<Rightarrow> 'b"
  assumes decrypt_encrypt: "decrypt k (encrypt k t) = t"
    and encrypt_decrypt: "encrypt k (decrypt k t) = t"
begin

lemma encrypt_inject: "encrypt k t = encrypt k u \<Longrightarrow> t = u"
  by (metis decrypt_encrypt)

lemma encrypt_bij: "bij (encrypt k)"
  by (rule o_bij [of "decrypt k"]) (simp_all add: fun_eq_iff decrypt_encrypt encrypt_decrypt)

lemma encrypt_swap: "encrypt k t = u \<longleftrightarrow> decrypt k u = t"
  by (metis decrypt_encrypt encrypt_decrypt)

end

text \<open>
  A group of assignments reads only variables it does not assign, so doing it twice restores
  the block.
\<close>

lemma xor_cancel: "(x XOR y) XOR y = (x :: u8)"
  by (simp add: xor.assoc)

lemma step_a_involution: "step_a ka kb kc kd (step_a ka kb kc kd t) = t"
  by (cases t) (simp add: step_a_def xor_cancel)

lemma step_b_involution: "step_b ka kb kc (step_b ka kb kc t) = t"
  by (cases t) (simp add: step_b_def xor_cancel)

lemmas newdes_steps = step_a_involution step_b_involution

lemma decrypt_encrypt_block: "decrypt_block key (encrypt_block key t) = t"
  by (simp only: decrypt_block_def encrypt_block_def Let_def newdes_steps)

lemma encrypt_decrypt_block: "encrypt_block key (decrypt_block key t) = t"
  by (simp only: decrypt_block_def encrypt_block_def Let_def newdes_steps)

interpretation newdes: block_cipher encrypt_block decrypt_block
  by unfold_locales (rule decrypt_encrypt_block encrypt_decrypt_block)+

lemma length_store_block [simp]: "length (store_block t text) = length text"
  by (simp add: store_block_def)

lemma load_store_block:
  assumes "8 \<le> length text"
  shows "load_block (store_block t text) = t"
proof -
  have "text \<noteq> []" using assms by auto
  then show ?thesis
    using assms by (cases t) (simp add: load_block_def store_block_def)
qed

lemma store_store_block: "store_block t (store_block u text) = store_block t text"
  by (simp add: store_block_def list_update_swap)

lemma store_load_block: "store_block (load_block text) text = text"
  by (simp add: store_block_def load_block_def)

lemma drop_store_block: "drop 8 (store_block t text) = drop 8 text"
  by (simp add: store_block_def)

section \<open>The password function\<close>

lemma strlen_Inr: "strlen xs = Inr n \<longleftrightarrow> n < length xs \<and> xs ! n = 0 \<and> (\<forall>i<n. xs ! i \<noteq> 0)"
proof (induction xs arbitrary: n)
  case (Cons c cs)
  show ?case
  proof (cases n)
    case 0
    then show ?thesis by (auto simp: fault_simps)
  next
    case (Suc m)
    then show ?thesis by (auto simp: fault_simps Cons.IH less_Suc_eq_0_disj)
  qed
qed simp

lemma strlen_Inl: "strlen xs = Inl e \<longleftrightarrow> e = Out_Of_Bounds \<and> 0 \<notin> set xs"
  by (induction xs) (auto split: if_splits simp: bindE_def split: sum.splits)

lemma length_repeat_password [simp]: "length (repeat_password n i len p) = length p"
  by (induction n arbitrary: i p) simp_all

lemma repeat_password_nth:
  assumes "0 < len"
  shows "len \<le> i \<Longrightarrow> i + n = length p \<Longrightarrow> (\<And>j. len \<le> j \<Longrightarrow> j < i \<Longrightarrow> p ! j = p ! (j mod len)) \<Longrightarrow>
    j < length p \<Longrightarrow> repeat_password n i len p ! j = p ! (j mod len)"
proof (induction n arbitrary: i p)
  case 0
  then show ?case by (cases "j < len") simp_all
next
  case (Suc n)
  let ?p = "p[i := p ! (i - len)]"
  have pi: "p ! (i - len) = p ! (i mod len)"
    using Suc.prems assms by (cases "i - len < len") (auto simp: le_mod_geq)
  have keep: "?p ! (j mod len) = p ! (j mod len)" for j
    using Suc.prems(1) mod_less_divisor [OF assms, of j] by (simp add: nth_list_update)
  have "repeat_password n (Suc i) len ?p ! j = ?p ! (j mod len)"
  proof (rule Suc.IH)
    fix k assume "len \<le> k" "k < Suc i"
    then show "?p ! k = ?p ! (k mod len)"
      using Suc.prems pi by (cases "k = i") (simp_all add: keep nth_list_update)
  qed (use Suc.prems in simp_all)
  then show ?case by (simp add: keep)
qed

lemma u8_enum: "(c :: u8) \<in> set (map of_nat [0..<256])"
  using unat_u8_lt [of c] by (auto simp: image_iff intro!: bexI [of _ "unat c"])

lemma printable_range: "0x20 \<le> printable c \<and> printable c \<le> 0x7e"
proof -
  have "list_all (\<lambda>c. 0x20 \<le> printable c \<and> printable c \<le> 0x7e) (map of_nat [0..<256])"
    by code_simp
  then show ?thesis using u8_enum [of c] unfolding list_all_iff by blast
qed

text \<open>The block that is encrypted and the key depend only on the password repeated to 16 bytes.\<close>

lemma length_newdesencrypt [simp]: "length (newdesencrypt key text) = length text"
  by (simp add: newdesencrypt_def)

lemma strlen_total: "(\<exists>n. strlen xs = Inr n) \<longleftrightarrow> 0 \<in> set xs"
  by (cases "strlen xs") (auto simp: strlen_Inl, auto simp: strlen_Inr in_set_conv_nth)

definition password_cipher :: "u8 list \<Rightarrow> u8 list" where
  "password_cipher p =
     (let key = map (\<lambda>i. p ! (PASS_WORD_SIZE - i - 1)) [0..<16]; c = newdesencrypt key p
      in map printable (take 8 c @ newdesencrypt key (drop 8 c)))"

lemma password_cipher_printable:
  "length (password_cipher p) = length p \<and> list_all (\<lambda>x. 0x20 \<le> x \<and> x \<le> 0x7e) (password_cipher p)"
  by (auto simp: password_cipher_def Let_def list_all_iff printable_range)

lemma encrypt_password_cipher:
  "strlen p = Inr n \<Longrightarrow> encrypt_password p = Inr (password_cipher (repeat_password (PASS_WORD_SIZE - n) n n p))"
  by (simp add: encrypt_password_def password_cipher_def Let_def)

lemma repeat_password_cyclic:
  assumes "length p = 16" "strlen p = Inr n" "0 < n"
  shows "repeat_password (PASS_WORD_SIZE - n) n n p = map (\<lambda>i. p ! (i mod n)) [0..<16]"
proof (rule nth_equalityI)
  fix i assume i: "i < length (repeat_password (PASS_WORD_SIZE - n) n n p)"
  have "n < 16" using assms(1,2) by (simp add: strlen_Inr)
  then have "repeat_password (PASS_WORD_SIZE - n) n n p ! i = p ! (i mod n)"
    using i assms(1,3) by (intro repeat_password_nth) (simp_all add: PASS_WORD_SIZE_def)
  then show "repeat_password (PASS_WORD_SIZE - n) n n p ! i = map (\<lambda>i. p ! (i mod n)) [0..<16] ! i"
    using i assms(1) by simp
qed (simp add: assms(1))

section \<open>Properties\<close>

text \<open>
  C15. Under every key \<open>newdesdecrypt\<close> undoes \<open>newdesencrypt\<close> and the other way round, both keep
  everything behind the first eight bytes, and distinct texts have distinct ciphertexts.
\<close>

theorem newdes_roundtrip:
  assumes "8 \<le> length text"
  shows "newdesdecrypt key (newdesencrypt key text) = text \<and>
    newdesencrypt key (newdesdecrypt key text) = text \<and>
    drop 8 (newdesencrypt key text) = drop 8 text \<and>
    (newdesencrypt key text = newdesencrypt key text' \<longrightarrow> text' = text)"
proof -
  have inv: "newdesdecrypt key (newdesencrypt key t) = t" if "8 \<le> length t" for t
    using that by (simp add: newdesdecrypt_def newdesencrypt_def load_store_block store_store_block
        newdes.decrypt_encrypt store_load_block)
  moreover have "newdesencrypt key (newdesdecrypt key text) = text"
    using assms by (simp add: newdesdecrypt_def newdesencrypt_def load_store_block store_store_block
        newdes.encrypt_decrypt store_load_block)
  moreover have "text' = text" if "newdesencrypt key text = newdesencrypt key text'"
  proof -
    have "length text' = length text" using arg_cong [OF that, of length] by simp
    then have "text' = newdesdecrypt key (newdesencrypt key text')" using inv [of text'] assms by simp
    also have "\<dots> = text" unfolding that [symmetric] by (rule inv [OF assms])
    finally show ?thesis .
  qed
  ultimately show ?thesis
    using assms by (auto simp: newdesencrypt_def drop_store_block)
qed

theorem newdes_roundtrip_witness:
  "newdesdecrypt (replicate 16 7) (newdesencrypt (replicate 16 7) [1, 2, 3, 4, 5, 6, 7, 8, 9])
     = [1, 2, 3, 4, 5, 6, 7, 8, 9]"
  using newdes_roundtrip [of "[1, 2, 3, 4, 5, 6, 7, 8, 9]" "replicate 16 7" "[]"] by simp

text \<open>
  C35. \<open>encrypt_password\<close> returns for every 16-byte array that holds a zero-terminated password,
  and gives 16 printable characters, none of them zero; an array without a terminating zero
  makes it read past its end.
\<close>

theorem encrypt_password_total:
  assumes "length password = PASS_WORD_SIZE"
  shows "if 0 \<in> set password
    then \<exists>c. encrypt_password password = Inr c \<and> length c = PASS_WORD_SIZE \<and>
      list_all (\<lambda>x. 0x20 \<le> x \<and> x \<le> 0x7e) c
    else encrypt_password password = Inl Out_Of_Bounds"
proof (cases "0 \<in> set password")
  case True
  then obtain n where n: "strlen password = Inr n" using strlen_total by blast
  show ?thesis
    using True assms by (simp add: encrypt_password_cipher [OF n] password_cipher_printable)
next
  case False
  then have "strlen password = Inl Out_Of_Bounds" by (simp add: strlen_Inl)
  then show ?thesis using False by (simp add: encrypt_password_def)
qed

theorem encrypt_password_total_witness:
  "\<exists>c. encrypt_password ([104, 105] @ replicate 14 0) = Inr c \<and> length c = PASS_WORD_SIZE \<and>
     list_all (\<lambda>x. 0x20 \<le> x \<and> x \<le> 0x7e) c"
  using encrypt_password_total [of "[104, 105] @ replicate 14 0"] by (simp add: PASS_WORD_SIZE_def)

text \<open>
  The encrypted password of a non-empty password is a function of its characters alone,
  whatever follows its terminating zero, and more precisely of the characters repeated to 16:
  a password and its repetition are not distinguished.
\<close>

lemma encrypt_password_cyclic:
  assumes "length p = 16" "strlen p = Inr n" "0 < n"
    and "length q = 16" "strlen q = Inr m" "0 < m"
    and "map (\<lambda>i. p ! (i mod n)) [0..<16] = map (\<lambda>i. q ! (i mod m)) [0..<16]"
  shows "encrypt_password p = encrypt_password q"
  using assms(7) unfolding encrypt_password_cipher [OF assms(2)] encrypt_password_cipher [OF assms(5)]
    repeat_password_cyclic [OF assms(1-3)] repeat_password_cyclic [OF assms(4-6)]
  by (simp only: assms(7))

lemma encrypt_password_cyclic_witness:
  "encrypt_password ([104, 105] @ replicate 14 0) = encrypt_password ([104, 105, 104, 105] @ replicate 12 0)"
proof (rule encrypt_password_cyclic)
  show "strlen ([104, 105] @ replicate 14 0) = Inr 2" by code_simp
  show "strlen ([104, 105, 104, 105] @ replicate 12 0) = Inr 4" by code_simp
  show "map (\<lambda>i. ([104, 105] @ replicate 14 0) ! (i mod 2)) [0..<16]
      = map (\<lambda>i. ([104, 105, 104, 105] @ replicate 12 (0 :: u8)) ! (i mod 4)) [0..<16]" by code_simp
qed simp_all

end
