(* ===== verification/Cas_State.thy ===== *)
theory Cas_State
  imports Newdes
begin

text \<open>
  The state of the central authentication server (server/as): the group records of cas_defs.h,
  the group id map and the name hash table of cas_utils.c, the two port maps of cas_procs.c
  and the database file of cas_db.c, with the memory and kernel primitives the handlers use.

  Group records live in a heap, since the id map, the name table and the port map of private
  ports hold pointers to the same records and \<open>cas_delete_group\<close> frees them: a pointer is an
  address or null, and reading through null or through the address of a freed record is a
  fault. A C string is the list of its bytes without the terminating zero; an id list with its
  count is a list. The answers of the kernel (does \<open>vm_allocate\<close> succeed, what does
  \<open>vm_deallocate\<close> return, can the database file be opened, which name does a new port get) are
  the argument \<open>kernel\<close>, which
  answers the n-th call; memory that has been freed is never handed out again. The database
  and its backup are the contents of two files, either of which may not exist.
\<close>

type_synonym cstring = "u8 list"
type_synonym ptr = "nat option"

section \<open>Constants of auth_defs.h and cas_defs.h\<close>

definition GROUP_NAME_SIZE :: nat where "GROUP_NAME_SIZE = 64"
definition FULL_NAME_SIZE :: nat where "FULL_NAME_SIZE = 256"
definition GROUP_ID_MAX :: nat where "GROUP_ID_MAX = 4096"
definition MEMBERS_MAX :: nat where "MEMBERS_MAX = 16"
definition PORT_MAP_MAX :: nat where "PORT_MAP_MAX = 512"
definition AS_PRIMARY :: u32 where "AS_PRIMARY = 0"
definition AS_SECONDARY :: u32 where "AS_SECONDARY = 1"
definition NULL_ID :: u32 where "NULL_ID = - 1"
definition SYS_ADM_ID :: u32 where "SYS_ADM_ID = 1"
definition MACH_PORT_NULL :: u32 where "MACH_PORT_NULL = 0"

text \<open>The error codes; \<open>AS_KERN\<close> is a kernel return code other than success that a handler passes on.\<close>

datatype as_return =
    AS_SUCCESS | AS_FAILURE | AS_NOT_ALLOWED | AS_BAD_PRIVATE_PORT | AS_BAD_NAME | AS_NOT_PRIMARY
  | AS_BAD_PASS_WORD | AS_BAD_GROUP | AS_DUPLICATE_ID | AS_DUPLICATE_NAME | AS_NOT_SECONDARY
  | AS_TIMEOUT | AS_KERN u32

definition kern_return :: "u32 \<Rightarrow> as_return" where
  "kern_return kr = (if kr = 0 then AS_SUCCESS else AS_KERN kr)"

section \<open>Data\<close>

record group_record =
  group_name :: cstring
  group_id :: u32
  group_type :: u32
  full_name :: cstring
  owner_id :: u32
  pass_word :: "u8 list"
  touched :: bool
  tr_memberships :: "u32 list"
  members :: "u32 list"
  memberships :: "u32 list"

record priv_entry =
  p_mapped_port :: u32
  p_group_record_ptr :: ptr

record reg_entry =
  r_mapped_port :: u32
  r_private_port :: u32
  r_group_ids :: "u32 list"
  r_user_id :: u32

record cas_state =
  recs :: "nat \<rightharpoonup> group_record"
  next_addr :: nat
  group_id_map :: "nat \<Rightarrow> ptr"
  name_hash_table :: "ptr list"
  name_hash_table_limit :: nat
  name_hash_table_num_entries :: nat
  priv_port_map :: "nat \<Rightarrow> priv_entry"
  reg_port_map :: "nat \<Rightarrow> reg_entry"
  database :: "u8 list option"
  db_backup :: "u8 list option"
  calls :: nat

record kernel =
  vm_allocate_ok :: "nat \<Rightarrow> bool"
  vm_deallocate_kr :: "nat \<Rightarrow> u32"
  file_ok :: "nat \<Rightarrow> bool"
  port_allocate_name :: "nat \<Rightarrow> u32 option"
  port_deallocate_kr :: "nat \<Rightarrow> u32"

abbreviation name_hash_table_size :: "cas_state \<Rightarrow> nat" where
  "name_hash_table_size s \<equiv> length (name_hash_table s)"

section \<open>Memory\<close>

definition rec_at :: "cas_state \<Rightarrow> ptr \<Rightarrow> group_record result" where
  "rec_at s p = (case p of None \<Rightarrow> Inl Null_Deref | Some a \<Rightarrow>
     (case recs s a of None \<Rightarrow> Inl Bad_Address | Some r \<Rightarrow> Inr r))"

definition upd_rec :: "(group_record \<Rightarrow> group_record) \<Rightarrow> ptr \<Rightarrow> cas_state \<Rightarrow> cas_state result" where
  "upd_rec g p s = (case p of None \<Rightarrow> Inl Null_Deref | Some a \<Rightarrow>
     (case recs s a of None \<Rightarrow> Inl Bad_Address
      | Some r \<Rightarrow> Inr (s\<lparr>recs := (recs s)(a \<mapsto> g r)\<rparr>)))"

text \<open>Indexing \<open>group_id_map\<close> with a group id, with no check in the code.\<close>

definition id_map_at :: "cas_state \<Rightarrow> u32 \<Rightarrow> ptr result" where
  "id_map_at s i = (if unat i < GROUP_ID_MAX then Inr (group_id_map s (unat i)) else Inl Out_Of_Bounds)"

definition set_id_map :: "u32 \<Rightarrow> ptr \<Rightarrow> cas_state \<Rightarrow> cas_state result" where
  "set_id_map i p s =
     (if unat i < GROUP_ID_MAX then Inr (s\<lparr>group_id_map := (group_id_map s)(unat i := p)\<rparr>)
      else Inl Out_Of_Bounds)"

text \<open>\<open>vm_allocate\<close> zero-fills: this is the group record it returns.\<close>

definition zero_record :: group_record where
  "zero_record = \<lparr>group_name = [], group_id = 0, group_type = 0, full_name = [], owner_id = 0,
     pass_word = replicate 16 0, touched = False, tr_memberships = [], members = [], memberships = []\<rparr>"

definition vm_allocate_record :: "kernel \<Rightarrow> cas_state \<Rightarrow> ptr \<times> cas_state" where
  "vm_allocate_record k s =
     (if vm_allocate_ok k (calls s)
      then (Some (next_addr s), s\<lparr>calls := Suc (calls s), next_addr := Suc (next_addr s),
              recs := (recs s)(next_addr s \<mapsto> zero_record)\<rparr>)
      else (None, s\<lparr>calls := Suc (calls s)\<rparr>))"

text \<open>An allocation of memory other than a group record: only whether it succeeds matters.\<close>

definition vm_allocate :: "kernel \<Rightarrow> cas_state \<Rightarrow> bool \<times> cas_state" where
  "vm_allocate k s = (vm_allocate_ok k (calls s), s\<lparr>calls := Suc (calls s)\<rparr>)"

definition vm_deallocate :: "kernel \<Rightarrow> cas_state \<Rightarrow> u32 \<times> cas_state" where
  "vm_deallocate k s = (vm_deallocate_kr k (calls s), s\<lparr>calls := Suc (calls s)\<rparr>)"

text \<open>A new port: the kernel refuses, or gives its name.\<close>

definition mach_port_allocate :: "kernel \<Rightarrow> cas_state \<Rightarrow> u32 option \<times> cas_state" where
  "mach_port_allocate k s = (port_allocate_name k (calls s), s\<lparr>calls := Suc (calls s)\<rparr>)"

definition vm_deallocate_record :: "ptr \<Rightarrow> cas_state \<Rightarrow> cas_state" where
  "vm_deallocate_record p s = (case p of None \<Rightarrow> s | Some a \<Rightarrow> s\<lparr>recs := (recs s)(a := None)\<rparr>)"

section \<open>Strings\<close>

definition ascii :: "string \<Rightarrow> cstring" where
  "ascii cs = map (\<lambda>c. of_nat (of_char c)) cs"

definition upper_byte :: "u8 \<Rightarrow> bool" where
  "upper_byte c = (65 \<le> c \<and> c \<le> 90)"

definition to_lower :: "cstring \<Rightarrow> cstring" where
  "to_lower name = map (\<lambda>c. if upper_byte c then c + 32 else c) name"

lemma to_lower_idem [simp]: "to_lower (to_lower n) = to_lower n"
proof -
  have "list_all (\<lambda>c. \<not> upper_byte (if upper_byte c then c + 32 else c)) (map of_nat [0..<256])"
    by code_simp
  then have "\<not> upper_byte (if upper_byte c then c + 32 else c)" for c
    using u8_enum [of c] unfolding list_all_iff by blast
  then show ?thesis by (simp add: to_lower_def)
qed

section \<open>Elementary facts on memory\<close>

named_theorems cas_mem \<open>reading and writing records, the id map and the allocation primitives\<close>

lemma rec_at_None [simp]: "rec_at s None = Inl Null_Deref"
  by (simp add: rec_at_def)

lemma rec_at_Inr [cas_mem]: "rec_at s p = Inr r \<longleftrightarrow> (\<exists>a. p = Some a \<and> recs s a = Some r)"
  by (auto simp: rec_at_def split: option.splits)

lemma upd_rec_Inr [cas_mem]:
  "upd_rec g p s = Inr s' \<longleftrightarrow> (\<exists>a r. p = Some a \<and> recs s a = Some r \<and> s' = s\<lparr>recs := (recs s)(a \<mapsto> g r)\<rparr>)"
  by (auto simp: upd_rec_def split: option.splits)

lemma id_map_at_Inr [cas_mem]:
  "id_map_at s i = Inr p \<longleftrightarrow> unat i < GROUP_ID_MAX \<and> p = group_id_map s (unat i)"
  by (auto simp: id_map_at_def)

lemma set_id_map_Inr [cas_mem]:
  "set_id_map i p s = Inr s' \<longleftrightarrow>
    unat i < GROUP_ID_MAX \<and> s' = s\<lparr>group_id_map := (group_id_map s)(unat i := p)\<rparr>"
  by (auto simp: set_id_map_def)

end
