(* ===== verification/Probing.thy ===== *)
theory Probing
  imports Mach_Prelude
begin

text \<open>
  Linear probing in a circular table, as the name hash table and the port maps of the
  authentication servers use it. A table is seen here through its keys: the key stored in each
  of the \<open>n\<close> slots. The invariant says that every key is found by probing from its home slot,
  and that no key is stored twice. The locale \<open>probing\<close> collects what follows from it: probing
  finds the slot of a stored key, and the first free slot for a key that is not stored, and
  storing the key there keeps the invariant.
\<close>

definition probe_inv :: "nat \<Rightarrow> ('k \<Rightarrow> nat) \<Rightarrow> (nat \<Rightarrow> 'k option) \<Rightarrow> bool" where
  "probe_inv n home keys \<longleftrightarrow>
     (\<forall>i k. i < n \<longrightarrow> keys i = Some k \<longrightarrow> (\<exists>d < n. i = (home k + d) mod n \<and>
        (\<forall>j < d. keys ((home k + j) mod n) \<noteq> None))) \<and>
     (\<forall>i i' k. i < n \<longrightarrow> i' < n \<longrightarrow> keys i = Some k \<longrightarrow> keys i' = Some k \<longrightarrow> i = i')"

definition probe_slot :: "nat \<Rightarrow> ('k \<Rightarrow> nat) \<Rightarrow> (nat \<Rightarrow> 'k option) \<Rightarrow> 'k \<Rightarrow> nat option" where
  "probe_slot n home keys k =
     map_option (\<lambda>j. (home k + j) mod n)
       (find (\<lambda>j. keys ((home k + j) mod n) = None \<or> keys ((home k + j) mod n) = Some k) [0..<n])"

lemma add_mod_inject:
  assumes "(h + a) mod n = (h + b) mod n" "a < n" "b < (n :: nat)"
  shows "a = b"
proof -
  have "x = y" if "(h + y) mod n = (h + x) mod n" "x \<le> y" "y < n" for x y
  proof -
    have "n dvd (h + y) - (h + x)" using that by (simp only: mod_eq_dvd_iff_nat [symmetric])
    then have "n dvd y - x" by simp
    then show ?thesis using that(2,3) by (auto dest: dvd_imp_le)
  qed
  from this [of a b] this [of b a] assms show ?thesis by (cases "a \<le> b") auto
qed

lemma find_Some_upt:
  "find P [0..<n] = Some j \<longleftrightarrow> j < n \<and> P j \<and> (\<forall>i < j. \<not> P i)"
  by (auto simp: find_Some_iff)

lemma find_None_upt: "find P [0..<n] = None \<longleftrightarrow> (\<forall>i < n. \<not> P i)"
  by (auto simp: find_None_iff)

lemma probe_slot_cases:
  "probe_slot n home keys k = Some i \<longleftrightarrow> (\<exists>d < n. i = (home k + d) mod n \<and>
     (keys i = None \<or> keys i = Some k) \<and>
     (\<forall>j < d. keys ((home k + j) mod n) \<noteq> None \<and> keys ((home k + j) mod n) \<noteq> Some k))"
  by (auto simp: probe_slot_def find_Some_upt)

lemma probe_slot_None:
  "probe_slot n home keys k = None \<longleftrightarrow>
     (\<forall>j < n. keys ((home k + j) mod n) \<noteq> None \<and> keys ((home k + j) mod n) \<noteq> Some k)"
  by (auto simp: probe_slot_def find_None_upt)

locale probing =
  fixes n :: nat and home :: "'k \<Rightarrow> nat"
  assumes size_pos: "0 < n"
begin

lemma every_slot: "i < n \<Longrightarrow> \<exists>d < n. i = (home k + d) mod n"
proof -
  assume "i < n"
  let ?d = "(i + (n - home k mod n)) mod n"
  have "(home k + ?d) mod n = (home k mod n + (i + (n - home k mod n))) mod n"
    by (simp add: mod_add_left_eq mod_add_right_eq)
  also have "\<dots> = (i + n) mod n"
    using mod_less_divisor [OF size_pos, of "home k"] by (simp add: algebra_simps)
  finally have "i = (home k + ?d) mod n" using \<open>i < n\<close> by simp
  moreover have "?d < n" using size_pos by simp
  ultimately show ?thesis by blast
qed

lemma probe_lt: "probe_slot n home keys k = Some i \<Longrightarrow> i < n"
  using size_pos by (auto simp: probe_slot_cases)

lemma probe_hit:
  assumes inv: "probe_inv n home keys" and i: "i < n" "keys i = Some k"
  shows "probe_slot n home keys k = Some i"
proof -
  obtain d where d: "d < n" "i = (home k + d) mod n" "\<forall>j < d. keys ((home k + j) mod n) \<noteq> None"
    using inv i unfolding probe_inv_def by blast
  have "keys ((home k + j) mod n) \<noteq> Some k" if "j < d" for j
  proof
    assume "keys ((home k + j) mod n) = Some k"
    then have "(home k + j) mod n = i" using inv i size_pos unfolding probe_inv_def by (meson mod_less_divisor)
    then show False using add_mod_inject [of "home k" j n d] that d by simp
  qed
  then show ?thesis using d i by (auto simp: probe_slot_cases)
qed

lemma probe_miss:
  assumes free: "i < n" "keys i = None" and new: "\<And>j. j < n \<Longrightarrow> keys j \<noteq> Some k"
  shows "\<exists>j < n. probe_slot n home keys k = Some j \<and> keys j = None"
proof (cases "probe_slot n home keys k")
  case None
  then show ?thesis using every_slot [OF free(1), of k] free(2) by (auto simp: probe_slot_None)
next
  case (Some j)
  then show ?thesis using probe_lt [OF Some] new by (auto simp: probe_slot_cases)
qed

lemma probe_stored:
  assumes "probe_inv n home keys" "probe_slot n home keys k = Some i"
  shows "keys i = Some k \<or> keys i = None \<and> (\<forall>j < n. keys j \<noteq> Some k)"
  using assms probe_hit by (fastforce simp: probe_slot_cases)

lemma insert_inv:
  assumes inv: "probe_inv n home keys" and s: "probe_slot n home keys k = Some i"
  shows "probe_inv n home (keys(i := Some k))"
proof (cases "keys i = Some k")
  case True
  then have "keys(i := Some k) = keys" by auto
  then show ?thesis using inv by simp
next
  case False
  then have new: "\<forall>j < n. keys j \<noteq> Some k" and free: "keys i = None" using probe_stored [OF inv s] by auto
  let ?keys = "keys(i := Some k)"
  have "\<exists>d < n. i' = (home k' + d) mod n \<and> (\<forall>j < d. ?keys ((home k' + j) mod n) \<noteq> None)"
    if i': "i' < n" "?keys i' = Some k'" for i' k'
  proof (cases "i' = i")
    case True
    then show ?thesis using s i' by (auto simp: probe_slot_cases)
  next
    case False
    then show ?thesis using inv i' unfolding probe_inv_def by (metis fun_upd_other fun_upd_same option.distinct(1))
  qed
  moreover have "i1 = i2" if "i1 < n" "i2 < n" "?keys i1 = Some k'" "?keys i2 = Some k'" for i1 i2 k'
    using that new inv unfolding probe_inv_def by (auto split: if_splits)
  ultimately show ?thesis unfolding probe_inv_def by blast
qed

text \<open>Emptying a slot keeps the invariant when the next slot is free: nothing was probed past it.\<close>

lemma delete_inv:
  assumes inv: "probe_inv n home keys" and i: "i < n" "keys (Suc i mod n) = None"
  shows "probe_inv n home (keys(i := None))"
proof -
  let ?keys = "keys(i := None)"
  have "\<exists>d < n. i' = (home k + d) mod n \<and> (\<forall>j < d. ?keys ((home k + j) mod n) \<noteq> None)"
    if i': "i' < n" "?keys i' = Some k" for i' k
  proof -
    have ne: "i' \<noteq> i" "keys i' = Some k" using i' by (auto split: if_splits)
    obtain d where d: "d < n" "i' = (home k + d) mod n" "\<forall>j < d. keys ((home k + j) mod n) \<noteq> None"
      using inv ne(2) i'(1) unfolding probe_inv_def by blast
    have "(home k + j) mod n \<noteq> i" if "j < d" for j
    proof
      assume j: "(home k + j) mod n = i"
      have nxt: "Suc i mod n = (home k + Suc j) mod n" by (simp add: j [symmetric] mod_Suc_eq)
      show False
      proof (cases "Suc j = d")
        case True
        then show False using nxt i(2) d(2) ne(2) by simp
      next
        case False
        then show False using nxt i(2) d(3) that by (metis Suc_lessI)
      qed
    qed
    then show ?thesis using d by auto
  qed
  moreover have "i1 = i2" if "i1 < n" "i2 < n" "?keys i1 = Some k'" "?keys i2 = Some k'" for i1 i2 k'
    using that inv unfolding probe_inv_def by (auto split: if_splits)
  ultimately show ?thesis unfolding probe_inv_def by blast
qed

end

end
