(* ===== verification/Cas_Names.thy ===== *)
theory Cas_Names
  imports Cas_State Probing "HOL-Library.Signed_Division"
begin

text \<open>
  The name hash table of server/as/cas_utils.c: \<open>HASH_NAME\<close>, \<open>cas_utils_init\<close>,
  \<open>grow_name_hash_table\<close>, \<open>delete_name\<close>, \<open>enter_name\<close>, \<open>lookup_name\<close>, with \<open>lookup_id\<close>. The hash of a
  name is the sum of its characters, which are signed, so that a name with a byte above 127 can
  have a negative remainder and index the table below its start. The table is allocated in
  whole pages: the words behind its last slot read as null up to the end of the page.
\<close>

section \<open>Operations\<close>

definition INIT_NAME_HASH_TABLE_SIZE :: nat where "INIT_NAME_HASH_TABLE_SIZE = 32"
definition INIT_NAME_HASH_TABLE_LIMIT :: nat where "INIT_NAME_HASH_TABLE_LIMIT = 25"

text \<open>The static data before \<open>cas_utils_init\<close>: everything zero but the limit of the name table.\<close>

definition empty_priv :: priv_entry where
  "empty_priv = \<lparr>p_mapped_port = MACH_PORT_NULL, p_group_record_ptr = None\<rparr>"

definition empty_reg :: reg_entry where
  "empty_reg = \<lparr>r_mapped_port = MACH_PORT_NULL, r_private_port = MACH_PORT_NULL, r_group_ids = [], r_user_id = 0\<rparr>"

definition static_state :: "u8 list option \<Rightarrow> cas_state" where
  "static_state db = \<lparr>recs = Map.empty, next_addr = 0, group_id_map = (\<lambda>_. None), name_hash_table = [],
     name_hash_table_limit = INIT_NAME_HASH_TABLE_LIMIT, name_hash_table_num_entries = 0,
     priv_port_map = (\<lambda>_. empty_priv), reg_port_map = (\<lambda>_. empty_reg),
     database = db, db_backup = None, calls = 0\<rparr>"

definition HASH_NAME :: "nat \<Rightarrow> cstring \<Rightarrow> nat result" where
  "HASH_NAME size_of_table name =
     (if size_of_table = 0 then Inl Divide_Trap
      else (let i = signed_modulo (sum_list (map sint name)) (int size_of_table)
            in if i < 0 then Inl Out_Of_Bounds else Inr (nat i)))"

definition cas_utils_init :: "kernel \<Rightarrow> cas_state \<Rightarrow> bool \<times> cas_state" where
  "cas_utils_init k s =
     (let (ok, s) = vm_allocate k s
      in if ok then (True, s\<lparr>name_hash_table := replicate INIT_NAME_HASH_TABLE_SIZE None\<rparr>) else (False, s))"

text \<open>The number of words of the pages that hold a table of \<open>n\<close> pointers of 4 bytes.\<close>

definition table_words :: "nat \<Rightarrow> nat" where
  "table_words n = ((4 * n + 4095) div 4096) * 1024"

definition table_at :: "cas_state \<Rightarrow> nat \<Rightarrow> ptr result" where
  "table_at s i =
     (if i < name_hash_table_size s then Inr (name_hash_table s ! i)
      else if i < table_words (name_hash_table_size s) then Inr None
      else Inl Bad_Address)"

text \<open>
  The probe loop of \<open>lookup_name\<close> and \<open>delete_name\<close>; it ends with the slot it stops at, or with
  none when it comes back to the first index. The first argument bounds the iterations: from
  the original index the loop is back there after as many steps as the table has slots.
\<close>

primrec probe_name :: "nat \<Rightarrow> cas_state \<Rightarrow> cstring \<Rightarrow> nat \<Rightarrow> nat \<Rightarrow> nat option result" where
  "probe_name 0 s name original_index index = Inl Diverges"
| "probe_name (Suc n) s name original_index index =
     (case name_hash_table s ! index of
        None \<Rightarrow> Inr (Some index)
      | Some a \<Rightarrow>
          bindE (rec_at s (Some a)) (\<lambda>r.
          if group_name r = name then Inr (Some index)
          else (let index = Suc index mod name_hash_table_size s
                in if index = original_index then Inr None
                   else probe_name n s name original_index index)))"

definition lookup_name :: "cas_state \<Rightarrow> cstring \<Rightarrow> ptr result" where
  "lookup_name s name =
     bindE (HASH_NAME (name_hash_table_size s) name) (\<lambda>index.
     bindE (probe_name (name_hash_table_size s) s name index index) (\<lambda>stop.
     (case stop of None \<Rightarrow> Inr None | Some index \<Rightarrow> Inr (name_hash_table s ! index))))"

text \<open>The loops that look for a free slot: in \<open>enter_name\<close> and, without an end test, in the new table.\<close>

primrec probe_free :: "nat \<Rightarrow> ptr list \<Rightarrow> nat \<Rightarrow> nat \<Rightarrow> nat option result" where
  "probe_free 0 table original_index index = Inl Diverges"
| "probe_free (Suc n) table original_index index =
     (case table ! index of
        None \<Rightarrow> Inr (Some index)
      | Some a \<Rightarrow> (let index = Suc index mod length table
                   in if index = original_index then Inr None else probe_free n table original_index index))"

primrec probe_new :: "nat \<Rightarrow> ptr list \<Rightarrow> nat \<Rightarrow> nat result" where
  "probe_new 0 table index = Inl Diverges"
| "probe_new (Suc n) table index =
     (if table ! index \<noteq> None then probe_new n table (Suc index mod length table) else Inr index)"

text \<open>The loop over the old table: it dereferences every old slot, whether or not it is null.\<close>

fun rehash_entries :: "cas_state \<Rightarrow> ptr list \<Rightarrow> ptr list \<Rightarrow> ptr list result" where
  "rehash_entries s [] new_hash_table = Inr new_hash_table"
| "rehash_entries s (old # olds) new_hash_table =
     bindE (rec_at s old) (\<lambda>r.
     bindE (HASH_NAME (length new_hash_table) (group_name r)) (\<lambda>index.
     bindE (probe_new (length new_hash_table) new_hash_table index) (\<lambda>index.
     rehash_entries s olds (new_hash_table[index := old]))))"

definition grow_name_hash_table :: "kernel \<Rightarrow> cas_state \<Rightarrow> cas_state result" where
  "grow_name_hash_table k s =
     (let new_size = 2 * name_hash_table_size s; (ok, s) = vm_allocate k s
      in if \<not> ok then Inr s
         else bindE (rehash_entries s (name_hash_table s) (replicate new_size None)) (\<lambda>new_hash_table.
           Inr (s\<lparr>name_hash_table := new_hash_table,
                  name_hash_table_limit := name_hash_table_limit s * 2\<rparr>)))"

text \<open>
  One call of \<open>enter_name\<close>: True when the entry is stored, False when the table was full and the
  code calls itself again after growing it. The recursion need not end when the growth fails.
\<close>

definition enter_name_round :: "kernel \<Rightarrow> ptr \<Rightarrow> cas_state \<Rightarrow> (bool \<times> cas_state) result" where
  "enter_name_round k group_record_ptr s =
     (let s = s\<lparr>name_hash_table_num_entries := Suc (name_hash_table_num_entries s)\<rparr>
      in bindE (if name_hash_table_limit s < name_hash_table_num_entries s
                then grow_name_hash_table k s else Inr s) (\<lambda>s.
         bindE (rec_at s group_record_ptr) (\<lambda>r.
         bindE (HASH_NAME (name_hash_table_size s) (group_name r)) (\<lambda>index.
         bindE (probe_free (name_hash_table_size s) (name_hash_table s) index index) (\<lambda>stop.
         (case stop of
            Some index \<Rightarrow> Inr (True, s\<lparr>name_hash_table := (name_hash_table s)[index := group_record_ptr]\<rparr>)
          | None \<Rightarrow> bindE (grow_name_hash_table k s) (\<lambda>s. Inr (False, s))))))))"

partial_function (option) enter_name_loop :: "kernel \<Rightarrow> ptr \<Rightarrow> cas_state \<Rightarrow> cas_state result option" where
  "enter_name_loop k group_record_ptr s =
     (case enter_name_round k group_record_ptr s of
        Inl e \<Rightarrow> Some (Inl e)
      | Inr x \<Rightarrow> if fst x then Some (Inr (snd x)) else enter_name_loop k group_record_ptr (snd x))"

definition enter_name :: "kernel \<Rightarrow> ptr \<Rightarrow> cas_state \<Rightarrow> cas_state result" where
  "enter_name k p s = (case enter_name_loop k p s of None \<Rightarrow> Inl Diverges | Some r \<Rightarrow> r)"

text \<open>
  The loop of \<open>delete_name\<close> that rehashes the entries behind the deleted one. Its index is not
  reduced modulo the table size, so it ends at a null slot, at the latest behind the table, or
  runs off the page.
\<close>

primrec rehash_following :: "nat \<Rightarrow> kernel \<Rightarrow> nat \<Rightarrow> cas_state \<Rightarrow> cas_state result" where
  "rehash_following 0 k index s = Inl Diverges"
| "rehash_following (Suc n) k index s =
     bindE (table_at s index) (\<lambda>rehash_entry.
     (case rehash_entry of
        None \<Rightarrow> Inr s
      | Some a \<Rightarrow>
          bindE (enter_name k (Some a) (s\<lparr>name_hash_table := (name_hash_table s)[index := None]\<rparr>)) (\<lambda>s.
          rehash_following n k (Suc index) s)))"

definition delete_name :: "kernel \<Rightarrow> cstring \<Rightarrow> cas_state \<Rightarrow> cas_state result" where
  "delete_name k name s =
     bindE (HASH_NAME (name_hash_table_size s) name) (\<lambda>index.
     bindE (probe_name (name_hash_table_size s) s name index index) (\<lambda>stop.
     (case stop of
        None \<Rightarrow> Inr s
      | Some index \<Rightarrow>
          if name_hash_table s ! index = None then Inr s
          else rehash_following (Suc (table_words (name_hash_table_size s))) k (Suc index)
                 (s\<lparr>name_hash_table := (name_hash_table s)[index := None]\<rparr>))))"

definition lookup_id :: "cas_state \<Rightarrow> u32 \<Rightarrow> ptr" where
  "lookup_id s i = (if GROUP_ID_MAX \<le> unat i then None else group_id_map s (unat i))"

end
