(* ===== verification/Cas_Db.thy ===== *)
theory Cas_Db
  imports Cas_Names
begin

text \<open>
  The authentication database of server/as/cas_db.c: \<open>save_database\<close> writes one line for each group
  and \<open>read_database\<close> parses the lines back, character by character. A line is parsed in the
  buffer \<open>input_line\<close>, which keeps what earlier lines left behind the terminating zero; the
  cursor \<open>cp\<close> is the rest of the buffer from where it stands. Writing to a file that could be
  opened is taken to succeed, as the code does not look at the results.
\<close>

section \<open>Numbers in decimal\<close>

fun dec_nat :: "nat \<Rightarrow> u8 list" where
  "dec_nat n = (if n < 10 then [of_nat (48 + n)] else dec_nat (n div 10) @ [of_nat (48 + n mod 10)])"

declare dec_nat.simps [simp del]

text \<open>What \<open>sprintf\<close> prints for the format %d, and what \<open>atoi\<close> reads.\<close>

definition print_d :: "u32 \<Rightarrow> u8 list" where
  "print_d i = (if 0 \<le> sint i then dec_nat (nat (sint i)) else 45 # dec_nat (nat (- sint i)))"

definition digit_byte :: "u8 \<Rightarrow> bool" where
  "digit_byte c = (48 \<le> c \<and> c \<le> 57)"

definition space_byte :: "u8 \<Rightarrow> bool" where
  "space_byte c = (c = 32 \<or> 9 \<le> c \<and> c \<le> 13)"

definition dec_value :: "u8 list \<Rightarrow> u32" where
  "dec_value cs = foldl (\<lambda>v c. 10 * v + (ucast c - 48)) 0 (takeWhile digit_byte cs)"

definition atoi :: "u8 list \<Rightarrow> u32" where
  "atoi cs = (case dropWhile space_byte cs of
      [] \<Rightarrow> 0
    | c # rest \<Rightarrow> if c = 45 then - dec_value rest else if c = 43 then dec_value rest else dec_value (c # rest))"

section \<open>Writing the database\<close>

definition INPUT_LINE_MAX :: nat where "INPUT_LINE_MAX = 1024"

text \<open>\<open>sprintf\<close> of an id into \<open>mem_id\<close>, which has room for nine characters.\<close>

definition mem_id :: "u32 \<Rightarrow> u8 list result" where
  "mem_id i = (if length (print_d i) < 10 then Inr (print_d i) else Inl Out_Of_Bounds)"

text \<open>A list of ids: a comma before each but the first.\<close>

fun print_ids :: "bool \<Rightarrow> u32 list \<Rightarrow> u8 list result" where
  "print_ids first [] = Inr []"
| "print_ids first (i # ids) =
     bindE (mem_id i) (\<lambda>t. bindE (print_ids False ids) (\<lambda>rest. Inr ((if first then [] else [44]) @ t @ rest)))"

definition colon :: u8 where "colon = 58"

definition output_line :: "group_record \<Rightarrow> u8 list result" where
  "output_line r =
     bindE (if group_type r = AS_PRIMARY
            then Inr (pass_word r @ [colon])
            else bindE (print_ids True (members r)) (\<lambda>t. Inr (t @ [colon]))) (\<lambda>middle.
     bindE (print_ids True (memberships r)) (\<lambda>t.
     let line = group_name r @ [colon] @ print_d (group_id r) @ [colon] @
                (if group_type r = AS_PRIMARY then [80] else [83]) @ [colon] @
                full_name r @ [colon] @ print_d (owner_id r) @ [colon] @ middle @ t @ [colon, 10]
     in if length line < INPUT_LINE_MAX then Inr line else Inl Out_Of_Bounds))"

text \<open>\<open>fputs\<close> stops at the first zero byte.\<close>

definition fputs :: "u8 list \<Rightarrow> u8 list \<Rightarrow> u8 list" where
  "fputs line file = file @ takeWhile (\<lambda>c. c \<noteq> 0) line"

definition db_header :: "u8 list" where
  "db_header = [35, 10] @ ascii ''# Database format:'' @ [10] @
     ascii ''#     Primary groups:   <user-name>:<group-id>:P:<full-name>:<owner-id>:<encry-password>:<membership-list>'' @ [10] @
     ascii ''#     Secondary groups: <group-name>:<group-id>:S:<full-name>:<owner-id>:<member-list>:<membership-list>'' @ [10] @
     [35, 10]"

definition write_group :: "cas_state \<Rightarrow> nat \<Rightarrow> u8 list \<Rightarrow> u8 list result" where
  "write_group s i file = (case group_id_map s i of
       None \<Rightarrow> Inr file
     | Some a \<Rightarrow> bindE (rec_at s (Some a)) (\<lambda>r. bindE (output_line r) (\<lambda>line. Inr (fputs line file))))"

definition rename :: "kernel \<Rightarrow> cas_state \<Rightarrow> bool \<times> cas_state" where
  "rename k s =
     (if file_ok k (calls s) \<and> database s \<noteq> None
      then (True, s\<lparr>calls := Suc (calls s), db_backup := database s, database := None\<rparr>)
      else (False, s\<lparr>calls := Suc (calls s)\<rparr>))"

definition save_database :: "kernel \<Rightarrow> cas_state \<Rightarrow> cas_state result" where
  "save_database k s =
     (let (ok, s) = rename k s in
      if \<not> ok then Inr s
      else if \<not> file_ok k (calls s) then Inr (s\<lparr>calls := Suc (calls s)\<rparr>)
      else bindE (foldE (write_group s) [0..<GROUP_ID_MAX] db_header) (\<lambda>file.
           Inr (s\<lparr>calls := Suc (calls s), database := Some file\<rparr>)))"

section \<open>Reading the database\<close>

text \<open>\<open>*cp\<close> and \<open>cp++\<close>: the cursor may not leave the buffer.\<close>

definition peek :: "u8 list \<Rightarrow> u8 result" where
  "peek cp = (case cp of [] \<Rightarrow> Inl Out_Of_Bounds | c # _ \<Rightarrow> Inr c)"

definition advance :: "u8 list \<Rightarrow> u8 list result" where
  "advance cp = (case cp of [] \<Rightarrow> Inl Out_Of_Bounds | _ # rest \<Rightarrow> Inr rest)"

text \<open>Copying characters up to a zero or one of the stop characters into an array of the given size.\<close>

fun scan_field :: "nat \<Rightarrow> u8 list \<Rightarrow> u8 list \<Rightarrow> (u8 list \<times> u8 list) result" where
  "scan_field room stops [] = Inl Out_Of_Bounds"
| "scan_field room stops (c # cp) =
     (if room = 0 then Inl Out_Of_Bounds
      else if c = 0 \<or> c \<in> set stops then Inr ([], c # cp)
      else bindE (scan_field (room - 1) stops cp) (\<lambda>(field, cp). Inr (c # field, cp)))"

text \<open>A list of ids up to a colon; the array has \<open>MEMBERS_MAX\<close> entries. The first argument bounds the
  loop, which moves the cursor in every iteration: a field is empty only at a comma.\<close>

primrec scan_ids :: "nat \<Rightarrow> u32 list \<Rightarrow> u8 list \<Rightarrow> (u32 list \<times> u8 list) result" where
  "scan_ids 0 ids cp = Inl Diverges"
| "scan_ids (Suc n) ids cp =
     bindE (peek cp) (\<lambda>c.
     if c = 0 \<or> c = colon then Inr (ids, cp)
     else bindE (scan_field 64 [colon, 44] cp) (\<lambda>(field, cp).
          if MEMBERS_MAX \<le> length ids then Inl Out_Of_Bounds
          else bindE (peek cp) (\<lambda>c.
               bindE (if c = 44 then advance cp else Inr cp) (\<lambda>cp.
               scan_ids n (ids @ [atoi field]) cp))))"

fun scan_password :: "nat \<Rightarrow> u8 list \<Rightarrow> (u8 list \<times> u8 list) result" where
  "scan_password 0 cp = Inr ([], cp)"
| "scan_password (Suc n) cp =
     bindE (peek cp) (\<lambda>c. bindE (advance cp) (\<lambda>cp.
     bindE (scan_password n cp) (\<lambda>(pw, cp). Inr (c # pw, cp))))"

text \<open>
  The body of the loop for a line that is not a comment: the record it fills in and its entry in
  the id map.
\<close>

definition parse_line :: "u8 list \<Rightarrow> group_record result" where
  "parse_line cp =
     bindE (scan_field GROUP_NAME_SIZE [colon] cp) (\<lambda>(name, cp). bindE (advance cp) (\<lambda>cp.
     bindE (scan_field 64 [colon] cp) (\<lambda>(field, cp).
     let gid = atoi field in bindE (advance cp) (\<lambda>cp.
     bindE (peek cp) (\<lambda>c.
     let gtype = (if c = 80 then AS_PRIMARY else AS_SECONDARY) in
     bindE (advance cp) (\<lambda>cp. bindE (advance cp) (\<lambda>cp.
     bindE (scan_field FULL_NAME_SIZE [colon] cp) (\<lambda>(full, cp). bindE (advance cp) (\<lambda>cp.
     bindE (scan_field 64 [colon] cp) (\<lambda>(field, cp).
     let owner = atoi field in bindE (advance cp) (\<lambda>cp.
     bindE (if gtype = AS_PRIMARY
            then bindE (scan_password PASS_WORD_SIZE cp) (\<lambda>(pw, cp). bindE (advance cp) (\<lambda>cp. Inr (pw, [], cp)))
            else bindE (scan_ids (Suc (length cp)) [] cp) (\<lambda>(ids, cp). bindE (advance cp) (\<lambda>cp. Inr (replicate PASS_WORD_SIZE 0, ids, cp))))
       (\<lambda>(pw, mems, cp).
     bindE (scan_ids (Suc (length cp)) [] cp) (\<lambda>(mships, cp).
     Inr \<lparr>group_name = name, group_id = gid, group_type = gtype, full_name = full, owner_id = owner,
          pass_word = pw, touched = False, tr_memberships = [], members = mems, memberships = mships\<rparr>)))))))))))))"

text \<open>\<open>fgets\<close>: at most \<open>INPUT_LINE_MAX - 1\<close> characters, up to and including a newline.\<close>

fun fgets :: "nat \<Rightarrow> u8 list \<Rightarrow> u8 list \<times> u8 list" where
  "fgets 0 file = ([], file)"
| "fgets (Suc n) [] = ([], [])"
| "fgets (Suc n) (c # file) = (if c = 10 then ([c], file) else (let (line, rest) = fgets n file in (c # line, rest)))"

definition load_line :: "u8 list \<Rightarrow> u8 list \<Rightarrow> u8 list" where
  "load_line line buffer = line @ [0] @ drop (Suc (length line)) buffer"

lemma fgets_rest: "0 < n \<Longrightarrow> cs \<noteq> [] \<Longrightarrow> length (snd (fgets n cs)) < length cs"
proof (induction n cs rule: fgets.induct)
  case (3 n c cs)
  then show ?case by (cases n; cases cs) (auto simp: Let_def split: prod.splits)
qed simp_all

definition read_group :: "kernel \<Rightarrow> u8 list \<Rightarrow> cas_state \<Rightarrow> (bool \<times> cas_state) result" where
  "read_group k cp s =
     (case vm_allocate_record k s of
        (None, s) \<Rightarrow> Inr (False, s)
      | (Some a, s) \<Rightarrow>
          bindE (parse_line cp) (\<lambda>r.
          bindE (set_id_map (group_id r) (Some a) s) (\<lambda>s.
          Inr (True, s\<lparr>recs := (recs s)(a \<mapsto> r)\<rparr>))))"

function read_lines :: "kernel \<Rightarrow> u8 list \<Rightarrow> u8 list \<Rightarrow> cas_state \<Rightarrow> (bool \<times> cas_state) result" where
  "read_lines k buffer file s =
     (if file = [] then Inr (True, s)
      else (let (line, rest) = fgets (INPUT_LINE_MAX - 1) file; buffer = load_line line buffer
            in if hd buffer = 35 then read_lines k buffer rest s
               else (case read_group k buffer s of
                       Inl e \<Rightarrow> Inl e
                     | Inr (ok, s) \<Rightarrow> if ok then read_lines k buffer rest s else Inr (False, s))))"
  by pat_completeness auto
termination
  by (relation "measure (\<lambda>(k, buffer, file, s). length file)")
    (use fgets_rest [of "INPUT_LINE_MAX - 1"] in \<open>auto simp: INPUT_LINE_MAX_def, (metis snd_conv zero_less_numeral)+\<close>)

declare read_lines.simps [simp del]

definition enter_id :: "kernel \<Rightarrow> nat \<Rightarrow> cas_state \<Rightarrow> cas_state result" where
  "enter_id k i s = (if group_id_map s i \<noteq> None then enter_name k (group_id_map s i) s else Inr s)"

text \<open>\<open>buffer\<close> is what the stack holds in \<open>input_line\<close> before the first line is read.\<close>

definition read_database :: "kernel \<Rightarrow> u8 list \<Rightarrow> cas_state \<Rightarrow> (bool \<times> cas_state) result" where
  "read_database k buffer s =
     (case database s of
        None \<Rightarrow> Inr (False, s)
      | Some file \<Rightarrow>
          if \<not> file_ok k (calls s) then Inr (False, s\<lparr>calls := Suc (calls s)\<rparr>)
          else bindE (read_lines k buffer file (s\<lparr>calls := Suc (calls s)\<rparr>)) (\<lambda>(ok, s).
               if \<not> ok then Inr (False, s)
               else bindE (foldE (enter_id k) [0..<GROUP_ID_MAX] s) (\<lambda>s. Inr (True, s))))"

end
