(* ===== verification/Port_Table.thy ===== *)
theory Port_Table
  imports Cas_State Probing
begin

text \<open>
  The hash tables of ports that both authentication servers keep: arrays whose entries carry a
  \<open>mapped_port\<close>, null in a free slot, searched by a macro \<open>HASH_PORT\<close> that probes from the home
  slot of the port until it meets the port or a free slot. The locale \<open>port_table\<close> states what
  the two macros have in common, their loop, and gives what a search finds.
\<close>

text \<open>The keys of a table of ports: a slot with a null port is free.\<close>

definition port_keys :: "(nat \<Rightarrow> u32) \<Rightarrow> nat \<Rightarrow> u32 option" where
  "port_keys mapped_port i = (if mapped_port i = MACH_PORT_NULL then None else Some (mapped_port i))"

locale port_table = probing n home for n :: nat and home :: "u32 \<Rightarrow> nat" +
  fixes probe :: "nat \<Rightarrow> (nat \<Rightarrow> u32) \<Rightarrow> u32 \<Rightarrow> nat \<Rightarrow> nat result"
    and search :: "u32 \<Rightarrow> (nat \<Rightarrow> u32) \<Rightarrow> nat result"
  assumes home_lt: "home port < n"
    and probe_0: "probe 0 mp port i = Inl Diverges"
    and probe_Suc: "probe (Suc m) mp port i =
      (if mp i \<noteq> port \<and> mp i \<noteq> MACH_PORT_NULL then probe m mp port (Suc i mod n) else Inr i)"
    and search: "search port mp = probe n mp port (home port)"
begin

lemma probe_find:
  "j \<le> n \<Longrightarrow> probe (n - j) mp port ((home port + j) mod n) =
    (case find (\<lambda>j. mp ((home port + j) mod n) = port \<or> mp ((home port + j) mod n) = MACH_PORT_NULL) [j..<n]
     of None \<Rightarrow> Inl Diverges | Some j \<Rightarrow> Inr ((home port + j) mod n))"
proof (induction "n - j" arbitrary: j)
  case 0
  then show ?case by (simp add: probe_0)
next
  case (Suc m)
  then have unfold: "n - j = Suc (n - Suc j)" "j < n" by simp_all
  then show ?case
    using Suc.hyps(1) [of "Suc j"] Suc.hyps(2)
    by (simp add: upt_conv_Cons probe_Suc mod_Suc_eq)
qed

lemma search_find:
  "search port mp =
    (case find (\<lambda>j. mp ((home port + j) mod n) = port \<or> mp ((home port + j) mod n) = MACH_PORT_NULL) [0..<n]
     of None \<Rightarrow> Inl Diverges | Some j \<Rightarrow> Inr ((home port + j) mod n))"
  using probe_find [of 0 mp port] home_lt [of port] by (simp add: search)

lemma slot: "search port mp = Inr i \<Longrightarrow> i < n \<and> (mp i = port \<or> mp i = MACH_PORT_NULL)"
  using size_pos by (auto simp: search_find find_Some_upt split: option.splits)

lemma total:
  assumes "i < n" "mp i = port \<or> mp i = MACH_PORT_NULL"
  shows "\<exists>i. search port mp = Inr i"
proof -
  obtain d where "d < n" "i = (home port + d) mod n" using every_slot [OF assms(1)] by blast
  then have "find (\<lambda>j. mp ((home port + j) mod n) = port \<or> mp ((home port + j) mod n) = MACH_PORT_NULL) [0..<n] \<noteq> None"
    using assms(2) by (auto simp: find_None_upt)
  then show ?thesis by (auto simp: search_find)
qed

lemma search_probe:
  assumes "port \<noteq> MACH_PORT_NULL"
  shows "search port mp = (case probe_slot n home (port_keys mp) port of None \<Rightarrow> Inl Diverges | Some i \<Rightarrow> Inr i)"
proof -
  have "(port_keys mp i = None \<or> port_keys mp i = Some port) \<longleftrightarrow> (mp i = port \<or> mp i = MACH_PORT_NULL)" for i
    using assms by (auto simp: port_keys_def)
  then show ?thesis by (simp add: search_find probe_slot_def split: option.splits)
qed

text \<open>A search ends at the same slot when the port is stored there, or the slot is freed.\<close>

lemma search_set: "search port mp = Inr i \<Longrightarrow> search port (mp(i := port)) = Inr i"
proof -
  have "probe m mp port j = Inr i \<Longrightarrow> probe m (mp(i := port)) port j = Inr i" for m j
    by (induction m arbitrary: j) (auto simp: probe_0 probe_Suc split: if_split_asm)
  then show "search port mp = Inr i \<Longrightarrow> search port (mp(i := port)) = Inr i" by (simp add: search)
qed

lemma search_clear: "search port mp = Inr i \<Longrightarrow> search port (mp(i := MACH_PORT_NULL)) = Inr i"
proof -
  have "probe m mp port j = Inr i \<Longrightarrow> probe m (mp(i := MACH_PORT_NULL)) port j = Inr i" for m j
    by (induction m arbitrary: j) (auto simp: probe_0 probe_Suc split: if_split_asm)
  then show "search port mp = Inr i \<Longrightarrow> search port (mp(i := MACH_PORT_NULL)) = Inr i" by (simp add: search)
qed

text \<open>A stored port is found at its slot for as long as no entry of the table is freed or replaced.\<close>

lemma search_stable:
  assumes "search port mp = Inr i" "mp i = port" "port \<noteq> MACH_PORT_NULL" "\<And>j. mp j \<noteq> MACH_PORT_NULL \<Longrightarrow> mp' j = mp j"
  shows "search port mp' = Inr i"
proof -
  have "probe m mp port j = Inr i \<Longrightarrow> probe m mp' port j = Inr i" for m j
  proof (induction m arbitrary: j)
    case (Suc m)
    show ?case
    proof (cases "mp j \<noteq> port \<and> mp j \<noteq> MACH_PORT_NULL")
      case True
      then show ?thesis using Suc assms(4) [of j] by (simp add: probe_Suc)
    next
      case False
      then have "j = i" using Suc.prems unfolding probe_Suc by (simp only: if_not_P) simp
      then show ?thesis using assms(2,3) assms(4) [of i] by (simp add: probe_Suc)
    qed
  qed (simp add: probe_0)
  then show ?thesis using assms(1) by (simp add: search)
qed

lemma search_correct:
  assumes inv: "probe_inv n home (port_keys mp)" and port: "port \<noteq> MACH_PORT_NULL"
  shows "(\<forall>i < n. mp i = port \<longrightarrow> search port mp = Inr i) \<and>
    ((\<forall>i < n. mp i \<noteq> port) \<longrightarrow>
      (if \<exists>i < n. mp i = MACH_PORT_NULL
       then \<exists>i < n. search port mp = Inr i \<and> mp i = MACH_PORT_NULL
       else search port mp = Inl Diverges))"
proof (intro conjI allI impI)
  fix i assume i: "i < n" "mp i = port"
  then have "probe_slot n home (port_keys mp) port = Some i"
    using port by (intro probe_hit [OF inv]) (auto simp: port_keys_def)
  then show "search port mp = Inr i" by (simp add: search_probe [OF port])
next
  assume new: "\<forall>i < n. mp i \<noteq> port"
  show "if \<exists>i < n. mp i = MACH_PORT_NULL
       then \<exists>i < n. search port mp = Inr i \<and> mp i = MACH_PORT_NULL
       else search port mp = Inl Diverges"
  proof (cases "\<exists>i < n. mp i = MACH_PORT_NULL")
    case True
    then obtain i where "i < n" "mp i = MACH_PORT_NULL" by blast
    then obtain j where j: "search port mp = Inr j" using total by blast
    then have "j < n \<and> mp j = MACH_PORT_NULL" using slot [OF j] new by blast
    then show ?thesis using True j by auto
  next
    case False
    then have "\<nexists>i. search port mp = Inr i" using new slot by blast
    then show ?thesis using False
      by (cases "probe_slot n home (port_keys mp) port") (simp_all add: search_probe [OF port])
  qed
qed

end

end
