(* ===== verification/Cas_Ports.thy ===== *)
theory Cas_Ports
  imports Cas_Names Port_Table
begin

text \<open>
  The port maps of server/as/cas_procs.c: the macro \<open>HASH_PORT\<close>, which probes an open hash
  table of \<open>PORT_MAP_MAX\<close> slots for a port or a free slot, and the lookup of the record behind a
  private port that begins most handlers.
\<close>

section \<open>Operations\<close>

definition port_home :: "u32 \<Rightarrow> nat" where
  "port_home port = unat (((drop_bit 8 port AND 0xff) XOR (port AND 0xff)) AND of_nat (PORT_MAP_MAX - 1))"

text \<open>
  The loop of the macro; the map is seen through its \<open>mapped_port\<close> fields. A table with neither
  the port nor a free slot makes it run for ever, which shows after \<open>PORT_MAP_MAX\<close> steps.
\<close>

primrec probe_port :: "nat \<Rightarrow> (nat \<Rightarrow> u32) \<Rightarrow> u32 \<Rightarrow> nat \<Rightarrow> nat result" where
  "probe_port 0 mapped_port port index = Inl Diverges"
| "probe_port (Suc n) mapped_port port index =
     (if mapped_port index \<noteq> port \<and> mapped_port index \<noteq> MACH_PORT_NULL
      then probe_port n mapped_port port (Suc index AND (PORT_MAP_MAX - 1))
      else Inr index)"

definition HASH_PORT :: "u32 \<Rightarrow> (nat \<Rightarrow> u32) \<Rightarrow> nat result" where
  "HASH_PORT port mapped_port = probe_port PORT_MAP_MAX mapped_port port (port_home port)"

abbreviation priv_ports :: "cas_state \<Rightarrow> nat \<Rightarrow> u32" where
  "priv_ports s \<equiv> \<lambda>i. p_mapped_port (priv_port_map s i)"

abbreviation reg_ports :: "cas_state \<Rightarrow> nat \<Rightarrow> u32" where
  "reg_ports s \<equiv> \<lambda>i. r_mapped_port (reg_port_map s i)"

text \<open>The check of the private port in the handlers: null, or the pointer in the slot the probe ends at.\<close>

definition private_record :: "cas_state \<Rightarrow> u32 \<Rightarrow> ptr result" where
  "private_record s private_port =
     (if private_port = MACH_PORT_NULL then Inr None
      else bindE (HASH_PORT private_port (priv_ports s)) (\<lambda>port_index.
           Inr (p_group_record_ptr (priv_port_map s port_index))))"

section \<open>Probing\<close>

lemma port_index_wrap: "n AND (PORT_MAP_MAX - Suc 0) = n mod PORT_MAP_MAX" for n :: nat
proof -
  have "n AND mask 9 = n mod 2 ^ 9" by (simp add: take_bit_eq_mod flip: take_bit_eq_mask)
  then show ?thesis by (simp add: PORT_MAP_MAX_def mask_eq_exp_minus_1)
qed

lemma port_home_lt: "port_home port < PORT_MAP_MAX"
proof -
  let ?x = "(drop_bit 8 port AND 0xff) XOR (port AND 0xff)"
  have "?x AND of_nat (PORT_MAP_MAX - 1) \<le> of_nat (PORT_MAP_MAX - 1)" by (rule word_and_le1)
  then have "unat (?x AND of_nat (PORT_MAP_MAX - 1)) \<le> unat (of_nat (PORT_MAP_MAX - 1) :: u32)"
    by (simp add: word_le_nat_alt)
  then show ?thesis by (simp add: port_home_def PORT_MAP_MAX_def)
qed

interpretation port_map: port_table PORT_MAP_MAX port_home probe_port HASH_PORT
  by unfold_locales (simp_all add: PORT_MAP_MAX_def [symmetric] port_home_lt port_index_wrap HASH_PORT_def, simp add: PORT_MAP_MAX_def)

lemmas HASH_PORT_slot = port_map.slot

lemmas HASH_PORT_total = port_map.total

text \<open>
  In a port map where every stored port is reached from its home slot, \<open>HASH_PORT\<close> finds the
  slot of a stored port; for a port that is not stored it ends at a free slot if there is one,
  and it loops for ever exactly when the map is full.
\<close>

lemma HASH_PORT_correct:
  assumes inv: "probe_inv PORT_MAP_MAX port_home (port_keys mp)" and port: "port \<noteq> MACH_PORT_NULL"
  shows "(\<forall>i < PORT_MAP_MAX. mp i = port \<longrightarrow> HASH_PORT port mp = Inr i) \<and>
    ((\<forall>i < PORT_MAP_MAX. mp i \<noteq> port) \<longrightarrow>
      (if \<exists>i < PORT_MAP_MAX. mp i = MACH_PORT_NULL
       then \<exists>i < PORT_MAP_MAX. HASH_PORT port mp = Inr i \<and> mp i = MACH_PORT_NULL
       else HASH_PORT port mp = Inl Diverges))"
  by (rule port_map.search_correct [OF assms])

lemma HASH_PORT_correct_witness:
  "HASH_PORT 0x0102 ((\<lambda>_. 0)(3 := 0x0102)) = Inr 3"
proof -
  let ?mp = "(\<lambda>_. 0)(3 := 0x0102) :: nat \<Rightarrow> u32"
  have h: "port_home 0x0102 = 3" by (simp add: port_home_def PORT_MAP_MAX_def)
  have "probe_inv PORT_MAP_MAX port_home (port_keys ?mp)"
    unfolding probe_inv_def by (auto simp: port_keys_def MACH_PORT_NULL_def h PORT_MAP_MAX_def split: if_splits intro: exI [of _ 0])
  then show ?thesis using HASH_PORT_correct [of ?mp "0x0102"] by (simp add: PORT_MAP_MAX_def MACH_PORT_NULL_def)
qed

end
