(* ===== verification/Cas_Closure.thy ===== *)
theory Cas_Closure
  imports Cas_State "HOL-Library.Multiset"
begin

text \<open>
  The group lists of server/as/cas_utils.c: \<open>check_for_membership\<close>, \<open>delete_from_list\<close> and the
  transitive closure of memberships or members, \<open>do_transitive_closure\<close>, which marks the groups
  it has seen in their \<open>touched\<close> field, counts them in a first search and copies them into a
  list of just that size in a second one. The search is refined to a depth-first search over the
  graph of group ids and shown to return each group that can be reached exactly once.
\<close>

section \<open>Operations\<close>

definition check_for_membership :: "u32 \<Rightarrow> group_record \<Rightarrow> bool" where
  "check_for_membership g r = (if group_id r = g then True else list_ex (\<lambda>i. g = i) (tr_memberships r))"

text \<open>
  The list of a record is its first \<open>count\<close> slots; the slot that falls out of the list is also
  set to \<open>NULL_ID\<close> in the code, where nothing reads it.
\<close>

function delete_from_loop :: "nat \<Rightarrow> u32 list \<Rightarrow> u32 \<Rightarrow> u32 list" where
  "delete_from_loop i group_id_list delete_group =
     (if i < length group_id_list
      then if group_id_list ! i = delete_group
           then if i = length group_id_list - 1 then take (length group_id_list - 1) group_id_list
                else take (length group_id_list - 1) (group_id_list[i := group_id_list ! (length group_id_list - 1)])
           else delete_from_loop (Suc i) group_id_list delete_group
      else group_id_list)"
  by pat_completeness auto
termination by (relation "measure (\<lambda>(i, xs, g). length xs - i)") auto

declare delete_from_loop.simps [simp del]

definition delete_from_list :: "u32 list \<Rightarrow> u32 \<Rightarrow> u32 list" where
  "delete_from_list group_id_list delete_group = delete_from_loop 0 group_id_list delete_group"

text \<open>Storing an id in the list under construction, which is null when its allocation failed.\<close>

definition put_id :: "u32 list option \<Rightarrow> nat \<Rightarrow> u32 \<Rightarrow> u32 list option result" where
  "put_id group_ids group_count gid = (case group_ids of
       None \<Rightarrow> Inl Null_Deref
     | Some ids \<Rightarrow> if group_count < length ids then Inr (Some (ids[group_count := gid])) else Inl Out_Of_Bounds)"

type_synonym search = "u32 list option \<times> nat \<times> cas_state"

definition group_list :: "bool \<Rightarrow> group_record \<Rightarrow> u32 list" where
  "group_list do_memberships r = (if do_memberships then memberships r else members r)"

text \<open>The first argument bounds the depth of the recursion; \<open>GROUP_ID_MAX\<close> and one is always enough.\<close>

primrec do_recursive_search :: "nat \<Rightarrow> bool \<Rightarrow> bool \<Rightarrow> u32 \<Rightarrow> search \<Rightarrow> search result" where
  "do_recursive_search 0 do_memberships copy_group_ids gid st = Inl Diverges"
| "do_recursive_search (Suc n) do_memberships copy_group_ids gid st =
     (case st of (group_ids, group_count, s) \<Rightarrow>
      bindE (id_map_at s gid) (\<lambda>p.
      if p = None then Inr (group_ids, group_count, s)
      else bindE (rec_at s p) (\<lambda>r.
      if touched r then Inr (group_ids, group_count, s)
      else
        bindE (upd_rec (\<lambda>r. r\<lparr>touched := True\<rparr>) p s) (\<lambda>s.
        bindE (if copy_group_ids then put_id group_ids group_count gid else Inr group_ids) (\<lambda>group_ids.
        foldE (do_recursive_search n do_memberships copy_group_ids)
          (group_list do_memberships r) (group_ids, Suc group_count, s))))))"

definition clear_touched :: "nat \<Rightarrow> cas_state \<Rightarrow> cas_state result" where
  "clear_touched i s =
     (if group_id_map s i \<noteq> None then upd_rec (\<lambda>r. r\<lparr>touched := False\<rparr>) (group_id_map s i) s else Inr s)"

definition do_transitive_closure :: "kernel \<Rightarrow> ptr \<Rightarrow> bool \<Rightarrow> cas_state \<Rightarrow> (u32 list \<times> cas_state) result" where
  "do_transitive_closure k tr_rec_ptr do_memberships s =
     bindE (foldE clear_touched [0..<GROUP_ID_MAX] s) (\<lambda>s.
     bindE (rec_at s tr_rec_ptr) (\<lambda>r.
     bindE (foldE (do_recursive_search (Suc GROUP_ID_MAX) do_memberships False)
              (group_list do_memberships r) (None, 0, s)) (\<lambda>(_, group_count, s).
     let (ok, s) = vm_allocate k s;
         group_ids = (if ok then Some (replicate group_count 0) else None)
     in
     bindE (foldE clear_touched [0..<GROUP_ID_MAX] s) (\<lambda>s.
     bindE (rec_at s tr_rec_ptr) (\<lambda>r.
     bindE (foldE (do_recursive_search (Suc GROUP_ID_MAX) do_memberships True)
              (group_list do_memberships r) (group_ids, 0, s)) (\<lambda>(group_ids, _, s).
     Inr (case group_ids of None \<Rightarrow> [] | Some ids \<Rightarrow> ids, s)))))))"

section \<open>Lists of groups\<close>

lemma check_for_membership_iff: "check_for_membership g r \<longleftrightarrow> g = group_id r \<or> g \<in> set (tr_memberships r)"
  by (auto simp: check_for_membership_def list_ex_iff)

lemma delete_from_loop_mset:
  "g \<notin> set (take i xs) \<Longrightarrow> mset (delete_from_loop i xs g) = mset xs - {#g#} \<and> length (delete_from_loop i xs g) \<le> length xs"
proof (induction i xs g rule: delete_from_loop.induct)
  case (1 i xs g)
  show ?case
  proof (cases "i < length xs")
    case False
    then have "g \<notin># mset xs" using 1(2) by simp
    then have "mset xs - {#g#} = mset xs" by simp
    then show ?thesis using False by (simp add: delete_from_loop.simps [of i xs g])
  next
    case i: True
    then obtain ys y where xs: "xs = ys @ [y]" by (cases xs rule: rev_cases) auto
    show ?thesis
    proof (cases "xs ! i = g")
      case True
      show ?thesis
      proof (cases "i = length xs - 1")
        case last: True
        then have "y = g" using True xs by simp
        moreover have "delete_from_loop i xs g = take (length xs - 1) xs"
          using i last True by (subst delete_from_loop.simps) simp
        ultimately show ?thesis by (simp add: xs)
      next
        case False
        then have l: "i < length ys" using i xs by simp
        then have g: "ys ! i = g" using True xs by (simp add: nth_append)
        have "mset (ys[i := y]) = add_mset y (mset ys - {#g#})" using mset_update [OF l, of y] g by simp
        moreover have "g \<in># mset ys" using l g by force
        ultimately have "mset (ys[i := y]) = mset xs - {#g#}" by (simp add: xs)
        then show ?thesis using l True i False
          by (simp add: delete_from_loop.simps [of i xs g]) (simp add: xs list_update_append nth_append)
      qed
    next
      case False
      have "g \<notin> set (take (Suc i) xs)" using 1(2) False i by (simp add: take_Suc_conv_app_nth)
      then show ?thesis using 1(1) [OF i False] i False by (simp add: delete_from_loop.simps [of i xs g])
    qed
  qed
qed

lemma delete_from_list_mset:
  "mset (delete_from_list xs g) = mset xs - {#g#}" "length (delete_from_list xs g) \<le> length xs"
  using delete_from_loop_mset [of g 0 xs] by (simp_all add: delete_from_list_def)

lemma set_delete_from_list: "set (delete_from_list xs g) \<subseteq> set xs"
  using delete_from_list_mset(1) by (metis diff_subset_eq_self mset_subset_eqD set_mset_mset subsetI)

section \<open>Depth-first search over group ids\<close>

text \<open>
  The graph: \<open>g\<close> gives the list of an existing group and nothing for other ids. \<open>visit\<close> is the
  search without the state: it collects the ids it has seen in their order.
\<close>

primrec visit :: "nat \<Rightarrow> (u32 \<Rightarrow> u32 list option) \<Rightarrow> u32 \<Rightarrow> u32 list \<Rightarrow> u32 list" where
  "visit 0 g x seen = seen"
| "visit (Suc n) g x seen =
     (if g x = None \<or> x \<in> set seen then seen else fold (visit n g) (the (g x)) (seen @ [x]))"

inductive_set reach :: "(u32 \<Rightarrow> u32 list option) \<Rightarrow> u32 list \<Rightarrow> u32 set" for g xs where
  root: "x \<in> set xs \<Longrightarrow> g x \<noteq> None \<Longrightarrow> x \<in> reach g xs"
| edge: "y \<in> reach g xs \<Longrightarrow> g y = Some ys \<Longrightarrow> x \<in> set ys \<Longrightarrow> g x \<noteq> None \<Longrightarrow> x \<in> reach g xs"

text \<open>What a search adds to the ids seen: existing ones, each once, closed under the edges.\<close>

definition explores :: "(u32 \<Rightarrow> u32 list option) \<Rightarrow> u32 set \<Rightarrow> u32 list \<Rightarrow> u32 list \<Rightarrow> bool" where
  "explores g roots seen seen' \<longleftrightarrow> set seen \<subseteq> set seen' \<and> distinct seen' \<and> set seen' \<subseteq> set seen \<union> dom g \<and>
     roots \<inter> dom g \<subseteq> set seen' \<and>
     (\<forall>x ys. x \<in> set seen' - set seen \<longrightarrow> g x = Some ys \<longrightarrow> set ys \<inter> dom g \<subseteq> set seen')"

lemma explores_trans:
  assumes "explores g R a b" "explores g S b c"
  shows "explores g (R \<union> S) a c"
proof -
  have sub: "set a \<subseteq> set b" "set b \<subseteq> set c" "set b \<subseteq> set a \<union> dom g" "set c \<subseteq> set b \<union> dom g" "distinct c"
    "R \<inter> dom g \<subseteq> set b" "S \<inter> dom g \<subseteq> set c"
    using assms unfolding explores_def by simp_all
  have closed: "x \<in> set b - set a \<Longrightarrow> g x = Some ys \<Longrightarrow> set ys \<inter> dom g \<subseteq> set b"
    "x \<in> set c - set b \<Longrightarrow> g x = Some ys \<Longrightarrow> set ys \<inter> dom g \<subseteq> set c" for x ys
    using assms unfolding explores_def by simp_all
  have "set ys \<inter> dom g \<subseteq> set c" if "x \<in> set c - set a" "g x = Some ys" for x ys
    using closed [of x ys] that sub(2) by (cases "x \<in> set b") auto
  moreover have "set a \<subseteq> set c" by (rule subset_trans [OF sub(1,2)])
  moreover have "set c \<subseteq> set a \<union> dom g" by (rule subset_trans [OF sub(4)]) (rule Un_least [OF sub(3) Un_upper2])
  moreover have "(R \<union> S) \<inter> dom g \<subseteq> set c"
    unfolding Int_Un_distrib2 by (rule Un_least [OF subset_trans [OF sub(6,2)] sub(7)])
  ultimately show ?thesis using sub(5) unfolding explores_def by simp
qed

lemma explores_refl: "distinct a \<Longrightarrow> explores g {} a a"
  unfolding explores_def by blast

lemma explores_first:
  assumes "explores g (set ys) (a @ [x]) b" "g x = Some ys"
  shows "explores g {x} a b"
proof -
  have e: "insert x (set a) \<subseteq> set b" "distinct b" "set b \<subseteq> insert x (set a) \<union> dom g" "set ys \<inter> dom g \<subseteq> set b"
    "y \<in> set b - insert x (set a) \<Longrightarrow> g y = Some zs \<Longrightarrow> set zs \<inter> dom g \<subseteq> set b" for y zs
    using assms(1) unfolding explores_def by simp_all
  have "set zs \<inter> dom g \<subseteq> set b" if "y \<in> set b - set a" "g y = Some zs" for y zs
    using e(4) e(5) [of y zs] that assms(2) by (cases "y = x") auto
  moreover have "set b \<subseteq> set a \<union> dom g" using e(3) assms(2) by auto
  moreover have "{x} \<inter> dom g \<subseteq> set b" using e(1) by auto
  ultimately show ?thesis using e(1,2) unfolding explores_def by simp
qed

lemma fold_explores:
  assumes step: "\<And>x a. distinct a \<Longrightarrow> card (dom g - set a) \<le> c \<Longrightarrow> explores g {x} a (f x a)"
    and fin: "finite (dom g)"
  shows "distinct a \<Longrightarrow> card (dom g - set a) \<le> c \<Longrightarrow> explores g (set xs) a (fold f xs a)"
proof (induction xs arbitrary: a)
  case (Cons x xs)
  have one: "explores g {x} a (f x a)" by (rule step [OF Cons.prems])
  then have "distinct (f x a)" "card (dom g - set (f x a)) \<le> card (dom g - set a)"
    using fin by (auto simp: explores_def intro!: card_mono)
  then have "explores g (set xs) (f x a) (fold f xs (f x a))" using Cons.prems(2) by (intro Cons.IH) auto
  then show ?case using explores_trans [OF one] by simp
qed (simp add: explores_refl)

lemma visit_explores:
  assumes "finite (dom g)"
  shows "distinct seen \<Longrightarrow> card (dom g - set seen) < n \<Longrightarrow> explores g {x} seen (visit n g x seen)"
proof (induction n arbitrary: x seen)
  case (Suc n)
  show ?case
  proof (cases "g x = None \<or> x \<in> set seen")
    case True
    then show ?thesis using Suc.prems(1) by (auto simp: explores_def)
  next
    case False
    then obtain ys where ys: "g x = Some ys" and new: "x \<notin> set seen" by auto
    have "dom g - set (seen @ [x]) \<subset> dom g - set seen" using ys new by auto
    then have "card (dom g - set (seen @ [x])) < card (dom g - set seen)"
      using assms by (intro psubset_card_mono) auto
    then have small: "card (dom g - set (seen @ [x])) \<le> n - 1" and n: "0 < n" using Suc.prems(2) by linarith+
    have "explores g (set ys) (seen @ [x]) (fold (visit n g) ys (seen @ [x]))"
      by (rule fold_explores [OF _ assms _ small]) (use Suc.IH n Suc.prems(1) new in auto)
    then show ?thesis using ys new by (auto simp: explores_first)
  qed
qed simp

lemma visit_sound:
  "x \<in> reach g xs \<or> x \<in> set xs \<Longrightarrow> set (visit n g x seen) \<subseteq> set seen \<union> reach g xs"
proof (induction n arbitrary: x seen)
  case (Suc n)
  have fold_sound: "(\<forall>y \<in> set ys. g y \<noteq> None \<longrightarrow> y \<in> reach g xs) \<Longrightarrow> set (fold (visit n g) ys a) \<subseteq> set a \<union> reach g xs" for ys a
  proof (induction ys arbitrary: a)
    case (Cons y ys)
    have "set (visit n g y a) \<subseteq> set a \<union> reach g xs"
    proof (cases "g y = None")
      case True
      then show ?thesis by (cases n) auto
    next
      case False
      then show ?thesis using Cons.prems by (intro Suc.IH) auto
    qed
    then show ?case using Cons.IH [of "visit n g y a"] Cons.prems by fastforce
  qed simp
  show ?case
  proof (cases "g x = None \<or> x \<in> set seen")
    case False
    then obtain ys where ys: "g x = Some ys" by auto
    then have x: "x \<in> reach g xs" using Suc.prems by (auto intro: reach.root)
    then have "\<forall>y \<in> set ys. g y \<noteq> None \<longrightarrow> y \<in> reach g xs" using ys by (auto intro: reach.edge)
    then show ?thesis using fold_sound [of ys "seen @ [x]"] ys False x by auto
  qed auto
qed simp

lemma visit_all_reach:
  assumes fin: "finite (dom g)" and n: "card (dom g) < n"
  shows "distinct (fold (visit n g) xs [])" and "set (fold (visit n g) xs []) = reach g xs"
proof -
  let ?v = "fold (visit n g) xs []"
  have e: "explores g (set xs) [] ?v"
    by (rule fold_explores [OF _ fin, where c = "n - 1"]) (use visit_explores [OF fin] n in auto)
  then show "distinct ?v" by (simp add: explores_def)
  have "x \<in> set ?v" if "x \<in> reach g xs" for x
    using that
  proof induction
    case (root x)
    then show ?case using e by (auto simp: explores_def)
  next
    case (edge y ys x)
    then show ?case using e by (force simp: explores_def)
  qed
  moreover have "set (fold (visit n g) ys a) \<subseteq> set a \<union> reach g xs" if "set ys \<subseteq> set xs" for ys a
    using that
  proof (induction ys arbitrary: a)
    case (Cons y ys)
    then show ?case using visit_sound [of y g xs n a] Cons.IH [of "visit n g y a"] by fastforce
  qed simp
  ultimately show "set ?v = reach g xs" by fastforce
qed

section \<open>The search marks what the pure search visits\<close>

definition group_graph :: "bool \<Rightarrow> cas_state \<Rightarrow> u32 \<Rightarrow> u32 list option" where
  "group_graph m s x = (if unat x < GROUP_ID_MAX
     then (case group_id_map s (unat x) of None \<Rightarrow> None | Some a \<Rightarrow> map_option (group_list m) (recs s a)) else None)"

text \<open>
  The id map points to live records that carry their own index as id, and the lists of all
  records hold ids inside the map.
\<close>

definition ids_ok :: "cas_state \<Rightarrow> bool" where
  "ids_ok s \<longleftrightarrow> (\<forall>i < GROUP_ID_MAX. \<forall>a. group_id_map s i = Some a \<longrightarrow> (\<exists>r. recs s a = Some r \<and> unat (group_id r) = i))"

definition lists_ok :: "cas_state \<Rightarrow> bool" where
  "lists_ok s \<longleftrightarrow> (\<forall>a r x. recs s a = Some r \<longrightarrow> x \<in> set (members r) \<union> set (memberships r) \<longrightarrow> unat x < GROUP_ID_MAX)"

definition mapped :: "cas_state \<Rightarrow> nat \<Rightarrow> group_record \<Rightarrow> bool" where
  "mapped s a r \<longleftrightarrow> unat (group_id r) < GROUP_ID_MAX \<and> group_id_map s (unat (group_id r)) = Some a"

text \<open>The state in which the groups \<open>V\<close> are marked as touched and no others.\<close>

definition marks :: "cas_state \<Rightarrow> u32 list \<Rightarrow> cas_state" where
  "marks s V = s\<lparr>recs := \<lambda>a. map_option (\<lambda>r. if mapped s a r then r\<lparr>touched := group_id r \<in> set V\<rparr> else r) (recs s a)\<rparr>"

lemma ids_okD: "ids_ok s \<Longrightarrow> unat x < GROUP_ID_MAX \<Longrightarrow> group_id_map s (unat x) = Some a \<Longrightarrow>
    \<exists>r. recs s a = Some r \<and> group_id r = x \<and> mapped s a r"
  unfolding ids_ok_def mapped_def by (metis word_unat_eq_iff)

lemma marks_fields [simp]:
  "group_id_map (marks s V) = group_id_map s" "calls (marks s V) = calls s" "next_addr (marks s V) = next_addr s"
  "name_hash_table (marks s V) = name_hash_table s" "priv_port_map (marks s V) = priv_port_map s"
  "reg_port_map (marks s V) = reg_port_map s" "database (marks s V) = database s"
  by (simp_all add: marks_def)

lemma mapped_touched [simp]: "mapped s a (r\<lparr>touched := b\<rparr>) = mapped s a r"
  "mapped (marks s V) a r = mapped s a r" "mapped (s\<lparr>calls := c\<rparr>) a r = mapped s a r"
  by (simp_all add: mapped_def)

lemma recs_cong: "(\<And>a. f a = g a) \<Longrightarrow> s\<lparr>recs := f\<rparr> = s\<lparr>recs := g\<rparr>"
  by (rule arg_cong [where f = "\<lambda>f. s\<lparr>recs := f\<rparr>"]) (rule ext)

lemma marks_calls [simp]: "marks (s\<lparr>calls := c\<rparr>) V = (marks s V)\<lparr>calls := c\<rparr>"
  by (simp add: marks_def)

lemma marks_marks [simp]: "marks (marks s V) W = marks s W"
proof -
  have "map_option (\<lambda>r. if mapped s a r then r\<lparr>touched := group_id r \<in> set W\<rparr> else r) (recs (marks s V) a)
    = map_option (\<lambda>r. if mapped s a r then r\<lparr>touched := group_id r \<in> set W\<rparr> else r) (recs s a)" for a
    by (cases "recs s a") (simp_all add: marks_def)
  then have "marks (marks s V) W = (marks s V)\<lparr>recs := \<lambda>a. map_option (\<lambda>r. if mapped s a r then r\<lparr>touched := group_id r \<in> set W\<rparr> else r) (recs s a)\<rparr>"
    unfolding marks_def [of "marks s V" W] by (intro recs_cong) simp
  then show ?thesis by (simp add: marks_def)
qed

lemma marks_rec:
  "recs s a = Some r \<Longrightarrow> recs (marks s V) a = Some (if mapped s a r then r\<lparr>touched := group_id r \<in> set V\<rparr> else r)"
  by (simp add: marks_def)

lemma group_list_touched [simp]: "group_list m (r\<lparr>touched := b\<rparr>) = group_list m r"
  by (simp add: group_list_def)

lemma ids_ok_marks [simp]: "ids_ok (marks s V) = ids_ok s"
proof -
  have "(\<exists>r. recs (marks s V) a = Some r \<and> unat (group_id r) = i) \<longleftrightarrow> (\<exists>r. recs s a = Some r \<and> unat (group_id r) = i)" for a i
    by (cases "recs s a") (simp_all add: marks_def)
  then show ?thesis unfolding ids_ok_def by simp
qed

lemma ids_ok_calls [simp]: "ids_ok (s\<lparr>calls := c\<rparr>) = ids_ok s"
  by (simp add: ids_ok_def)

lemma marks_add:
  assumes "recs s a = Some r" "mapped s a r" "ids_ok s"
  shows "(marks s V)\<lparr>recs := (recs (marks s V))(a \<mapsto> (r\<lparr>touched := b\<rparr>)\<lparr>touched := True\<rparr>)\<rparr> = marks s (V @ [group_id r])"
proof -
  have "group_id r' \<noteq> group_id r" if "b \<noteq> a" "mapped s b r'" for b r'
    using that assms(2) by (auto simp: mapped_def)
  then have "((recs (marks s V))(a \<mapsto> (r\<lparr>touched := b\<rparr>)\<lparr>touched := True\<rparr>)) c
    = map_option (\<lambda>r'. if mapped s c r' then r'\<lparr>touched := group_id r' \<in> set (V @ [group_id r])\<rparr> else r') (recs s c)" for c
    using assms(1,2) by (cases "recs s c"; cases "c = a") (auto simp: marks_def)
  then have eq: "(recs (marks s V))(a \<mapsto> (r\<lparr>touched := b\<rparr>)\<lparr>touched := True\<rparr>)
    = (\<lambda>c. map_option (\<lambda>r'. if mapped s c r' then r'\<lparr>touched := group_id r' \<in> set (V @ [group_id r])\<rparr> else r') (recs s c))"
    by (rule ext)
  show ?thesis unfolding eq by (simp add: marks_def)
qed

lemma clear_all:
  assumes "ids_ok s"
  shows "foldE clear_touched [0..<GROUP_ID_MAX] s = Inr (marks s [])"
proof -
  let ?below = "\<lambda>n. s\<lparr>recs := \<lambda>a. map_option (\<lambda>r. if unat (group_id r) < n \<and> group_id_map s (unat (group_id r)) = Some a
     then r\<lparr>touched := False\<rparr> else r) (recs s a)\<rparr>"
  have "n \<le> GROUP_ID_MAX \<Longrightarrow> foldE clear_touched [0..<n] s = Inr (?below n)" for n
  proof (induction n)
    case 0
    have "(\<lambda>a. map_option (\<lambda>r. r) (recs s a)) = recs s" by (simp add: fun_eq_iff option.map_ident)
    then show ?case by simp
  next
    case (Suc n)
    have "clear_touched n (?below n) = Inr (?below (Suc n))"
    proof (cases "group_id_map s n")
      case None
      then have eq: "(unat (group_id r) < Suc n \<and> group_id_map s (unat (group_id r)) = Some a)
        \<longleftrightarrow> (unat (group_id r) < n \<and> group_id_map s (unat (group_id r)) = Some a)" for r a
        by (cases "unat (group_id r) = n") (simp_all add: less_Suc_eq)
      show ?thesis unfolding eq using None by (simp add: clear_touched_def)
    next
      case (Some a)
      then obtain r where r: "recs s a = Some r" "unat (group_id r) = n"
        using assms Suc.prems unfolding ids_ok_def by (meson Suc_le_eq)
      have same: "(unat (group_id r') < Suc n \<and> group_id_map s (unat (group_id r')) = Some b)
        \<longleftrightarrow> (unat (group_id r') < n \<and> group_id_map s (unat (group_id r')) = Some b)" if "b \<noteq> a" for r' b
        using that Some by (cases "unat (group_id r') = n") (simp_all add: less_Suc_eq)
      have "((recs (?below n))(a \<mapsto> r\<lparr>touched := False\<rparr>)) b = recs (?below (Suc n)) b" for b
      proof (cases "b = a")
        case True
        then show ?thesis using Some r by simp
      next
        case False
        then show ?thesis by (simp add: same [OF False])
      qed
      then have eq: "(recs (?below n))(a \<mapsto> r\<lparr>touched := False\<rparr>) = recs (?below (Suc n))" by (rule ext)
      have "clear_touched n (?below n) = Inr ((?below n)\<lparr>recs := (recs (?below n))(a \<mapsto> r\<lparr>touched := False\<rparr>)\<rparr>)"
        using Some r by (simp add: clear_touched_def upd_rec_def)
      then show ?thesis unfolding eq by simp
    qed
    then show ?case using Suc by (simp add: foldE_append)
  qed
  from this [of GROUP_ID_MAX] show ?thesis unfolding marks_def mapped_def list.set empty_iff by simp
qed

text \<open>The list under construction: nothing when only counting, otherwise it starts with the ids seen.\<close>

definition copied :: "bool \<Rightarrow> nat \<Rightarrow> u32 list option \<Rightarrow> u32 list \<Rightarrow> bool" where
  "copied copy L b V \<longleftrightarrow> (copy \<longrightarrow> (\<exists>buf. b = Some buf \<and> length buf = L \<and> take (length V) buf = V))"

lemma put_id_copied:
  assumes "copied copy L b V" "copy \<Longrightarrow> length V < L"
  shows "\<exists>b'. (if copy then put_id b (length V) x else Inr b) = Inr b' \<and> copied copy L b' (V @ [x])"
proof (cases copy)
  case True
  then obtain buf where b: "b = Some buf" "length buf = L" "take (length V) buf = V" using assms(1) by (auto simp: copied_def)
  have "take (Suc (length V)) (buf[length V := x]) = V @ [x]"
    using b assms(2) True by (simp add: take_Suc_conv_app_nth)
  then show ?thesis using b assms(2) True by (simp add: put_id_def copied_def)
qed (simp add: copied_def)

lemma visit_length: "length seen \<le> length (visit n g x seen)"
proof (induction n arbitrary: x seen)
  case (Suc n)
  have "length a \<le> length (fold (visit n g) ys a)" for ys a
  proof (induction ys arbitrary: a)
    case (Cons y ys)
    show ?case using le_trans [OF Suc.IH [of a y] Cons.IH] by simp
  qed simp
  from this [of "seen @ [x]" "the (g x)"] show ?case by (simp add: Suc_le_eq)
qed simp

lemma fold_visit_length: "length seen \<le> length (fold (visit n g) xs seen)"
proof (induction xs arbitrary: seen)
  case (Cons x xs)
  show ?case using le_trans [OF visit_length [of seen n g x] Cons.IH] by simp
qed simp

text \<open>The relation between the state of the search and the ids the pure search has seen.\<close>

definition search_at :: "cas_state \<Rightarrow> bool \<Rightarrow> nat \<Rightarrow> search \<Rightarrow> u32 list \<Rightarrow> bool" where
  "search_at s copy L st V \<longleftrightarrow> (\<exists>b. st = (b, length V, marks s V) \<and> copied copy L b V)"

lemma foldE_visit:
  assumes fin: "finite (dom g)"
    and step: "\<And>x V st. x \<in> set xs \<Longrightarrow> distinct V \<Longrightarrow> card (dom g - set V) < n \<Longrightarrow> search_at s copy L st V \<Longrightarrow>
      (copy \<Longrightarrow> length (visit n g x V) \<le> L) \<Longrightarrow> \<exists>st'. f x st = Inr st' \<and> search_at s copy L st' (visit n g x V)"
  shows "distinct V \<Longrightarrow> card (dom g - set V) < n \<Longrightarrow> search_at s copy L st V \<Longrightarrow>
    (copy \<Longrightarrow> length (fold (visit n g) xs V) \<le> L) \<Longrightarrow>
    \<exists>st'. foldE f xs st = Inr st' \<and> search_at s copy L st' (fold (visit n g) xs V)"
  using step
proof (induction xs arbitrary: V st)
  case (Cons x xs)
  let ?V = "visit n g x V"
  have "length ?V \<le> length (fold (visit n g) xs ?V)" by (rule fold_visit_length)
  then obtain st1 where st1: "f x st = Inr st1" "search_at s copy L st1 ?V"
    using Cons.prems(5) [of x V st] Cons.prems(1-4) by fastforce
  have e: "explores g {x} V ?V" by (rule visit_explores [OF fin Cons.prems(1,2)])
  have "\<exists>st'. foldE f xs st1 = Inr st' \<and> search_at s copy L st' (fold (visit n g) xs ?V)"
  proof (rule Cons.IH [OF _ _ st1(2)])
    show "distinct ?V" using e by (simp add: explores_def)
    have "card (dom g - set ?V) \<le> card (dom g - set V)"
      using e fin by (intro card_mono) (auto simp: explores_def)
    then show "card (dom g - set ?V) < n" using Cons.prems(2) by simp
    show "length (fold (visit n g) xs ?V) \<le> L" if copy using Cons.prems(4) that by simp
    show "\<exists>st'. f y st = Inr st' \<and> search_at s copy L st' (visit n g y V)"
      if "y \<in> set xs" "distinct V" "card (dom g - set V) < n" "search_at s copy L st V"
        "copy \<Longrightarrow> length (visit n g y V) \<le> L" for y V st
      using that by (intro Cons.prems(5)) auto
  qed
  then show ?case using st1(1) by simp
qed simp

lemma group_graph_finite: "finite (dom (group_graph m s))" "card (dom (group_graph m s)) \<le> GROUP_ID_MAX"
proof -
  have sub: "dom (group_graph m s) \<subseteq> word_of_nat ` {..<GROUP_ID_MAX}"
  proof
    fix x :: u32 assume "x \<in> dom (group_graph m s)"
    then have "unat x < GROUP_ID_MAX" by (auto simp: group_graph_def split: if_splits)
    then show "x \<in> word_of_nat ` {..<GROUP_ID_MAX}" by (intro image_eqI [of _ _ "unat x"]) simp_all
  qed
  then show "finite (dom (group_graph m s))" by (rule finite_subset) simp
  have "card (dom (group_graph m s)) \<le> card (word_of_nat ` {..<GROUP_ID_MAX} :: u32 set)"
    by (rule card_mono [OF _ sub]) simp
  also have "\<dots> \<le> GROUP_ID_MAX" using card_image_le [of "{..<GROUP_ID_MAX}" "word_of_nat :: nat \<Rightarrow> u32"] by simp
  finally show "card (dom (group_graph m s)) \<le> GROUP_ID_MAX" .
qed

lemma search_visits:
  fixes m :: bool and s :: cas_state
  assumes ok: "ids_ok s" "lists_ok s"
  defines "g \<equiv> group_graph m s"
  shows "unat x < GROUP_ID_MAX \<Longrightarrow> distinct V \<Longrightarrow> card (dom g - set V) < n \<Longrightarrow> search_at s copy L st V \<Longrightarrow>
    (copy \<Longrightarrow> length (visit n g x V) \<le> L) \<Longrightarrow>
    \<exists>st'. do_recursive_search n m copy x st = Inr st' \<and> search_at s copy L st' (visit n g x V)"
proof (induction n arbitrary: x V st)
  case (Suc n)
  obtain b where st: "st = (b, length V, marks s V)" "copied copy L b V"
    using Suc.prems(4) by (auto simp: search_at_def)
  have at: "id_map_at (marks s V) x = Inr (group_id_map s (unat x))" using Suc.prems(1) by (simp add: id_map_at_def)
  show ?case
  proof (cases "group_id_map s (unat x)")
    case None
    then have "g x = None" by (simp add: g_def group_graph_def)
    then show ?thesis using st at None Suc.prems(4) by simp
  next
    case (Some a)
    obtain r where r: "recs s a = Some r" "group_id r = x" "mapped s a r"
      using ids_okD [OF ok(1) Suc.prems(1) Some] by blast
    then have gx: "g x = Some (group_list m r)" using Suc.prems(1) Some by (simp add: g_def group_graph_def)
    have rec: "rec_at (marks s V) (Some a) = Inr (r\<lparr>touched := x \<in> set V\<rparr>)"
      using r by (simp add: rec_at_def marks_rec)
    show ?thesis
    proof (cases "x \<in> set V")
      case True
      then show ?thesis using st at Some rec Suc.prems(4) by simp
    next
      case False
      have len: "length V < length (visit (Suc n) g x V)"
        using fold_visit_length [of "V @ [x]" n g "group_list m r"] gx False by (simp add: Suc_le_eq)
      then obtain b' where b': "(if copy then put_id b (length V) x else Inr b) = Inr b'" "copied copy L b' (V @ [x])"
        using put_id_copied [OF st(2), of x] Suc.prems(5) by (meson less_le_trans)
      have up: "upd_rec (\<lambda>r. r\<lparr>touched := True\<rparr>) (Some a) (marks s V) = Inr (marks s (V @ [x]))"
        using marks_add [OF r(1,3) ok(1), of V "x \<in> set V"] r by (simp add: upd_rec_def marks_rec)
      have "dom g - set (V @ [x]) \<subset> dom g - set V" using gx False by auto
      then have "card (dom g - set (V @ [x])) < card (dom g - set V)"
        unfolding g_def using group_graph_finite(1) by (intro psubset_card_mono) auto
      then have small: "card (dom g - set (V @ [x])) < n" using Suc.prems(3) by linarith
      have "\<exists>st'. foldE (do_recursive_search n m copy) (group_list m r) (b', Suc (length V), marks s (V @ [x])) = Inr st'
          \<and> search_at s copy L st' (fold (visit n g) (group_list m r) (V @ [x]))"
      proof (rule foldE_visit [OF _ _ _ small])
        show "finite (dom g)" unfolding g_def by (rule group_graph_finite)
        show "distinct (V @ [x])" using Suc.prems(2) False by simp
        show "search_at s copy L (b', Suc (length V), marks s (V @ [x])) (V @ [x])" using b'(2) by (simp add: search_at_def)
        show "length (fold (visit n g) (group_list m r) (V @ [x])) \<le> L" if copy
          using Suc.prems(5) [OF that] gx False by simp
        have "unat y < GROUP_ID_MAX" if "y \<in> set (group_list m r)" for y
          using ok(2) r(1) that unfolding lists_ok_def group_list_def by (metis UnCI)
        then show "\<exists>st'. do_recursive_search n m copy y st = Inr st' \<and> search_at s copy L st' (visit n g y W)"
          if "y \<in> set (group_list m r)" "distinct W" "card (dom g - set W) < n" "search_at s copy L st W"
            "copy \<Longrightarrow> length (visit n g y W) \<le> L" for y W st
          using that by (intro Suc.IH) auto
      qed
      then show ?thesis using st at Some rec False b'(1) up gx by simp
    qed
  qed
qed simp

section \<open>The closure\<close>

definition closure_ids :: "bool \<Rightarrow> cas_state \<Rightarrow> group_record \<Rightarrow> u32 list" where
  "closure_ids m s r = fold (visit (Suc GROUP_ID_MAX) (group_graph m s)) (group_list m r) []"

lemma closure_ids_reach:
  "distinct (closure_ids m s r)" "set (closure_ids m s r) = reach (group_graph m s) (group_list m r)"
  unfolding closure_ids_def
  by (rule visit_all_reach; use group_graph_finite [of m s] in simp)+

lemma search_pass:
  assumes ok: "ids_ok s" "lists_ok s" and r: "recs s a = Some r"
    and st: "search_at s copy L st []" and len: "copy \<Longrightarrow> L = length (closure_ids m s r)"
  shows "\<exists>st'. foldE (do_recursive_search (Suc GROUP_ID_MAX) m copy) (group_list m r) st = Inr st'
    \<and> search_at s copy L st' (closure_ids m s r)"
  unfolding closure_ids_def
proof (rule foldE_visit [OF group_graph_finite(1)])
  have "unat y < GROUP_ID_MAX" if "y \<in> set (group_list m r)" for y
    using ok(2) r(1) that unfolding lists_ok_def group_list_def by (metis UnCI)
  then show "\<exists>st'. do_recursive_search (Suc GROUP_ID_MAX) m copy y st = Inr st'
      \<and> search_at s copy L st' (visit (Suc GROUP_ID_MAX) (group_graph m s) y W)"
    if "y \<in> set (group_list m r)" "distinct W" "card (dom (group_graph m s) - set W) < Suc GROUP_ID_MAX" "search_at s copy L st W"
      "copy \<Longrightarrow> length (visit (Suc GROUP_ID_MAX) (group_graph m s) y W) \<le> L" for y W st
    using that by (intro search_visits [OF ok]) auto
  show "card (dom (group_graph m s) - set []) < Suc GROUP_ID_MAX" using group_graph_finite(2) [of m s] by simp
qed (use st len in \<open>simp_all add: closure_ids_def\<close>)

lemma do_transitive_closure_eq:
  assumes ok: "ids_ok s" "lists_ok s" and r: "recs s a = Some r" and alloc: "vm_allocate_ok k (calls s)"
  shows "do_transitive_closure k (Some a) m s
    = Inr (closure_ids m s r, (marks s (closure_ids m s r))\<lparr>calls := Suc (calls s)\<rparr>)"
proof -
  let ?ids = "closure_ids m s r" and ?t = "s\<lparr>calls := Suc (calls s)\<rparr>"
  have list: "\<exists>r'. rec_at (marks s V) (Some a) = Inr r' \<and> group_list m r' = group_list m r"
    "\<exists>r'. rec_at (marks ?t V) (Some a) = Inr r' \<and> group_list m r' = group_list m r" for V
    using r by (simp_all add: rec_at_def marks_rec)
  have "search_at s False 0 (None, 0, marks s []) []" by (simp add: search_at_def copied_def)
  then obtain b where pass1: "foldE (do_recursive_search (Suc GROUP_ID_MAX) m False) (group_list m r) (None, 0, marks s [])
      = Inr (b, length ?ids, marks s ?ids)"
    using search_pass [OF ok r, of False 0 "(None, 0, marks s [])" m] by (auto simp: search_at_def)
  have "group_graph m ?t = group_graph m s" by (rule ext) (simp add: group_graph_def split: option.split)
  then have okt: "ids_ok ?t" "lists_ok ?t" "recs ?t a = Some r" "closure_ids m ?t r = ?ids"
    using ok r by (simp_all add: ids_ok_def lists_ok_def closure_ids_def)
  have "search_at ?t True (length ?ids) (Some (replicate (length ?ids) 0), 0, marks ?t []) []"
    by (simp add: search_at_def copied_def)
  from search_pass [OF okt(1-3) this, of m] okt(4) obtain ids
    where pass2: "foldE (do_recursive_search (Suc GROUP_ID_MAX) m True) (group_list m r)
        (Some (replicate (length ?ids) 0), 0, marks ?t []) = Inr (Some ids, length ?ids, marks ?t ?ids)"
      and ids: "ids = ?ids"
    by (auto simp: search_at_def copied_def)
  have clear: "foldE clear_touched [0..<GROUP_ID_MAX] s = Inr (marks s [])"
    "foldE clear_touched [0..<GROUP_ID_MAX] ((marks s ?ids)\<lparr>calls := Suc (calls s)\<rparr>) = Inr (marks ?t [])"
    using clear_all [OF ok(1)] clear_all [of "marks ?t ?ids"] okt(1) by simp_all
  obtain r1 r2 where rec: "rec_at (marks s []) (Some a) = Inr r1" "group_list m r1 = group_list m r"
    "rec_at (marks ?t []) (Some a) = Inr r2" "group_list m r2 = group_list m r" using list by meson
  show ?thesis
    unfolding do_transitive_closure_def
    using clear rec pass1 pass2 ids alloc by (simp add: vm_allocate_def del: marks_calls upt_conv_Cons foldE.simps do_recursive_search.simps) simp
qed

text \<open>The state without the marks and the count of kernel calls: what a closure must not change.\<close>

definition forget :: "cas_state \<Rightarrow> cas_state" where
  "forget s = s\<lparr>recs := \<lambda>a. map_option (\<lambda>r. r\<lparr>touched := False\<rparr>) (recs s a), calls := 0\<rparr>"

lemma forget_marks: "forget ((marks s V)\<lparr>calls := c\<rparr>) = forget s"
proof -
  have "map_option (\<lambda>r. r\<lparr>touched := False\<rparr>) (recs (marks s V) a) = map_option (\<lambda>r. r\<lparr>touched := False\<rparr>) (recs s a)" for a
    by (cases "recs s a") (simp_all add: marks_def)
  then show ?thesis by (simp add: forget_def) (simp add: marks_def)
qed

text \<open>
  C8. \<open>do_transitive_closure\<close>, on a state whose id map and lists are well formed and with memory
  available, ends and returns the groups that can be reached from the given record through
  existing groups, each exactly once; the list is allocated with just the size the first search
  counted, no store is out of its bounds, and apart from the marks the state is unchanged.
\<close>

theorem do_transitive_closure_correct:
  assumes "ids_ok s" "lists_ok s" "recs s a = Some r" "vm_allocate_ok k (calls s)"
  shows "\<exists>ids s'. do_transitive_closure k (Some a) m s = Inr (ids, s') \<and> distinct ids \<and>
    set ids = reach (group_graph m s) (group_list m r) \<and> forget s' = forget s"
  using do_transitive_closure_eq [OF assms, of m] closure_ids_reach [of m s r] forget_marks by blast

definition chain_record :: "u32 \<Rightarrow> u32 list \<Rightarrow> group_record" where
  "chain_record i ms = zero_record\<lparr>group_id := i, memberships := ms\<rparr>"

text \<open>Three groups, each a member of the next, the last one of the first again.\<close>

definition cycle_state :: cas_state where
  "cycle_state = \<lparr>recs = [1 \<mapsto> chain_record 1 [2], 2 \<mapsto> chain_record 2 [3], 3 \<mapsto> chain_record 3 [1]], next_addr = 4,
     group_id_map = (\<lambda>i. if i \<in> {1, 2, 3} then Some i else None), name_hash_table = [], name_hash_table_limit = 25,
     name_hash_table_num_entries = 0, priv_port_map = (\<lambda>_. \<lparr>p_mapped_port = 0, p_group_record_ptr = None\<rparr>),
     reg_port_map = (\<lambda>_. \<lparr>r_mapped_port = 0, r_private_port = 0, r_group_ids = [], r_user_id = 0\<rparr>),
     database = None, db_backup = None, calls = 0\<rparr>"

definition ready_kernel :: kernel where
  "ready_kernel = \<lparr>vm_allocate_ok = (\<lambda>_. True), vm_deallocate_kr = (\<lambda>_. 0), file_ok = (\<lambda>_. True),
     port_allocate_name = (\<lambda>n. Some (0x1000 OR of_nat n)), port_deallocate_kr = (\<lambda>_. 0)\<rparr>"

theorem do_transitive_closure_correct_witness:
  "\<exists>ids s'. do_transitive_closure ready_kernel (Some 1) True cycle_state = Inr (ids, s') \<and> distinct ids \<and> set ids = {1, 2, 3}"
proof -
  let ?g = "group_graph True cycle_state"
  have ok: "ids_ok cycle_state" "lists_ok cycle_state" "recs cycle_state 1 = Some (chain_record 1 [2])"
    by (auto simp: ids_ok_def lists_ok_def cycle_state_def chain_record_def zero_record_def GROUP_ID_MAX_def split: if_splits)
  have g: "?g 1 = Some [2]" "?g 2 = Some [3]" "?g 3 = Some [1]" "unat x \<notin> {1, 2, 3} \<Longrightarrow> ?g x = None" for x
    by (simp_all add: group_graph_def cycle_state_def GROUP_ID_MAX_def chain_record_def zero_record_def group_list_def)
  have r2: "2 \<in> reach ?g [2]" using g by (auto intro: reach.root)
  then have r3: "3 \<in> reach ?g [2]" using g by (auto intro: reach.edge)
  then have r1: "1 \<in> reach ?g [2]" using g by (auto intro: reach.edge)
  have "x \<in> {1, 2, 3}" if "x \<in> reach ?g [2]" for x
    using that g by induction auto
  then have "reach ?g [2] = {1, 2, 3}" using r1 r2 r3 by auto
  then show ?thesis
    using do_transitive_closure_correct [OF ok, of ready_kernel True]
    by (auto simp: ready_kernel_def group_list_def chain_record_def zero_record_def)
qed

text \<open>
  \<open>delete_from_list\<close> removes one occurrence of the group from the list, if there is one, and
  keeps the others, whatever their order.
\<close>

lemma delete_from_list_correct:
  "mset (delete_from_list xs g) = mset xs - {#g#} \<and> length (delete_from_list xs g) \<le> length xs"
  using delete_from_list_mset by simp

end
