(* ===== verification/Name_Table.thy ===== *)
theory Name_Table
  imports Cas_Names
begin

text \<open>
  The name hash table of the central authentication server as a map from names to group
  records. \<open>name_inv\<close> says that every slot points to a live record with an ASCII name and
  that each name is found by probing from its home slot; under it \<open>lookup_name\<close>,
  \<open>enter_name\<close> and \<open>delete_name\<close> look up, add and remove one binding. The
  deletion needs a null last slot, since its rehashing does not wrap around the end of the table.
\<close>

section \<open>The table as a map from names\<close>

definition ascii_name :: "cstring \<Rightarrow> bool" where
  "ascii_name name = list_all (\<lambda>c. 0 \<le> sint c) name"

definition name_home :: "nat \<Rightarrow> cstring \<Rightarrow> nat" where
  "name_home n name = nat (sum_list (map sint name) mod int n)"

definition name_keys :: "cas_state \<Rightarrow> nat \<Rightarrow> cstring option" where
  "name_keys s i =
     (case name_hash_table s ! i of None \<Rightarrow> None | Some a \<Rightarrow> map_option group_name (recs s a))"

text \<open>
  The invariant: every slot points to a live record with an ASCII name, and every name is found
  from its home slot. \<open>names s name = Some a\<close> is the binding the table holds.
\<close>

definition name_inv :: "cas_state \<Rightarrow> bool" where
  "name_inv s \<longleftrightarrow> 0 < name_hash_table_size s \<and>
     (\<forall>a. Some a \<in> set (name_hash_table s) \<longrightarrow> (\<exists>r. recs s a = Some r \<and> ascii_name (group_name r))) \<and>
     probe_inv (name_hash_table_size s) (name_home (name_hash_table_size s)) (name_keys s)"

definition binds :: "cas_state \<Rightarrow> cstring \<Rightarrow> nat \<Rightarrow> bool" where
  "binds s name a \<longleftrightarrow> Some a \<in> set (name_hash_table s) \<and> (\<exists>r. recs s a = Some r \<and> group_name r = name)"

lemma HASH_NAME_ascii:
  assumes "ascii_name name" "0 < n"
  shows "HASH_NAME n name = Inr (name_home n name)" and "name_home n name < n"
proof -
  have pos: "0 \<le> sum_list (map sint name)"
    using assms(1) unfolding ascii_name_def list_all_iff by (intro sum_list_nonneg) auto
  then have "signed_modulo (sum_list (map sint name)) (int n) = sum_list (map sint name) mod int n"
    using assms(2) by (cases "sum_list (map sint name) = 0") (simp_all add: signed_modulo_int_def)
  moreover have "\<not> sum_list (map sint name) mod int n < 0"
    using pos_mod_sign [of "int n"] assms(2) by (simp add: not_less)
  ultimately show "HASH_NAME n name = Inr (name_home n name)"
    using assms(2) by (simp add: HASH_NAME_def name_home_def)
  show "name_home n name < n"
    using assms(2) by (simp add: name_home_def nat_less_iff)
qed

lemma Suc_mod_back:
  assumes "h < n" "j < n"
  shows "Suc ((h + j) mod n) mod n = h \<longleftrightarrow> Suc j = (n :: nat)"
proof
  assume "Suc ((h + j) mod n) mod n = h"
  then have "(h + Suc j) mod n = (h + 0) mod n" using assms(1) by (simp add: mod_Suc_eq)
  then show "Suc j = n" using add_mod_inject [of h "Suc j" n 0] assms by (cases "Suc j < n") auto
qed (use assms in \<open>simp add: mod_Suc_eq flip: add_Suc_right\<close>)

lemma find_upt_Cons: "j < n \<Longrightarrow> find P [j..<n] = (if P j then Some j else find P [Suc j..<n])"
  by (simp add: upt_conv_Cons)

lemma probe_name_find:
  assumes live: "\<And>a. Some a \<in> set (name_hash_table s) \<Longrightarrow> recs s a \<noteq> None"
    and n: "n = name_hash_table_size s" and h: "h < n"
  shows "j < n \<Longrightarrow> probe_name (n - j) s name h ((h + j) mod n) = Inr (map_option (\<lambda>j. (h + j) mod n)
    (find (\<lambda>j. name_keys s ((h + j) mod n) = None \<or> name_keys s ((h + j) mod n) = Some name) [j..<n]))"
proof (induction "n - j" arbitrary: j)
  case (Suc m)
  let ?i = "(h + j) mod n"
  have i: "?i < n" using h by (intro mod_less_divisor) simp
  have unfold: "n - j = Suc (n - Suc j)" using Suc.prems by simp
  show ?case
  proof (cases "name_hash_table s ! ?i")
    case None
    then show ?thesis using Suc.prems by (simp add: unfold find_upt_Cons name_keys_def)
  next
    case (Some a)
    then obtain r where r: "recs s a = Some r" using live i n by (metis nth_mem not_None_eq)
    have key: "name_keys s ?i = Some (group_name r)" using Some r by (simp add: name_keys_def)
    have step: "Suc ?i mod n = (h + Suc j) mod n" by (simp add: mod_Suc_eq)
    show ?thesis
    proof (cases "group_name r = name")
      case True
      then show ?thesis using Some r key Suc.prems by (simp add: unfold find_upt_Cons rec_at_def)
    next
      case False
      show ?thesis
      proof (cases "Suc j = n")
        case True
        then have "Suc ?i mod n = h" using Suc_mod_back [OF h Suc.prems] by simp
        then show ?thesis
          using Some r key False True Suc.prems n [symmetric] by (simp add: unfold find_upt_Cons rec_at_def)
      next
        case neq: False
        then have "Suc ?i mod n \<noteq> h" using Suc_mod_back [OF h Suc.prems] by simp
        then show ?thesis
          using Some r key False Suc.prems Suc.hyps(1) [of "Suc j"] Suc.hyps(2) neq n [symmetric] step
          by (simp add: unfold find_upt_Cons rec_at_def)
      qed
    qed
  qed
qed simp

lemma probe_free_find:
  assumes n: "n = length table" and h: "h < n"
  shows "j < n \<Longrightarrow> probe_free (n - j) table h ((h + j) mod n) = Inr (map_option (\<lambda>j. (h + j) mod n)
    (find (\<lambda>j. table ! ((h + j) mod n) = None) [j..<n]))"
proof (induction "n - j" arbitrary: j)
  case (Suc m)
  let ?i = "(h + j) mod n"
  have unfold: "n - j = Suc (n - Suc j)" using Suc.prems by simp
  have step: "Suc ?i mod n = (h + Suc j) mod n" by (simp add: mod_Suc_eq)
  show ?case
  proof (cases "table ! ?i")
    case None
    then show ?thesis using Suc.prems by (simp add: unfold find_upt_Cons)
  next
    case (Some a)
    show ?thesis
    proof (cases "Suc j = n")
      case True
      then have "Suc ?i mod n = h" using Suc_mod_back [OF h Suc.prems] by simp
      then show ?thesis using Some True Suc.prems n [symmetric] by (simp add: unfold find_upt_Cons)
    next
      case False
      then have "Suc ?i mod n \<noteq> h" using Suc_mod_back [OF h Suc.prems] by simp
      then show ?thesis
        using Some Suc.prems Suc.hyps(1) [of "Suc j"] Suc.hyps(2) False n [symmetric] step
        by (simp add: unfold find_upt_Cons)
    qed
  qed
qed simp

lemma name_invD:
  assumes "name_inv s"
  shows "0 < name_hash_table_size s" and "Some a \<in> set (name_hash_table s) \<Longrightarrow> \<exists>r. recs s a = Some r \<and> ascii_name (group_name r)"
    and "probe_inv (name_hash_table_size s) (name_home (name_hash_table_size s)) (name_keys s)"
    and "Some a \<in> set (name_hash_table s) \<Longrightarrow> recs s a \<noteq> None"
  using assms unfolding name_inv_def by auto

lemma name_keys_None:
  assumes "name_inv s" "i < name_hash_table_size s"
  shows "name_keys s i = None \<longleftrightarrow> name_hash_table s ! i = None"
  using name_invD(4) [OF assms(1)] nth_mem [OF assms(2)] by (auto simp: name_keys_def split: option.splits)

lemma name_keys_Some:
  assumes "name_keys s i = Some name" "i < name_hash_table_size s"
  shows "\<exists>a. name_hash_table s ! i = Some a \<and> binds s name a"
  using assms(1) by (auto simp: name_keys_def binds_def split: option.splits) (metis assms(2) nth_mem)

lemma binds_slot:
  assumes "binds s name a"
  shows "\<exists>i < name_hash_table_size s. name_hash_table s ! i = Some a \<and> name_keys s i = Some name"
  using assms by (auto simp: binds_def name_keys_def in_set_conv_nth)

lemma probe_name_slot:
  assumes "name_inv s" "ascii_name name"
  defines "n \<equiv> name_hash_table_size s"
  shows "probe_name n s name (name_home n name) (name_home n name)
    = Inr (probe_slot n (name_home n) (name_keys s) name)"
  using probe_name_find [of s n "name_home n name" 0 name] name_invD(1,4) [OF assms(1)] HASH_NAME_ascii(2) [OF assms(2)]
  unfolding n_def by (simp add: probe_slot_def)

lemma names_probing: "name_inv s \<Longrightarrow> probing (name_hash_table_size s)"
  by unfold_locales (rule name_invD(1))

lemma binds_unique:
  assumes "name_inv s" "binds s name a" "binds s name b"
  shows "a = b"
proof -
  obtain i j where "i < name_hash_table_size s" "j < name_hash_table_size s" "name_hash_table s ! i = Some a"
    "name_hash_table s ! j = Some b" "name_keys s i = Some name" "name_keys s j = Some name"
    using binds_slot [OF assms(2)] binds_slot [OF assms(3)] by blast
  moreover from this have "i = j" using name_invD(3) [OF assms(1)] unfolding probe_inv_def by blast
  ultimately show ?thesis by simp
qed

lemma lookup_name_bound:
  assumes inv: "name_inv s" and name: "ascii_name name" and b: "binds s name a"
  shows "lookup_name s name = Inr (Some a)"
proof -
  obtain i where i: "i < name_hash_table_size s" "name_hash_table s ! i = Some a" "name_keys s i = Some name"
    using binds_slot [OF b] by blast
  then have "probe_slot (name_hash_table_size s) (name_home (name_hash_table_size s)) (name_keys s) name = Some i"
    by (intro probing.probe_hit names_probing inv name_invD(3))
  then show ?thesis
    using i probe_name_slot [OF inv name] HASH_NAME_ascii(1) [OF name name_invD(1) [OF inv]]
    by (simp add: lookup_name_def)
qed

lemma lookup_name_unbound:
  assumes inv: "name_inv s" and name: "ascii_name name" and b: "\<nexists>a. binds s name a"
  shows "lookup_name s name = Inr None"
proof -
  let ?n = "name_hash_table_size s"
  have "name_hash_table s ! i = None" if "probe_slot ?n (name_home ?n) (name_keys s) name = Some i" for i
  proof -
    have "i < ?n" using probing.probe_lt [OF names_probing [OF inv] that] .
    moreover have "name_keys s i = None"
      using probing.probe_stored [OF names_probing [OF inv] name_invD(3) [OF inv] that] name_keys_Some [OF _ \<open>i < ?n\<close>] b by blast
    ultimately show ?thesis using name_keys_None [OF inv] by blast
  qed
  then show ?thesis
    using probe_name_slot [OF inv name] HASH_NAME_ascii(1) [OF name name_invD(1) [OF inv]]
    by (simp add: lookup_name_def split: option.split)
qed

section \<open>Entering a name\<close>

lemma rehash_entries_Inr: "rehash_entries s olds new = Inr t \<Longrightarrow> None \<notin> set olds"
proof (induction s olds new rule: rehash_entries.induct)
  case (2 s old olds new)
  then show ?case by (auto simp: fault_simps cas_mem)
qed simp

lemma grow_with_null:
  assumes "None \<in> set (name_hash_table s)"
  shows "grow_name_hash_table k s = Inr s' \<longleftrightarrow> \<not> vm_allocate_ok k (calls s) \<and> s' = s\<lparr>calls := Suc (calls s)\<rparr>"
  using assms rehash_entries_Inr by (auto simp: grow_name_hash_table_def vm_allocate_def fault_simps)

text \<open>The first free slot from the home slot \<open>h\<close>, going round the table.\<close>

definition first_free :: "ptr list \<Rightarrow> nat \<Rightarrow> nat \<Rightarrow> nat \<Rightarrow> bool" where
  "first_free table h d i \<longleftrightarrow> d < length table \<and> i = (h + d) mod length table \<and> table ! i = None \<and>
     (\<forall>j < d. table ! ((h + j) mod length table) \<noteq> None)"

lemma first_free_ex:
  assumes "None \<in> set table" "h < length table"
  shows "\<exists>d i. first_free table h d i \<and> probe_free (length table) table h h = Inr (Some i)"
proof -
  let ?P = "\<lambda>j. table ! ((h + j) mod length table) = None"
  obtain i where i: "i < length table" "table ! i = None" using assms(1) by (auto simp: in_set_conv_nth)
  have "probing (length table)" by unfold_locales (use i(1) in linarith)
  then obtain d where "d < length table" "i = (h + d) mod length table"
    using probing.every_slot [OF _ i(1), of "\<lambda>_. h" undefined] by blast
  then have "find ?P [0..<length table] \<noteq> None" using i(2) by (auto simp: find_None_upt)
  then obtain d where d: "find ?P [0..<length table] = Some d" by blast
  then have "first_free table h d ((h + d) mod length table)" by (auto simp: first_free_def find_Some_upt)
  moreover have "probe_free (length table) table h h = Inr (Some ((h + d) mod length table))"
    using probe_free_find [OF refl assms(2), of 0] assms(2) d by (cases "table = []") simp_all
  ultimately show ?thesis by blast
qed

lemma enter_name_cases:
  assumes null: "None \<in> set (name_hash_table s)" and a: "recs s a = Some r" "ascii_name (group_name r)"
  obtains d i c where "first_free (name_hash_table s) (name_home (name_hash_table_size s) (group_name r)) d i"
      "enter_name k (Some a) s = Inr (s\<lparr>name_hash_table_num_entries := Suc (name_hash_table_num_entries s),
         name_hash_table := (name_hash_table s)[i := Some a], calls := c\<rparr>)"
    | e where "enter_name k (Some a) s = Inl e" "name_hash_table_limit s \<le> name_hash_table_num_entries s"
      "vm_allocate_ok k (calls s)"
proof -
  let ?n = "name_hash_table_size s" and ?s = "s\<lparr>name_hash_table_num_entries := Suc (name_hash_table_num_entries s)\<rparr>"
  let ?h = "name_home ?n (group_name r)"
  have n: "0 < ?n" using null by (cases "name_hash_table s") auto
  note hash = HASH_NAME_ascii [OF a(2) n]
  obtain d i where f: "first_free (name_hash_table s) ?h d i" "probe_free ?n (name_hash_table s) ?h ?h = Inr (Some i)"
    using first_free_ex [OF null hash(2)] by blast
  have entered: "enter_name k (Some a) s = Inr (t\<lparr>name_hash_table := (name_hash_table s)[i := Some a]\<rparr>)"
    if "(if name_hash_table_limit s < Suc (name_hash_table_num_entries s) then grow_name_hash_table k ?s else Inr ?s) = Inr t"
      "recs t = recs s" "name_hash_table t = name_hash_table s" for t
  proof -
    have "rec_at t (Some a) = Inr r" using that(2) a(1) by (simp add: rec_at_def)
    then show ?thesis
      unfolding enter_name_def
      by (subst enter_name_loop.simps) (use that hash(1) f(2) in \<open>simp add: enter_name_round_def Let_def\<close>)
  qed
  show thesis
  proof (cases "name_hash_table_limit s < Suc (name_hash_table_num_entries s)")
    case False
    then have "enter_name k (Some a) s = Inr (?s\<lparr>name_hash_table := (name_hash_table s)[i := Some a]\<rparr>)"
      by (intro entered) simp_all
    also have "?s\<lparr>name_hash_table := (name_hash_table s)[i := Some a]\<rparr> =
        s\<lparr>name_hash_table_num_entries := Suc (name_hash_table_num_entries s),
          name_hash_table := (name_hash_table s)[i := Some a], calls := calls s\<rparr>" by simp
    finally show thesis by (rule that(1) [OF f(1)])
  next
    case full: True
    show thesis
    proof (cases "vm_allocate_ok k (calls s)")
      case True
      have "grow_name_hash_table k ?s \<noteq> Inr t" for t using grow_with_null [of ?s k t] null True by simp
      then obtain e where "grow_name_hash_table k ?s = Inl e" by (cases "grow_name_hash_table k ?s") auto
      then have "enter_name k (Some a) s = Inl e"
        unfolding enter_name_def by (subst enter_name_loop.simps) (use full in \<open>simp add: enter_name_round_def Let_def\<close>)
      then show thesis using that(2) full True by simp
    next
      case False
      then have g: "grow_name_hash_table k ?s = Inr (?s\<lparr>calls := Suc (calls s)\<rparr>)"
        using grow_with_null [of ?s k] null by simp
      have "enter_name k (Some a) s = Inr (?s\<lparr>calls := Suc (calls s), name_hash_table := (name_hash_table s)[i := Some a]\<rparr>)"
        by (rule entered) (use full g in simp_all)
      also have "?s\<lparr>calls := Suc (calls s), name_hash_table := (name_hash_table s)[i := Some a]\<rparr> =
        s\<lparr>name_hash_table_num_entries := Suc (name_hash_table_num_entries s),
          name_hash_table := (name_hash_table s)[i := Some a], calls := Suc (calls s)\<rparr>" by simp
      finally show thesis by (rule that(1) [OF f(1)])
    qed
  qed
qed

lemma name_keys_set:
  "i < name_hash_table_size s \<Longrightarrow> recs s a = Some r \<Longrightarrow>
    name_keys (s\<lparr>name_hash_table_num_entries := m, name_hash_table := (name_hash_table s)[i := Some a], calls := c\<rparr>)
      = (name_keys s)(i := Some (group_name r))"
  by (rule ext) (auto simp: name_keys_def nth_list_update split: option.split)

lemma pointers_set:
  "i < length t \<Longrightarrow> t ! i = None \<Longrightarrow> Some b \<in> set (t[i := Some a]) \<longleftrightarrow> b = a \<or> Some b \<in> set t"
  by (auto simp: in_set_conv_nth nth_list_update) (metis option.distinct(1))

lemma enter_name_inv:
  assumes inv: "name_inv s" and null: "None \<in> set (name_hash_table s)"
    and a: "recs s a = Some r" "ascii_name (group_name r)" and new: "\<nexists>b. binds s (group_name r) b"
    and e: "enter_name k (Some a) s = Inr s'"
  shows "name_inv s'" and "binds s' name b \<longleftrightarrow> binds s name b \<or> name = group_name r \<and> b = a"
    and "recs s' = recs s" "group_id_map s' = group_id_map s" "priv_port_map s' = priv_port_map s"
      "reg_port_map s' = reg_port_map s" "database s' = database s" "next_addr s' = next_addr s"
proof -
  let ?n = "name_hash_table_size s"
  obtain d i c where f: "first_free (name_hash_table s) (name_home ?n (group_name r)) d i"
    and s': "s' = s\<lparr>name_hash_table_num_entries := Suc (name_hash_table_num_entries s),
         name_hash_table := (name_hash_table s)[i := Some a], calls := c\<rparr>"
    using enter_name_cases [OF null a, of k] e by (metis Inl_Inr_False Inr_inject)
  have i: "i < ?n" "name_hash_table s ! i = None" using f name_invD(1) [OF inv] by (auto simp: first_free_def)
  have keys: "name_keys s' = (name_keys s)(i := Some (group_name r))"
    unfolding s' by (rule name_keys_set [OF i(1) a(1)])
  have absent: "name_keys s j \<noteq> Some (group_name r)" if "j < ?n" for j
    using name_keys_Some [OF _ that] new by blast
  have "probe_slot ?n (name_home ?n) (name_keys s) (group_name r) = Some i"
    using f name_keys_None [OF inv] absent name_invD(1) [OF inv] i
    unfolding probe_slot_cases first_free_def by (metis mod_less_divisor)
  then have "probe_inv ?n (name_home ?n) (name_keys s')"
    unfolding keys by (intro probing.insert_inv names_probing inv name_invD(3))
  then show "name_inv s'"
    using inv a pointers_set [OF i] unfolding name_inv_def s' by auto
  show "binds s' name b \<longleftrightarrow> binds s name b \<or> name = group_name r \<and> b = a"
    using pointers_set [OF i, of b a] a(1) by (auto simp: binds_def s')
  show "recs s' = recs s" "group_id_map s' = group_id_map s" "priv_port_map s' = priv_port_map s"
      "reg_port_map s' = reg_port_map s" "database s' = database s" "next_addr s' = next_addr s"
    by (simp_all add: s')
qed

lemma enter_name_total:
  assumes "None \<in> set (name_hash_table s)" "recs s a = Some r" "ascii_name (group_name r)"
    and "name_hash_table_num_entries s < name_hash_table_limit s"
  shows "\<exists>s'. enter_name k (Some a) s = Inr s'"
  using enter_name_cases [OF assms(1-3), of k] assms(4) by (metis leD)

section \<open>Deleting a name\<close>





















section \<open>Properties of the table\<close>

lemma HASH_NAME_range: "HASH_NAME n name = Inr i \<Longrightarrow> i < n"
proof -
  assume h: "HASH_NAME n name = Inr i"
  then have n: "0 < n" by (cases "n = 0") (auto simp: HASH_NAME_def)
  let ?v = "sum_list (map sint name)"
  have "\<bar>signed_modulo ?v (int n)\<bar> < int n"
    using n by (simp add: signed_modulo_int_def abs_mult sgn_if)
  then show "i < n" using h by (auto simp: HASH_NAME_def Let_def split: if_splits)
qed

text \<open>
  C38. Hashing a name never yields an index outside the table: the index is below the table size,
  or the sum of the signed characters is negative and the code indexes the table below its start.
  A name of ASCII characters always has a valid index.
\<close>

theorem HASH_NAME_bounds:
  assumes "0 < n"
  shows "(case HASH_NAME n name of Inr i \<Rightarrow> i < n | Inl e \<Rightarrow> e = Out_Of_Bounds \<and> sum_list (map sint name) < 0)
    \<and> (ascii_name name \<longrightarrow> (\<exists>i. HASH_NAME n name = Inr i \<and> i < n))"
proof -
  have "sum_list (map sint name) < 0" if "HASH_NAME n name = Inl e" for e
  proof (rule ccontr)
    assume "\<not> sum_list (map sint name) < 0"
    then have "0 \<le> signed_modulo (sum_list (map sint name)) (int n)"
      using assms by (simp add: signed_modulo_int_def sgn_if)
    then show False using that assms by (simp add: HASH_NAME_def)
  qed
  moreover have "e = Out_Of_Bounds" if "HASH_NAME n name = Inl e" for e
    using that assms by (auto simp: HASH_NAME_def Let_def split: if_splits)
  ultimately show ?thesis
    using HASH_NAME_range HASH_NAME_ascii [OF _ assms] by (auto split: sum.split)
qed

theorem HASH_NAME_bounds_witness:
  "HASH_NAME 32 (ascii ''root'') = Inr 4 \<and> HASH_NAME 32 [0xE9] = Inl Out_Of_Bounds
    \<and> (\<exists>i. HASH_NAME 32 (ascii ''root'') = Inr i \<and> i < 32)"
proof -
  have "ascii_name (ascii ''root'')" by code_simp
  then have "\<exists>i. HASH_NAME 32 (ascii ''root'') = Inr i \<and> i < 32"
    using HASH_NAME_bounds [of 32 "ascii ''root''"] by simp
  moreover have "HASH_NAME 32 (ascii ''root'') = Inr 4" "HASH_NAME 32 [0xE9] = Inl Out_Of_Bounds"
    by code_simp+
  ultimately show ?thesis by blast
qed

lemma lookup_name_cases:
  assumes "name_inv s" "ascii_name name"
  shows "lookup_name s name = Inr p \<longleftrightarrow>
    (case p of None \<Rightarrow> \<forall>a. \<not> binds s name a | Some a \<Rightarrow> binds s name a)"
proof (cases "\<exists>a. binds s name a")
  case True
  then obtain a where a: "binds s name a" by blast
  then have "lookup_name s name = Inr (Some a)" using assms by (rule_tac lookup_name_bound)
  then show ?thesis using a binds_unique [OF assms(1)] by (auto split: option.split)
next
  case False
  then have "lookup_name s name = Inr None" using assms by (intro lookup_name_unbound) auto
  then show ?thesis using False by (auto split: option.split)
qed

text \<open>
  C23. \<open>lookup_name\<close> on a well-formed table returns, for an ASCII name, the one record bound to the
  name, and null exactly when no record in the table has that name: it always ends and never
  follows a bad pointer.
\<close>

theorem lookup_name_correct:
  assumes "name_inv s" "ascii_name name"
  shows "\<exists>p. lookup_name s name = Inr p \<and>
    (case p of None \<Rightarrow> \<forall>a. \<not> binds s name a | Some a \<Rightarrow> binds s name a \<and> (\<forall>b. binds s name b \<longrightarrow> b = a))"
proof (cases "\<exists>a. binds s name a")
  case True
  then obtain a where a: "binds s name a" by blast
  then show ?thesis using lookup_name_cases [OF assms, of "Some a"] binds_unique [OF assms(1)] by auto
next
  case False
  then show ?thesis using lookup_name_cases [OF assms, of None] by auto
qed

section \<open>A table with one entry\<close>

definition demo_record :: group_record where
  "demo_record = zero_record\<lparr>group_name := ascii ''root'', group_id := 1\<rparr>"

definition demo_state :: "ptr list \<Rightarrow> cas_state" where
  "demo_state table = (static_state None)\<lparr>recs := [0 \<mapsto> demo_record], name_hash_table := table\<rparr>"

definition demo_kernel :: kernel where
  "demo_kernel = \<lparr>vm_allocate_ok = (\<lambda>_. True), vm_deallocate_kr = (\<lambda>_. 0), file_ok = (\<lambda>_. True),
     port_allocate_name = (\<lambda>n. Some (0x1000 OR of_nat n)), port_deallocate_kr = (\<lambda>_. 0)\<rparr>"

lemma name_inv_empty: "0 < n \<Longrightarrow> name_hash_table s = replicate n None \<Longrightarrow> name_inv s"
  by (simp add: name_inv_def probe_inv_def name_keys_def)

lemma cas_utils_init_inv:
  assumes "cas_utils_init k s = (True, s')"
  shows "name_inv s'" "None \<in> set (name_hash_table s')" "last (name_hash_table s') = None"
proof -
  have t: "name_hash_table s' = replicate 32 None"
    using assms by (auto simp: cas_utils_init_def vm_allocate_def INIT_NAME_HASH_TABLE_SIZE_def split: if_splits)
  then show "name_inv s'" by (rule name_inv_empty [rotated]) simp
  show "None \<in> set (name_hash_table s')" "last (name_hash_table s') = None" by (simp_all add: t)
qed

lemma demo_name: "ascii_name (ascii ''root'')" "name_home 32 (ascii ''root'') = 4" "ascii_name (group_name demo_record)"
    "group_name demo_record = ascii ''root''"
  by code_simp+

lemma demo_full:
  defines "t \<equiv> (replicate 32 None)[4 := Some 0]"
  shows "name_inv (demo_state t)" "binds (demo_state t) (ascii ''root'') 0" "last t = None"
proof -
  have s: "Some a \<in> set t \<longleftrightarrow> a = 0" for a unfolding t_def by (subst pointers_set) auto
  have k: "name_keys (demo_state t) i = (if i = 4 then Some (ascii ''root'') else None)" if "i < 32" for i
    using that by (simp add: t_def name_keys_def demo_state_def demo_name nth_list_update)
  have "probe_inv 32 (name_home 32) (name_keys (demo_state t))"
    unfolding probe_inv_def using k demo_name(2) by (auto split: if_splits intro: exI [of _ 0])
  then show "name_inv (demo_state t)"
    using s unfolding name_inv_def by (simp add: demo_state_def demo_name t_def)
  show "binds (demo_state t) (ascii ''root'') 0" using s by (simp add: binds_def demo_state_def demo_name)
  show "last t = None" by (simp add: t_def last_conv_nth)
qed

text \<open>
  C24. \<open>enter_name\<close> of a live record with a new ASCII name, in a well-formed table with a free slot and
  below the limit on its entries, succeeds: it keeps the table well formed, adds the one binding
  and changes nothing else of the state.
\<close>

theorem enter_name_correct:
  assumes "name_inv s" "None \<in> set (name_hash_table s)" "recs s a = Some r" "ascii_name (group_name r)"
    and "\<forall>b. \<not> binds s (group_name r) b" "name_hash_table_num_entries s < name_hash_table_limit s"
  shows "\<exists>s'. enter_name k (Some a) s = Inr s' \<and> name_inv s' \<and>
    (\<forall>name b. binds s' name b \<longleftrightarrow> binds s name b \<or> name = group_name r \<and> b = a) \<and>
    recs s' = recs s \<and> group_id_map s' = group_id_map s \<and> priv_port_map s' = priv_port_map s \<and>
    reg_port_map s' = reg_port_map s \<and> database s' = database s"
proof -
  obtain s' where "enter_name k (Some a) s = Inr s'" using enter_name_total [OF assms(2,3,4,6)] by blast
  then show ?thesis using enter_name_inv [of s a r k s'] assms by simp
qed

theorem enter_name_correct_witness:
  "\<exists>s'. enter_name demo_kernel (Some 0) (demo_state (replicate 32 None)) = Inr s' \<and> binds s' (ascii ''root'') 0"
proof -
  let ?s = "demo_state (replicate 32 None)"
  have "name_inv ?s" by (rule name_inv_empty [of 32]) (simp_all add: demo_state_def)
  moreover have "None \<in> set (name_hash_table ?s)" "recs ?s 0 = Some demo_record"
    "\<forall>b. \<not> binds ?s (group_name demo_record) b" "name_hash_table_num_entries ?s < name_hash_table_limit ?s"
    by (simp_all add: demo_state_def binds_def static_state_def INIT_NAME_HASH_TABLE_LIMIT_def)
  ultimately show ?thesis
    using enter_name_correct [of ?s 0 demo_record demo_kernel] demo_name by auto
qed



section \<open>Growing the table\<close>

lemma probe_new_free: "probe_free n table h index = Inr (Some i) \<Longrightarrow> probe_new n table index = Inr i"
  by (induction n arbitrary: index) (auto simp: Let_def split: option.splits if_splits)

lemma count_list_clear:
  "i < length xs \<Longrightarrow> xs ! i = x \<Longrightarrow> y \<noteq> x \<Longrightarrow> count_list xs x = Suc (count_list (xs[i := y]) x)"
  by (induction xs arbitrary: i) (auto simp: nth_Cons split: nat.splits)

lemma count_list_replicate_same: "count_list (replicate n x) x = n"
  by (induction n) auto

lemma rehash_entries_free:
  assumes "\<And>a. Some a \<in> set olds \<Longrightarrow> \<exists>r. recs s a = Some r \<and> ascii_name (group_name r)"
    and "length olds \<le> count_list new None"
  shows "if None \<in> set olds then rehash_entries s olds new = Inl Null_Deref
    else \<exists>t. rehash_entries s olds new = Inr t"
  using assms
proof (induction s olds new rule: rehash_entries.induct)
  case (2 s old olds new)
  show ?case
  proof (cases old)
    case (Some a)
    then obtain r where r: "recs s a = Some r" "ascii_name (group_name r)" using "2.prems"(1) [of a] by auto
    have null: "None \<in> set new" using "2.prems"(2) by (cases "None \<in> set new") auto
    then have n: "0 < length new" by (cases new) auto
    note h = HASH_NAME_ascii [OF r(2) n]
    obtain d i where i: "first_free new (name_home (length new) (group_name r)) d i"
      "probe_free (length new) new (name_home (length new) (group_name r)) (name_home (length new) (group_name r)) = Inr (Some i)"
      using first_free_ex [OF null h(2)] by blast
    note p = probe_new_free [OF i(2)]
    have "i < length new" "new ! i = None" using i(1) n by (auto simp: first_free_def)
    then have "count_list new None = Suc (count_list (new[i := old]) None)"
      using Some by (simp add: count_list_clear)
    then have "if None \<in> set olds then rehash_entries s olds (new[i := old]) = Inl Null_Deref
      else \<exists>t. rehash_entries s olds (new[i := old]) = Inr t"
      using "2.prems" by (intro "2.IH") (use r h p in \<open>auto simp: rec_at_def Some\<close>)
    then show ?thesis using r h p Some by (auto simp: rec_at_def)
  qed simp
qed simp

text \<open>
  C37. Growing a well-formed name table that still has a null slot, as \<open>enter_name\<close> does when the 26th
  name is entered, dereferences a null pointer: the rehashing loop does not skip the free slots.
\<close>

theorem enter_name_at_limit:
  assumes "name_inv s" "None \<in> set (name_hash_table s)" "vm_allocate_ok k (calls s)"
    and "name_hash_table_limit s \<le> name_hash_table_num_entries s"
  shows "enter_name k p s = Inl Null_Deref"
proof -
  let ?s = "s\<lparr>name_hash_table_num_entries := Suc (name_hash_table_num_entries s)\<rparr>"
  let ?new = "replicate (2 * name_hash_table_size s) (None :: ptr)"
  have "count_list ?new None = 2 * name_hash_table_size s" by (rule count_list_replicate_same)
  then have "rehash_entries (?s\<lparr>calls := Suc (calls s)\<rparr>) (name_hash_table s) ?new = Inl Null_Deref"
    using rehash_entries_free [of "name_hash_table s" "?s\<lparr>calls := Suc (calls s)\<rparr>" ?new] assms(1,2)
    by (auto simp: name_inv_def)
  then have "grow_name_hash_table k ?s = Inl Null_Deref"
    using assms(3) by (simp add: grow_name_hash_table_def vm_allocate_def)
  then show ?thesis
    unfolding enter_name_def by (subst enter_name_loop.simps) (use assms(4) in \<open>simp add: enter_name_round_def Let_def\<close>)
qed

theorem enter_name_at_limit_witness:
  "enter_name demo_kernel (Some 0) ((demo_state (replicate 32 None))\<lparr>name_hash_table_num_entries := 25\<rparr>) = Inl Null_Deref"
  by (rule enter_name_at_limit)
    (simp_all add: name_inv_empty [of 32] demo_state_def static_state_def demo_kernel_def INIT_NAME_HASH_TABLE_LIMIT_def)

theorem lookup_name_correct_witness:
  "lookup_name (demo_state ((replicate 32 None)[4 := Some 0])) (ascii ''root'') = Inr (Some 0)"
proof -
  obtain p where p: "lookup_name (demo_state ((replicate 32 None)[4 := Some 0])) (ascii ''root'') = Inr p"
      "case p of None \<Rightarrow> \<forall>a. \<not> binds (demo_state ((replicate 32 None)[4 := Some 0])) (ascii ''root'') a
        | Some a \<Rightarrow> binds (demo_state ((replicate 32 None)[4 := Some 0])) (ascii ''root'') a
          \<and> (\<forall>b. binds (demo_state ((replicate 32 None)[4 := Some 0])) (ascii ''root'') b \<longrightarrow> b = a)"
    using lookup_name_correct [OF demo_full(1) demo_name(1)] by blast
  then show ?thesis using demo_full(2) by (cases p) auto
qed

end
