(* ===== verification/Cas_Procs.thy ===== *)
theory Cas_Procs
  imports Cas_Db Cas_Ports Cas_Closure Name_Table
begin

text \<open>
  The handlers of the central authentication server, server/as/cas_procs.c. A handler takes the
  kernel's answers, its arguments and the state; its result is a fault, or the return code with
  the values of its out parameters and the new state. Strings and lists arrive in message
  buffers of the handler's own. What has no effect on the state is left out: the messages on
  stderr, the notification requests and the release of port rights.
\<close>

section \<open>Common parts\<close>

definition PW_EQUAL :: "u8 list \<Rightarrow> u8 list \<Rightarrow> bool" where
  "PW_EQUAL p1 p2 = list_all (\<lambda>i. p1 ! i = p2 ! i) [0..<16]"

text \<open>The test that the caller owns a group, belongs to its owner, or is the system administrator.\<close>

definition may_change :: "u32 \<Rightarrow> group_record \<Rightarrow> bool" where
  "may_change owner caller =
     (\<not> (owner \<noteq> group_id caller \<and> \<not> check_for_membership owner caller \<and> \<not> check_for_membership SYS_ADM_ID caller))"

text \<open>The end of the three login calls: the old closure goes, the new one is computed, the port is mapped.\<close>

definition map_private :: "u32 \<Rightarrow> ptr \<Rightarrow> cas_state \<Rightarrow> cas_state result" where
  "map_private private_port login_rec_ptr s =
     bindE (HASH_PORT private_port (priv_ports s)) (\<lambda>port_index.
     Inr (s\<lparr>priv_port_map := (priv_port_map s)
              (port_index := \<lparr>p_mapped_port = private_port, p_group_record_ptr = login_rec_ptr\<rparr>)\<rparr>))"

definition open_session :: "kernel \<Rightarrow> ptr \<Rightarrow> u32 \<Rightarrow> cas_state \<Rightarrow> (as_return \<times> cas_state) result" where
  "open_session k login_rec_ptr private_port s =
     bindE (rec_at s login_rec_ptr) (\<lambda>r.
     let s = (if 0 < length (tr_memberships r) then snd (vm_deallocate k s) else s) in
     bindE (do_transitive_closure k login_rec_ptr True s) (\<lambda>(ids, s).
     bindE (upd_rec (\<lambda>r. r\<lparr>tr_memberships := ids\<rparr>) login_rec_ptr s) (\<lambda>s.
     bindE (map_private private_port login_rec_ptr s) (\<lambda>s.
     Inr (AS_SUCCESS, s)))))"

section \<open>Logging in and out\<close>

definition cas_login :: "kernel \<Rightarrow> cstring \<Rightarrow> u8 list \<Rightarrow> u32 \<Rightarrow> cas_state \<Rightarrow> (as_return \<times> cas_state) result" where
  "cas_login k user_name pw private_port s =
     bindE (lookup_name s (to_lower user_name)) (\<lambda>login_rec_ptr.
     if login_rec_ptr = None then Inr (AS_BAD_NAME, s)
     else bindE (rec_at s login_rec_ptr) (\<lambda>r.
     if group_type r \<noteq> AS_PRIMARY then Inr (AS_NOT_PRIMARY, s)
     else bindE (encrypt_password pw) (\<lambda>pw.
     if \<not> PW_EQUAL pw (pass_word r) then Inr (AS_BAD_PASS_WORD, s)
     else open_session k login_rec_ptr private_port s)))"

definition cas_login_priv :: "kernel \<Rightarrow> u32 \<Rightarrow> u32 \<Rightarrow> u32 \<Rightarrow> cas_state \<Rightarrow> (as_return \<times> cas_state) result" where
  "cas_login_priv k private_port user_id new_private_port s =
     bindE (private_record s private_port) (\<lambda>caller_rec_ptr.
     if caller_rec_ptr = None then Inr (AS_BAD_PRIVATE_PORT, s)
     else bindE (rec_at s caller_rec_ptr) (\<lambda>caller.
     if \<not> check_for_membership SYS_ADM_ID caller then Inr (AS_NOT_ALLOWED, s)
     else (let login_rec_ptr = lookup_id s user_id in
     if login_rec_ptr = None then Inr (AS_BAD_NAME, s)
     else bindE (rec_at s login_rec_ptr) (\<lambda>r.
     if group_type r \<noteq> AS_PRIMARY then Inr (AS_NOT_PRIMARY, s)
     else open_session k login_rec_ptr new_private_port s))))"

text \<open>
  \<open>cas_create_group_rec\<close>: the record is zero-filled, the password is printed into its sixteen
  bytes; \<open>ids\<close> is empty or the list whose tail becomes the memberships.
\<close>

definition title :: "bool \<Rightarrow> u32 \<Rightarrow> cstring" where
  "title is_user gid = ascii (if is_user then ''User '' else ''Group '') @ print_d gid"

definition pad_password :: "u8 list \<Rightarrow> u8 list" where
  "pad_password t = take PASS_WORD_SIZE (t @ replicate PASS_WORD_SIZE 0)"

definition cas_create_group_rec :: "kernel \<Rightarrow> u32 \<Rightarrow> u32 list \<Rightarrow> bool \<Rightarrow> cas_state \<Rightarrow> (ptr \<times> cas_state) result" where
  "cas_create_group_rec k gid ids is_user s =
     (case vm_allocate_record k s of
        (None, s) \<Rightarrow> Inr (None, s)
      | (Some a, s) \<Rightarrow>
          bindE (set_id_map gid (Some a) s) (\<lambda>s.
          bindE (encrypt_password (pad_password (title is_user gid))) (\<lambda>pw.
          if MEMBERS_MAX < length (tl ids) then Inl Out_Of_Bounds
          else bindE (upd_rec (\<lambda>r. r\<lparr>group_name := print_d gid, group_id := gid, group_type := AS_PRIMARY,
                  full_name := title is_user gid, pass_word := pw, owner_id := SYS_ADM_ID,
                  members := [], memberships := tl ids\<rparr>) (Some a) s) (\<lambda>s.
          bindE (enter_name k (group_id_map s (unat gid)) s) (\<lambda>s.
          Inr (Some a, s))))))"

definition id_at :: "u32 list \<Rightarrow> nat \<Rightarrow> u32 result" where
  "id_at ids i = (if i < length ids then Inr (ids ! i) else Inl Out_Of_Bounds)"

text \<open>Looking up an id and creating a record for it when there is none.\<close>

definition find_or_create :: "kernel \<Rightarrow> u32 \<Rightarrow> u32 list \<Rightarrow> bool \<Rightarrow> cas_state \<Rightarrow> (ptr \<times> cas_state) result" where
  "find_or_create k gid ids is_user s =
     (if lookup_id s gid = None then cas_create_group_rec k gid ids is_user s else Inr (lookup_id s gid, s))"

definition cas_login_create :: "kernel \<Rightarrow> u32 \<Rightarrow> u32 list \<Rightarrow> u32 \<Rightarrow> cas_state \<Rightarrow> (as_return \<times> cas_state) result" where
  "cas_login_create k private_port ids new_private_port s =
     bindE (private_record s private_port) (\<lambda>caller_rec_ptr.
     if caller_rec_ptr = None then Inr (AS_BAD_PRIVATE_PORT, s)
     else bindE (rec_at s caller_rec_ptr) (\<lambda>caller.
     if \<not> check_for_membership SYS_ADM_ID caller then Inr (AS_NOT_ALLOWED, s)
     else bindE (id_at ids 0) (\<lambda>user_id.
     bindE (find_or_create k user_id ids True s) (\<lambda>(login_rec_ptr, s).
     if login_rec_ptr = None then Inr (AS_BAD_NAME, s)
     else bindE (id_at ids 1) (\<lambda>gid.
     bindE (find_or_create k gid [] False s) (\<lambda>(group_rec_ptr, s).
     if group_rec_ptr = None then Inr (AS_BAD_NAME, s)
     else bindE (rec_at s login_rec_ptr) (\<lambda>r.
     if group_type r \<noteq> AS_PRIMARY then Inr (AS_NOT_PRIMARY, s)
     else open_session k login_rec_ptr new_private_port s)))))))"

text \<open>
  Clearing the entry of a registered port: its port, owner and user, and its list, whose memory
  goes back to the kernel when there is one.
\<close>

definition clear_reg :: "nat \<Rightarrow> cas_state \<Rightarrow> cas_state" where
  "clear_reg i s = s\<lparr>reg_port_map := (reg_port_map s)(i := \<lparr>r_mapped_port = MACH_PORT_NULL,
     r_private_port = MACH_PORT_NULL, r_group_ids = [], r_user_id = NULL_ID\<rparr>)\<rparr>"

definition free_token :: "kernel \<Rightarrow> nat \<Rightarrow> cas_state \<Rightarrow> (u32 option \<times> cas_state)" where
  "free_token k i s =
     (if r_group_ids (reg_port_map s i) \<noteq> []
      then (let (kr, s) = vm_deallocate k s in (Some kr, clear_reg i s))
      else (None, clear_reg i s))"

definition logout_token :: "kernel \<Rightarrow> u32 \<Rightarrow> nat \<Rightarrow> cas_state \<Rightarrow> cas_state" where
  "logout_token k private_port i s =
     (if r_private_port (reg_port_map s i) = private_port then snd (free_token k i s) else s)"

definition cas_logout :: "kernel \<Rightarrow> u32 \<Rightarrow> cas_state \<Rightarrow> (as_return \<times> cas_state) result" where
  "cas_logout k private_port s =
     (if private_port = MACH_PORT_NULL then Inr (AS_BAD_PRIVATE_PORT, s)
      else bindE (HASH_PORT private_port (priv_ports s)) (\<lambda>port_index.
      let logout_rec_ptr = p_group_record_ptr (priv_port_map s port_index) in
      if logout_rec_ptr = None then Inr (AS_BAD_PRIVATE_PORT, s)
      else (let s = s\<lparr>priv_port_map := (priv_port_map s)
                 (port_index := \<lparr>p_mapped_port = MACH_PORT_NULL, p_group_record_ptr = None\<rparr>)\<rparr> in
      bindE (rec_at s logout_rec_ptr) (\<lambda>r.
      let s = snd (vm_deallocate k s) in
      bindE (upd_rec (\<lambda>r. r\<lparr>tr_memberships := []\<rparr>) logout_rec_ptr s) (\<lambda>s.
      Inr (AS_SUCCESS, fold (logout_token k private_port) [0..<PORT_MAP_MAX] s))))))"

section \<open>Tokens\<close>

text \<open>
  The check of the groups asked for, by the administrator or with \<open>create_groups\<close>: each has to
  exist, or is created. The result is False when the handler returns \<open>AS_BAD_GROUP\<close>.
\<close>

fun check_groups :: "kernel \<Rightarrow> bool \<Rightarrow> u32 list \<Rightarrow> cas_state \<Rightarrow> (bool \<times> cas_state) result" where
  "check_groups k create_groups [] s = Inr (True, s)"
| "check_groups k create_groups (gid # group_ids) s =
     (if lookup_id s gid = None
      then if \<not> create_groups then Inr (False, s)
           else bindE (cas_create_group_rec k gid [] False s) (\<lambda>(p, s).
                if p = None then Inr (False, s) else check_groups k create_groups group_ids s)
      else check_groups k create_groups group_ids s)"

text \<open>
  For other callers the loop looks at \<open>check_for_membership\<close> only when the closure is empty, and
  passes it the address of the closure in place of a group record: with an empty closure that
  address is null or that of freed memory, so the check faults.
\<close>

definition check_restriction :: "kernel \<Rightarrow> bool \<Rightarrow> u32 list \<Rightarrow> group_record \<Rightarrow> cas_state \<Rightarrow> (bool \<times> cas_state) result" where
  "check_restriction k create_groups group_ids caller s =
     (if group_ids = [] then Inr (True, s)
      else if check_for_membership SYS_ADM_ID caller \<or> create_groups then check_groups k create_groups group_ids s
      else if tr_memberships caller = [] then Inl Bad_Address
      else Inr (True, s))"

definition set_reg_ids :: "nat \<Rightarrow> u32 list \<Rightarrow> cas_state \<Rightarrow> cas_state" where
  "set_reg_ids i ids s = s\<lparr>reg_port_map := (reg_port_map s)(i := (reg_port_map s i)\<lparr>r_group_ids := ids\<rparr>)\<rparr>"

definition cas_register_token ::
    "kernel \<Rightarrow> u32 \<Rightarrow> u32 list \<Rightarrow> u32 \<Rightarrow> bool \<Rightarrow> cas_state \<Rightarrow> (as_return \<times> cas_state) result" where
  "cas_register_token k private_port group_ids token create_groups s =
     bindE (private_record s private_port) (\<lambda>group_record_ptr.
     if group_record_ptr = None then Inr (AS_BAD_PRIVATE_PORT, s)
     else bindE (rec_at s group_record_ptr) (\<lambda>caller.
     bindE (check_restriction k create_groups group_ids caller s) (\<lambda>(ok, s).
     if \<not> ok then Inr (AS_BAD_GROUP, s)
     else bindE (HASH_PORT token (reg_ports s)) (\<lambda>rport_index.
     let s = (if r_group_ids (reg_port_map s rport_index) \<noteq> [] then snd (vm_deallocate k s) else s) in
     bindE (rec_at s group_record_ptr) (\<lambda>caller.
     let (alloc, s) = (if group_ids = [] \<and> tr_memberships caller \<noteq> [] then vm_allocate k s else (True, s)) in
     if \<not> alloc then Inr (AS_FAILURE, set_reg_ids rport_index [] s)
     else Inr (AS_SUCCESS, s\<lparr>reg_port_map := (reg_port_map s)(rport_index :=
            \<lparr>r_mapped_port = token, r_private_port = private_port,
             r_group_ids = (if group_ids = [] then tr_memberships caller else group_ids),
             r_user_id = group_id caller\<rparr>)\<rparr>))))))"

text \<open>
  The return value of \<open>cas_delete_token\<close> is that of \<open>vm_deallocate\<close>, or, when the token has no
  list, whatever the uninitialised variable \<open>kr\<close> holds: the argument \<open>junk\<close>.
\<close>

definition cas_delete_token :: "kernel \<Rightarrow> u32 \<Rightarrow> u32 \<Rightarrow> u32 \<Rightarrow> cas_state \<Rightarrow> (as_return \<times> cas_state) result" where
  "cas_delete_token k junk private_port token s =
     bindE (private_record s private_port) (\<lambda>p.
     if p = None then Inr (AS_BAD_PRIVATE_PORT, s)
     else bindE (HASH_PORT token (reg_ports s)) (\<lambda>rport_index.
     if r_private_port (reg_port_map s rport_index) \<noteq> private_port then Inr (AS_BAD_PRIVATE_PORT, s)
     else (let (kr, s) = free_token k rport_index s
           in Inr (kern_return (case kr of None \<Rightarrow> junk | Some kr \<Rightarrow> kr), s))))"

definition cas_verify_token_ids :: "u32 \<Rightarrow> cas_state \<Rightarrow> (as_return \<times> u32 \<times> u32 list) result" where
  "cas_verify_token_ids token s =
     bindE (HASH_PORT token (reg_ports s)) (\<lambda>port_index.
     let e = reg_port_map s port_index in
     if r_mapped_port e = token then Inr (AS_SUCCESS, r_user_id e, r_group_ids e)
     else Inr (AS_FAILURE, NULL_ID, []))"

text \<open>The name of a group in a verified list, empty for an id without a record.\<close>

definition name_of_id :: "cas_state \<Rightarrow> u32 \<Rightarrow> cstring result" where
  "name_of_id s gid = bindE (id_map_at s gid) (\<lambda>p.
     if p = None then Inr [] else bindE (rec_at s p) (\<lambda>r. Inr (group_name r)))"

fun names_of_ids :: "cas_state \<Rightarrow> u32 list \<Rightarrow> cstring list result" where
  "names_of_ids s [] = Inr []"
| "names_of_ids s (gid # ids) =
     bindE (name_of_id s gid) (\<lambda>name. bindE (names_of_ids s ids) (\<lambda>names. Inr (name # names)))"

definition cas_verify_token_names ::
    "kernel \<Rightarrow> u32 \<Rightarrow> cas_state \<Rightarrow> (as_return \<times> cstring \<times> cstring list \<times> cas_state) result" where
  "cas_verify_token_names k token s =
     bindE (HASH_PORT token (reg_ports s)) (\<lambda>port_index.
     let e = reg_port_map s port_index in
     if r_mapped_port e \<noteq> token then Inr (AS_SUCCESS, [], [], s)
     else bindE (id_map_at s (r_user_id e)) (\<lambda>p.
     if p = None then Inr (AS_BAD_GROUP, [], [], s)
     else bindE (rec_at s p) (\<lambda>r.
     if r_group_ids e = [] then Inr (AS_SUCCESS, group_name r, [], s)
     else (let (ok, s) = vm_allocate k s in
     if \<not> ok then Inr (AS_FAILURE, group_name r, [], s)
     else bindE (names_of_ids s (r_group_ids e)) (\<lambda>names.
          Inr (AS_SUCCESS, group_name r, names, s))))))"

section \<open>Groups\<close>

text \<open>The first free id from 2 on.\<close>

definition new_id :: "cas_state \<Rightarrow> nat option" where
  "new_id s = find (\<lambda>i. group_id_map s i = None) [2..<GROUP_ID_MAX]"

text \<open>
  Whether the caller may create a group with this owner: the pointer to the owner's record, null
  when the group is to own itself; \<open>Inl\<close> the return code when not.
\<close>

definition owner_of_new :: "cas_state \<Rightarrow> group_record \<Rightarrow> cstring \<Rightarrow> cstring \<Rightarrow> (as_return + ptr) result" where
  "owner_of_new s caller name owner_group =
     (if owner_group = name then Inr (Inr None)
      else bindE (lookup_name s owner_group) (\<lambda>owner_rec_ptr.
      if owner_rec_ptr = None then Inr (Inl AS_BAD_GROUP)
      else bindE (rec_at s owner_rec_ptr) (\<lambda>r.
      if may_change (group_id r) caller then Inr (Inr owner_rec_ptr) else Inr (Inl AS_NOT_ALLOWED))))"

text \<open>The id of the new group: given and free, or the first free one.\<close>

definition choose_id :: "cas_state \<Rightarrow> u32 \<Rightarrow> (as_return + u32) result" where
  "choose_id s gid =
     (if gid = NULL_ID
      then (case new_id s of None \<Rightarrow> Inr (Inl AS_FAILURE) | Some i \<Rightarrow> Inr (Inr (of_nat i)))
      else bindE (id_map_at s gid) (\<lambda>p. if p \<noteq> None then Inr (Inl AS_DUPLICATE_ID) else Inr (Inr gid)))"

definition make_group :: "kernel \<Rightarrow> cstring \<Rightarrow> u32 \<Rightarrow> cstring \<Rightarrow> u8 list \<Rightarrow> ptr \<Rightarrow> u32 \<Rightarrow> cas_state \<Rightarrow> (as_return \<times> cas_state) result" where
  "make_group k name gtype full pw owner_rec_ptr gid s =
     (case vm_allocate_record k s of
        (None, s) \<Rightarrow> Inr (AS_FAILURE, s)
      | (Some a, s) \<Rightarrow>
          bindE (if gtype = AS_PRIMARY then encrypt_password pw else Inr (replicate PASS_WORD_SIZE 0)) (\<lambda>pw.
          bindE (if owner_rec_ptr = None then Inr gid else bindE (rec_at s owner_rec_ptr) (\<lambda>r. Inr (group_id r))) (\<lambda>owner.
          bindE (upd_rec (\<lambda>r. r\<lparr>group_id := gid, group_type := gtype, group_name := name, pass_word := take PASS_WORD_SIZE pw,
                  full_name := full, owner_id := owner, tr_memberships := [], members := [], memberships := []\<rparr>) (Some a) s) (\<lambda>s.
          bindE (enter_name k (Some a) s) (\<lambda>s.
          bindE (set_id_map gid (Some a) s) (\<lambda>s.
          bindE (save_database k s) (\<lambda>s.
          Inr (AS_SUCCESS, s))))))))"

definition cas_create_group ::
    "kernel \<Rightarrow> u32 \<Rightarrow> cstring \<Rightarrow> u32 \<Rightarrow> cstring \<Rightarrow> u8 list \<Rightarrow> cstring \<Rightarrow> u32 \<Rightarrow> cas_state \<Rightarrow>
      (as_return \<times> u32 \<times> cas_state) result" where
  "cas_create_group k private_port name gtype full pw owner_group gid s =
     bindE (private_record s private_port) (\<lambda>caller_rec_ptr.
     if caller_rec_ptr = None then Inr (AS_BAD_PRIVATE_PORT, gid, s)
     else bindE (rec_at s caller_rec_ptr) (\<lambda>caller.
     if gtype = AS_PRIMARY \<and> \<not> check_for_membership SYS_ADM_ID caller then Inr (AS_NOT_ALLOWED, gid, s)
     else bindE (owner_of_new s caller (to_lower name) (to_lower owner_group)) (\<lambda>owner.
     case owner of Inl ret \<Rightarrow> Inr (ret, gid, s)
     | Inr owner_rec_ptr \<Rightarrow>
         bindE (lookup_name s (to_lower name)) (\<lambda>p.
         if p \<noteq> None then Inr (AS_DUPLICATE_NAME, gid, s)
         else bindE (choose_id s gid) (\<lambda>choice.
         case choice of Inl ret \<Rightarrow> Inr (ret, gid, s)
         | Inr gid \<Rightarrow>
             bindE (make_group k (to_lower name) gtype full pw owner_rec_ptr gid s) (\<lambda>(ret, s).
             Inr (ret, gid, s)))))))"

text \<open>Taking a group out of the lists of the groups it belongs to, and of its members.\<close>

definition drop_member :: "u32 \<Rightarrow> u32 \<Rightarrow> cas_state \<Rightarrow> cas_state result" where
  "drop_member gid i s = bindE (id_map_at s i) (\<lambda>p.
     if p = None then Inr s else upd_rec (\<lambda>r. r\<lparr>members := delete_from_list (members r) gid\<rparr>) p s)"

definition drop_membership :: "u32 \<Rightarrow> u32 \<Rightarrow> cas_state \<Rightarrow> cas_state result" where
  "drop_membership gid i s = bindE (id_map_at s i) (\<lambda>p.
     if p = None then Inr s else upd_rec (\<lambda>r. r\<lparr>memberships := delete_from_list (memberships r) gid\<rparr>) p s)"

text \<open>
  The two loops read the lists of the deleted record while they change those of other records. A
  group that is a member of itself changes the list the loop runs over, so the loops go by index
  and read the list again in each round. The first argument bounds the rounds.
\<close>

primrec drop_all ::
    "nat \<Rightarrow> (group_record \<Rightarrow> u32 list) \<Rightarrow> (u32 \<Rightarrow> u32 \<Rightarrow> cas_state \<Rightarrow> cas_state result) \<Rightarrow> ptr \<Rightarrow> nat \<Rightarrow> cas_state \<Rightarrow> cas_state result" where
  "drop_all 0 ids change p i s = Inl Diverges"
| "drop_all (Suc n) ids change p i s =
     bindE (rec_at s p) (\<lambda>r.
     if i < length (ids r)
     then bindE (change (group_id r) (ids r ! i) s) (\<lambda>s. drop_all n ids change p (Suc i) s)
     else Inr s)"

definition loop_bound :: "(group_record \<Rightarrow> u32 list) \<Rightarrow> group_record \<Rightarrow> nat" where
  "loop_bound ids r = Suc (length (ids r))"

definition cas_delete_group :: "kernel \<Rightarrow> u32 \<Rightarrow> cstring \<Rightarrow> cas_state \<Rightarrow> (as_return \<times> cas_state) result" where
  "cas_delete_group k private_port name s =
     bindE (private_record s private_port) (\<lambda>caller_rec_ptr.
     if caller_rec_ptr = None then Inr (AS_BAD_PRIVATE_PORT, s)
     else bindE (lookup_name s (to_lower name)) (\<lambda>delete_rec_ptr.
     if delete_rec_ptr = None then Inr (AS_BAD_GROUP, s)
     else bindE (rec_at s delete_rec_ptr) (\<lambda>d. bindE (rec_at s caller_rec_ptr) (\<lambda>caller.
     if \<not> may_change (owner_id d) caller then Inr (AS_NOT_ALLOWED, s)
     else bindE (drop_all (loop_bound memberships d) memberships drop_member delete_rec_ptr 0 s) (\<lambda>s.
     bindE (drop_all (loop_bound members d) members drop_membership delete_rec_ptr 0 s) (\<lambda>s.
     bindE (delete_name k (group_name d) s) (\<lambda>s.
     bindE (set_id_map (group_id d) None s) (\<lambda>s.
     let (kr, s) = vm_deallocate k s; s = (if kr = 0 then vm_deallocate_record delete_rec_ptr s else s) in
     bindE (save_database k s) (\<lambda>s.
     Inr (AS_SUCCESS, s))))))))))"

definition cas_change_owner :: "kernel \<Rightarrow> u32 \<Rightarrow> cstring \<Rightarrow> cstring \<Rightarrow> cas_state \<Rightarrow> (as_return \<times> cas_state) result" where
  "cas_change_owner k private_port name new_owner s =
     bindE (private_record s private_port) (\<lambda>caller_rec_ptr.
     if caller_rec_ptr = None then Inr (AS_BAD_PRIVATE_PORT, s)
     else bindE (lookup_name s (to_lower name)) (\<lambda>change_rec_ptr.
     if change_rec_ptr = None then Inr (AS_BAD_GROUP, s)
     else bindE (rec_at s change_rec_ptr) (\<lambda>c. bindE (rec_at s caller_rec_ptr) (\<lambda>caller.
     if \<not> may_change (owner_id c) caller then Inr (AS_NOT_ALLOWED, s)
     else bindE (lookup_name s (to_lower new_owner)) (\<lambda>own_rec_ptr.
     if own_rec_ptr = None then Inr (AS_BAD_GROUP, s)
     else bindE (rec_at s own_rec_ptr) (\<lambda>own.
     bindE (upd_rec (\<lambda>r. r\<lparr>owner_id := group_id own\<rparr>) change_rec_ptr s) (\<lambda>s.
     bindE (save_database k s) (\<lambda>s.
     Inr (AS_SUCCESS, s)))))))))"

definition cas_change_password ::
    "kernel \<Rightarrow> u32 \<Rightarrow> cstring \<Rightarrow> u8 list \<Rightarrow> u8 list \<Rightarrow> cas_state \<Rightarrow> (as_return \<times> cas_state) result" where
  "cas_change_password k private_port name old_pw new_pw s =
     bindE (private_record s private_port) (\<lambda>caller_rec_ptr.
     if caller_rec_ptr = None then Inr (AS_BAD_PRIVATE_PORT, s)
     else bindE (lookup_name s (to_lower name)) (\<lambda>change_rec_ptr.
     if change_rec_ptr = None then Inr (AS_BAD_GROUP, s)
     else bindE (rec_at s change_rec_ptr) (\<lambda>c.
     if group_type c \<noteq> AS_PRIMARY then Inr (AS_NOT_PRIMARY, s)
     else bindE (rec_at s caller_rec_ptr) (\<lambda>caller.
     bindE (if group_id c = group_id caller
            then bindE (encrypt_password old_pw) (\<lambda>pw. Inr (if PW_EQUAL pw (pass_word c) then AS_SUCCESS else AS_BAD_PASS_WORD))
            else Inr (if may_change (owner_id c) caller then AS_SUCCESS else AS_NOT_ALLOWED)) (\<lambda>ret.
     if ret \<noteq> AS_SUCCESS then Inr (ret, s)
     else bindE (encrypt_password new_pw) (\<lambda>pw.
     bindE (upd_rec (\<lambda>r. r\<lparr>pass_word := take PASS_WORD_SIZE pw\<rparr>) change_rec_ptr s) (\<lambda>s.
     bindE (save_database k s) (\<lambda>s.
     Inr (AS_SUCCESS, s)))))))))"

text \<open>
  Appending to the arrays of a record; the comparison with \<open>MEMBERS_MAX\<close> in the code only prints
  a message.
\<close>

definition append_id :: "u32 list \<Rightarrow> u32 \<Rightarrow> u32 list result" where
  "append_id ids i = (if length ids < MEMBERS_MAX then Inr (ids @ [i]) else Inl Out_Of_Bounds)"

definition add_member :: "ptr \<Rightarrow> u32 \<Rightarrow> cas_state \<Rightarrow> cas_state result" where
  "add_member p i s = bindE (rec_at s p) (\<lambda>r. bindE (append_id (members r) i) (\<lambda>ids.
     upd_rec (\<lambda>r. r\<lparr>members := ids\<rparr>) p s))"

definition add_membership :: "ptr \<Rightarrow> u32 \<Rightarrow> cas_state \<Rightarrow> cas_state result" where
  "add_membership p i s = bindE (rec_at s p) (\<lambda>r. bindE (append_id (memberships r) i) (\<lambda>ids.
     upd_rec (\<lambda>r. r\<lparr>memberships := ids\<rparr>) p s))"

definition cas_add_to_group :: "kernel \<Rightarrow> u32 \<Rightarrow> cstring \<Rightarrow> cstring \<Rightarrow> cas_state \<Rightarrow> (as_return \<times> cas_state) result" where
  "cas_add_to_group k private_port name add_group_name s =
     bindE (private_record s private_port) (\<lambda>caller_rec_ptr.
     if caller_rec_ptr = None then Inr (AS_BAD_PRIVATE_PORT, s)
     else bindE (lookup_name s name) (\<lambda>change_rec_ptr.
     if change_rec_ptr = None then Inr (AS_BAD_GROUP, s)
     else bindE (rec_at s change_rec_ptr) (\<lambda>c.
     if group_type c \<noteq> AS_SECONDARY then Inr (AS_NOT_SECONDARY, s)
     else bindE (lookup_name s (to_lower add_group_name)) (\<lambda>add_rec_ptr.
     if add_rec_ptr = None then Inr (AS_BAD_GROUP, s)
     else bindE (rec_at s caller_rec_ptr) (\<lambda>caller.
     if \<not> may_change (owner_id c) caller then Inr (AS_NOT_ALLOWED, s)
     else bindE (rec_at s add_rec_ptr) (\<lambda>add.
     bindE (add_member change_rec_ptr (group_id add) s) (\<lambda>s.
     bindE (add_membership add_rec_ptr (group_id c) s) (\<lambda>s.
     bindE (save_database k s) (\<lambda>s.
     Inr (AS_SUCCESS, s))))))))))"

definition cas_remove_from_group :: "kernel \<Rightarrow> u32 \<Rightarrow> cstring \<Rightarrow> cstring \<Rightarrow> cas_state \<Rightarrow> (as_return \<times> cas_state) result" where
  "cas_remove_from_group k private_port name remove_group_name s =
     bindE (private_record s private_port) (\<lambda>caller_rec_ptr.
     if caller_rec_ptr = None then Inr (AS_BAD_PRIVATE_PORT, s)
     else bindE (lookup_name s (to_lower name)) (\<lambda>change_rec_ptr.
     if change_rec_ptr = None then Inr (AS_BAD_GROUP, s)
     else bindE (rec_at s change_rec_ptr) (\<lambda>c.
     if group_type c \<noteq> AS_SECONDARY then Inr (AS_NOT_SECONDARY, s)
     else bindE (lookup_name s (to_lower remove_group_name)) (\<lambda>remove_rec_ptr.
     if remove_rec_ptr = None then Inr (AS_BAD_GROUP, s)
     else bindE (rec_at s caller_rec_ptr) (\<lambda>caller.
     if \<not> may_change (owner_id c) caller then Inr (AS_NOT_ALLOWED, s)
     else bindE (rec_at s remove_rec_ptr) (\<lambda>rem.
     bindE (upd_rec (\<lambda>r. r\<lparr>members := delete_from_list (members r) (group_id rem)\<rparr>) change_rec_ptr s) (\<lambda>s.
     bindE (upd_rec (\<lambda>r. r\<lparr>memberships := delete_from_list (memberships r) (group_id c)\<rparr>) remove_rec_ptr s) (\<lambda>s.
     bindE (save_database k s) (\<lambda>s.
     Inr (AS_SUCCESS, s))))))))))"

section \<open>Queries\<close>

definition cas_translate_group_id :: "u32 \<Rightarrow> cas_state \<Rightarrow> (as_return \<times> u32 \<times> cstring \<times> u32 option \<times> cstring) result" where
  "cas_translate_group_id gid s =
     bindE (id_map_at s gid) (\<lambda>tr_rec_ptr.
     if tr_rec_ptr = None then Inr (AS_BAD_GROUP, NULL_ID, [], None, [])
     else bindE (rec_at s tr_rec_ptr) (\<lambda>r.
     Inr (AS_SUCCESS, owner_id r, group_name r, Some (group_type r), full_name r)))"

definition cas_translate_group_name :: "cstring \<Rightarrow> cas_state \<Rightarrow> (as_return \<times> u32 \<times> u32 \<times> u32 option \<times> cstring) result" where
  "cas_translate_group_name name s =
     bindE (lookup_name s (to_lower name)) (\<lambda>tr_rec_ptr.
     if tr_rec_ptr = None then Inr (AS_BAD_GROUP, NULL_ID, NULL_ID, None, [])
     else bindE (rec_at s tr_rec_ptr) (\<lambda>r.
     Inr (AS_SUCCESS, owner_id r, group_id r, Some (group_type r), full_name r)))"

text \<open>A list of a group, closed transitively or as it is; the out parameters stay as they are on an error.\<close>

definition list_groups :: "bool \<Rightarrow> kernel \<Rightarrow> cstring \<Rightarrow> bool \<Rightarrow> cas_state \<Rightarrow> (as_return \<times> u32 list option \<times> cas_state) result" where
  "list_groups do_memberships k name trans_closure s =
     bindE (lookup_name s (to_lower name)) (\<lambda>list_rec_ptr.
     if list_rec_ptr = None then Inr (AS_BAD_GROUP, None, s)
     else if trans_closure
     then bindE (do_transitive_closure k list_rec_ptr do_memberships s) (\<lambda>(ids, s). Inr (AS_SUCCESS, Some ids, s))
     else bindE (rec_at s list_rec_ptr) (\<lambda>r.
     let (ok, s) = vm_allocate k s in
     if \<not> ok then Inr (AS_FAILURE, None, s)
     else Inr (AS_SUCCESS, Some (group_list do_memberships r), s)))"

definition cas_list_members :: "kernel \<Rightarrow> cstring \<Rightarrow> bool \<Rightarrow> cas_state \<Rightarrow> (as_return \<times> u32 list option \<times> cas_state) result" where
  "cas_list_members = list_groups False"

definition cas_list_memberships :: "kernel \<Rightarrow> cstring \<Rightarrow> bool \<Rightarrow> cas_state \<Rightarrow> (as_return \<times> u32 list option \<times> cas_state) result" where
  "cas_list_memberships = list_groups True"

text \<open>Every id in use; the list is allocated with the size the first loop counts.\<close>

definition cas_list_all_groups :: "kernel \<Rightarrow> cas_state \<Rightarrow> (as_return \<times> u32 list option \<times> cas_state) result" where
  "cas_list_all_groups k s =
     (let group_count = length (filter (\<lambda>i. group_id_map s i \<noteq> None) [0..<GROUP_ID_MAX]);
          (ok, s) = vm_allocate k s in
      if \<not> ok then Inr (AS_FAILURE, None, s)
      else bindE (foldE (\<lambda>i (group_ids, n).
               if group_id_map s i \<noteq> None
               then bindE (put_id group_ids n (of_nat i)) (\<lambda>group_ids. Inr (group_ids, Suc n))
               else Inr (group_ids, n)) [0..<GROUP_ID_MAX] (Some (replicate group_count 0), 0)) (\<lambda>(group_ids, _).
           Inr (AS_SUCCESS, group_ids, s)))"

section \<open>Dead ports\<close>

text \<open>The kernel tells the server when a port it holds a right to dies.\<close>

definition cas_handle_port_death :: "kernel \<Rightarrow> u32 \<Rightarrow> u32 \<Rightarrow> cas_state \<Rightarrow> cas_state result" where
  "cas_handle_port_death k junk dead_port s =
     bindE (HASH_PORT dead_port (priv_ports s)) (\<lambda>pport_index.
     bindE (HASH_PORT dead_port (reg_ports s)) (\<lambda>rport_index.
     if p_group_record_ptr (priv_port_map s pport_index) \<noteq> None
     then bindE (cas_logout k dead_port s) (\<lambda>(_, s). Inr s)
     else if r_mapped_port (reg_port_map s rport_index) = dead_port
     then bindE (cas_delete_token k junk (r_private_port (reg_port_map s rport_index)) dead_port s) (\<lambda>(_, s). Inr s)
     else Inr s))"

end
