(* ===== verification/Clas_Procs.thy ===== *)
theory Clas_Procs
  imports Cas_Procs
begin

text \<open>
  The procedures of the authentication service as the central server offers them itself,
  server/as/clas_procs.c: each call of the service becomes a call of the handler in cas_procs.c
  in the same process. The calls that hand out a new port allocate it here. The unused argument
  \<open>server_port\<close> is left out.
\<close>

section \<open>Logging in and out\<close>

definition clas_login :: "kernel \<Rightarrow> cstring \<Rightarrow> u8 list \<Rightarrow> cas_state \<Rightarrow> (as_return \<times> u32 \<times> cas_state) result" where
  "clas_login k user_name pw s =
     (case mach_port_allocate k s of
        (None, s) \<Rightarrow> Inr (AS_FAILURE, MACH_PORT_NULL, s)
      | (Some private_port, s) \<Rightarrow>
          bindE (cas_login k user_name pw private_port s) (\<lambda>(kr, s).
          Inr (kr, if kr = AS_SUCCESS then private_port else MACH_PORT_NULL, s)))"

definition clas_login_priv :: "kernel \<Rightarrow> u32 \<Rightarrow> u32 \<Rightarrow> cas_state \<Rightarrow> (as_return \<times> u32 \<times> cas_state) result" where
  "clas_login_priv k private_port user_id s =
     (case mach_port_allocate k s of
        (None, s) \<Rightarrow> Inr (AS_FAILURE, MACH_PORT_NULL, s)
      | (Some new_port, s) \<Rightarrow>
          bindE (cas_login_priv k private_port user_id new_port s) (\<lambda>(kr, s).
          Inr (kr, if kr = AS_SUCCESS then new_port else MACH_PORT_NULL, s)))"

definition clas_login_create :: "kernel \<Rightarrow> u32 \<Rightarrow> u32 list \<Rightarrow> cas_state \<Rightarrow> (as_return \<times> u32 \<times> cas_state) result" where
  "clas_login_create k private_port ids s =
     (case mach_port_allocate k s of
        (None, s) \<Rightarrow> Inr (AS_FAILURE, MACH_PORT_NULL, s)
      | (Some new_port, s) \<Rightarrow>
          bindE (cas_login_create k private_port ids new_port s) (\<lambda>(kr, s).
          Inr (kr, if kr = AS_SUCCESS then new_port else MACH_PORT_NULL, s)))"

definition clas_logout :: "kernel \<Rightarrow> u32 \<Rightarrow> cas_state \<Rightarrow> (as_return \<times> cas_state) result" where
  "clas_logout k private_port s = cas_logout k private_port s"

section \<open>Tokens\<close>

text \<open>The new token is handed out whatever \<open>cas_register_token\<close> returns.\<close>

definition clas_create_token :: "kernel \<Rightarrow> u32 \<Rightarrow> u32 list \<Rightarrow> cas_state \<Rightarrow> (as_return \<times> u32 \<times> cas_state) result" where
  "clas_create_token k private_port group_ids s =
     (case mach_port_allocate k s of
        (None, s) \<Rightarrow> Inr (AS_FAILURE, MACH_PORT_NULL, s)
      | (Some token, s) \<Rightarrow>
          bindE (cas_register_token k private_port group_ids token False s) (\<lambda>(kr, s). Inr (kr, token, s)))"

definition clas_create_token_group :: "kernel \<Rightarrow> u32 \<Rightarrow> u32 list \<Rightarrow> cas_state \<Rightarrow> (as_return \<times> u32 \<times> cas_state) result" where
  "clas_create_token_group k private_port group_ids s =
     (case mach_port_allocate k s of
        (None, s) \<Rightarrow> Inr (AS_FAILURE, MACH_PORT_NULL, s)
      | (Some token, s) \<Rightarrow>
          bindE (cas_register_token k private_port group_ids token True s) (\<lambda>(kr, s). Inr (kr, token, s)))"

definition clas_delete_token :: "kernel \<Rightarrow> u32 \<Rightarrow> u32 \<Rightarrow> u32 \<Rightarrow> cas_state \<Rightarrow> (as_return \<times> cas_state) result" where
  "clas_delete_token k junk private_port token s = cas_delete_token k junk private_port token s"

definition clas_verify_token_ids :: "u32 \<Rightarrow> cas_state \<Rightarrow> (as_return \<times> u32 \<times> u32 list) result" where
  "clas_verify_token_ids token s = cas_verify_token_ids token s"

definition clas_verify_token_names ::
    "kernel \<Rightarrow> u32 \<Rightarrow> cas_state \<Rightarrow> (as_return \<times> cstring \<times> cstring list \<times> cas_state) result" where
  "clas_verify_token_names k token s = cas_verify_token_names k token s"

section \<open>Groups\<close>

definition clas_create_group ::
    "kernel \<Rightarrow> u32 \<Rightarrow> cstring \<Rightarrow> u32 \<Rightarrow> cstring \<Rightarrow> u8 list \<Rightarrow> cstring \<Rightarrow> u32 \<Rightarrow> cas_state \<Rightarrow>
      (as_return \<times> u32 \<times> cas_state) result" where
  "clas_create_group k private_port name gtype full pw owner_group gid s =
     cas_create_group k private_port name gtype full pw owner_group gid s"

definition clas_delete_group :: "kernel \<Rightarrow> u32 \<Rightarrow> cstring \<Rightarrow> cas_state \<Rightarrow> (as_return \<times> cas_state) result" where
  "clas_delete_group k private_port name s = cas_delete_group k private_port name s"

definition clas_change_password ::
    "kernel \<Rightarrow> u32 \<Rightarrow> cstring \<Rightarrow> u8 list \<Rightarrow> u8 list \<Rightarrow> cas_state \<Rightarrow> (as_return \<times> cas_state) result" where
  "clas_change_password k private_port name old_pw new_pw s = cas_change_password k private_port name old_pw new_pw s"

definition clas_change_owner :: "kernel \<Rightarrow> u32 \<Rightarrow> cstring \<Rightarrow> cstring \<Rightarrow> cas_state \<Rightarrow> (as_return \<times> cas_state) result" where
  "clas_change_owner k private_port name new_owner s = cas_change_owner k private_port name new_owner s"

definition clas_add_to_group :: "kernel \<Rightarrow> u32 \<Rightarrow> cstring \<Rightarrow> cstring \<Rightarrow> cas_state \<Rightarrow> (as_return \<times> cas_state) result" where
  "clas_add_to_group k private_port name add_name s = cas_add_to_group k private_port name add_name s"

definition clas_remove_from_group :: "kernel \<Rightarrow> u32 \<Rightarrow> cstring \<Rightarrow> cstring \<Rightarrow> cas_state \<Rightarrow> (as_return \<times> cas_state) result" where
  "clas_remove_from_group k private_port name remove_name s = cas_remove_from_group k private_port name remove_name s"

definition clas_translate_group_id ::
    "u32 \<Rightarrow> cas_state \<Rightarrow> (as_return \<times> u32 \<times> cstring \<times> u32 option \<times> cstring) result" where
  "clas_translate_group_id gid s = cas_translate_group_id gid s"

definition clas_translate_group_name ::
    "cstring \<Rightarrow> cas_state \<Rightarrow> (as_return \<times> u32 \<times> u32 \<times> u32 option \<times> cstring) result" where
  "clas_translate_group_name name s = cas_translate_group_name name s"

definition clas_list_members ::
    "kernel \<Rightarrow> cstring \<Rightarrow> bool \<Rightarrow> cas_state \<Rightarrow> (as_return \<times> u32 list option \<times> cas_state) result" where
  "clas_list_members k name trans_closure s = cas_list_members k name trans_closure s"

definition clas_list_memberships ::
    "kernel \<Rightarrow> cstring \<Rightarrow> bool \<Rightarrow> cas_state \<Rightarrow> (as_return \<times> u32 list option \<times> cas_state) result" where
  "clas_list_memberships k name trans_closure s = cas_list_memberships k name trans_closure s"

definition clas_list_all_groups :: "kernel \<Rightarrow> cas_state \<Rightarrow> (as_return \<times> u32 list option \<times> cas_state) result" where
  "clas_list_all_groups k s = cas_list_all_groups k s"

lemmas clas_forward_defs = clas_logout_def clas_delete_token_def clas_verify_token_ids_def clas_verify_token_names_def
  clas_create_group_def clas_delete_group_def clas_change_password_def clas_change_owner_def clas_add_to_group_def
  clas_remove_from_group_def clas_translate_group_id_def clas_translate_group_name_def clas_list_members_def
  clas_list_memberships_def clas_list_all_groups_def

lemmas clas_port_defs = clas_login_def clas_login_priv_def clas_login_create_def clas_create_token_def clas_create_token_group_def

end
