(* ===== verification/Service.thy ===== *)
theory Service
  imports Mach_Prelude
begin

text \<open>
  A server as a state machine: a function serves one request in a state, and faults or answers
  and moves to a new state. The locale \<open>service\<close> is the contract the servers of the system are
  checked against: an invariant every answered request keeps. It gives the invariant after any
  sequence of requests, and it traces a change of the state back to the request that made it, served in the
  state the requests before it led to.
\<close>

fun serve_all :: "('q \<Rightarrow> 's \<Rightarrow> 'e + 'r \<times> 's) \<Rightarrow> 'q list \<Rightarrow> 's \<Rightarrow> 'e + 'r list \<times> 's" where
  "serve_all serve [] s = Inr ([], s)"
| "serve_all serve (q # qs) s =
     bindE (serve q s) (\<lambda>(r, s). bindE (serve_all serve qs s) (\<lambda>(rs, s). Inr (r # rs, s)))"

lemma serve_all_Cons:
  "serve_all serve (q # qs) s = Inr (rs, s') \<longleftrightarrow>
    (\<exists>r rs' s1. serve q s = Inr (r, s1) \<and> serve_all serve qs s1 = Inr (rs', s') \<and> rs = r # rs')"
  by (auto simp: fault_simps)

locale service =
  fixes serve :: "'q \<Rightarrow> 's \<Rightarrow> fault + 'r \<times> 's" and inv :: "'s \<Rightarrow> bool"
  assumes keeps: "inv s \<Longrightarrow> serve q s = Inr (r, s') \<Longrightarrow> inv s'"
begin

lemma all_keep: "serve_all serve qs s = Inr (rs, s') \<Longrightarrow> inv s \<Longrightarrow> inv s'"
proof (induction qs arbitrary: s rs)
  case (Cons q qs)
  then show ?case using keeps by (fastforce simp: serve_all_Cons simp del: serve_all.simps)
qed simp

lemma replies: "serve_all serve qs s = Inr (rs, s') \<Longrightarrow> length rs = length qs"
  by (induction qs arbitrary: s rs) (auto simp: serve_all_Cons simp del: serve_all.simps(2))

lemma origin:
  assumes "serve_all serve qs s = Inr (rs, s')" "inv s" "\<not> P s" "P s'"
  shows "\<exists>i < length qs. \<exists>s1 s2. serve_all serve (take i qs) s = Inr (take i rs, s1) \<and> inv s1 \<and>
    serve (qs ! i) s1 = Inr (rs ! i, s2) \<and> \<not> P s1 \<and> P s2"
  using assms
proof (induction qs arbitrary: s rs)
  case (Cons q qs)
  then obtain r rs' s1 where q: "serve q s = Inr (r, s1)" "serve_all serve qs s1 = Inr (rs', s')" "rs = r # rs'"
    by (auto simp: serve_all_Cons simp del: serve_all.simps)
  show ?case
  proof (cases "P s1")
    case True
    then show ?thesis using q Cons.prems by (intro exI [of _ 0]) auto
  next
    case False
    then obtain i s2 s3 where "i < length qs" "serve_all serve (take i qs) s1 = Inr (take i rs', s2)" "inv s2"
        "serve (qs ! i) s2 = Inr (rs' ! i, s3)" "\<not> P s2" "P s3"
      using Cons.IH [OF q(2) keeps [OF Cons.prems(2) q(1)]] Cons.prems(4) by blast
    then show ?thesis using q(1,3) by (intro exI [of _ "Suc i"]) (auto simp: serve_all_Cons simp del: serve_all.simps)
  qed
qed simp

end

end
