(* ===== verification/Cas_Server.thy ===== *)
theory Cas_Server
  imports Clas_Procs Service
begin

text \<open>
  The central authentication server as a whole: the requests of its two interfaces, one for each
  handler of server/as/cas_procs.c and one for each procedure of server/as/clas_procs.c, and the
  startup and the main loop of server/as/cas_main.c. The messages are taken apart and dispatched
  by code generated from c_auth.defs and auth.defs, so a request is what arrives at the handler.
\<close>

section \<open>Requests\<close>

datatype request =
    Login cstring "u8 list" u32
  | Login_Priv u32 u32 u32
  | Login_Create u32 "u32 list" u32
  | Logout u32
  | Register_Token u32 "u32 list" u32 bool
  | Delete_Token u32 u32
  | Verify_Token_Ids u32
  | Verify_Token_Names u32
  | Create_Group u32 cstring u32 cstring "u8 list" cstring u32
  | Delete_Group u32 cstring
  | Change_Owner u32 cstring cstring
  | Change_Password u32 cstring "u8 list" "u8 list"
  | Add_To_Group u32 cstring cstring
  | Remove_From_Group u32 cstring cstring
  | Translate_Group_Id u32
  | Translate_Group_Name cstring
  | List_Members cstring bool
  | List_Memberships cstring bool
  | List_All_Groups

text \<open>The requests of the authentication service, auth.defs.\<close>

datatype as_request =
    As_Login cstring "u8 list"
  | As_Login_Priv u32 u32
  | As_Login_Create u32 "u32 list"
  | As_Logout u32
  | As_Create_Token u32 "u32 list"
  | As_Create_Token_Group u32 "u32 list"
  | As_Delete_Token u32 u32
  | As_Verify_Token_Ids u32
  | As_Verify_Token_Names u32
  | As_Create_Group u32 cstring u32 cstring "u8 list" cstring u32
  | As_Delete_Group u32 cstring
  | As_Change_Owner u32 cstring cstring
  | As_Change_Password u32 cstring "u8 list" "u8 list"
  | As_Add_To_Group u32 cstring cstring
  | As_Remove_From_Group u32 cstring cstring
  | As_Translate_Group_Id u32
  | As_Translate_Group_Name cstring
  | As_List_Members cstring bool
  | As_List_Memberships cstring bool
  | As_List_All_Groups

datatype reply =
    Return as_return
  | Token_Ids as_return u32 "u32 list"
  | Token_Names as_return cstring "cstring list"
  | New_Group as_return u32
  | Id_Info as_return u32 cstring "u32 option" cstring
  | Name_Info as_return u32 u32 "u32 option" cstring
  | Group_Ids as_return "u32 list option"
  | New_Port as_return u32

definition return_of :: "(as_return \<times> cas_state) result \<Rightarrow> (reply \<times> cas_state) result" where
  "return_of m = bindE m (\<lambda>(ret, s). Inr (Return ret, s))"

fun cas_serve :: "kernel \<Rightarrow> u32 \<Rightarrow> request \<Rightarrow> cas_state \<Rightarrow> (reply \<times> cas_state) result" where
  "cas_serve k junk (Login name pw port) s = return_of (cas_login k name pw port s)"
| "cas_serve k junk (Login_Priv port uid new_port) s = return_of (cas_login_priv k port uid new_port s)"
| "cas_serve k junk (Login_Create port ids new_port) s = return_of (cas_login_create k port ids new_port s)"
| "cas_serve k junk (Logout port) s = return_of (cas_logout k port s)"
| "cas_serve k junk (Register_Token port ids token create) s = return_of (cas_register_token k port ids token create s)"
| "cas_serve k junk (Delete_Token port token) s = return_of (cas_delete_token k junk port token s)"
| "cas_serve k junk (Verify_Token_Ids token) s =
     bindE (cas_verify_token_ids token s) (\<lambda>(ret, uid, ids). Inr (Token_Ids ret uid ids, s))"
| "cas_serve k junk (Verify_Token_Names token) s =
     bindE (cas_verify_token_names k token s) (\<lambda>(ret, user, names, s). Inr (Token_Names ret user names, s))"
| "cas_serve k junk (Create_Group port name gtype full pw owner gid) s =
     bindE (cas_create_group k port name gtype full pw owner gid s) (\<lambda>(ret, gid, s). Inr (New_Group ret gid, s))"
| "cas_serve k junk (Delete_Group port name) s = return_of (cas_delete_group k port name s)"
| "cas_serve k junk (Change_Owner port name owner) s = return_of (cas_change_owner k port name owner s)"
| "cas_serve k junk (Change_Password port name old_pw new_pw) s = return_of (cas_change_password k port name old_pw new_pw s)"
| "cas_serve k junk (Add_To_Group port name add) s = return_of (cas_add_to_group k port name add s)"
| "cas_serve k junk (Remove_From_Group port name rem) s = return_of (cas_remove_from_group k port name rem s)"
| "cas_serve k junk (Translate_Group_Id gid) s =
     bindE (cas_translate_group_id gid s) (\<lambda>(ret, owner, name, gtype, full). Inr (Id_Info ret owner name gtype full, s))"
| "cas_serve k junk (Translate_Group_Name name) s =
     bindE (cas_translate_group_name name s) (\<lambda>(ret, owner, gid, gtype, full). Inr (Name_Info ret owner gid gtype full, s))"
| "cas_serve k junk (List_Members name closure) s =
     bindE (cas_list_members k name closure s) (\<lambda>(ret, ids, s). Inr (Group_Ids ret ids, s))"
| "cas_serve k junk (List_Memberships name closure) s =
     bindE (cas_list_memberships k name closure s) (\<lambda>(ret, ids, s). Inr (Group_Ids ret ids, s))"
| "cas_serve k junk List_All_Groups s =
     bindE (cas_list_all_groups k s) (\<lambda>(ret, ids, s). Inr (Group_Ids ret ids, s))"

definition port_of :: "(as_return \<times> u32 \<times> cas_state) result \<Rightarrow> (reply \<times> cas_state) result" where
  "port_of m = bindE m (\<lambda>(ret, port, s). Inr (New_Port ret port, s))"

fun clas_serve :: "kernel \<Rightarrow> u32 \<Rightarrow> as_request \<Rightarrow> cas_state \<Rightarrow> (reply \<times> cas_state) result" where
  "clas_serve k junk (As_Login name pw) s = port_of (clas_login k name pw s)"
| "clas_serve k junk (As_Login_Priv port uid) s = port_of (clas_login_priv k port uid s)"
| "clas_serve k junk (As_Login_Create port ids) s = port_of (clas_login_create k port ids s)"
| "clas_serve k junk (As_Logout port) s = return_of (clas_logout k port s)"
| "clas_serve k junk (As_Create_Token port ids) s = port_of (clas_create_token k port ids s)"
| "clas_serve k junk (As_Create_Token_Group port ids) s = port_of (clas_create_token_group k port ids s)"
| "clas_serve k junk (As_Delete_Token port token) s = return_of (clas_delete_token k junk port token s)"
| "clas_serve k junk (As_Verify_Token_Ids token) s =
     bindE (clas_verify_token_ids token s) (\<lambda>(ret, uid, ids). Inr (Token_Ids ret uid ids, s))"
| "clas_serve k junk (As_Verify_Token_Names token) s =
     bindE (clas_verify_token_names k token s) (\<lambda>(ret, user, names, s). Inr (Token_Names ret user names, s))"
| "clas_serve k junk (As_Create_Group port name gtype full pw owner gid) s =
     bindE (clas_create_group k port name gtype full pw owner gid s) (\<lambda>(ret, gid, s). Inr (New_Group ret gid, s))"
| "clas_serve k junk (As_Delete_Group port name) s = return_of (clas_delete_group k port name s)"
| "clas_serve k junk (As_Change_Owner port name owner) s = return_of (clas_change_owner k port name owner s)"
| "clas_serve k junk (As_Change_Password port name old_pw new_pw) s =
     return_of (clas_change_password k port name old_pw new_pw s)"
| "clas_serve k junk (As_Add_To_Group port name add) s = return_of (clas_add_to_group k port name add s)"
| "clas_serve k junk (As_Remove_From_Group port name rem) s = return_of (clas_remove_from_group k port name rem s)"
| "clas_serve k junk (As_Translate_Group_Id gid) s =
     bindE (clas_translate_group_id gid s) (\<lambda>(ret, owner, name, gtype, full). Inr (Id_Info ret owner name gtype full, s))"
| "clas_serve k junk (As_Translate_Group_Name name) s =
     bindE (clas_translate_group_name name s) (\<lambda>(ret, owner, gid, gtype, full). Inr (Name_Info ret owner gid gtype full, s))"
| "clas_serve k junk (As_List_Members name closure) s =
     bindE (clas_list_members k name closure s) (\<lambda>(ret, ids, s). Inr (Group_Ids ret ids, s))"
| "clas_serve k junk (As_List_Memberships name closure) s =
     bindE (clas_list_memberships k name closure s) (\<lambda>(ret, ids, s). Inr (Group_Ids ret ids, s))"
| "clas_serve k junk As_List_All_Groups s =
     bindE (clas_list_all_groups k s) (\<lambda>(ret, ids, s). Inr (Group_Ids ret ids, s))"

section \<open>Starting up\<close>

text \<open>
  \<open>cas_init\<close> without the secure startup: the tables, the database, and the service port, which
  the kernel and the name server grant or not (\<open>ports_ok\<close>).
\<close>

definition cas_init :: "kernel \<Rightarrow> u8 list \<Rightarrow> bool \<Rightarrow> cas_state \<Rightarrow> (bool \<times> cas_state) result" where
  "cas_init k buffer ports_ok s =
     (let (ok, s) = cas_utils_init k s in
      if \<not> ok then Inr (False, s)
      else bindE (read_database k buffer s) (\<lambda>(ok, s).
           if \<not> ok then Inr (False, s)
           else if \<not> ports_ok then Inr (False, s)
           else Inr (True, s)))"

section \<open>The main loop\<close>

text \<open>
  What \<open>cas_main\<close> receives: a request on the service port that the generated server of c_auth.defs
  or else that of auth.defs understands, another message on that port, a notification of a dead name or of a destroyed
  port, another notification, or a message on some other port.
\<close>

datatype message = Request request | As_Request as_request | Not_Understood | Dead_Name u32 | Other_Notification | Stray

text \<open>
  One round of the loop, with the reply to send if there is one. For a notification the code takes
  the address of its pointer to the message for that of the message, so the port it hands to
  \<open>cas_handle_port_death\<close> is what the stack holds behind the pointer: the argument \<open>stack_port\<close>.
\<close>

fun cas_main :: "kernel \<Rightarrow> u32 \<Rightarrow> u32 \<Rightarrow> message \<Rightarrow> cas_state \<Rightarrow> (reply option \<times> cas_state) result" where
  "cas_main k junk stack_port (Request q) s = bindE (cas_serve k junk q s) (\<lambda>(r, s). Inr (Some r, s))"
| "cas_main k junk stack_port (As_Request q) s = bindE (clas_serve k junk q s) (\<lambda>(r, s). Inr (Some r, s))"
| "cas_main k junk stack_port Not_Understood s = Inr (None, s)"
| "cas_main k junk stack_port (Dead_Name not_port) s =
     bindE (cas_handle_port_death k junk stack_port s) (\<lambda>s. Inr (None, s))"
| "cas_main k junk stack_port Other_Notification s = Inr (None, s)"
| "cas_main k junk stack_port Stray s = Inr (None, s)"

section \<open>The service and the central requests\<close>

text \<open>
  The central request behind a request of the service, where \<open>p\<close> is the new port of a request that
  hands one out, and the reply of the service for the reply to it.
\<close>

fun central :: "as_request \<Rightarrow> u32 \<Rightarrow> request" where
  "central (As_Login name pw) p = Login name pw p"
| "central (As_Login_Priv port uid) p = Login_Priv port uid p"
| "central (As_Login_Create port ids) p = Login_Create port ids p"
| "central (As_Logout port) p = Logout port"
| "central (As_Create_Token port ids) p = Register_Token port ids p False"
| "central (As_Create_Token_Group port ids) p = Register_Token port ids p True"
| "central (As_Delete_Token port token) p = Delete_Token port token"
| "central (As_Verify_Token_Ids token) p = Verify_Token_Ids token"
| "central (As_Verify_Token_Names token) p = Verify_Token_Names token"
| "central (As_Create_Group port name gtype full pw owner gid) p = Create_Group port name gtype full pw owner gid"
| "central (As_Delete_Group port name) p = Delete_Group port name"
| "central (As_Change_Owner port name owner) p = Change_Owner port name owner"
| "central (As_Change_Password port name old_pw new_pw) p = Change_Password port name old_pw new_pw"
| "central (As_Add_To_Group port name add) p = Add_To_Group port name add"
| "central (As_Remove_From_Group port name rem) p = Remove_From_Group port name rem"
| "central (As_Translate_Group_Id gid) p = Translate_Group_Id gid"
| "central (As_Translate_Group_Name name) p = Translate_Group_Name name"
| "central (As_List_Members name closure) p = List_Members name closure"
| "central (As_List_Memberships name closure) p = List_Memberships name closure"
| "central As_List_All_Groups p = List_All_Groups"

fun logs_in :: "as_request \<Rightarrow> bool" where
  "logs_in (As_Login name pw) = True"
| "logs_in (As_Login_Priv port uid) = True"
| "logs_in (As_Login_Create port ids) = True"
| "logs_in _ = False"

fun new_token :: "as_request \<Rightarrow> bool" where
  "new_token (As_Create_Token port ids) = True"
| "new_token (As_Create_Token_Group port ids) = True"
| "new_token _ = False"

fun code :: "reply \<Rightarrow> as_return" where
  "code (Return ret) = ret"
| "code (Token_Ids ret uid ids) = ret"
| "code (Token_Names ret user names) = ret"
| "code (New_Group ret gid) = ret"
| "code (Id_Info ret owner name gtype full) = ret"
| "code (Name_Info ret owner gid gtype full) = ret"
| "code (Group_Ids ret ids) = ret"
| "code (New_Port ret port) = ret"

definition as_reply :: "as_request \<Rightarrow> u32 \<Rightarrow> reply \<Rightarrow> reply" where
  "as_reply q p r =
     (if logs_in q then New_Port (code r) (if code r = AS_SUCCESS then p else MACH_PORT_NULL)
      else if new_token q then New_Port (code r) p else r)"

definition forward :: "kernel \<Rightarrow> u32 \<Rightarrow> as_request \<Rightarrow> u32 \<Rightarrow> cas_state \<Rightarrow> (reply \<times> cas_state) result" where
  "forward k junk q p s = bindE (cas_serve k junk (central q p) s) (\<lambda>(r, s). Inr (as_reply q p r, s))"

text \<open>
  Every request of auth.defs is served as the central request with the same arguments, and those that hand out a
  port with one allocated for it.
\<close>

lemma clas_serve_forward:
  "clas_serve k junk q s =
    (if logs_in q \<or> new_token q
     then case port_allocate_name k (calls s) of
         None \<Rightarrow> Inr (New_Port AS_FAILURE MACH_PORT_NULL, s\<lparr>calls := Suc (calls s)\<rparr>)
       | Some p \<Rightarrow> forward k junk q p (s\<lparr>calls := Suc (calls s)\<rparr>)
     else forward k junk q MACH_PORT_NULL s)"
  by (cases q) (simp_all add: clas_forward_defs clas_port_defs forward_def as_reply_def return_of_def port_of_def
      mach_port_allocate_def bindE_bindE split_def split: option.split)

end
