(* ===== verification/Las_Procs.thy ===== *)
theory Las_Procs
  imports Cas_Server Port_Table
begin

text \<open>
  The local authentication server, server/as/las_procs.c and server/as/las_main.c: it offers the
  same service as the central server to the tasks of one machine, keeps its own private ports
  with the central port behind each, caches what tokens verify to, and sends everything else on.

  The central server is reached by calls of code that is generated from c_auth.defs: the argument
  \<open>rpc\<close> is that code and all it talks to. It takes the port of the server, the request and the
  state of the world beyond (of any type), and gives a code of the message layer (\<open>Inl\<close>, never
  success) or the reply of the server. The memory the lists and caches occupy is not modelled:
  a list with its count is a list.
\<close>

section \<open>State\<close>

definition LAS_PORT_MAP_MAX :: nat where "LAS_PORT_MAP_MAX = 256"

definition RCV_TIMED_OUT :: u32 where "RCV_TIMED_OUT = - 203"

definition MIG_REPLY_MISMATCH :: u32 where "MIG_REPLY_MISMATCH = - 301"

definition MIG_BAD_ID :: u32 where "MIG_BAD_ID = - 303"

record las_priv_entry =
  l_mapped_port :: u32
  l_central_pport :: u32

record las_reg_entry =
  c_mapped_port :: u32
  c_local_pport :: u32
  c_user_id :: u32
  c_group_ids :: "u32 list"
  c_user_name :: cstring
  c_group_names :: "cstring list"

record 'w las_state =
  las_priv_port_map :: "nat \<Rightarrow> las_priv_entry"
  las_reg_port_map :: "nat \<Rightarrow> las_reg_entry"
  cas_port :: u32
  las_service_port :: u32
  las_calls :: nat
  las_lookups :: nat
  net :: 'w

type_synonym 'w rpc = "u32 \<Rightarrow> request \<Rightarrow> 'w \<Rightarrow> (u32 + reply) \<times> 'w"

abbreviation las_priv_ports :: "'w las_state \<Rightarrow> nat \<Rightarrow> u32" where
  "las_priv_ports s \<equiv> \<lambda>i. l_mapped_port (las_priv_port_map s i)"

abbreviation las_reg_ports :: "'w las_state \<Rightarrow> nat \<Rightarrow> u32" where
  "las_reg_ports s \<equiv> \<lambda>i. c_mapped_port (las_reg_port_map s i)"

section \<open>The port maps\<close>

definition las_home :: "u32 \<Rightarrow> nat" where
  "las_home port = unat (((drop_bit 8 port AND 0xff) XOR (port AND 0xff)) AND of_nat (LAS_PORT_MAP_MAX - 1))"

primrec las_probe_port :: "nat \<Rightarrow> (nat \<Rightarrow> u32) \<Rightarrow> u32 \<Rightarrow> nat \<Rightarrow> nat result" where
  "las_probe_port 0 mapped_port port index = Inl Diverges"
| "las_probe_port (Suc n) mapped_port port index =
     (if mapped_port index \<noteq> port \<and> mapped_port index \<noteq> MACH_PORT_NULL
      then las_probe_port n mapped_port port (Suc index mod LAS_PORT_MAP_MAX)
      else Inr index)"

definition LAS_HASH_PORT :: "u32 \<Rightarrow> (nat \<Rightarrow> u32) \<Rightarrow> nat result" where
  "LAS_HASH_PORT port mapped_port = las_probe_port LAS_PORT_MAP_MAX mapped_port port (las_home port)"

section \<open>Kernel and central server\<close>

definition port_allocate :: "kernel \<Rightarrow> 'w las_state \<Rightarrow> u32 option \<times> 'w las_state" where
  "port_allocate k s = (port_allocate_name k (las_calls s), s\<lparr>las_calls := Suc (las_calls s)\<rparr>)"

definition port_deallocate :: "kernel \<Rightarrow> 'w las_state \<Rightarrow> u32 \<times> 'w las_state" where
  "port_deallocate k s = (port_deallocate_kr k (las_calls s), s\<lparr>las_calls := Suc (las_calls s)\<rparr>)"

text \<open>The reply that belongs to a request; the generated code refuses any other.\<close>

fun fits :: "request \<Rightarrow> reply \<Rightarrow> bool" where
  "fits (Verify_Token_Ids token) r = (case r of Token_Ids ret uid ids \<Rightarrow> True | _ \<Rightarrow> False)"
| "fits (Verify_Token_Names token) r = (case r of Token_Names ret user names \<Rightarrow> True | _ \<Rightarrow> False)"
| "fits (Create_Group port name gtype full pw owner gid) r = (case r of New_Group ret gid \<Rightarrow> True | _ \<Rightarrow> False)"
| "fits (Translate_Group_Id gid) r = (case r of Id_Info ret owner name gtype full \<Rightarrow> True | _ \<Rightarrow> False)"
| "fits (Translate_Group_Name name) r = (case r of Name_Info ret owner gid gtype full \<Rightarrow> True | _ \<Rightarrow> False)"
| "fits (List_Members name closure) r = (case r of Group_Ids ret ids \<Rightarrow> True | _ \<Rightarrow> False)"
| "fits (List_Memberships name closure) r = (case r of Group_Ids ret ids \<Rightarrow> True | _ \<Rightarrow> False)"
| "fits List_All_Groups r = (case r of Group_Ids ret ids \<Rightarrow> True | _ \<Rightarrow> False)"
| "fits q r = (case r of Return ret \<Rightarrow> True | _ \<Rightarrow> False)"

text \<open>
  A call of the central server: \<open>Inl\<close> a code other than success, with which the out parameters
  are left alone, or \<open>Inr\<close> the reply with the values for them.
\<close>

definition stub :: "request \<Rightarrow> u32 + reply \<Rightarrow> as_return + reply" where
  "stub q answer = (case answer of Inl kr \<Rightarrow> Inl (AS_KERN kr) | Inr r \<Rightarrow>
     if \<not> fits q r then Inl (AS_KERN MIG_REPLY_MISMATCH)
     else if code r \<noteq> AS_SUCCESS then Inl (code r) else Inr r)"

definition call :: "'w rpc \<Rightarrow> request \<Rightarrow> 'w las_state \<Rightarrow> (as_return + reply) \<times> 'w las_state" where
  "call rpc q s = (let (answer, w) = rpc (cas_port s) q (net s) in (stub q answer, s\<lparr>net := w\<rparr>))"

definition timed_out :: "as_return \<Rightarrow> as_return" where
  "timed_out kr = (if kr = AS_KERN RCV_TIMED_OUT then AS_TIMEOUT else kr)"

section \<open>Logging in and out\<close>

text \<open>The end of the three login calls: a local private port with the central one behind it.\<close>

definition map_local :: "kernel \<Rightarrow> u32 \<Rightarrow> 'w las_state \<Rightarrow> (as_return \<times> u32 \<times> 'w las_state) result" where
  "map_local k central_priv_port s =
     (case port_allocate k s of
        (None, s) \<Rightarrow> Inr (AS_FAILURE, MACH_PORT_NULL, s)
      | (Some local_priv_port, s) \<Rightarrow>
          bindE (LAS_HASH_PORT local_priv_port (las_priv_ports s)) (\<lambda>port_index.
          Inr (AS_SUCCESS, local_priv_port, s\<lparr>las_priv_port_map := (las_priv_port_map s)
            (port_index := \<lparr>l_mapped_port = local_priv_port, l_central_pport = central_priv_port\<rparr>)\<rparr>)))"

definition as_login ::
    "kernel \<Rightarrow> 'w rpc \<Rightarrow> cstring \<Rightarrow> u8 list \<Rightarrow> 'w las_state \<Rightarrow> (as_return \<times> u32 \<times> 'w las_state) result" where
  "as_login k rpc user_name pw s =
     (case port_allocate k s of
        (None, s) \<Rightarrow> Inr (AS_FAILURE, MACH_PORT_NULL, s)
      | (Some central_priv_port, s) \<Rightarrow>
          (case call rpc (Login user_name pw central_priv_port) s of
             (Inl kr, s) \<Rightarrow> Inr (timed_out kr, MACH_PORT_NULL, s)
           | (Inr r, s) \<Rightarrow> map_local k central_priv_port s))"

text \<open>The next two pass the private port of the caller on as it is: it is not mapped to the central one.\<close>

definition as_login_priv ::
    "kernel \<Rightarrow> 'w rpc \<Rightarrow> u32 \<Rightarrow> u32 \<Rightarrow> 'w las_state \<Rightarrow> (as_return \<times> u32 \<times> 'w las_state) result" where
  "as_login_priv k rpc private_port user_id s =
     (case port_allocate k s of
        (None, s) \<Rightarrow> Inr (AS_FAILURE, MACH_PORT_NULL, s)
      | (Some central_priv_port, s) \<Rightarrow>
          (case call rpc (Login_Priv private_port user_id central_priv_port) s of
             (Inl kr, s) \<Rightarrow> Inr (timed_out kr, MACH_PORT_NULL, s)
           | (Inr r, s) \<Rightarrow> map_local k central_priv_port s))"

definition as_login_create ::
    "kernel \<Rightarrow> 'w rpc \<Rightarrow> u32 \<Rightarrow> u32 list \<Rightarrow> 'w las_state \<Rightarrow> (as_return \<times> u32 \<times> 'w las_state) result" where
  "as_login_create k rpc private_port ids s =
     (case port_allocate k s of
        (None, s) \<Rightarrow> Inr (AS_FAILURE, MACH_PORT_NULL, s)
      | (Some central_priv_port, s) \<Rightarrow>
          (case call rpc (Login_Create private_port ids central_priv_port) s of
             (Inl kr, s) \<Rightarrow> Inr (timed_out kr, MACH_PORT_NULL, s)
           | (Inr r, s) \<Rightarrow> map_local k central_priv_port s))"

text \<open>Emptying a slot of the cache: the ids of the user and its name stay behind.\<close>

definition clear_cache :: "nat \<Rightarrow> 'w las_state \<Rightarrow> 'w las_state" where
  "clear_cache i s = s\<lparr>las_reg_port_map := (las_reg_port_map s)(i := (las_reg_port_map s i)
     \<lparr>c_mapped_port := MACH_PORT_NULL, c_local_pport := MACH_PORT_NULL, c_group_ids := [], c_group_names := []\<rparr>)\<rparr>"

definition logout_cached :: "u32 \<Rightarrow> nat \<Rightarrow> 'w las_state \<Rightarrow> 'w las_state" where
  "logout_cached private_port i s =
     (if c_local_pport (las_reg_port_map s i) = private_port then clear_cache i s else s)"

definition as_logout :: "kernel \<Rightarrow> 'w rpc \<Rightarrow> u32 \<Rightarrow> 'w las_state \<Rightarrow> (as_return \<times> 'w las_state) result" where
  "as_logout k rpc private_port s =
     (if private_port = MACH_PORT_NULL then Inr (AS_BAD_PRIVATE_PORT, s)
      else bindE (LAS_HASH_PORT private_port (las_priv_ports s)) (\<lambda>port_index.
      let central_priv_port = l_central_pport (las_priv_port_map s port_index) in
      if central_priv_port = MACH_PORT_NULL then Inr (AS_BAD_PRIVATE_PORT, s)
      else (let s = s\<lparr>las_priv_port_map := (las_priv_port_map s)
                 (port_index := \<lparr>l_mapped_port = MACH_PORT_NULL, l_central_pport = MACH_PORT_NULL\<rparr>)\<rparr> in
      case call rpc (Logout central_priv_port) s of
        (Inl kr, s) \<Rightarrow> Inr (timed_out kr, s)
      | (Inr r, s) \<Rightarrow>
          (let (kr, s) = port_deallocate k s in
           if kr \<noteq> 0 then Inr (AS_FAILURE, s)
           else Inr (AS_SUCCESS, fold (logout_cached private_port) [0..<LAS_PORT_MAP_MAX] s)))))"

section \<open>Tokens\<close>

text \<open>The check of the private port that begins the other handlers: the central port behind it, if any.\<close>

definition central_port :: "u32 \<Rightarrow> 'w las_state \<Rightarrow> u32 option result" where
  "central_port private_port s =
     (if private_port = MACH_PORT_NULL then Inr None
      else bindE (LAS_HASH_PORT private_port (las_priv_ports s)) (\<lambda>port_index.
      Inr (if l_mapped_port (las_priv_port_map s port_index) = MACH_PORT_NULL then None
           else Some (l_central_pport (las_priv_port_map s port_index)))))"

definition as_create_token ::
    "kernel \<Rightarrow> 'w rpc \<Rightarrow> u32 \<Rightarrow> u32 list \<Rightarrow> 'w las_state \<Rightarrow> (as_return \<times> u32 \<times> 'w las_state) result" where
  "as_create_token k rpc private_port group_ids s =
     bindE (central_port private_port s) (\<lambda>c.
     case c of None \<Rightarrow> Inr (AS_BAD_PRIVATE_PORT, MACH_PORT_NULL, s)
     | Some central_pport \<Rightarrow>
         (case port_allocate k s of
            (None, s) \<Rightarrow> Inr (AS_FAILURE, MACH_PORT_NULL, s)
          | (Some token, s) \<Rightarrow>
              (case call rpc (Register_Token central_pport group_ids token False) s of
                 (Inl kr, s) \<Rightarrow> Inr (timed_out kr, MACH_PORT_NULL, s)
               | (Inr r, s) \<Rightarrow> Inr (AS_SUCCESS, token, s))))"

definition as_create_token_group ::
    "kernel \<Rightarrow> 'w rpc \<Rightarrow> u32 \<Rightarrow> u32 list \<Rightarrow> 'w las_state \<Rightarrow> (as_return \<times> u32 \<times> 'w las_state) result" where
  "as_create_token_group k rpc private_port group_ids s =
     bindE (central_port private_port s) (\<lambda>c.
     case c of None \<Rightarrow> Inr (AS_BAD_PRIVATE_PORT, MACH_PORT_NULL, s)
     | Some central_pport \<Rightarrow>
         (case port_allocate k s of
            (None, s) \<Rightarrow> Inr (AS_FAILURE, MACH_PORT_NULL, s)
          | (Some token, s) \<Rightarrow>
              (case call rpc (Register_Token central_pport group_ids token True) s of
                 (Inl kr, s) \<Rightarrow> Inr (timed_out kr, MACH_PORT_NULL, s)
               | (Inr r, s) \<Rightarrow> Inr (AS_SUCCESS, token, s))))"

definition as_delete_token :: "kernel \<Rightarrow> 'w rpc \<Rightarrow> u32 \<Rightarrow> u32 \<Rightarrow> 'w las_state \<Rightarrow> (as_return \<times> 'w las_state) result" where
  "as_delete_token k rpc private_port token s =
     (if private_port = MACH_PORT_NULL then Inr (AS_BAD_PRIVATE_PORT, s)
      else bindE (LAS_HASH_PORT private_port (las_priv_ports s)) (\<lambda>pport_index.
      if l_central_pport (las_priv_port_map s pport_index) = MACH_PORT_NULL then Inr (AS_BAD_PRIVATE_PORT, s)
      else bindE (LAS_HASH_PORT token (las_reg_ports s)) (\<lambda>rport_index.
      if c_local_pport (las_reg_port_map s rport_index) \<noteq> private_port then Inr (AS_BAD_PRIVATE_PORT, s)
      else (case call rpc (Delete_Token (l_central_pport (las_priv_port_map s pport_index)) token) (clear_cache rport_index s) of
              (Inl kr, s) \<Rightarrow> Inr (timed_out kr, s)
            | (Inr r, s) \<Rightarrow> Inr (AS_SUCCESS, s)))))"

definition as_verify_token_ids ::
    "'w rpc \<Rightarrow> u32 \<Rightarrow> 'w las_state \<Rightarrow> (as_return \<times> u32 \<times> u32 list \<times> 'w las_state) result" where
  "as_verify_token_ids rpc token s =
     bindE (LAS_HASH_PORT token (las_reg_ports s)) (\<lambda>port_index.
     let e = las_reg_port_map s port_index in
     if c_mapped_port e = token then Inr (AS_SUCCESS, c_user_id e, c_group_ids e, s)
     else (case call rpc (Verify_Token_Ids token) s of
             (Inr (Token_Ids ret user_id group_ids), s) \<Rightarrow>
               Inr (AS_SUCCESS, user_id, group_ids, s\<lparr>las_reg_port_map := (las_reg_port_map s)(port_index :=
                 (las_reg_port_map s port_index)\<lparr>c_mapped_port := token, c_group_ids := group_ids, c_user_id := user_id\<rparr>)\<rparr>)
           | (Inr _, s) \<Rightarrow> Inr (AS_KERN MIG_REPLY_MISMATCH, 0, [], s)
           | (Inl kr, s) \<Rightarrow> Inr (timed_out kr, 0, [], s)))"

definition as_verify_token_names ::
    "'w rpc \<Rightarrow> u32 \<Rightarrow> 'w las_state \<Rightarrow> (as_return \<times> cstring \<times> cstring list \<times> 'w las_state) result" where
  "as_verify_token_names rpc token s =
     bindE (LAS_HASH_PORT token (las_reg_ports s)) (\<lambda>port_index.
     let e = las_reg_port_map s port_index in
     if c_mapped_port e = token then Inr (AS_SUCCESS, c_user_name e, c_group_names e, s)
     else (case call rpc (Verify_Token_Names token) s of
             (Inr (Token_Names ret user_name group_names), s) \<Rightarrow>
               Inr (AS_SUCCESS, user_name, group_names, s\<lparr>las_reg_port_map := (las_reg_port_map s)(port_index :=
                 (las_reg_port_map s port_index)\<lparr>c_mapped_port := token, c_group_names := group_names, c_user_name := user_name\<rparr>)\<rparr>)
           | (Inr _, s) \<Rightarrow> Inr (AS_KERN MIG_REPLY_MISMATCH, [], [], s)
           | (Inl kr, s) \<Rightarrow> Inr (timed_out kr, [], [], s)))"

section \<open>Groups\<close>

text \<open>
  The calls on groups are sent on and their outcome handed back: \<open>Inl\<close> the code of a call that
  failed, with the out parameters left alone, or \<open>Inr\<close> the reply with their values.
\<close>

definition pass_on :: "'w rpc \<Rightarrow> request \<Rightarrow> 'w las_state \<Rightarrow> ((as_return + reply) \<times> 'w las_state) result" where
  "pass_on rpc q s = (case call rpc q s of (Inl kr, s) \<Rightarrow> Inr (Inl (timed_out kr), s) | (Inr r, s) \<Rightarrow> Inr (Inr r, s))"

definition as_create_group ::
    "'w rpc \<Rightarrow> u32 \<Rightarrow> cstring \<Rightarrow> u32 \<Rightarrow> cstring \<Rightarrow> u8 list \<Rightarrow> cstring \<Rightarrow> u32 \<Rightarrow> 'w las_state \<Rightarrow> ((as_return + reply) \<times> 'w las_state) result" where
  "as_create_group rpc private_port name gtype full pw owner_group gid s =
     bindE (central_port private_port s) (\<lambda>c.
     case c of None \<Rightarrow> Inr (Inl AS_BAD_PRIVATE_PORT, s)
     | Some central_pport \<Rightarrow> pass_on rpc (Create_Group central_pport name gtype full pw owner_group gid) s)"

definition as_delete_group ::
    "'w rpc \<Rightarrow> u32 \<Rightarrow> cstring \<Rightarrow> 'w las_state \<Rightarrow> ((as_return + reply) \<times> 'w las_state) result" where
  "as_delete_group rpc private_port name s =
     bindE (central_port private_port s) (\<lambda>c.
     case c of None \<Rightarrow> Inr (Inl AS_BAD_PRIVATE_PORT, s)
     | Some central_pport \<Rightarrow> pass_on rpc (Delete_Group central_pport name) s)"

definition as_change_password ::
    "'w rpc \<Rightarrow> u32 \<Rightarrow> cstring \<Rightarrow> u8 list \<Rightarrow> u8 list \<Rightarrow> 'w las_state \<Rightarrow> ((as_return + reply) \<times> 'w las_state) result" where
  "as_change_password rpc private_port name old_pw new_pw s =
     bindE (central_port private_port s) (\<lambda>c.
     case c of None \<Rightarrow> Inr (Inl AS_BAD_PRIVATE_PORT, s)
     | Some central_pport \<Rightarrow> pass_on rpc (Change_Password central_pport name old_pw new_pw) s)"

definition as_change_owner ::
    "'w rpc \<Rightarrow> u32 \<Rightarrow> cstring \<Rightarrow> cstring \<Rightarrow> 'w las_state \<Rightarrow> ((as_return + reply) \<times> 'w las_state) result" where
  "as_change_owner rpc private_port name new_owner s =
     bindE (central_port private_port s) (\<lambda>c.
     case c of None \<Rightarrow> Inr (Inl AS_BAD_PRIVATE_PORT, s)
     | Some central_pport \<Rightarrow> pass_on rpc (Change_Owner central_pport name new_owner) s)"

definition as_add_to_group ::
    "'w rpc \<Rightarrow> u32 \<Rightarrow> cstring \<Rightarrow> cstring \<Rightarrow> 'w las_state \<Rightarrow> ((as_return + reply) \<times> 'w las_state) result" where
  "as_add_to_group rpc private_port name add_name s =
     bindE (central_port private_port s) (\<lambda>c.
     case c of None \<Rightarrow> Inr (Inl AS_BAD_PRIVATE_PORT, s)
     | Some central_pport \<Rightarrow> pass_on rpc (Add_To_Group central_pport name add_name) s)"

definition as_remove_from_group ::
    "'w rpc \<Rightarrow> u32 \<Rightarrow> cstring \<Rightarrow> cstring \<Rightarrow> 'w las_state \<Rightarrow> ((as_return + reply) \<times> 'w las_state) result" where
  "as_remove_from_group rpc private_port name remove_name s =
     bindE (central_port private_port s) (\<lambda>c.
     case c of None \<Rightarrow> Inr (Inl AS_BAD_PRIVATE_PORT, s)
     | Some central_pport \<Rightarrow> pass_on rpc (Remove_From_Group central_pport name remove_name) s)"

definition as_translate_group_id :: "'w rpc \<Rightarrow> u32 \<Rightarrow> 'w las_state \<Rightarrow> ((as_return + reply) \<times> 'w las_state) result" where
  "as_translate_group_id rpc gid s = pass_on rpc (Translate_Group_Id gid) s"

definition as_translate_group_name :: "'w rpc \<Rightarrow> cstring \<Rightarrow> 'w las_state \<Rightarrow> ((as_return + reply) \<times> 'w las_state) result" where
  "as_translate_group_name rpc name s = pass_on rpc (Translate_Group_Name name) s"

definition as_list_members :: "'w rpc \<Rightarrow> cstring \<Rightarrow> bool \<Rightarrow> 'w las_state \<Rightarrow> ((as_return + reply) \<times> 'w las_state) result" where
  "as_list_members rpc name trans_closure s = pass_on rpc (List_Members name trans_closure) s"

definition as_list_memberships :: "'w rpc \<Rightarrow> cstring \<Rightarrow> bool \<Rightarrow> 'w las_state \<Rightarrow> ((as_return + reply) \<times> 'w las_state) result" where
  "as_list_memberships rpc name trans_closure s = pass_on rpc (List_Memberships name trans_closure) s"

definition as_list_all_groups :: "'w rpc \<Rightarrow> 'w las_state \<Rightarrow> ((as_return + reply) \<times> 'w las_state) result" where
  "as_list_all_groups rpc s = pass_on rpc List_All_Groups s"

lemmas las_group_defs = as_create_group_def as_delete_group_def as_change_password_def as_change_owner_def
  as_add_to_group_def as_remove_from_group_def

lemmas las_query_defs = as_translate_group_id_def as_translate_group_name_def as_list_members_def
  as_list_memberships_def as_list_all_groups_def

section \<open>Dead ports\<close>

definition las_handle_port_death :: "kernel \<Rightarrow> 'w rpc \<Rightarrow> u32 \<Rightarrow> 'w las_state \<Rightarrow> 'w las_state result" where
  "las_handle_port_death k rpc dead_port s =
     bindE (LAS_HASH_PORT dead_port (las_priv_ports s)) (\<lambda>pport_index.
     bindE (LAS_HASH_PORT dead_port (las_reg_ports s)) (\<lambda>rport_index.
     if l_mapped_port (las_priv_port_map s pport_index) = dead_port
     then bindE (as_logout k rpc dead_port s) (\<lambda>(_, s). Inr s)
     else if c_mapped_port (las_reg_port_map s rport_index) = dead_port
     then bindE (as_delete_token k rpc (c_local_pport (las_reg_port_map s rport_index)) dead_port s) (\<lambda>(_, s). Inr s)
     else Inr s))"

end
