(* ===== verification/Las_Server.thy ===== *)
theory Las_Server
  imports Las_Procs Service
begin

text \<open>
  The local authentication server as a whole: its startup and its main loop, server/as/las_main.c,
  in the variant without the secure startup. Requests arrive through code generated from
  auth.defs, which sends back only the code of a request that failed.
\<close>

section \<open>Requests\<close>

definition las_return :: "(as_return \<times> 'w las_state) result \<Rightarrow> (reply \<times> 'w las_state) result" where
  "las_return m = bindE m (\<lambda>(ret, s). Inr (Return ret, s))"

definition las_port :: "(as_return \<times> u32 \<times> 'w las_state) result \<Rightarrow> (reply \<times> 'w las_state) result" where
  "las_port m = bindE m (\<lambda>(ret, port, s). Inr (if ret = AS_SUCCESS then New_Port ret port else Return ret, s))"

definition las_answer :: "((as_return + reply) \<times> 'w las_state) result \<Rightarrow> (reply \<times> 'w las_state) result" where
  "las_answer m = bindE m (\<lambda>(a, s). Inr (case a of Inl ret \<Rightarrow> Return ret | Inr r \<Rightarrow> r, s))"

fun las_serve :: "kernel \<Rightarrow> 'w rpc \<Rightarrow> as_request \<Rightarrow> 'w las_state \<Rightarrow> (reply \<times> 'w las_state) result" where
  "las_serve k rpc (As_Login name pw) s = las_port (as_login k rpc name pw s)"
| "las_serve k rpc (As_Login_Priv port uid) s = las_port (as_login_priv k rpc port uid s)"
| "las_serve k rpc (As_Login_Create port ids) s = las_port (as_login_create k rpc port ids s)"
| "las_serve k rpc (As_Logout port) s = las_return (as_logout k rpc port s)"
| "las_serve k rpc (As_Create_Token port ids) s = las_port (as_create_token k rpc port ids s)"
| "las_serve k rpc (As_Create_Token_Group port ids) s = las_port (as_create_token_group k rpc port ids s)"
| "las_serve k rpc (As_Delete_Token port token) s = las_return (as_delete_token k rpc port token s)"
| "las_serve k rpc (As_Verify_Token_Ids token) s =
     bindE (as_verify_token_ids rpc token s) (\<lambda>(ret, uid, ids, s).
     Inr (if ret = AS_SUCCESS then Token_Ids ret uid ids else Return ret, s))"
| "las_serve k rpc (As_Verify_Token_Names token) s =
     bindE (as_verify_token_names rpc token s) (\<lambda>(ret, user, names, s).
     Inr (if ret = AS_SUCCESS then Token_Names ret user names else Return ret, s))"
| "las_serve k rpc (As_Create_Group port name gtype full pw owner gid) s =
     las_answer (as_create_group rpc port name gtype full pw owner gid s)"
| "las_serve k rpc (As_Delete_Group port name) s = las_answer (as_delete_group rpc port name s)"
| "las_serve k rpc (As_Change_Owner port name owner) s = las_answer (as_change_owner rpc port name owner s)"
| "las_serve k rpc (As_Change_Password port name old_pw new_pw) s =
     las_answer (as_change_password rpc port name old_pw new_pw s)"
| "las_serve k rpc (As_Add_To_Group port name add) s = las_answer (as_add_to_group rpc port name add s)"
| "las_serve k rpc (As_Remove_From_Group port name rem) s = las_answer (as_remove_from_group rpc port name rem s)"
| "las_serve k rpc (As_Translate_Group_Id gid) s = las_answer (as_translate_group_id rpc gid s)"
| "las_serve k rpc (As_Translate_Group_Name name) s = las_answer (as_translate_group_name rpc name s)"
| "las_serve k rpc (As_List_Members name closure) s = las_answer (as_list_members rpc name closure s)"
| "las_serve k rpc (As_List_Memberships name closure) s = las_answer (as_list_memberships rpc name closure s)"
| "las_serve k rpc As_List_All_Groups s = las_answer (as_list_all_groups rpc s)"

section \<open>Finding the central server\<close>

text \<open>
  The name server is asked for the central server until it knows it: \<open>look_up\<close> gives its answer to
  the n-th question. The loop may run for ever.
\<close>

record name_server =
  check_in_ok :: bool
  look_up :: "nat \<Rightarrow> u32 option"

partial_function (option) find_cas :: "(nat \<Rightarrow> u32 option) \<Rightarrow> nat \<Rightarrow> (u32 \<times> nat) option" where
  "find_cas answers n = (case answers n of Some port \<Rightarrow> Some (port, Suc n) | None \<Rightarrow> find_cas answers (Suc n))"

definition look_up_cas :: "name_server \<Rightarrow> 'w las_state \<Rightarrow> 'w las_state result" where
  "look_up_cas ns s = (case find_cas (look_up ns) (las_lookups s) of
     None \<Rightarrow> Inl Diverges | Some (port, n) \<Rightarrow> Inr (s\<lparr>cas_port := port, las_lookups := n\<rparr>))"

definition las_init :: "kernel \<Rightarrow> name_server \<Rightarrow> 'w las_state \<Rightarrow> (bool \<times> 'w las_state) result" where
  "las_init k ns s =
     (case port_allocate k s of
        (None, s) \<Rightarrow> Inr (False, s)
      | (Some port, s) \<Rightarrow>
          (let s = s\<lparr>las_service_port := port\<rparr> in
           if \<not> check_in_ok ns then Inr (False, s)
           else bindE (look_up_cas ns s) (\<lambda>s. Inr (True, s))))"

text \<open>The variables of the program before it runs; the rest of the world is given.\<close>

definition no_session :: las_priv_entry where
  "no_session = \<lparr>l_mapped_port = MACH_PORT_NULL, l_central_pport = MACH_PORT_NULL\<rparr>"

definition no_token :: las_reg_entry where
  "no_token = \<lparr>c_mapped_port = MACH_PORT_NULL, c_local_pport = MACH_PORT_NULL, c_user_id = 0, c_group_ids = [],
     c_user_name = [], c_group_names = []\<rparr>"

definition las_start :: "'w \<Rightarrow> 'w las_state" where
  "las_start w = \<lparr>las_priv_port_map = (\<lambda>_. no_session), las_reg_port_map = (\<lambda>_. no_token),
     cas_port = MACH_PORT_NULL, las_service_port = MACH_PORT_NULL, las_calls = 0, las_lookups = 0, net = w\<rparr>"

section \<open>The main loop\<close>

text \<open>
  What \<open>las_main\<close> receives: a request on the service port, another message there (which is
  answered with an error of the message layer), a notification that a port was deleted, another
  notification, a message on some other port, or an error.
\<close>

datatype las_message =
    Service_Request as_request | Bad_Request | Port_Deleted u32 | Unexpected_Notification | Unexpected_Port | Receive_Error

fun las_main :: "kernel \<Rightarrow> 'w rpc \<Rightarrow> name_server \<Rightarrow> las_message \<Rightarrow> 'w las_state \<Rightarrow> (reply option \<times> 'w las_state) result" where
  "las_main k rpc ns (Service_Request q) s = bindE (las_serve k rpc q s) (\<lambda>(r, s). Inr (Some r, s))"
| "las_main k rpc ns Bad_Request s = Inr (Some (Return (AS_KERN MIG_BAD_ID)), s)"
| "las_main k rpc ns (Port_Deleted notify_port) s =
     (if notify_port = cas_port s then bindE (look_up_cas ns s) (\<lambda>s. Inr (None, s))
      else bindE (las_handle_port_death k rpc notify_port s) (\<lambda>s. Inr (None, s)))"
| "las_main k rpc ns Unexpected_Notification s = Inr (None, s)"
| "las_main k rpc ns Unexpected_Port s = Inr (None, s)"
| "las_main k rpc ns Receive_Error s = Inr (None, s)"

end
