(* ===== verification/Las_Behaviour.thy ===== *)
theory Las_Behaviour
  imports Las_Server
begin

text \<open>
  What the local authentication server does on its own, whatever the central server answers: its
  searches of the two port maps, its search for the central server, and its cache of verified
  tokens, which is never emptied.
\<close>

section \<open>Searching\<close>

lemma las_home_lt: "las_home port < LAS_PORT_MAP_MAX"
proof -
  let ?x = "(drop_bit 8 port AND 0xff) XOR (port AND 0xff)"
  have "?x AND of_nat (LAS_PORT_MAP_MAX - 1) \<le> of_nat (LAS_PORT_MAP_MAX - 1)" by (rule word_and_le1)
  then have "unat (?x AND of_nat (LAS_PORT_MAP_MAX - 1)) \<le> unat (of_nat (LAS_PORT_MAP_MAX - 1) :: u32)"
    by (simp add: word_le_nat_alt)
  then show ?thesis by (simp add: las_home_def LAS_PORT_MAP_MAX_def)
qed

interpretation las_map: port_table LAS_PORT_MAP_MAX las_home las_probe_port LAS_HASH_PORT
  by unfold_locales (simp_all add: las_home_lt LAS_HASH_PORT_def, simp add: LAS_PORT_MAP_MAX_def)

lemma find_cas_step: "answers n = None \<Longrightarrow> find_cas answers n = find_cas answers (Suc n)"
  by (subst find_cas.simps) simp

lemma find_cas_skip: "n \<le> m \<Longrightarrow> \<forall>i. n \<le> i \<and> i < m \<longrightarrow> answers i = None \<Longrightarrow> find_cas answers n = find_cas answers m"
proof (induction m rule: dec_induct)
  case (step m)
  then show ?case using find_cas_step [of answers m] by simp
qed simp

lemma find_cas_found:
  assumes "find_cas answers n = Some (port, m)"
  shows "\<exists>j \<ge> n. answers j \<noteq> None"
proof (rule find_cas.raw_induct [where P = "\<lambda>answers n r. \<exists>j \<ge> n. answers j \<noteq> None", OF _ assms])
  fix find :: "(nat \<Rightarrow> u32 option) \<Rightarrow> nat \<Rightarrow> (u32 \<times> nat) option" and answers n r
  assume IH: "\<And>answers n r. find answers n = Some r \<Longrightarrow> \<exists>j \<ge> n. answers j \<noteq> None"
    and "(case answers n of None \<Rightarrow> find answers (Suc n) | Some port \<Rightarrow> Some (port, Suc n)) = Some r"
  then show "\<exists>j \<ge> n. answers j \<noteq> None" by (cases "answers n") (auto dest!: IH dest: Suc_leD)
qed

lemma find_cas_eq:
  "find_cas answers n =
    (if \<exists>j \<ge> n. answers j \<noteq> None
     then let j = (LEAST j. n \<le> j \<and> answers j \<noteq> None) in Some (the (answers j), Suc j) else None)"
proof (cases "\<exists>j \<ge> n. answers j \<noteq> None")
  case True
  let ?j = "LEAST j. n \<le> j \<and> answers j \<noteq> None"
  have j: "n \<le> ?j" "answers ?j \<noteq> None" using LeastI_ex [of "\<lambda>j. n \<le> j \<and> answers j \<noteq> None"] True by auto
  have "find_cas answers n = find_cas answers ?j"
    by (rule find_cas_skip [OF j(1)]) (auto dest: not_less_Least)
  also have "\<dots> = Some (the (answers ?j), Suc ?j)" using j(2) by (subst find_cas.simps) auto
  finally show ?thesis using True by (simp add: Let_def)
next
  case False
  then show ?thesis using find_cas_found [of answers n] by (cases "find_cas answers n") auto
qed

lemma las_init_eq:
  "las_init k ns (las_start w) =
    (case port_allocate_name k 0 of
       None \<Rightarrow> Inr (False, (las_start w)\<lparr>las_calls := 1\<rparr>)
     | Some port \<Rightarrow>
         let s = (las_start w)\<lparr>las_calls := 1, las_service_port := port\<rparr> in
         if \<not> check_in_ok ns then Inr (False, s)
         else if \<exists>j. look_up ns j \<noteq> None
         then let j = (LEAST j. look_up ns j \<noteq> None) in Inr (True, s\<lparr>cas_port := the (look_up ns j), las_lookups := Suc j\<rparr>)
         else Inl Diverges)"
  by (auto simp: las_init_def port_allocate_def look_up_cas_def find_cas_eq las_start_def Let_def split: option.split)

lemma first_answer:
  assumes "look_up ns i \<noteq> None"
  obtains j port where "(LEAST j. look_up ns j \<noteq> None) = j" "look_up ns j = Some port" "\<forall>i < j. look_up ns i = None"
proof -
  have "look_up ns (LEAST j. look_up ns j \<noteq> None) \<noteq> None" by (rule LeastI [of "\<lambda>j. look_up ns j \<noteq> None", OF assms])
  then show thesis using not_less_Least [of _ "\<lambda>j. look_up ns j \<noteq> None"] that by blast
qed

text \<open>
  C40. When the local server starts. \<open>las_init\<close> returns exactly when it has no port for its service, or cannot check in
  its name, or the name server at some time knows the central server; otherwise it asks for ever. It succeeds exactly
  when it has the port, has checked in and some question is answered, and then the server has asked until the first
  answer and uses the port of that one.
\<close>

theorem las_init_starts:
  "((\<exists>r. las_init k ns (las_start w) = Inr r) \<longleftrightarrow>
      port_allocate_name k 0 = None \<or> \<not> check_in_ok ns \<or> (\<exists>j. look_up ns j \<noteq> None)) \<and>
   ((\<exists>s. las_init k ns (las_start w) = Inr (True, s)) \<longleftrightarrow>
      port_allocate_name k 0 \<noteq> None \<and> check_in_ok ns \<and> (\<exists>j. look_up ns j \<noteq> None)) \<and>
   (\<forall>s. las_init k ns (las_start w) = Inr (True, s) \<longrightarrow>
      port_allocate_name k 0 = Some (las_service_port s) \<and>
      (\<exists>j. look_up ns j = Some (cas_port s) \<and> las_lookups s = Suc j \<and> (\<forall>i < j. look_up ns i = None)))"
proof (cases "port_allocate_name k 0 \<noteq> None \<and> check_in_ok ns \<and> (\<exists>j. look_up ns j \<noteq> None)")
  case True
  then obtain port i where k: "port_allocate_name k 0 = Some port" "check_in_ok ns" and i: "look_up ns i \<noteq> None" by blast
  obtain j cas where j: "(LEAST j. look_up ns j \<noteq> None) = j" "look_up ns j = Some cas" "\<forall>i < j. look_up ns i = None"
    using first_answer [OF i] by blast
  have "las_init k ns (las_start w) = Inr (True, (las_start w)\<lparr>las_calls := 1, las_service_port := port, cas_port := cas, las_lookups := Suc j\<rparr>)"
    unfolding las_init_eq j(1) using k j(2) True by (simp add: Let_def)
  then show ?thesis using True k(1) j(2,3) by auto
next
  case False
  then show ?thesis by (auto simp: las_init_eq Let_def split: option.splits if_splits)
qed

theorem las_init_starts_witness:
  "\<exists>s. las_init ready_kernel \<lparr>check_in_ok = True, look_up = (\<lambda>n. if n < 2 then None else Some 99)\<rparr> (las_start ()) = Inr (True, s) \<and>
     las_service_port s = 0x1000 \<and> cas_port s = 99 \<and> las_lookups s = 3"
proof -
  let ?ns = "\<lparr>check_in_ok = True, look_up = (\<lambda>n. if n < 2 then None else Some 99)\<rparr>"
  note start = las_init_starts [of ready_kernel ?ns "()"]
  have "port_allocate_name ready_kernel 0 = Some 0x1000" by (simp add: ready_kernel_def)
  moreover have "look_up ?ns 2 \<noteq> None" by simp
  ultimately obtain s where s: "las_init ready_kernel ?ns (las_start ()) = Inr (True, s)" using start by (metis name_server.simps(1) option.distinct(1))
  then obtain j where j: "look_up ?ns j = Some (cas_port s)" "las_lookups s = Suc j" "\<forall>i < j. look_up ?ns i = None"
      "port_allocate_name ready_kernel 0 = Some (las_service_port s)"
    using start by blast
  have "\<not> j < 2" using j(1) by auto
  moreover have "\<not> 2 < j" using j(3) by auto
  ultimately have "j = 2" by simp
  then show ?thesis using s j by (auto simp: ready_kernel_def)
qed

section \<open>The cache of tokens\<close>

text \<open>
  No entry of the cache has an owner, since the code that would set one is commented out, and a
  free slot has never been used.
\<close>

definition las_inv :: "'w las_state \<Rightarrow> bool" where
  "las_inv s \<longleftrightarrow> (\<forall>i. c_local_pport (las_reg_port_map s i) = MACH_PORT_NULL \<and>
     (las_reg_ports s i = MACH_PORT_NULL \<longrightarrow> las_reg_port_map s i = no_token))"

definition cache_grows :: "'w las_state \<Rightarrow> 'w las_state \<Rightarrow> bool" where
  "cache_grows s s' \<longleftrightarrow> (\<forall>i. las_reg_ports s i \<noteq> MACH_PORT_NULL \<longrightarrow> las_reg_port_map s' i = las_reg_port_map s i)"

lemma cache_grows_trans: "cache_grows s t \<Longrightarrow> cache_grows t u \<Longrightarrow> cache_grows s u"
  by (simp add: cache_grows_def)

named_theorems same_cache \<open>operations that leave the cache of tokens alone\<close>

lemma call_cache [same_cache]: "call rpc q s = (a, s') \<Longrightarrow> las_reg_port_map s' = las_reg_port_map s"
  by (auto simp: call_def Let_def split_def)

lemma port_allocate_cache [same_cache]: "port_allocate k s = (p, s') \<Longrightarrow> las_reg_port_map s' = las_reg_port_map s"
  by (auto simp: port_allocate_def)

lemma map_local_cache [same_cache]: "map_local k cp s = Inr (ret, port, s') \<Longrightarrow> las_reg_port_map s' = las_reg_port_map s"
  by (auto simp: map_local_def port_allocate_def elim!: bindE_InrE split: option.split_asm)

lemma pass_on_cache [same_cache]: "pass_on rpc q s = Inr (a, s') \<Longrightarrow> las_reg_port_map s' = las_reg_port_map s"
  by (auto simp: pass_on_def split: sum.split_asm prod.split_asm dest!: call_cache)

lemma login_cache [same_cache]:
  "as_login k rpc name pw s = Inr (ret, port, s') \<Longrightarrow> las_reg_port_map s' = las_reg_port_map s"
  "as_login_priv k rpc c uid s = Inr (ret, port, s') \<Longrightarrow> las_reg_port_map s' = las_reg_port_map s"
  "as_login_create k rpc c ids s = Inr (ret, port, s') \<Longrightarrow> las_reg_port_map s' = las_reg_port_map s"
  by (auto simp: as_login_def as_login_priv_def as_login_create_def split: option.split_asm prod.split_asm sum.split_asm
      dest!: same_cache)

lemma token_cache [same_cache]:
  "as_create_token k rpc c ids s = Inr (ret, port, s') \<Longrightarrow> las_reg_port_map s' = las_reg_port_map s"
  "as_create_token_group k rpc c ids s = Inr (ret, port, s') \<Longrightarrow> las_reg_port_map s' = las_reg_port_map s"
  by (auto simp: as_create_token_def as_create_token_group_def elim!: bindE_InrE
      split: option.split_asm prod.split_asm sum.split_asm dest!: same_cache)

lemma group_cache [same_cache]:
  "as_create_group rpc c name gtype full pw owner gid s = Inr (a, s') \<Longrightarrow> las_reg_port_map s' = las_reg_port_map s"
  "as_delete_group rpc c name s = Inr (a, s') \<Longrightarrow> las_reg_port_map s' = las_reg_port_map s"
  "as_change_password rpc c name old_pw new_pw s = Inr (a, s') \<Longrightarrow> las_reg_port_map s' = las_reg_port_map s"
  "as_change_owner rpc c name owner s = Inr (a, s') \<Longrightarrow> las_reg_port_map s' = las_reg_port_map s"
  "as_add_to_group rpc c name add s = Inr (a, s') \<Longrightarrow> las_reg_port_map s' = las_reg_port_map s"
  "as_remove_from_group rpc c name rem s = Inr (a, s') \<Longrightarrow> las_reg_port_map s' = las_reg_port_map s"
  by (auto simp: las_group_defs elim!: bindE_InrE split: option.split_asm dest!: same_cache)

text \<open>Clearing the entries of a private port finds none.\<close>

lemma logout_cached_none: "las_inv s \<Longrightarrow> port \<noteq> MACH_PORT_NULL \<Longrightarrow> fold (logout_cached port) is s = s"
  by (induction "is") (auto simp: logout_cached_def las_inv_def)

lemma las_inv_cache: "las_reg_port_map s' = las_reg_port_map s \<Longrightarrow> las_inv s' = las_inv s"
  by (simp add: las_inv_def)

lemma as_logout_cache:
  assumes "as_logout k rpc port s = Inr (ret, s')" "las_inv s"
  shows "las_reg_port_map s' = las_reg_port_map s"
proof (cases "s' = s")
  case False
  then obtain i where "port \<noteq> MACH_PORT_NULL" and
    fin: "(case call rpc (Logout (l_central_pport (las_priv_port_map s i))) (s\<lparr>las_priv_port_map := (las_priv_port_map s)(i := no_session)\<rparr>) of
        (Inl kr, s) \<Rightarrow> Inr (timed_out kr, s)
      | (Inr r, s) \<Rightarrow>
          (let (kr, s) = port_deallocate k s in
           if kr \<noteq> 0 then Inr (AS_FAILURE, s)
           else Inr (AS_SUCCESS, fold (logout_cached port) [0..<LAS_PORT_MAP_MAX] s))) = (Inr (ret, s') :: (as_return \<times> 'a las_state) result)"
    using assms(1) by (auto simp: as_logout_def no_session_def Let_def simp del: upt.simps elim!: bindE_InrE split: if_split_asm)
  obtain a t where c: "call rpc (Logout (l_central_pport (las_priv_port_map s i))) (s\<lparr>las_priv_port_map := (las_priv_port_map s)(i := no_session)\<rparr>) = (a, t)"
    by fastforce
  from call_cache [OF this] have t: "las_reg_port_map t = las_reg_port_map s" by simp
  then have "las_inv (t\<lparr>las_calls := Suc (las_calls t)\<rparr>)" using assms(2) by (simp add: las_inv_def)
  from logout_cached_none [OF this \<open>port \<noteq> MACH_PORT_NULL\<close>] show ?thesis
    using fin c t by (auto simp: port_deallocate_def Let_def simp del: upt.simps split: sum.split_asm if_split_asm)
qed simp

lemma as_delete_token_refuses:
  assumes "as_delete_token k rpc port token s = Inr (ret, s')" "las_inv s"
  shows "ret = AS_BAD_PRIVATE_PORT \<and> s' = s"
  using assms by (auto simp: as_delete_token_def las_inv_def elim!: bindE_InrE split: if_split_asm)

text \<open>A verification fills a slot that was free.\<close>

lemma verify_ids_cache:
  assumes "as_verify_token_ids rpc token s = Inr (ret, uid, ids, s')" "las_inv s"
  shows "las_inv s' \<and> cache_grows s s'"
proof (cases "las_reg_port_map s' = las_reg_port_map s")
  case False
  obtain i where i: "LAS_HASH_PORT token (las_reg_ports s) = Inr i"
    using assms(1) by (auto simp: as_verify_token_ids_def elim!: bindE_InrE)
  obtain a t where c: "call rpc (Verify_Token_Ids token) s = (a, t)" by fastforce
  have new: "las_reg_ports s i \<noteq> token" using False assms(1) i by (auto simp: as_verify_token_ids_def Let_def)
  then have "las_reg_ports s i = MACH_PORT_NULL" "las_reg_port_map s' = (las_reg_port_map t)(i := (las_reg_port_map t i)
      \<lparr>c_mapped_port := token, c_group_ids := ids, c_user_id := uid\<rparr>)"
    using assms(1) i c False call_cache [OF c] las_map.slot [OF i]
    by (auto simp: as_verify_token_ids_def Let_def split: sum.split_asm reply.split_asm)
  then show ?thesis using new call_cache [OF c] assms(2) by (auto simp: las_inv_def cache_grows_def)
qed (use assms(2) in \<open>simp add: las_inv_def cache_grows_def\<close>)

lemma verify_names_cache:
  assumes "as_verify_token_names rpc token s = Inr (ret, user, names, s')" "las_inv s"
  shows "las_inv s' \<and> cache_grows s s'"
proof (cases "las_reg_port_map s' = las_reg_port_map s")
  case False
  obtain i where i: "LAS_HASH_PORT token (las_reg_ports s) = Inr i"
    using assms(1) by (auto simp: as_verify_token_names_def elim!: bindE_InrE)
  obtain a t where c: "call rpc (Verify_Token_Names token) s = (a, t)" by fastforce
  have new: "las_reg_ports s i \<noteq> token" using False assms(1) i by (auto simp: as_verify_token_names_def Let_def)
  then have "las_reg_ports s i = MACH_PORT_NULL" "las_reg_port_map s' = (las_reg_port_map t)(i := (las_reg_port_map t i)
      \<lparr>c_mapped_port := token, c_group_names := names, c_user_name := user\<rparr>)"
    using assms(1) i c False call_cache [OF c] las_map.slot [OF i]
    by (auto simp: as_verify_token_names_def Let_def split: sum.split_asm reply.split_asm)
  then show ?thesis using new call_cache [OF c] assms(2) by (auto simp: las_inv_def cache_grows_def)
qed (use assms(2) in \<open>simp add: las_inv_def cache_grows_def\<close>)

lemma same_cache_grows: "las_reg_port_map s' = las_reg_port_map s \<Longrightarrow> las_inv s \<Longrightarrow> las_inv s' \<and> cache_grows s s'"
  by (simp add: las_inv_def cache_grows_def)

lemma las_serve_cache:
  assumes "las_serve k rpc q s = Inr (r, s')" "las_inv s"
  shows "las_inv s' \<and> cache_grows s s'"
proof (cases "las_reg_port_map s' = las_reg_port_map s")
  case False
  then show ?thesis using assms
    by (cases q) (auto simp: las_port_def las_return_def las_answer_def las_query_defs elim!: bindE_InrE
        dest: verify_ids_cache verify_names_cache same_cache as_logout_cache as_delete_token_refuses)
qed (rule same_cache_grows [OF _ assms(2)])

lemma las_main_cache:
  assumes "las_main k rpc ns m s = Inr (r, s')" "las_inv s"
  shows "las_inv s' \<and> cache_grows s s'"
proof (cases m)
  case (Service_Request q)
  then show ?thesis using assms by (auto elim!: bindE_InrE dest: las_serve_cache)
next
  case (Port_Deleted port)
  then have "las_reg_port_map s' = las_reg_port_map s"
    using assms by (auto simp: look_up_cas_def las_handle_port_death_def elim!: bindE_InrE split: if_split_asm option.split_asm
        dest!: as_logout_cache as_delete_token_refuses)
  then show ?thesis using same_cache_grows assms(2) by blast
qed (use assms in \<open>simp_all add: cache_grows_def\<close>)

interpretation las: service "las_main k rpc ns" las_inv for k rpc ns
  by unfold_locales (use las_main_cache in blast)

interpretation las_cache: service "las_main k rpc ns" "\<lambda>s. las_inv s \<and> cache_grows s0 s" for k rpc ns s0
  by unfold_locales (use las_main_cache cache_grows_trans in blast)

lemma las_start_inv: "las_init k ns (las_start w) = Inr (ok, s) \<Longrightarrow> las_inv s"
  by (auto simp: las_init_def port_allocate_def look_up_cas_def las_start_def las_inv_def no_token_def Let_def
      elim!: bindE_InrE split: option.split_asm if_split_asm)

text \<open>A token that has been verified is in the cache, at the slot where a search for it ends.\<close>

lemma verified_cached:
  assumes "as_verify_token_ids rpc token s = Inr (AS_SUCCESS, uid, ids, s')"
  shows "\<exists>i. LAS_HASH_PORT token (las_reg_ports s') = Inr i \<and> las_reg_ports s' i = token \<and>
    c_user_id (las_reg_port_map s' i) = uid \<and> c_group_ids (las_reg_port_map s' i) = ids \<and>
    (las_reg_ports s i \<noteq> token \<longrightarrow> c_user_name (las_reg_port_map s' i) = c_user_name (las_reg_port_map s i) \<and>
      c_group_names (las_reg_port_map s' i) = c_group_names (las_reg_port_map s i)) \<and> LAS_HASH_PORT token (las_reg_ports s) = Inr i"
proof -
  obtain i where i: "LAS_HASH_PORT token (las_reg_ports s) = Inr i"
    using assms(1) by (auto simp: as_verify_token_ids_def elim!: bindE_InrE)
  show ?thesis
  proof (cases "las_reg_ports s i = token")
    case True
    then show ?thesis using assms i by (auto simp: as_verify_token_ids_def Let_def)
  next
    case False
    obtain a t where c: "call rpc (Verify_Token_Ids token) s = (a, t)" by fastforce
    have s': "las_reg_port_map s' = (las_reg_port_map s)(i := (las_reg_port_map s i)\<lparr>c_mapped_port := token, c_group_ids := ids, c_user_id := uid\<rparr>)"
      using assms(1) i c False call_cache [OF c]
      by (auto simp: as_verify_token_ids_def Let_def timed_out_def call_def stub_def split_def split: sum.split_asm reply.split_asm if_split_asm)
    then have "las_reg_ports s' = (las_reg_ports s)(i := token)" by auto
    then show ?thesis using las_map.search_set [OF i] s' i by auto
  qed
qed

lemma cached_answers:
  assumes "LAS_HASH_PORT token (las_reg_ports s) = Inr i" "las_reg_ports s i = token" "token \<noteq> MACH_PORT_NULL" "cache_grows s s'"
  shows "as_verify_token_ids rpc token s' = Inr (AS_SUCCESS, c_user_id (las_reg_port_map s i), c_group_ids (las_reg_port_map s i), s')"
proof -
  have "LAS_HASH_PORT token (las_reg_ports s') = Inr i"
    by (rule las_map.search_stable [OF assms(1-3)]) (use assms(4) in \<open>simp add: cache_grows_def\<close>)
  moreover have "las_reg_port_map s' i = las_reg_port_map s i" using assms by (simp add: cache_grows_def)
  ultimately show ?thesis using assms(2) by (simp add: as_verify_token_ids_def Let_def)
qed

text \<open>A name server that knows the central server at the second question, and a central server that takes every token for one of user 20.\<close>

definition demo_names :: name_server where
  "demo_names = \<lparr>check_in_ok = True, look_up = (\<lambda>n. if n = 0 then None else Some 99)\<rparr>"

definition demo_kernel_las :: kernel where
  "demo_kernel_las = \<lparr>vm_allocate_ok = (\<lambda>_. True), vm_deallocate_kr = (\<lambda>_. 0), file_ok = (\<lambda>_. True),
     port_allocate_name = (\<lambda>n. if n < 2 then Some 8 else Some 16), port_deallocate_kr = (\<lambda>_. 0)\<rparr>"

definition demo_rpc :: "nat rpc" where
  "demo_rpc port q w = (case q of Verify_Token_Ids token \<Rightarrow> (Inr (Token_Ids AS_SUCCESS 20 [1, 5]), Suc w)
     | _ \<Rightarrow> (Inr (Return AS_SUCCESS), Suc w))"

definition demo_las :: "nat las_state" where
  "demo_las = (las_start 0)\<lparr>las_calls := 1, las_service_port := 8, cas_port := 99, las_lookups := 2\<rparr>"

lemma demo_las_init: "las_init demo_kernel_las demo_names (las_start 0) = Inr (True, demo_las)"
  by (simp add: las_init_def port_allocate_def demo_kernel_las_def demo_names_def look_up_cas_def las_start_def demo_las_def
      find_cas.simps Let_def numeral_2_eq_2)

lemma las_hash_free: "(\<And>i. mp i = MACH_PORT_NULL) \<Longrightarrow> LAS_HASH_PORT port mp = Inr (las_home port)"
  by (simp add: LAS_HASH_PORT_def LAS_PORT_MAP_MAX_def eval_nat_numeral)

lemma demo_las_hash: "LAS_HASH_PORT port (las_reg_ports demo_las) = Inr (las_home port)"
    "LAS_HASH_PORT port (las_priv_ports demo_las) = Inr (las_home port)"
  by (rule las_hash_free; simp add: demo_las_def las_start_def no_token_def no_session_def)+

lemma demo_verified:
  "\<exists>s. as_verify_token_ids demo_rpc 77 demo_las = Inr (AS_SUCCESS, 20, [1, 5], s) \<and> las_priv_port_map s = las_priv_port_map demo_las"
  using demo_las_hash(1) [of 77]
  by (auto simp: as_verify_token_ids_def call_def demo_rpc_def stub_def demo_las_def las_start_def no_token_def MACH_PORT_NULL_def)

text \<open>
  C12. A verification is for ever: once the local server has verified a token, it gives the same
  user and groups for it after any sequence of messages, whatever the central server then thinks
  of the token: neither a logout nor a request to delete the token nor its death withdraws it.
\<close>

theorem verified_for_ever:
  assumes "las_init k ns (las_start w) = Inr (True, s0)" "serve_all (las_main k rpc ns) ms s0 = Inr (rs, s)"
    and "as_verify_token_ids rpc token s = Inr (AS_SUCCESS, uid, ids, s1)" "token \<noteq> MACH_PORT_NULL"
    and "serve_all (las_main k rpc ns) ms' s1 = Inr (rs', s2)"
  shows "as_verify_token_ids rpc token s2 = Inr (AS_SUCCESS, uid, ids, s2)"
proof -
  have "las_inv s1" using las.all_keep [OF assms(2) las_start_inv [OF assms(1)]] verify_ids_cache [OF assms(3)] by blast
  then have "cache_grows s1 s2" using las_cache.all_keep [OF assms(5), of s1] by (simp add: cache_grows_def)
  then show ?thesis using verified_cached [OF assms(3)] cached_answers assms(4) by blast
qed

theorem verified_for_ever_witness:
  "\<exists>s s'. as_verify_token_ids demo_rpc 77 demo_las = Inr (AS_SUCCESS, 20, [1, 5], s) \<and>
    serve_all (las_main demo_kernel_las demo_rpc demo_names) [Service_Request (As_Logout 9), Service_Request (As_Delete_Token 9 77)] s
      = Inr ([Some (Return AS_BAD_PRIVATE_PORT), Some (Return AS_BAD_PRIVATE_PORT)], s') \<and>
    as_verify_token_ids demo_rpc 77 s' = Inr (AS_SUCCESS, 20, [1, 5], s')"
proof -
  obtain s where s: "as_verify_token_ids demo_rpc 77 demo_las = Inr (AS_SUCCESS, 20, [1, 5], s)" "las_priv_port_map s = las_priv_port_map demo_las"
    using demo_verified by blast
  have run: "serve_all (las_main demo_kernel_las demo_rpc demo_names) [Service_Request (As_Logout 9), Service_Request (As_Delete_Token 9 77)] s
      = Inr ([Some (Return AS_BAD_PRIVATE_PORT), Some (Return AS_BAD_PRIVATE_PORT)], s)"
  proof -
    have "LAS_HASH_PORT 9 (las_priv_ports s) = Inr (las_home 9)" "las_priv_port_map s (las_home 9) = no_session"
      using demo_las_hash(2) [of 9] s(2) by (simp_all add: demo_las_def las_start_def)
    then show ?thesis by (simp add: as_logout_def as_delete_token_def las_return_def no_session_def MACH_PORT_NULL_def)
  qed
  then show ?thesis using verified_for_ever [OF demo_las_init _ s(1) _ run, of "[]" "[]"] s(1) by (auto simp: MACH_PORT_NULL_def)
qed

text \<open>
  No token is ever deleted: in every state the local server can reach, a request to delete a
  token fails with \<open>AS_BAD_PRIVATE_PORT\<close> and changes nothing.
\<close>

lemma delete_token_never:
  assumes "las_init k ns (las_start w) = Inr (True, s0)" "serve_all (las_main k rpc ns) ms s0 = Inr (rs, s)"
    and "as_delete_token k rpc port token s = Inr (ret, s')"
  shows "ret = AS_BAD_PRIVATE_PORT \<and> s' = s"
  using as_delete_token_refuses [OF assms(3) las.all_keep [OF assms(2) las_start_inv [OF assms(1)]]] .

lemma delete_token_never_witness:
  "as_delete_token demo_kernel_las demo_rpc 9 77 demo_las = Inr (AS_BAD_PRIVATE_PORT, demo_las)"
proof -
  have "\<exists>ret. as_delete_token demo_kernel_las demo_rpc 9 77 demo_las = Inr (ret, demo_las)"
    using demo_las_hash(2) [of 9] by (simp add: as_delete_token_def) (simp add: demo_las_def las_start_def no_session_def)
  then obtain ret where "as_delete_token demo_kernel_las demo_rpc 9 77 demo_las = Inr (ret, demo_las)" by blast
  then show ?thesis using delete_token_never [OF demo_las_init, of demo_rpc "[]" "[]" demo_las 9 77 ret demo_las] by simp
qed

text \<open>
  C39. The null port passes for a token: in every state the local server can reach in which its cache
  is not full, \<open>as_verify_token_ids\<close> of the null port succeeds and names the user 0.
\<close>

theorem null_token_verifies:
  assumes "las_init k ns (las_start w) = Inr (True, s0)" "serve_all (las_main k rpc ns) ms s0 = Inr (rs, s)"
    and "i < LAS_PORT_MAP_MAX" "las_reg_ports s i = MACH_PORT_NULL"
  shows "as_verify_token_ids rpc MACH_PORT_NULL s = Inr (AS_SUCCESS, 0, [], s)"
proof -
  obtain j where j: "LAS_HASH_PORT MACH_PORT_NULL (las_reg_ports s) = Inr j"
    using las_map.total [where mp = "las_reg_ports s" and i = i] assms(3,4) by blast
  then have "las_reg_ports s j = MACH_PORT_NULL" using las_map.slot [OF j] by simp
  moreover from this have "las_reg_port_map s j = no_token"
    using las.all_keep [OF assms(2) las_start_inv [OF assms(1)]] by (simp add: las_inv_def)
  ultimately show ?thesis using j by (simp add: as_verify_token_ids_def Let_def no_token_def)
qed

theorem null_token_verifies_witness:
  "as_verify_token_ids demo_rpc MACH_PORT_NULL demo_las = Inr (AS_SUCCESS, 0, [], demo_las)"
  by (rule null_token_verifies [OF demo_las_init, of demo_rpc "[]" "[]" demo_las 0])
    (simp_all add: LAS_PORT_MAP_MAX_def demo_las_def las_start_def no_token_def)

text \<open>
  The cache answers what it was never told: when a token is first verified by its ids, the
  verification by names then succeeds from the cache with an empty user name and no groups,
  without asking the central server.
\<close>

lemma names_after_ids:
  assumes "las_init k ns (las_start w) = Inr (True, s0)" "serve_all (las_main k rpc ns) ms s0 = Inr (rs, s)"
    and "\<forall>i. las_reg_ports s i \<noteq> token" "as_verify_token_ids rpc token s = Inr (AS_SUCCESS, uid, ids, s1)"
  shows "as_verify_token_names rpc token s1 = Inr (AS_SUCCESS, [], [], s1)"
proof -
  obtain i where i: "LAS_HASH_PORT token (las_reg_ports s1) = Inr i" "las_reg_ports s1 i = token"
      "c_user_name (las_reg_port_map s1 i) = c_user_name (las_reg_port_map s i)"
      "c_group_names (las_reg_port_map s1 i) = c_group_names (las_reg_port_map s i)" "LAS_HASH_PORT token (las_reg_ports s) = Inr i"
    using verified_cached [OF assms(4)] assms(3) by blast
  have "las_reg_port_map s i = no_token"
    using las.all_keep [OF assms(2) las_start_inv [OF assms(1)]] las_map.slot [OF i(5)] assms(3) by (auto simp: las_inv_def)
  then show ?thesis using i by (simp add: as_verify_token_names_def Let_def no_token_def)
qed

lemma names_after_ids_witness:
  "\<exists>s. as_verify_token_ids demo_rpc 77 demo_las = Inr (AS_SUCCESS, 20, [1, 5], s) \<and>
    as_verify_token_names demo_rpc 77 s = Inr (AS_SUCCESS, [], [], s)"
proof -
  obtain s where s: "as_verify_token_ids demo_rpc 77 demo_las = Inr (AS_SUCCESS, 20, [1, 5], s)" using demo_verified by blast
  have "\<forall>i. las_reg_ports demo_las i \<noteq> 77" by (simp add: demo_las_def las_start_def no_token_def MACH_PORT_NULL_def)
  then show ?thesis using names_after_ids [OF demo_las_init _ _ s, of "[]" "[]"] s by auto
qed

end
