(* ===== verification/Cas_Invariant.thy ===== *)
theory Cas_Invariant
  imports Cas_Server
begin

text \<open>
  What every request keeps of the server's tables. \<open>cas_inv\<close> says that the id map points to live
  records that carry their index as id, that the name table holds each of its pointers once and
  only pointers that the id map holds, that allocated addresses are below the next one, and that
  the lists of every record fit their arrays. Each operation of the server keeps it, whatever the
  request, so it holds as long as the server runs.
\<close>

section \<open>What entering and deleting names does to the table\<close>

text \<open>The pointers in the table, with their number, and the parts of the state the table's operations leave alone.\<close>

definition ptrs :: "ptr list \<Rightarrow> ptr multiset" where
  "ptrs table = filter_mset (\<lambda>p. p \<noteq> None) (mset table)"

definition outside :: "cas_state \<Rightarrow> cas_state \<Rightarrow> bool" where
  "outside s t \<longleftrightarrow> recs t = recs s \<and> next_addr t = next_addr s \<and> group_id_map t = group_id_map s \<and>
     priv_port_map t = priv_port_map s \<and> reg_port_map t = reg_port_map s"

lemma outside_refl [simp]: "outside s s" by (simp add: outside_def)

lemma outside_trans: "outside s t \<Longrightarrow> outside t u \<Longrightarrow> outside s u" by (simp add: outside_def)

lemma ptrs_fill: "i < length t \<Longrightarrow> t ! i = None \<Longrightarrow> p \<noteq> None \<Longrightarrow> ptrs (t[i := p]) = add_mset p (ptrs t)"
  by (simp add: ptrs_def mset_update)

lemma ptrs_clear: "i < length t \<Longrightarrow> t ! i = p \<Longrightarrow> p \<noteq> None \<Longrightarrow> ptrs t = add_mset p (ptrs (t[i := None]))"
  using ptrs_fill [of i "t[i := None]" p] list_update_id [of t i] by simp

lemma probe_new_slot: "probe_new n t i = Inr j \<Longrightarrow> i < length t \<Longrightarrow> j < length t \<and> t ! j = None"
proof (induction n arbitrary: i)
  case (Suc n)
  have "Suc i mod length t < length t" using Suc.prems(2) by (intro mod_less_divisor) linarith
  then show ?case using Suc by (cases "t ! i") auto
qed simp

lemma rehash_entries_ptrs:
  "rehash_entries s olds new = Inr t \<Longrightarrow> length t = length new \<and> ptrs t = mset olds + ptrs new"
proof (induction s olds new rule: rehash_entries.induct)
  case (2 s old olds new)
  then obtain r i j where r: "rec_at s old = Inr r" "HASH_NAME (length new) (group_name r) = Inr i"
      "probe_new (length new) new i = Inr j" "rehash_entries s olds (new[j := old]) = Inr t"
    by (auto simp: fault_simps)
  then have j: "j < length new" "new ! j = None" using probe_new_slot HASH_NAME_range by blast+
  have "old \<noteq> None" using r(1) by (cases old) auto
  then show ?case using "2.IH" [OF r] ptrs_fill [OF j] by simp
qed simp

lemma grow_ptrs:
  assumes "grow_name_hash_table k s = Inr s'"
  shows "outside s s'" "ptrs (name_hash_table s') = ptrs (name_hash_table s)" "name_hash_table_num_entries s' = name_hash_table_num_entries s"
proof -
  have "ptrs (replicate n None) = {#}" for n by (simp add: ptrs_def)
  moreover have "ptrs olds = mset olds" if "None \<notin> set olds" for olds
    using that unfolding ptrs_def by (induction olds) (auto simp: neq_commute [of None])
  ultimately show "outside s s'" "ptrs (name_hash_table s') = ptrs (name_hash_table s)"
      "name_hash_table_num_entries s' = name_hash_table_num_entries s"
    using assms rehash_entries_Inr [of _ "name_hash_table s"] rehash_entries_ptrs [of _ "name_hash_table s"]
    by (auto simp: grow_name_hash_table_def vm_allocate_def outside_def fault_simps split: if_splits)
qed

lemma probe_free_slot: "probe_free n t h i = Inr (Some j) \<Longrightarrow> i < length t \<Longrightarrow> j < length t \<and> t ! j = None"
  using probe_new_slot [OF probe_new_free] .

lemma enter_name_round_ptrs:
  assumes "enter_name_round k p s = Inr (stored, s')"
  shows "outside s s' \<and> ptrs (name_hash_table s') = (if stored then add_mset p else id) (ptrs (name_hash_table s))"
proof -
  let ?s = "s\<lparr>name_hash_table_num_entries := Suc (name_hash_table_num_entries s)\<rparr>"
  obtain s1 r i stop where s1: "(if name_hash_table_limit ?s < name_hash_table_num_entries ?s then grow_name_hash_table k ?s else Inr ?s) = Inr s1"
    and r: "rec_at s1 p = Inr r" and i: "HASH_NAME (name_hash_table_size s1) (group_name r) = Inr i"
    and stop: "probe_free (name_hash_table_size s1) (name_hash_table s1) i i = Inr stop"
    and res: "(case stop of Some i \<Rightarrow> Inr (True, s1\<lparr>name_hash_table := (name_hash_table s1)[i := p]\<rparr>)
          | None \<Rightarrow> bindE (grow_name_hash_table k s1) (\<lambda>s. Inr (False, s))) = Inr (stored, s')"
    using assms unfolding enter_name_round_def Let_def bindE_eq_Inr by blast
  have p: "p \<noteq> None" using r by (cases p) auto
  have "outside s s1" "ptrs (name_hash_table s1) = ptrs (name_hash_table s)"
    using s1 grow_ptrs [of k ?s s1] by (auto simp: outside_def split: if_splits)
  moreover have "outside s1 s' \<and> ptrs (name_hash_table s') = (if stored then add_mset p else id) (ptrs (name_hash_table s1))"
  proof (cases stop)
    case None
    then show ?thesis using res grow_ptrs [of k s1] by (auto simp: fault_simps)
  next
    case (Some j)
    then have "j < length (name_hash_table s1) \<and> name_hash_table s1 ! j = None"
      using stop HASH_NAME_range [OF i] by (auto dest!: probe_free_slot)
    then show ?thesis using res Some p ptrs_fill [of j "name_hash_table s1" p] by (auto simp: outside_def)
  qed
  ultimately show ?thesis using outside_trans by (metis id_apply)
qed

lemma enter_name_loop_ptrs:
  assumes "enter_name_loop k p s = Some r"
  shows "r = Inr s' \<longrightarrow> outside s s' \<and> ptrs (name_hash_table s') = add_mset p (ptrs (name_hash_table s))"
proof (rule enter_name_loop.raw_induct [OF _ assms,
    where P = "\<lambda>k p s r. r = Inr s' \<longrightarrow> outside s s' \<and> ptrs (name_hash_table s') = add_mset p (ptrs (name_hash_table s))"])
  fix f k p s r
  assume IH: "\<And>k p s r. f k p s = Some r \<Longrightarrow> r = Inr s' \<longrightarrow> outside s s' \<and> ptrs (name_hash_table s') = add_mset p (ptrs (name_hash_table s))"
    and step: "(case enter_name_round k p s of Inl e \<Rightarrow> Some (Inl e)
      | Inr x \<Rightarrow> if fst x then Some (Inr (snd x)) else f k p (snd x)) = Some r"
  show "r = Inr s' \<longrightarrow> outside s s' \<and> ptrs (name_hash_table s') = add_mset p (ptrs (name_hash_table s))"
  proof (cases "enter_name_round k p s")
    case (Inl e)
    then show ?thesis using step by auto
  next
    case (Inr x)
    obtain stored s1 where x: "x = (stored, s1)" by (cases x)
    then have one: "outside s s1" "ptrs (name_hash_table s1) = (if stored then add_mset p else id) (ptrs (name_hash_table s))"
      using enter_name_round_ptrs [of k p s stored s1] Inr by auto
    show ?thesis
    proof (cases stored)
      case True
      then show ?thesis using step Inr x one by auto
    next
      case False
      then have "f k p s1 = Some r" using step Inr x by simp
      then show ?thesis using IH [of k p s1 r] one False outside_trans [OF one(1)] by auto
    qed
  qed
qed

lemma enter_name_ptrs:
  assumes "enter_name k p s = Inr s'"
  shows "outside s s'" "ptrs (name_hash_table s') = add_mset p (ptrs (name_hash_table s))"
  using assms enter_name_loop_ptrs [of k p s "Inr s'" s'] by (auto simp: enter_name_def split: option.splits)

lemma rehash_following_ptrs:
  "rehash_following n k i s = Inr s' \<Longrightarrow> outside s s' \<and> ptrs (name_hash_table s') = ptrs (name_hash_table s)"
proof (induction n arbitrary: i s)
  case (Suc n)
  then obtain p where p: "table_at s i = Inr p" by (auto simp: fault_simps)
  show ?case
  proof (cases p)
    case None
    then show ?thesis using Suc.prems p by simp
  next
    case (Some a)
    then have i: "i < name_hash_table_size s" "name_hash_table s ! i = Some a"
      using p by (auto simp: table_at_def split: if_splits)
    let ?s = "s\<lparr>name_hash_table := (name_hash_table s)[i := None]\<rparr>"
    obtain s1 where s1: "enter_name k (Some a) ?s = Inr s1" "rehash_following n k (Suc i) s1 = Inr s'"
      using Suc.prems p Some by (auto simp: fault_simps)
    have "outside s s1" using enter_name_ptrs(1) [OF s1(1)] by (simp add: outside_def)
    moreover have "ptrs (name_hash_table s1) = ptrs (name_hash_table s)"
      using enter_name_ptrs(2) [OF s1(1)] ptrs_clear [OF i] by simp
    ultimately show ?thesis using Suc.IH [OF s1(2)] outside_trans by metis
  qed
qed simp

text \<open>\<open>delete_name\<close> takes out the record \<open>lookup_name\<close> finds.\<close>

lemma probe_name_bound: "probe_name n s name h i = Inr (Some j) \<Longrightarrow> i < name_hash_table_size s \<Longrightarrow> j < name_hash_table_size s"
proof (induction n arbitrary: i)
  case (Suc n)
  have "Suc i mod name_hash_table_size s < name_hash_table_size s" using Suc.prems(2) by (intro mod_less_divisor) linarith
  then show ?case using Suc by (auto simp: fault_simps Let_def split: option.splits if_splits)
qed simp

lemma probe_name_match:
  "probe_name n s name h i = Inr (Some j) \<Longrightarrow> name_hash_table s ! j = Some a \<Longrightarrow> \<exists>r. recs s a = Some r \<and> group_name r = name"
  by (induction n arbitrary: i) (auto simp: fault_simps cas_mem Let_def split: option.splits if_splits)

lemma lookup_name_found:
  assumes "lookup_name s name = Inr (Some a)"
  shows "\<exists>r. recs s a = Some r \<and> group_name r = name" "Some a \<in># ptrs (name_hash_table s)"
proof -
  obtain h j where h: "HASH_NAME (name_hash_table_size s) name = Inr h"
      "probe_name (name_hash_table_size s) s name h h = Inr (Some j)" "name_hash_table s ! j = Some a"
    using assms by (auto simp: lookup_name_def fault_simps split: option.splits)
  show "\<exists>r. recs s a = Some r \<and> group_name r = name" by (rule probe_name_match [OF h(2,3)])
  have "j < name_hash_table_size s" by (rule probe_name_bound [OF h(2) HASH_NAME_range [OF h(1)]])
  then show "Some a \<in># ptrs (name_hash_table s)" using h(3) nth_mem [of j "name_hash_table s"] by (simp add: ptrs_def)
qed

lemma delete_name_ptrs:
  assumes "lookup_name s name = Inr (Some a)" "delete_name k name s = Inr s'"
  shows "outside s s'" "ptrs (name_hash_table s) = add_mset (Some a) (ptrs (name_hash_table s'))"
proof -
  obtain h j where h: "HASH_NAME (name_hash_table_size s) name = Inr h"
      "probe_name (name_hash_table_size s) s name h h = Inr (Some j)" "name_hash_table s ! j = Some a"
    using assms(1) by (auto simp: lookup_name_def fault_simps split: option.splits)
  then have j: "j < name_hash_table_size s" using probe_name_bound [OF h(2) HASH_NAME_range [OF h(1)]] by blast
  let ?s = "s\<lparr>name_hash_table := (name_hash_table s)[j := None]\<rparr>"
  have "rehash_following (Suc (table_words (name_hash_table_size s))) k (Suc j) ?s = Inr s'"
    using assms(2) h by (simp add: delete_name_def)
  from rehash_following_ptrs [OF this] ptrs_clear [OF j h(3)]
  show "outside s s'" "ptrs (name_hash_table s) = add_mset (Some a) (ptrs (name_hash_table s'))"
    by (simp_all add: outside_def)
qed

section \<open>The invariant\<close>

definition record_ok :: "group_record \<Rightarrow> bool" where
  "record_ok r \<longleftrightarrow> length (members r) \<le> MEMBERS_MAX \<and> length (memberships r) \<le> MEMBERS_MAX"

definition id_entries :: "cas_state \<Rightarrow> nat set" where
  "id_entries s = {a. \<exists>i < GROUP_ID_MAX. group_id_map s i = Some a}"

definition cas_inv :: "cas_state \<Rightarrow> bool" where
  "cas_inv s \<longleftrightarrow> ids_ok s \<and> (\<forall>a. count (ptrs (name_hash_table s)) (Some a) \<le> (if a \<in> id_entries s then 1 else 0)) \<and>
     dom (recs s) \<subseteq> {..<next_addr s} \<and> (\<forall>a r. recs s a = Some r \<longrightarrow> record_ok r)"

text \<open>The fields the invariant speaks of; changes to the others keep it.\<close>

definition core :: "cas_state \<Rightarrow> (nat \<Rightarrow> ptr) \<times> (nat \<rightharpoonup> group_record) \<times> nat \<times> ptr multiset" where
  "core s = (group_id_map s, recs s, next_addr s, ptrs (name_hash_table s))"

lemma core_inv: "core s = core t \<Longrightarrow> cas_inv s = cas_inv t"
  by (simp add: core_def cas_inv_def ids_ok_def id_entries_def)

lemma core_simps [simp]:
  "core (s\<lparr>calls := c\<rparr>) = core s" "core (s\<lparr>priv_port_map := m\<rparr>) = core s" "core (s\<lparr>reg_port_map := m'\<rparr>) = core s"
  "core (s\<lparr>database := d\<rparr>) = core s" "core (s\<lparr>db_backup := d\<rparr>) = core s"
  by (simp_all add: core_def)

lemma cas_inv_simps [simp]:
  "cas_inv (s\<lparr>calls := c\<rparr>) = cas_inv s" "cas_inv (s\<lparr>priv_port_map := m\<rparr>) = cas_inv s" "cas_inv (s\<lparr>reg_port_map := m'\<rparr>) = cas_inv s"
  "cas_inv (s\<lparr>database := d\<rparr>) = cas_inv s" "cas_inv (s\<lparr>db_backup := d\<rparr>) = cas_inv s"
  by (rule core_inv, simp)+

named_theorems cas_keep \<open>operations that keep the invariant\<close>

lemma vm_allocate_inv [simp]: "cas_inv (snd (vm_allocate k s)) = cas_inv s" "cas_inv (snd (vm_deallocate k s)) = cas_inv s"
  by (simp_all add: vm_allocate_def vm_deallocate_def)

lemma save_database_core: "save_database k s = Inr s' \<Longrightarrow> core s' = core s"
  by (auto simp: save_database_def rename_def Let_def fault_simps split: if_splits)

lemma save_database_inv [cas_keep]: "save_database k s = Inr s' \<Longrightarrow> cas_inv s \<Longrightarrow> cas_inv s'"
  using core_inv [OF save_database_core] by blast

lemma upd_rec_inv [cas_keep]:
  assumes "upd_rec g p s = Inr s'" "cas_inv s" "\<And>r. group_id (g r) = group_id r" "\<And>r. record_ok r \<Longrightarrow> record_ok (g r)"
  shows "cas_inv s'"
proof -
  obtain a r where a: "recs s a = Some r" "s' = s\<lparr>recs := (recs s)(a \<mapsto> g r)\<rparr>" using assms(1) by (auto simp: upd_rec_Inr)
  have "ids_ok s'"
    unfolding ids_ok_def a(2) using assms(2,3) a(1) by (auto simp: cas_inv_def ids_ok_def)
  moreover have "dom (recs s') \<subseteq> {..<next_addr s'}" using assms(2) a by (auto simp: cas_inv_def)
  moreover have "record_ok r'" if "recs s' b = Some r'" for b r'
    using that assms(2,4) a by (auto simp: cas_inv_def split: if_splits)
  ultimately show ?thesis using assms(2) a(2) by (auto simp: cas_inv_def id_entries_def)
qed

lemma foldE_keeps:
  "foldE f xs s = Inr t \<Longrightarrow> P s \<Longrightarrow> (\<And>x s s'. P s \<Longrightarrow> f x s = Inr s' \<Longrightarrow> P s') \<Longrightarrow> P t"
  by (rule foldE_invariant) auto

lemma touched_ok: "record_ok (r\<lparr>touched := b\<rparr>) = record_ok r"
  by (simp add: record_ok_def)

lemma clear_touched_inv: "clear_touched i s = Inr s' \<Longrightarrow> cas_inv s \<Longrightarrow> cas_inv s'"
  by (auto simp: clear_touched_def touched_ok elim!: upd_rec_inv split: if_splits)

lemma do_recursive_search_inv:
  "do_recursive_search n m copy x st = Inr st' \<Longrightarrow> cas_inv (snd (snd st)) \<Longrightarrow> cas_inv (snd (snd st'))"
proof (induction n arbitrary: x st st')
  case (Suc n)
  obtain b c s where st: "st = (b, c, s)" by (cases st)
  obtain p where p: "id_map_at s x = Inr p" using Suc.prems(1) st by (auto simp: fault_simps)
  consider "st' = st" | r s1 b' where "rec_at s p = Inr r" "upd_rec (\<lambda>r. r\<lparr>touched := True\<rparr>) p s = Inr s1"
      "foldE (do_recursive_search n m copy) (group_list m r) (b', Suc c, s1) = Inr st'"
    using Suc.prems(1) st p by (auto simp: fault_simps split: if_splits)
  then show ?case
  proof cases
    case 2
    have "cas_inv s1" using Suc.prems(2) st by (intro upd_rec_inv [OF 2(2)]) (simp_all add: touched_ok)
    then show ?thesis using foldE_keeps [OF 2(3), of "\<lambda>st. cas_inv (snd (snd st))"] Suc.IH by simp
  qed (use Suc.prems in simp)
qed simp

lemma do_transitive_closure_inv [cas_keep]:
  "do_transitive_closure k p m s = Inr (ids, s') \<Longrightarrow> cas_inv s \<Longrightarrow> cas_inv s'"
proof -
  have search: "cas_inv t" if "foldE (do_recursive_search n m copy) xs (b, c, s) = Inr (b', c', t)" "cas_inv s" for n copy xs b c s b' c' t
    using foldE_keeps [OF that(1), of "\<lambda>st. cas_inv (snd (snd st))"] that(2) do_recursive_search_inv by fastforce
  have clear: "cas_inv t" if "foldE clear_touched xs s = Inr t" "cas_inv s" for xs s t
    using foldE_keeps [OF that(1), of cas_inv] that(2) clear_touched_inv by blast
  assume "do_transitive_closure k p m s = Inr (ids, s')" "cas_inv s"
  then show "cas_inv s'"
    unfolding do_transitive_closure_def
    by (auto simp: fault_simps Let_def vm_allocate_def simp del: upt.simps dest!: clear search split: prod.splits)
qed

section \<open>Creating and deleting records\<close>

lemma cas_inv_new_record:
  assumes inv: "cas_inv s" and gid: "unat gid < GROUP_ID_MAX" "group_id_map s (unat gid) = None"
    and r: "group_id r = gid" "record_ok r"
    and t: "recs t = (recs s)(next_addr s \<mapsto> r)" "next_addr t = Suc (next_addr s)"
      "group_id_map t = (group_id_map s)(unat gid := Some (next_addr s))"
      "ptrs (name_hash_table t) = add_mset (Some (next_addr s)) (ptrs (name_hash_table s))"
  shows "cas_inv t"
proof -
  let ?a = "next_addr s"
  have fresh: "?a \<notin> dom (recs s)" using inv by (auto simp: cas_inv_def)
  have live: "a \<in> dom (recs s)" if "a \<in> id_entries s" for a
    using inv that unfolding cas_inv_def ids_ok_def id_entries_def by fast
  then have new: "?a \<notin> id_entries s" using fresh by blast
  have entries: "id_entries t = insert ?a (id_entries s)"
    using gid unfolding id_entries_def t(3) by (auto simp: fun_upd_apply) (metis option.distinct(1))
  have "ids_ok t"
    unfolding ids_ok_def
  proof (intro allI impI)
    fix i a assume i: "i < GROUP_ID_MAX" "group_id_map t i = Some a"
    show "\<exists>r. recs t a = Some r \<and> unat (group_id r) = i"
    proof (cases "i = unat gid")
      case True
      then show ?thesis using i t r by simp
    next
      case False
      then have "group_id_map s i = Some a" using i t(3) by simp
      moreover from this have "a \<noteq> ?a" using new i(1) unfolding id_entries_def by blast
      ultimately show ?thesis using inv i(1) t(1) unfolding cas_inv_def ids_ok_def by simp
    qed
  qed
  moreover have "count (ptrs (name_hash_table t)) (Some a) \<le> (if a \<in> id_entries t then 1 else 0)" for a
  proof -
    have "count (ptrs (name_hash_table s)) (Some a) \<le> (if a \<in> id_entries s then 1 else 0)" using inv by (simp add: cas_inv_def)
    then show ?thesis using new by (auto simp: t(4) entries split: if_splits)
  qed
  moreover have "dom (recs t) \<subseteq> {..<next_addr t}" using inv t(1,2) by (auto simp: cas_inv_def)
  moreover have "\<forall>a r. recs t a = Some r \<longrightarrow> record_ok r" using inv t(1) r(2) by (auto simp: cas_inv_def)
  ultimately show ?thesis by (simp add: cas_inv_def)
qed

lemma vm_allocate_record_Some:
  "vm_allocate_record k s = (Some a, s') \<longleftrightarrow> vm_allocate_ok k (calls s) \<and> a = next_addr s \<and>
     s' = s\<lparr>calls := Suc (calls s), next_addr := Suc (next_addr s), recs := (recs s)(next_addr s \<mapsto> zero_record)\<rparr>"
  "vm_allocate_record k s = (None, s') \<longleftrightarrow> \<not> vm_allocate_ok k (calls s) \<and> s' = s\<lparr>calls := Suc (calls s)\<rparr>"
  by (auto simp: vm_allocate_record_def)

text \<open>What \<open>cas_create_group_rec\<close> leaves behind.\<close>

lemma cas_create_group_rec_Some:
  assumes "cas_create_group_rec k gid ids is_user s = Inr (Some a, s')"
  shows "\<exists>r. a = next_addr s \<and> unat gid < GROUP_ID_MAX \<and> group_id r = gid \<and> record_ok r \<and> group_type r = AS_PRIMARY \<and>
    recs s' = (recs s)(next_addr s \<mapsto> r) \<and> next_addr s' = Suc (next_addr s) \<and>
    group_id_map s' = (group_id_map s)(unat gid := Some (next_addr s)) \<and>
    ptrs (name_hash_table s') = add_mset (Some (next_addr s)) (ptrs (name_hash_table s)) \<and>
    priv_port_map s' = priv_port_map s \<and> reg_port_map s' = reg_port_map s"
proof -
  obtain p s0 where p: "vm_allocate_record k s = (p, s0)" by (cases "vm_allocate_record k s")
  then have "p = Some (next_addr s)" using assms
    by (auto simp: cas_create_group_rec_def vm_allocate_record_def split: if_splits)
  note s0 = p [unfolded this vm_allocate_record_Some]
  have at: "cas_create_group_rec k gid ids is_user s =
      bindE (set_id_map gid (Some (next_addr s)) s0) (\<lambda>t.
          bindE (encrypt_password (pad_password (title is_user gid))) (\<lambda>pw.
          if MEMBERS_MAX < length (tl ids) then Inl Out_Of_Bounds
          else bindE (upd_rec (\<lambda>r. r\<lparr>group_name := print_d gid, group_id := gid, group_type := AS_PRIMARY,
                  full_name := title is_user gid, pass_word := pw, owner_id := SYS_ADM_ID,
                  members := [], memberships := tl ids\<rparr>) (Some (next_addr s)) t) (\<lambda>t.
          bindE (enter_name k (group_id_map t (unat gid)) t) (\<lambda>t.
          Inr (Some (next_addr s), t)))))"
    using p \<open>p = Some (next_addr s)\<close> by (simp add: cas_create_group_rec_def)
  obtain s1 pw s2 where s1: "set_id_map gid (Some (next_addr s)) s0 = Inr s1" and len: "length (tl ids) \<le> MEMBERS_MAX"
    and s2: "upd_rec (\<lambda>r. r\<lparr>group_name := print_d gid, group_id := gid, group_type := AS_PRIMARY,
                  full_name := title is_user gid, pass_word := pw, owner_id := SYS_ADM_ID,
                  members := [], memberships := tl ids\<rparr>) (Some (next_addr s)) s1 = Inr s2"
    and e: "enter_name k (group_id_map s2 (unat gid)) s2 = Inr s'" and a: "a = next_addr s"
    using assms unfolding at by (auto simp: fault_simps split: if_splits)
  have g: "unat gid < GROUP_ID_MAX" "group_id_map s1 = (group_id_map s)(unat gid := Some (next_addr s))" "recs s1 = recs s0"
    "next_addr s1 = Suc (next_addr s)" "name_hash_table s1 = name_hash_table s" "priv_port_map s1 = priv_port_map s"
    "reg_port_map s1 = reg_port_map s"
    using s1 s0 by (auto simp: set_id_map_Inr)
  obtain r where r: "s2 = s1\<lparr>recs := (recs s)(next_addr s \<mapsto> r)\<rparr>" "group_id r = gid" "group_type r = AS_PRIMARY"
      "members r = []" "memberships r = tl ids"
    using s2 s0 g(3) by (auto simp: upd_rec_Inr)
  have "record_ok r" using r(4,5) len by (simp add: record_ok_def)
  moreover note enter_name_ptrs [OF e]
  ultimately show ?thesis using a g r by (auto simp: outside_def)
qed

lemma cas_create_group_rec_inv [cas_keep]:
  assumes "cas_create_group_rec k gid ids is_user s = Inr (p, s')" "cas_inv s" "lookup_id s gid = None"
  shows "cas_inv s'"
proof (cases p)
  case None
  then have "s' = s\<lparr>calls := Suc (calls s)\<rparr>"
    using assms(1) by (auto simp: cas_create_group_rec_def vm_allocate_record_def fault_simps split: if_splits)
  then show ?thesis using assms(2) by simp
next
  case (Some a)
  obtain r where r: "unat gid < GROUP_ID_MAX" "group_id r = gid" "record_ok r"
    "recs s' = (recs s)(next_addr s \<mapsto> r)" "next_addr s' = Suc (next_addr s)"
    "group_id_map s' = (group_id_map s)(unat gid := Some (next_addr s))"
    "ptrs (name_hash_table s') = add_mset (Some (next_addr s)) (ptrs (name_hash_table s))"
    using cas_create_group_rec_Some assms(1) Some by blast
  have "group_id_map s (unat gid) = None" using assms(3) r(1) by (auto simp: lookup_id_def split: if_splits)
  then show ?thesis using cas_inv_new_record [OF assms(2) r(1)] r by blast
qed

lemma find_or_create_inv [cas_keep]: "find_or_create k gid ids u s = Inr (p, s') \<Longrightarrow> cas_inv s \<Longrightarrow> cas_inv s'"
  by (auto simp: find_or_create_def split: if_splits intro: cas_create_group_rec_inv)

lemma check_groups_inv [cas_keep]: "check_groups k c ids s = Inr (ok, s') \<Longrightarrow> cas_inv s \<Longrightarrow> cas_inv s'"
proof (induction k c ids s rule: check_groups.induct)
  case (2 k c gid ids s)
  show ?case
  proof (cases "lookup_id s gid = None \<and> c")
    case True
    then obtain p s1 where s1: "cas_create_group_rec k gid [] False s = Inr (p, s1)"
        "(if p = None then Inr (False, s1) else check_groups k True ids s1) = Inr (ok, s')"
      using "2.prems"(1) by (auto simp: fault_simps)
    then have "cas_inv s1" using True "2.prems"(2) by (intro cas_create_group_rec_inv [OF s1(1)]) auto
    then show ?thesis using s1 2(1) [OF _ _ s1(1) refl] True by (auto split: if_splits)
  next
    case False
    then show ?thesis using "2.prems" "2.IH"(2) by (auto split: if_splits)
  qed
qed simp

lemma check_restriction_inv [cas_keep]: "check_restriction k c ids r s = Inr (ok, s') \<Longrightarrow> cas_inv s \<Longrightarrow> cas_inv s'"
  by (auto simp: check_restriction_def split: if_splits intro: check_groups_inv)

lemma choose_id_free: "choose_id s gid = Inr (Inr gid') \<Longrightarrow> unat gid' < GROUP_ID_MAX \<and> group_id_map s (unat gid') = None"
proof -
  assume h: "choose_id s gid = Inr (Inr gid')"
  show ?thesis
  proof (cases "gid = NULL_ID")
    case True
    then obtain i where i: "new_id s = Some i" "gid' = of_nat i"
      using h by (auto simp: choose_id_def split: option.splits)
    then have "i < GROUP_ID_MAX" "group_id_map s i = None"
      by (auto simp: new_id_def find_Some_iff)
    then show ?thesis using i(2) by (simp add: unat_of_nat GROUP_ID_MAX_def)
  next
    case False
    then show ?thesis using h by (auto simp: choose_id_def fault_simps cas_mem split: if_splits)
  qed
qed

lemma make_group_Inr:
  assumes "make_group k name gtype full pw owner gid s = Inr (ret, s')"
  shows "ret = AS_FAILURE \<and> s' = s\<lparr>calls := Suc (calls s)\<rparr> \<or>
    ret = AS_SUCCESS \<and> (\<exists>r. unat gid < GROUP_ID_MAX \<and> group_id r = gid \<and> record_ok r \<and> group_name r = name \<and> group_type r = gtype \<and>
    recs s' = (recs s)(next_addr s \<mapsto> r) \<and> next_addr s' = Suc (next_addr s) \<and>
    group_id_map s' = (group_id_map s)(unat gid := Some (next_addr s)) \<and>
    ptrs (name_hash_table s') = add_mset (Some (next_addr s)) (ptrs (name_hash_table s)) \<and>
    priv_port_map s' = priv_port_map s \<and> reg_port_map s' = reg_port_map s)"
proof (cases "vm_allocate_ok k (calls s)")
  case False
  then have "vm_allocate_record k s = (None, s\<lparr>calls := Suc (calls s)\<rparr>)" by (simp add: vm_allocate_record_def)
  then show ?thesis using assms by (simp add: make_group_def)
next
  case True
  let ?a = "next_addr s"
  let ?s0 = "s\<lparr>calls := Suc (calls s), next_addr := Suc ?a, recs := (recs s)(?a \<mapsto> zero_record)\<rparr>"
  have al: "vm_allocate_record k s = (Some ?a, ?s0)" using True by (simp add: vm_allocate_record_def)
  obtain pw' owner' s1 s2 s3 where
      s1: "upd_rec (\<lambda>r. r\<lparr>group_id := gid, group_type := gtype, group_name := name, pass_word := take PASS_WORD_SIZE pw',
                  full_name := full, owner_id := owner', tr_memberships := [], members := [], memberships := []\<rparr>) (Some ?a) ?s0 = Inr s1"
    and s2: "enter_name k (Some ?a) s1 = Inr s2" and s3: "set_id_map gid (Some ?a) s2 = Inr s3"
    and s': "save_database k s3 = Inr s'" and ret: "ret = AS_SUCCESS"
    using assms unfolding make_group_def al by (auto simp: bindE_eq_Inr simp del: fun_upd_apply)
  obtain r where r: "s1 = ?s0\<lparr>recs := (recs s)(?a \<mapsto> r)\<rparr>" "group_id r = gid" "members r = []" "memberships r = []"
      "group_name r = name" "group_type r = gtype"
    using s1 by (auto simp: upd_rec_Inr)
  have "record_ok r" using r(3,4) by (simp add: record_ok_def)
  moreover note enter_name_ptrs [OF s2]
  moreover have "core s' = core s3" "priv_port_map s' = priv_port_map s3" "reg_port_map s' = reg_port_map s3"
    using save_database_core [OF s'] s' by (auto simp: save_database_def rename_def Let_def fault_simps split: if_splits)
  ultimately show ?thesis using ret r s3 by (auto simp: outside_def set_id_map_Inr core_def)
qed

lemma make_group_inv [cas_keep]:
  assumes "make_group k name gtype full pw owner gid s = Inr (ret, s')" "cas_inv s" "group_id_map s (unat gid) = None"
  shows "cas_inv s'"
  using make_group_Inr [OF assms(1)]
proof (elim disjE conjE exE)
  fix r assume "unat gid < GROUP_ID_MAX" "group_id r = gid" "record_ok r" "recs s' = (recs s)(next_addr s \<mapsto> r)"
    "next_addr s' = Suc (next_addr s)" "group_id_map s' = (group_id_map s)(unat gid := Some (next_addr s))"
    "ptrs (name_hash_table s') = add_mset (Some (next_addr s)) (ptrs (name_hash_table s))"
  then show ?thesis using cas_inv_new_record [OF assms(2) _ assms(3)] by blast
qed (use assms(2) in simp)

lemma drop_member_inv: "drop_member g i s = Inr s' \<Longrightarrow> cas_inv s \<Longrightarrow> cas_inv s'"
  by (auto simp: drop_member_def fault_simps record_ok_def split: if_splits
      elim!: upd_rec_inv intro: order_trans [OF delete_from_list_mset(2)])

lemma drop_membership_inv: "drop_membership g i s = Inr s' \<Longrightarrow> cas_inv s \<Longrightarrow> cas_inv s'"
  by (auto simp: drop_membership_def fault_simps record_ok_def split: if_splits
      elim!: upd_rec_inv intro: order_trans [OF delete_from_list_mset(2)])

text \<open>The loops over the lists of a deleted group change nothing but lists.\<close>

definition bare :: "group_record \<Rightarrow> group_record" where
  "bare r = r\<lparr>members := [], memberships := []\<rparr>"

definition lists_only :: "cas_state \<Rightarrow> cas_state \<Rightarrow> bool" where
  "lists_only s t \<longleftrightarrow> (\<exists>f. t = s\<lparr>recs := f\<rparr>) \<and> (\<forall>a. map_option bare (recs t a) = map_option bare (recs s a))"

lemma lists_only_refl [simp]: "lists_only s s"
  unfolding lists_only_def by (intro conjI allI exI [of _ "recs s"]) simp_all

lemma lists_only_trans: "lists_only s t \<Longrightarrow> lists_only t u \<Longrightarrow> lists_only s u"
  unfolding lists_only_def by auto

lemma upd_rec_lists: "upd_rec g p s = Inr t \<Longrightarrow> (\<And>r. bare (g r) = bare r) \<Longrightarrow> lists_only s t"
  unfolding lists_only_def upd_rec_Inr by auto

lemma drop_lists: "drop_member g i s = Inr t \<Longrightarrow> lists_only s t" "drop_membership g i s = Inr t \<Longrightarrow> lists_only s t"
  by (auto simp: drop_member_def drop_membership_def fault_simps split: if_splits elim!: upd_rec_lists) (simp_all add: bare_def)

lemma drop_all_keeps:
  assumes "\<And>g i s t. change g i s = Inr t \<Longrightarrow> P s \<Longrightarrow> P t"
  shows "drop_all n ids change p i s = Inr t \<Longrightarrow> P s \<Longrightarrow> P t"
  using assms by (induction n arbitrary: i s) (fastforce simp: fault_simps split: if_splits)+

lemma lists_only_fields:
  assumes "lists_only s t"
  shows "group_id_map t = group_id_map s" "name_hash_table t = name_hash_table s" "priv_port_map t = priv_port_map s"
    "reg_port_map t = reg_port_map s" "next_addr t = next_addr s"
  using assms unfolding lists_only_def by auto

lemma lists_only_rec:
  assumes "lists_only s t"
  shows "map_option group_name (recs t a) = map_option group_name (recs s a)"
    "map_option group_id (recs t a) = map_option group_id (recs s a)"
proof -
  have e: "map_option bare (recs t a) = map_option bare (recs s a)" using assms by (simp add: lists_only_def)
  have "map_option (group_name \<circ> bare) (recs t a) = map_option (group_name \<circ> bare) (recs s a)"
    "map_option (group_id \<circ> bare) (recs t a) = map_option (group_id \<circ> bare) (recs s a)"
    by (simp_all add: option.map_comp [symmetric] e)
  then show "map_option group_name (recs t a) = map_option group_name (recs s a)"
    "map_option group_id (recs t a) = map_option group_id (recs s a)" by (simp_all add: bare_def comp_def)
qed

text \<open>\<open>lookup_name\<close> depends on the table and the names of the records only.\<close>

lemma lookup_name_names:
  assumes "name_hash_table t = name_hash_table s" "\<And>a. map_option group_name (recs t a) = map_option group_name (recs s a)"
  shows "lookup_name t name = lookup_name s name"
proof -
  have "probe_name n t name h i = probe_name n s name h i" for n h i
  proof (induction n arbitrary: i)
    case (Suc n)
    show ?case
    proof (cases "name_hash_table s ! i")
      case (Some a)
      then show ?thesis using Suc assms(2) [of a] by (cases "recs s a"; cases "recs t a") (auto simp: assms(1) rec_at_def Let_def)
    qed (simp add: assms(1))
  qed simp
  then show ?thesis unfolding lookup_name_def assms(1) by simp
qed

lemma cas_inv_delete:
  assumes inv: "cas_inv s" and a: "recs s a = Some r" "a \<in> id_entries s"
    and t: "recs t = recs s \<or> recs t = (recs s)(a := None)" "next_addr t = next_addr s"
      "group_id_map t = (group_id_map s)(unat (group_id r) := None)"
      "ptrs (name_hash_table s) = add_mset (Some a) (ptrs (name_hash_table t))"
  shows "cas_inv t"
proof -
  have ids: "\<exists>r. recs s b = Some r \<and> unat (group_id r) = i" if "i < GROUP_ID_MAX" "group_id_map s i = Some b" for i b
    using inv that by (simp add: cas_inv_def ids_ok_def)
  have at: "group_id_map s (unat (group_id r)) = Some a" using a ids unfolding id_entries_def by force
  have other: "i = unat (group_id r)" if "i < GROUP_ID_MAX" "group_id_map s i = Some a" for i
    using ids [OF that] a(1) by simp
  have entries: "id_entries t = id_entries s - {a}"
    unfolding id_entries_def t(3) using other at by (auto simp: fun_upd_apply) (metis option.inject)
  have "ids_ok t"
    unfolding ids_ok_def
  proof (intro allI impI)
    fix i b assume i: "i < GROUP_ID_MAX" "group_id_map t i = Some b"
    then have s: "group_id_map s i = Some b" using t(3) by (auto simp: fun_upd_apply split: if_splits)
    then have "b \<noteq> a" using i other t(3) by auto
    then show "\<exists>r. recs t b = Some r \<and> unat (group_id r) = i" using ids [OF i(1) s] t(1) by auto
  qed
  moreover have "count (ptrs (name_hash_table t)) (Some b) \<le> (if b \<in> id_entries t then 1 else 0)" for b
  proof -
    have "count (ptrs (name_hash_table s)) (Some b) \<le> (if b \<in> id_entries s then 1 else 0)" using inv by (simp add: cas_inv_def)
    then show ?thesis unfolding entries t(4) by (auto split: if_splits)
  qed
  moreover have "dom (recs t) \<subseteq> dom (recs s)" "\<forall>a r. recs t a = Some r \<longrightarrow> record_ok r"
    using inv t(1) by (auto simp: cas_inv_def split: if_splits)
  moreover have "dom (recs s) \<subseteq> {..<next_addr t}" using inv t(2) by (simp add: cas_inv_def)
  ultimately show ?thesis by (auto simp: cas_inv_def)
qed

section \<open>Every request keeps the invariant\<close>

lemma cas_delete_group_inv:
  assumes h: "cas_delete_group k port name s = Inr (ret, s')" and inv: "cas_inv s"
  shows "cas_inv s'"
proof (cases "s' = s")
  case False
  then obtain a d s1 s2 s3 s4 where
      a: "lookup_name s (to_lower name) = Inr (Some a)" "rec_at s (Some a) = Inr d"
    and s1: "drop_all (loop_bound memberships d) memberships drop_member (Some a) 0 s = Inr s1"
    and s2: "drop_all (loop_bound members d) members drop_membership (Some a) 0 s1 = Inr s2"
    and s3: "delete_name k (group_name d) s2 = Inr s3" and s4: "set_id_map (group_id d) None s3 = Inr s4"
    and s': "save_database k (let (kr, s) = vm_deallocate k s4 in if kr = 0 then vm_deallocate_record (Some a) s else s) = Inr s'"
    using h unfolding cas_delete_group_def Let_def by (auto elim!: bindE_InrE split: if_split_asm prod.split_asm)
  have d: "recs s a = Some d" "group_name d = to_lower name" "Some a \<in># ptrs (name_hash_table s)"
    using lookup_name_found [OF a(1)] a(2) by (auto simp: rec_at_Inr)
  have "lists_only s s1" by (rule drop_all_keeps [OF _ s1, where P = "lists_only s"]) (auto dest: drop_lists intro: lists_only_trans)
  moreover have "lists_only s1 s2" by (rule drop_all_keeps [OF _ s2, where P = "lists_only s1"]) (auto dest: drop_lists intro: lists_only_trans)
  ultimately have l: "lists_only s s2" by (rule lists_only_trans)
  have inv1: "cas_inv s1" by (rule drop_all_keeps [OF _ s1, where P = cas_inv]) (auto simp: inv intro: drop_member_inv)
  have inv2: "cas_inv s2" by (rule drop_all_keeps [OF _ s2, where P = cas_inv]) (auto simp: inv1 intro: drop_membership_inv)
  obtain r where r: "recs s2 a = Some r" "group_id r = group_id d"
    using lists_only_rec(2) [OF l, of a] d(1) by auto
  have "lookup_name s2 (group_name d) = Inr (Some a)"
    using lookup_name_names [of s2 s] lists_only_fields(2) [OF l] lists_only_rec(1) [OF l] a(1) d(2) by simp
  note del = delete_name_ptrs [OF this s3]
  have "a \<in> id_entries s" using inv d(3) unfolding cas_inv_def by (metis count_greater_zero_iff less_le_not_le)
  then have e: "a \<in> id_entries s2" using lists_only_fields(1) [OF l] by (simp add: id_entries_def)
  define t where "t = (let (kr, s) = vm_deallocate k s4 in if kr = 0 then vm_deallocate_record (Some a) s else s)"
  have s4': "s4 = s3\<lparr>group_id_map := (group_id_map s2)(unat (group_id r) := None)\<rparr>"
    using s4 del(1) r(2) by (simp add: set_id_map_Inr outside_def)
  have t: "recs t = recs s2 \<or> recs t = (recs s2)(a := None)" "next_addr t = next_addr s2"
      "group_id_map t = (group_id_map s2)(unat (group_id r) := None)" "name_hash_table t = name_hash_table s3"
    using del(1) unfolding t_def s4' outside_def vm_deallocate_def Let_def split_def vm_deallocate_record_def by simp_all
  then have "cas_inv t" using del(2) by (intro cas_inv_delete [OF inv2 r(1) e t(1-3)]) simp
  then show ?thesis using s' unfolding t_def by (rule save_database_inv [rotated])
qed (use inv in simp)

lemma open_session_inv [cas_keep]: "open_session k p port s = Inr (ret, s') \<Longrightarrow> cas_inv s \<Longrightarrow> cas_inv s'"
proof -
  assume h: "open_session k p port s = Inr (ret, s')" "cas_inv s"
  obtain r ids s1 s2 where r: "rec_at s p = Inr r"
    and s1: "do_transitive_closure k p True (if 0 < length (tr_memberships r) then snd (vm_deallocate k s) else s) = Inr (ids, s1)"
    and s2: "upd_rec (\<lambda>r. r\<lparr>tr_memberships := ids\<rparr>) p s1 = Inr s2" and s': "map_private port p s2 = Inr s'"
    using h(1) unfolding open_session_def Let_def by (auto simp: fault_simps)
  have "cas_inv s1" by (rule do_transitive_closure_inv [OF s1]) (use h(2) in simp)
  then have "cas_inv s2" by (rule upd_rec_inv [OF s2]) (simp_all add: record_ok_def)
  then show ?thesis using s' by (auto simp: map_private_def fault_simps)
qed

lemma free_token_core: "core (snd (free_token k i s)) = core s"
  by (simp add: free_token_def clear_reg_def vm_deallocate_def)

lemma logout_tokens_core: "core (fold (logout_token k port) is s) = core s"
  by (induction "is" arbitrary: s) (simp_all add: logout_token_def free_token_core)

lemma cas_logout_inv [cas_keep]:
  assumes "cas_logout k port s = Inr (ret, s')" "cas_inv s"
  shows "cas_inv s'"
proof (cases "s' = s")
  case False
  then obtain i p r s1 where s1: "upd_rec (\<lambda>r. r\<lparr>tr_memberships := []\<rparr>) p
      (snd (vm_deallocate k (s\<lparr>priv_port_map := (priv_port_map s)(i := \<lparr>p_mapped_port = MACH_PORT_NULL, p_group_record_ptr = None\<rparr>)\<rparr>))) = Inr s1"
    and s': "s' = fold (logout_token k port) [0..<PORT_MAP_MAX] s1"
    using assms(1) unfolding cas_logout_def Let_def by (auto simp: fault_simps simp del: upt.simps split: if_splits)
  have "cas_inv s1" by (rule upd_rec_inv [OF s1]) (use assms(2) in \<open>simp_all add: record_ok_def\<close>)
  then show ?thesis using core_inv [OF logout_tokens_core] s' by blast
qed (use assms in simp)

lemma cas_delete_token_inv [cas_keep]: "cas_delete_token k junk port token s = Inr (ret, s') \<Longrightarrow> cas_inv s \<Longrightarrow> cas_inv s'"
  using core_inv [OF free_token_core [of k _ s]]
  by (auto simp: cas_delete_token_def split_def Let_def elim!: bindE_InrE split: if_split_asm)

lemma cas_register_token_inv: "cas_register_token k port ids token c s = Inr (ret, s') \<Longrightarrow> cas_inv s \<Longrightarrow> cas_inv s'"
  unfolding cas_register_token_def
  by (auto simp: Let_def set_reg_ids_def vm_deallocate_def vm_allocate_def elim!: bindE_InrE split: if_split_asm
      dest!: check_restriction_inv)

lemma cas_login_inv:
  "cas_login k name pw port s = Inr (ret, s') \<Longrightarrow> cas_inv s \<Longrightarrow> cas_inv s'"
  "cas_login_priv k port uid new_port s = Inr (ret, s') \<Longrightarrow> cas_inv s \<Longrightarrow> cas_inv s'"
  "cas_login_create k port ids new_port s = Inr (ret, s') \<Longrightarrow> cas_inv s \<Longrightarrow> cas_inv s'"
  by (auto simp: cas_login_def cas_login_priv_def cas_login_create_def Let_def fault_simps split: if_splits
      dest!: find_or_create_inv dest: open_session_inv)

lemma list_groups_inv: "list_groups m k name c s = Inr (ret, ids, s') \<Longrightarrow> cas_inv s \<Longrightarrow> cas_inv s'"
  by (auto simp: list_groups_def vm_allocate_def Let_def fault_simps split: if_splits dest: do_transitive_closure_inv)

lemma cas_create_group_inv:
  "cas_create_group k port name gtype full pw owner gid s = Inr (ret, gid', s') \<Longrightarrow> cas_inv s \<Longrightarrow> cas_inv s'"
  by (auto simp: cas_create_group_def elim!: bindE_InrE split: if_split_asm sum.split_asm dest!: choose_id_free make_group_inv)

lemma cas_change_inv:
  "cas_change_owner k port name owner s = Inr (ret, s') \<Longrightarrow> cas_inv s \<Longrightarrow> cas_inv s'"
  "cas_change_password k port name old_pw new_pw s = Inr (ret, s') \<Longrightarrow> cas_inv s \<Longrightarrow> cas_inv s'"
  by (auto simp: cas_change_owner_def cas_change_password_def fault_simps split: if_splits elim!: save_database_inv upd_rec_inv)
    (simp_all add: record_ok_def)

lemma add_inv: "add_member p i s = Inr s' \<Longrightarrow> cas_inv s \<Longrightarrow> cas_inv s'" "add_membership p i s = Inr s' \<Longrightarrow> cas_inv s \<Longrightarrow> cas_inv s'"
  by (auto simp: add_member_def add_membership_def append_id_def fault_simps split: if_splits elim!: upd_rec_inv)
    (simp_all add: record_ok_def)

lemma cas_members_inv:
  "cas_add_to_group k port name add s = Inr (ret, s') \<Longrightarrow> cas_inv s \<Longrightarrow> cas_inv s'"
  "cas_remove_from_group k port name rem s = Inr (ret, s') \<Longrightarrow> cas_inv s \<Longrightarrow> cas_inv s'"
  by (auto simp: cas_add_to_group_def cas_remove_from_group_def fault_simps split: if_splits dest!: add_inv elim!: save_database_inv upd_rec_inv)
    (simp_all add: record_ok_def order_trans [OF delete_from_list_mset(2)])

lemma cas_verify_token_names_inv: "cas_verify_token_names k token s = Inr (ret, user, names, s') \<Longrightarrow> cas_inv s \<Longrightarrow> cas_inv s'"
  by (auto simp: cas_verify_token_names_def vm_allocate_def Let_def fault_simps split: if_splits)

lemma cas_list_all_groups_inv: "cas_list_all_groups k s = Inr (ret, ids, s') \<Longrightarrow> cas_inv s \<Longrightarrow> cas_inv s'"
  by (auto simp: cas_list_all_groups_def vm_allocate_def Let_def fault_simps simp del: upt.simps split: if_splits)

lemma cas_handle_port_death_inv: "cas_handle_port_death k junk port s = Inr s' \<Longrightarrow> cas_inv s \<Longrightarrow> cas_inv s'"
  by (auto simp: cas_handle_port_death_def fault_simps split: if_splits dest: cas_logout_inv cas_delete_token_inv)

lemma cas_serve_inv: "cas_serve k junk q s = Inr (reply, s') \<Longrightarrow> cas_inv s \<Longrightarrow> cas_inv s'"
  by (cases q) (auto simp: return_of_def fault_simps cas_list_members_def cas_list_memberships_def
      dest: cas_login_inv cas_logout_inv cas_register_token_inv cas_delete_token_inv cas_verify_token_names_inv
        cas_create_group_inv cas_delete_group_inv cas_change_inv cas_members_inv list_groups_inv
        cas_list_all_groups_inv)

lemma clas_serve_inv: "clas_serve k junk q s = Inr (reply, s') \<Longrightarrow> cas_inv s \<Longrightarrow> cas_inv s'"
  by (auto simp: clas_serve_forward forward_def elim!: bindE_InrE dest!: cas_serve_inv split: if_split_asm option.split_asm)

lemma cas_main_inv: "cas_main k junk stack_port m s = Inr (reply, s') \<Longrightarrow> cas_inv s \<Longrightarrow> cas_inv s'"
  by (cases m) (auto elim!: bindE_InrE dest: cas_serve_inv clas_serve_inv cas_handle_port_death_inv)

interpretation cas: service "cas_main k junk stack_port" cas_inv for k junk stack_port
  by unfold_locales (rule cas_main_inv)

section \<open>The state after startup\<close>

lemma cas_inv_static: "cas_inv (static_state db)"
  by (simp add: cas_inv_def ids_ok_def static_state_def ptrs_def)

lemma cas_utils_init_inv': "cas_utils_init k (static_state db) = (ok, s) \<Longrightarrow> cas_inv s \<and> ptrs (name_hash_table s) = {#}"
  by (cases "vm_allocate_ok k 0")
    (auto simp: cas_utils_init_def vm_allocate_def static_state_def cas_inv_def ids_ok_def ptrs_def)

lemma scan_ids_bound: "scan_ids n ids cp = Inr (ids', cp') \<Longrightarrow> length ids \<le> MEMBERS_MAX \<Longrightarrow> length ids' \<le> MEMBERS_MAX"
  by (induction n arbitrary: ids cp) (fastforce elim!: bindE_InrE split: if_split_asm)+

lemma parse_line_ok: "parse_line cp = Inr r \<Longrightarrow> record_ok r"
  unfolding parse_line_def Let_def record_ok_def
  by (auto elim!: bindE_InrE dest!: scan_ids_bound split: if_split_asm)

text \<open>While the lines are read the name table is empty, so only the id map and the records matter.\<close>

lemma read_group_inv:
  assumes h: "read_group k cp s = Inr (ok, s')" and inv: "cas_inv s" "ptrs (name_hash_table s) = {#}"
  shows "cas_inv s'" "ptrs (name_hash_table s') = {#}"
proof -
  have "cas_inv s' \<and> ptrs (name_hash_table s') = {#}"
  proof (cases "vm_allocate_ok k (calls s)")
    case False
    then show ?thesis using h inv by (auto simp: read_group_def vm_allocate_record_def)
  next
    case True
    then obtain r where r: "parse_line cp = Inr r" "unat (group_id r) < GROUP_ID_MAX"
      and s': "s' = s\<lparr>calls := Suc (calls s), next_addr := Suc (next_addr s),
        group_id_map := (group_id_map s)(unat (group_id r) := Some (next_addr s)), recs := (recs s)(next_addr s \<mapsto> r)\<rparr>"
      using h by (auto simp: read_group_def vm_allocate_record_def set_id_map_Inr elim!: bindE_InrE)
    have fresh: "recs s (next_addr s) = None" using inv(1) by (auto simp: cas_inv_def)
    have "ids_ok s'"
      using inv(1) fresh unfolding s' cas_inv_def ids_ok_def by (auto simp: fun_upd_apply)
    moreover have "\<forall>a r. recs s' a = Some r \<longrightarrow> record_ok r"
      using inv(1) parse_line_ok [OF r(1)] by (auto simp: s' cas_inv_def split: if_splits)
    moreover have "dom (recs s') \<subseteq> {..<next_addr s'}" using inv(1) by (auto simp: s' cas_inv_def)
    ultimately show ?thesis using inv(2) by (simp add: cas_inv_def) (simp add: s')
  qed
  then show "cas_inv s'" "ptrs (name_hash_table s') = {#}" by simp_all
qed

lemma read_lines_inv:
  "read_lines k buffer db s = Inr (ok, s') \<Longrightarrow> cas_inv s \<Longrightarrow> ptrs (name_hash_table s) = {#} \<Longrightarrow>
    cas_inv s' \<and> ptrs (name_hash_table s') = {#}"
proof (induction k buffer db s rule: read_lines.induct)
  case (1 k buffer db s)
  show ?case
  proof (cases "db = []")
    case True
    then show ?thesis using "1.prems" by (subst (asm) read_lines.simps) simp
  next
    case False
    obtain line rest where f: "fgets (INPUT_LINE_MAX - 1) db = (line, rest)" by fastforce
    let ?b = "load_line line buffer"
    show ?thesis
    proof (cases "hd ?b = 35")
      case True
      then have "read_lines k ?b rest s = Inr (ok, s')"
        using "1.prems"(1) False f by (subst (asm) read_lines.simps) (simp add: Let_def)
      then show ?thesis using "1.IH"(1) [OF False f [symmetric] refl refl True] "1.prems"(2,3) by blast
    next
      case c: False
      obtain ok1 s1 where g: "read_group k ?b s = Inr (ok1, s1)"
          "(if ok1 then read_lines k ?b rest s1 else Inr (False, s1)) = Inr (ok, s')"
        using "1.prems"(1) False f c by (subst (asm) read_lines.simps) (auto simp: Let_def split: sum.split_asm prod.split_asm)
      note one = read_group_inv [OF g(1) "1.prems"(2,3)]
      show ?thesis
      proof (cases ok1)
        case True
        then show ?thesis using "1.IH"(2) [OF False f [symmetric] refl refl c g(1) refl True] one g(2) by simp
      qed (use one g(2) in simp)
    qed
  qed
qed

text \<open>Entering the names of the ids below \<open>n\<close>: the table then holds just the records of these ids.\<close>

lemma enter_ids:
  assumes inv: "cas_inv s" "ptrs (name_hash_table s) = {#}"
  shows "n \<le> GROUP_ID_MAX \<Longrightarrow> foldE (enter_id k) [0..<n] s = Inr s' \<Longrightarrow> outside s s' \<and>
    (\<forall>a. count (ptrs (name_hash_table s')) (Some a) \<le> (if \<exists>i < n. group_id_map s i = Some a then 1 else 0))"
proof (induction n arbitrary: s')
  case 0
  then show ?case using inv by simp
next
  case (Suc n)
  then obtain s1 where s1: "foldE (enter_id k) [0..<n] s = Inr s1" "enter_id k n s1 = Inr s'"
    by (auto simp: foldE_append elim!: bindE_InrE)
  have IH: "outside s s1" "\<And>a. count (ptrs (name_hash_table s1)) (Some a) \<le> (if \<exists>i < n. group_id_map s i = Some a then 1 else 0)"
    using Suc.IH [OF _ s1(1)] Suc.prems(1) by auto
  have map: "group_id_map s1 = group_id_map s" using IH(1) by (simp add: outside_def)
  have mono: "(\<exists>i < Suc n. group_id_map s i = Some a) \<longleftrightarrow> group_id_map s n = Some a \<or> (\<exists>i < n. group_id_map s i = Some a)" for a
    by (auto simp: less_Suc_eq)
  show ?case
  proof (cases "group_id_map s n")
    case None
    then have "s' = s1" using s1(2) map by (simp add: enter_id_def)
    then show ?thesis using IH None unfolding mono by simp
  next
    case (Some b)
    then have e: "enter_name k (Some b) s1 = Inr s'" using s1(2) map by (simp add: enter_id_def)
    have "\<exists>r. recs s b = Some r \<and> unat (group_id r) = i" if "i \<le> n" "group_id_map s i = Some b" for i
      using inv(1) that Suc.prems(1) by (simp add: cas_inv_def ids_ok_def)
    then have "\<not> (\<exists>i < n. group_id_map s i = Some b)" using Some by (metis less_le nat_less_le option.inject order_refl)
    then have "count (ptrs (name_hash_table s1)) (Some b) = 0" using IH(2) [of b] by (simp only: if_False le_zero_eq)
    then have "count (ptrs (name_hash_table s')) (Some a) \<le> (if \<exists>i < Suc n. group_id_map s i = Some a then 1 else 0)" for a
      using IH(2) [of a] enter_name_ptrs(2) [OF e] Some unfolding mono by (cases "a = b") auto
    then show ?thesis using outside_trans [OF IH(1) enter_name_ptrs(1) [OF e]] by blast
  qed
qed

lemma cas_init_inv:
  assumes "cas_init k buffer ports_ok (static_state db) = Inr (True, s')"
  shows "cas_inv s'"
proof -
  obtain ok s where s: "cas_utils_init k (static_state db) = (ok, s)" by fastforce
  note start = cas_utils_init_inv' [OF s]
  obtain cs s1 where r: "read_lines k buffer cs (s\<lparr>calls := Suc (calls s)\<rparr>) = Inr (True, s1)"
      "foldE (enter_id k) [0..<GROUP_ID_MAX] s1 = Inr s'"
    using assms s by (auto simp: cas_init_def read_database_def simp del: upt.simps elim!: bindE_InrE split: if_split_asm option.split_asm)
  have s1: "cas_inv s1" "ptrs (name_hash_table s1) = {#}" using read_lines_inv [OF r(1)] start by auto
  have "outside s1 s'" "\<And>a. count (ptrs (name_hash_table s')) (Some a) \<le> (if a \<in> id_entries s1 then 1 else 0)"
    using enter_ids [OF s1 order_refl r(2)] unfolding id_entries_def by auto
  then show ?thesis using s1(1) unfolding cas_inv_def outside_def ids_ok_def id_entries_def by simp
qed

text \<open>
  C2. Once \<open>cas_init\<close> has succeeded, whatever database it read, the server's tables stay consistent
  for as long as it runs: after any sequence of messages that it answers, the id map points to
  live records with their own id, the name table holds no pointer twice and none that the id map
  does not hold, no record is allocated twice and all lists fit their arrays.
\<close>

theorem cas_server_invariant:
  assumes "cas_init k buffer ports_ok (static_state db) = Inr (True, s)"
    and "serve_all (cas_main k junk stack_port) ms s = Inr (replies, s')"
  shows "cas_inv s' \<and> length replies = length ms"
  using cas.all_keep [OF assms(2) cas_init_inv [OF assms(1)]] cas.replies [OF assms(2)] by blast

lemma enter_ids_none: "(\<And>i. i \<in> set is \<Longrightarrow> group_id_map s i = None) \<Longrightarrow> foldE (enter_id k) is s = Inr s"
  by (induction "is") (simp_all add: enter_id_def)

definition empty_server :: cas_state where
  "empty_server = (static_state (Some []))\<lparr>name_hash_table := replicate 32 None, calls := 2\<rparr>"

lemma empty_server_init: "cas_init ready_kernel [] True (static_state (Some [])) = Inr (True, empty_server)"
proof -
  have "cas_utils_init ready_kernel (static_state (Some []))
    = (True, (static_state (Some []))\<lparr>calls := 1, name_hash_table := replicate 32 None\<rparr>)"
    by (simp add: cas_utils_init_def vm_allocate_def ready_kernel_def static_state_def INIT_NAME_HASH_TABLE_SIZE_def)
  moreover have "foldE (enter_id ready_kernel) [0..<GROUP_ID_MAX] empty_server = Inr empty_server"
    by (rule enter_ids_none) (simp add: empty_server_def static_state_def)
  ultimately show ?thesis
    by (simp add: cas_init_def read_database_def read_lines.simps ready_kernel_def static_state_def empty_server_def eval_nat_numeral del: upt.simps)
qed

theorem cas_server_invariant_witness:
  "\<exists>s'. serve_all (cas_main ready_kernel 0 0) [Request (Translate_Group_Name (ascii ''Root'')), Stray] empty_server
      = Inr ([Some (Name_Info AS_BAD_GROUP NULL_ID NULL_ID None []), None], s') \<and> cas_inv s'"
proof -
  have "lookup_name empty_server (to_lower (ascii ''Root'')) = Inr None" by code_simp
  then have "serve_all (cas_main ready_kernel 0 0) [Request (Translate_Group_Name (ascii ''Root'')), Stray] empty_server
      = Inr ([Some (Name_Info AS_BAD_GROUP NULL_ID NULL_ID None []), None], empty_server)"
    by (simp add: cas_translate_group_name_def)
  then show ?thesis using cas_server_invariant [OF empty_server_init] by blast
qed

end
