(* ===== verification/Cas_Behaviour.thy ===== *)
theory Cas_Behaviour
  imports Cas_Invariant
begin

text \<open>
  What the requests of the central authentication server achieve: a login with the right password
  opens a session with the closure of the user's memberships, a registered token verifies to the
  identity it was registered with, a logout revokes every token of the session.
\<close>

section \<open>Logging in\<close>

lemma priv_ports_set:
  "priv_ports (s\<lparr>priv_port_map := (priv_port_map s)(i := \<lparr>p_mapped_port = port, p_group_record_ptr = p\<rparr>)\<rparr>) = (priv_ports s)(i := port)"
  by auto

lemma map_private_record:
  assumes "port \<noteq> MACH_PORT_NULL" "map_private port p s = Inr s'"
  shows "private_record s' port = Inr p"
proof -
  obtain i where i: "HASH_PORT port (priv_ports s) = Inr i"
      "s' = s\<lparr>priv_port_map := (priv_port_map s)(i := \<lparr>p_mapped_port = port, p_group_record_ptr = p\<rparr>)\<rparr>"
    using assms(2) by (auto simp: map_private_def elim!: bindE_InrE)
  have "HASH_PORT port (priv_ports s') = Inr i" unfolding i(2) priv_ports_set by (rule port_map.search_set [OF i(1)])
  then show ?thesis using assms(1) i(2) by (simp add: private_record_def)
qed

definition port_free :: "u32 \<Rightarrow> (nat \<Rightarrow> u32) \<Rightarrow> bool" where
  "port_free port mp \<longleftrightarrow> (\<exists>i < PORT_MAP_MAX. mp i = port \<or> mp i = MACH_PORT_NULL)"

lemma open_session_succeeds:
  assumes ok: "ids_ok s" "lists_ok s" and r: "recs s a = Some r" and alloc: "\<And>n. vm_allocate_ok k n"
    and port: "port \<noteq> MACH_PORT_NULL" "port_free port (priv_ports s)"
  shows "\<exists>s' r'. open_session k (Some a) port s = Inr (AS_SUCCESS, s') \<and> private_record s' port = Inr (Some a) \<and>
    recs s' a = Some r' \<and> tr_memberships r' = closure_ids True s r \<and> group_id r' = group_id r \<and> reg_port_map s' = reg_port_map s"
proof -
  obtain c where c: "(if 0 < length (tr_memberships r) then snd (vm_deallocate k s) else s) = s\<lparr>calls := c\<rparr>"
  proof (cases "0 < length (tr_memberships r)")
    case False
    then show thesis using that [of "calls s"] by simp
  qed (use that in \<open>simp add: vm_deallocate_def\<close>)
  let ?t = "s\<lparr>calls := c\<rparr>" and ?ids = "closure_ids True s r"
  have "group_graph True ?t = group_graph True s" by (rule ext) (simp add: group_graph_def split: option.split)
  then have ids: "closure_ids True ?t r = ?ids" by (simp add: closure_ids_def)
  have okt: "ids_ok ?t" "lists_ok ?t" "recs ?t a = Some r" using ok r by (simp_all add: lists_ok_def)
  let ?u = "(marks s ?ids)\<lparr>calls := Suc c\<rparr>"
  have closure: "do_transitive_closure k (Some a) True ?t = Inr (?ids, ?u)"
    using do_transitive_closure_eq [OF okt alloc, of True] ids by simp
  obtain r1 where r1: "recs ?u a = Some r1" "group_id r1 = group_id r" using marks_rec [OF r] by simp
  let ?v = "?u\<lparr>recs := (recs ?u)(a \<mapsto> r1\<lparr>tr_memberships := ?ids\<rparr>)\<rparr>"
  have upd: "upd_rec (\<lambda>r. r\<lparr>tr_memberships := ?ids\<rparr>) (Some a) ?u = Inr ?v" using r1 by (simp add: upd_rec_def)
  have "priv_ports ?v = priv_ports s" by simp
  then obtain i where "HASH_PORT port (priv_ports ?v) = Inr i" using port(2) HASH_PORT_total unfolding port_free_def by metis
  then obtain s' where s': "map_private port (Some a) ?v = Inr s'" by (simp add: map_private_def)
  have "open_session k (Some a) port s = Inr (AS_SUCCESS, s')"
    unfolding open_session_def using r c closure upd s' by (simp add: rec_at_def Let_def)
  moreover have "recs s' = recs ?v" "reg_port_map s' = reg_port_map s" using s' by (auto simp: map_private_def elim!: bindE_InrE)
  ultimately show ?thesis using map_private_record [OF port(1) s'] r1(2) by auto
qed

lemma login_runs:
  assumes "ids_ok s" "lists_ok s" "lookup_name s (to_lower name) = Inr (Some a)" "recs s a = Some r"
    and "group_type r = AS_PRIMARY" "encrypt_password pw = Inr pw'" "PW_EQUAL pw' (pass_word r)"
    and "\<And>n. vm_allocate_ok k n" "port \<noteq> MACH_PORT_NULL" "port_free port (priv_ports s)"
  shows "\<exists>s' r'. cas_login k name pw port s = Inr (AS_SUCCESS, s') \<and> private_record s' port = Inr (Some a) \<and>
    recs s' a = Some r' \<and> distinct (tr_memberships r') \<and> set (tr_memberships r') = reach (group_graph True s) (memberships r) \<and>
    group_id r' = group_id r \<and> reg_port_map s' = reg_port_map s"
proof -
  have "cas_login k name pw port s = open_session k (Some a) port s"
    using assms by (simp add: cas_login_def rec_at_def)
  then show ?thesis
    using open_session_succeeds [OF assms(1,2,4,8,9,10)] closure_ids_reach [of True s r] by (auto simp: group_list_def)
qed

text \<open>
  C25. A login with the right password succeeds: in a state with well-formed tables and a free slot
  for the port, with memory available, \<open>cas_login\<close> on the name and the password of a primary group
  returns success, the private port then leads to the record of the group, and that record
  carries the transitive closure of its memberships, each group once.
\<close>

theorem cas_login_succeeds:
  assumes "ids_ok s" "lists_ok s" "lookup_name s (to_lower name) = Inr (Some a)" "recs s a = Some r"
    and "group_type r = AS_PRIMARY" "encrypt_password pw = Inr pw'" "PW_EQUAL pw' (pass_word r)"
    and "\<And>n. vm_allocate_ok k n" "port \<noteq> MACH_PORT_NULL" "port_free port (priv_ports s)"
  shows "\<exists>s' r'. cas_login k name pw port s = Inr (AS_SUCCESS, s') \<and> private_record s' port = Inr (Some a) \<and>
    recs s' a = Some r' \<and> distinct (tr_memberships r') \<and>
    set (tr_memberships r') = reach (group_graph True s) (memberships r)"
  using login_runs [OF assms] by blast

text \<open>A server with one user, whose password is the one given.\<close>

definition user_state :: "u8 list \<Rightarrow> cas_state" where
  "user_state pw = (demo_state ((replicate 32 None)[4 := Some 0]))\<lparr>recs := [0 \<mapsto> demo_record\<lparr>pass_word := pw\<rparr>], next_addr := 1,
     group_id_map := (\<lambda>i. if i = 1 then Some 0 else None)\<rparr>"

definition demo_password :: "u8 list" where
  "demo_password = ascii ''secret'' @ replicate 10 0"

lemma demo_password_encrypted: "\<exists>pw. encrypt_password demo_password = Inr pw"
proof -
  have "0 \<in> set demo_password" by (simp add: demo_password_def)
  then show ?thesis using strlen_total encrypt_password_cipher by blast
qed

lemma user_state_ok: "ids_ok (user_state pw)" "lists_ok (user_state pw)"
    "lookup_name (user_state pw) (to_lower (ascii ''Root'')) = Inr (Some 0)" "port_free port (priv_ports (user_state pw))"
proof -
  show "ids_ok (user_state pw)" "lists_ok (user_state pw)"
    by (auto simp: ids_ok_def lists_ok_def user_state_def demo_record_def zero_record_def split: if_splits)
  have n: "to_lower (ascii ''Root'') = ascii ''root''" by code_simp
  have "lookup_name (user_state pw) (ascii ''root'') = lookup_name (demo_state ((replicate 32 None)[4 := Some 0])) (ascii ''root'')"
    by (rule lookup_name_names) (simp_all add: user_state_def demo_state_def)
  also have "\<dots> = Inr (Some 0)" by (rule lookup_name_bound [OF demo_full(1) demo_name(1) demo_full(2)])
  finally show "lookup_name (user_state pw) (to_lower (ascii ''Root'')) = Inr (Some 0)" by (simp add: n)
  show "port_free port (priv_ports (user_state pw))"
    unfolding port_free_def
    by (rule exI [of _ 0]) (simp add: user_state_def demo_state_def static_state_def empty_priv_def PORT_MAP_MAX_def)
qed

lemma user_login:
  assumes "encrypt_password demo_password = Inr pw"
  shows "\<exists>s'. cas_login ready_kernel (ascii ''Root'') demo_password 7 (user_state pw) = Inr (AS_SUCCESS, s')
    \<and> private_record s' 7 = Inr (Some 0)"
proof -
  have r: "recs (user_state pw) 0 = Some (demo_record\<lparr>pass_word := pw\<rparr>)" by (simp add: user_state_def)
  have "cas_login ready_kernel (ascii ''Root'') demo_password 7 (user_state pw) = open_session ready_kernel (Some 0) 7 (user_state pw)"
    using user_state_ok(3) [of pw] r assms
    by (simp add: cas_login_def rec_at_def PW_EQUAL_def list_all_iff demo_record_def zero_record_def AS_PRIMARY_def)
  then show ?thesis
    using open_session_succeeds [OF user_state_ok(1,2) r _ _ user_state_ok(4), of ready_kernel 7]
    by (auto simp: ready_kernel_def MACH_PORT_NULL_def)
qed

lemma user_state_inv: "cas_inv (user_state pw)"
proof -
  have "ptrs (name_hash_table (user_state pw)) = {#Some 0#}"
    by (simp add: user_state_def demo_state_def) (simp add: ptrs_fill, simp add: ptrs_def)
  moreover have "id_entries (user_state pw) = {0}"
    by (auto simp: id_entries_def user_state_def GROUP_ID_MAX_def split: if_splits intro: exI [of _ 1])
  ultimately show ?thesis
    using user_state_ok(1) [of pw]
    by (auto simp: cas_inv_def record_ok_def user_state_def demo_record_def zero_record_def split: if_splits)
qed

theorem cas_login_succeeds_witness:
  "\<exists>pw s'. cas_login ready_kernel (ascii ''Root'') demo_password 7 (user_state pw) = Inr (AS_SUCCESS, s')
    \<and> private_record s' 7 = Inr (Some 0)"
proof -
  obtain pw where pw: "encrypt_password demo_password = Inr pw" using demo_password_encrypted by blast
  have r: "recs (user_state pw) 0 = Some (demo_record\<lparr>pass_word := pw\<rparr>)" by (simp add: user_state_def)
  show ?thesis
    using cas_login_succeeds [OF user_state_ok(1-3) r _ pw, of ready_kernel 7] user_state_ok(4)
    by (auto simp: demo_record_def zero_record_def PW_EQUAL_def list_all_iff ready_kernel_def MACH_PORT_NULL_def AS_PRIMARY_def)
qed

section \<open>Tokens\<close>

lemma register_result:
  assumes "cas_register_token k port ids token create s = Inr (AS_SUCCESS, s')"
  shows "\<exists>c r. private_record s port = Inr (Some c) \<and> recs s' c = Some r \<and>
    cas_verify_token_ids token s' = Inr (AS_SUCCESS, group_id r, if ids = [] then tr_memberships r else ids)"
proof -
  obtain c s1 i r where c: "private_record s port = Inr (Some c)" "recs s1 c = Some r" "recs s' = recs s1"
    and i: "HASH_PORT token (reg_ports s1) = Inr i"
    and s': "reg_port_map s' = (reg_port_map s1)(i := \<lparr>r_mapped_port = token, r_private_port = port,
             r_group_ids = (if ids = [] then tr_memberships r else ids), r_user_id = group_id r\<rparr>)"
    using assms unfolding cas_register_token_def
    by (auto simp: Let_def vm_deallocate_def vm_allocate_def rec_at_Inr elim!: bindE_InrE split: if_split_asm)
  have "reg_ports s' = (reg_ports s1)(i := token)" unfolding s' by auto
  then have "HASH_PORT token (reg_ports s') = Inr i" using port_map.search_set [OF i] by simp
  then have "cas_verify_token_ids token s' = Inr (AS_SUCCESS, group_id r, if ids = [] then tr_memberships r else ids)"
    by (simp add: cas_verify_token_ids_def s' Let_def)
  then show ?thesis using c by auto
qed

text \<open>
  C26. A token verifies to what it was registered with: after \<open>cas_register_token\<close> has succeeded,
  \<open>cas_verify_token_ids\<close> of the token returns the id of the user behind the private port and the
  groups asked for, or the closure of the user's memberships when none were.
\<close>

theorem register_verify_roundtrip:
  assumes "cas_register_token k port ids token create s = Inr (AS_SUCCESS, s')"
  shows "\<exists>c r. private_record s port = Inr (Some c) \<and> recs s' c = Some r \<and>
    cas_verify_token_ids token s' = Inr (AS_SUCCESS, group_id r, if ids = [] then tr_memberships r else ids)"
  by (rule register_result [OF assms])

text \<open>A session of the one user, with the given closure.\<close>

definition session_state :: "u32 \<Rightarrow> u32 list \<Rightarrow> cas_state" where
  "session_state gid tr = (demo_state [])\<lparr>recs := [0 \<mapsto> demo_record\<lparr>group_id := gid, tr_memberships := tr\<rparr>],
     priv_port_map := (\<lambda>_. empty_priv)(7 := \<lparr>p_mapped_port = 7, p_group_record_ptr = Some 0\<rparr>)\<rparr>"

lemma session_hash: "HASH_PORT 7 (priv_ports (session_state gid tr)) = Inr 7"
proof -
  have "port_home 7 = 7" by (simp add: port_home_def PORT_MAP_MAX_def)
  then show ?thesis by (simp add: HASH_PORT_def PORT_MAP_MAX_def session_state_def eval_nat_numeral)
qed

lemma session_record: "private_record (session_state gid tr) 7 = Inr (Some 0)"
  using session_hash [of gid tr] by (simp add: private_record_def MACH_PORT_NULL_def session_state_def)

lemma session_fields:
  "recs (session_state gid tr) 0 = Some (demo_record\<lparr>group_id := gid, tr_memberships := tr\<rparr>)"
  "port_free token (reg_ports (session_state gid tr))" "reg_port_map (session_state gid tr) = (\<lambda>_. empty_reg)"
  by (auto simp: session_state_def port_free_def demo_state_def static_state_def empty_reg_def PORT_MAP_MAX_def intro!: exI [of _ 0])

lemma register_runs:
  assumes "private_record s port = Inr (Some c)" "recs s c = Some r" "check_restriction k create ids r s = Inr (True, s)"
    and "ids \<noteq> [] \<or> tr_memberships r = []" "port_free token (reg_ports s)"
  shows "\<exists>s'. cas_register_token k port ids token create s = Inr (AS_SUCCESS, s') \<and> recs s' = recs s"
proof -
  obtain i where "HASH_PORT token (reg_ports s) = Inr i" using assms(5) HASH_PORT_total unfolding port_free_def by metis
  then show ?thesis using assms(1-4)
    by (auto simp: cas_register_token_def rec_at_def Let_def vm_deallocate_def split_def)
qed

theorem register_verify_roundtrip_witness:
  "\<exists>s'. cas_register_token ready_kernel 7 [] 9 False (session_state 1 []) = Inr (AS_SUCCESS, s')
    \<and> cas_verify_token_ids 9 s' = Inr (AS_SUCCESS, 1, [])"
proof -
  let ?s = "session_state 1 []"
  obtain s' where s': "cas_register_token ready_kernel 7 [] 9 False ?s = Inr (AS_SUCCESS, s')" "recs s' = recs ?s"
    using register_runs [OF session_record session_fields(1) _ _ session_fields(2), of ready_kernel False "[]" "[]" 1 9]
    by (auto simp: check_restriction_def)
  then show ?thesis
    using register_verify_roundtrip [OF s'(1)] session_record [of 1 "[]"] session_fields(1) [of 1 "[]"] by auto
qed

text \<open>
  The restriction of a token is not checked: a caller that is not an administrator and has a
  non-empty closure gets a token for any list of groups, whether it belongs to them or not,
  and the token verifies to these groups; with an empty closure the check follows a bad pointer.
\<close>

lemma register_token_unchecked:
  assumes "private_record s port = Inr (Some c)" "recs s c = Some r" "\<not> check_for_membership SYS_ADM_ID r"
    and "ids \<noteq> []" "port_free token (reg_ports s)"
  shows "if tr_memberships r = [] then cas_register_token k port ids token False s = Inl Bad_Address
    else \<exists>s'. cas_register_token k port ids token False s = Inr (AS_SUCCESS, s') \<and>
      cas_verify_token_ids token s' = Inr (AS_SUCCESS, group_id r, ids)"
proof (cases "tr_memberships r = []")
  case True
  then show ?thesis using assms(1-4) by (simp add: cas_register_token_def check_restriction_def rec_at_def)
next
  case False
  then have "check_restriction k False ids r s = Inr (True, s)" using assms(3,4) by (simp add: check_restriction_def)
  then obtain s' where "cas_register_token k port ids token False s = Inr (AS_SUCCESS, s')" "recs s' = recs s"
    using register_runs [OF assms(1,2) _ _ assms(5)] assms(4) by blast
  then show ?thesis using register_result [of k port ids token False s s'] assms(1,2,4) False by auto
qed

lemma register_token_unchecked_witness:
  "\<exists>s'. cas_register_token ready_kernel 7 [1, 5] 9 False (session_state 20 [30]) = Inr (AS_SUCCESS, s')
    \<and> cas_verify_token_ids 9 s' = Inr (AS_SUCCESS, 20, [1, 5])"
  using register_token_unchecked [OF session_record [of 20 "[30]"] session_fields(1) [of 20 "[30]"] _ _ session_fields(2) [of 9 20 "[30]"],
    of "[1, 5]" ready_kernel]
  by (auto simp: check_for_membership_iff SYS_ADM_ID_def)

text \<open>
  \<open>cas_delete_token\<close>, when it gets past the check of the private port, withdraws the token: it
  no longer verifies. The code it returns is the result of releasing the token's list, and is
  indeterminate for a token without a list.
\<close>

lemma delete_token_effect:
  assumes "cas_delete_token k junk port token s = Inr (ret, s')" "ret \<noteq> AS_BAD_PRIVATE_PORT" "token \<noteq> MACH_PORT_NULL"
  shows "cas_verify_token_ids token s' = Inr (AS_FAILURE, NULL_ID, []) \<and>
    (\<exists>i. HASH_PORT token (reg_ports s) = Inr i \<and>
      ret = kern_return (if r_group_ids (reg_port_map s i) = [] then junk else vm_deallocate_kr k (calls s)))"
proof -
  obtain i where i: "HASH_PORT token (reg_ports s) = Inr i" "(ret, s') = (case free_token k i s of (kr, s) \<Rightarrow> (kern_return (case kr of None \<Rightarrow> junk | Some kr \<Rightarrow> kr), s))"
    using assms(1,2) by (auto simp: cas_delete_token_def split_def Let_def elim!: bindE_InrE split: if_split_asm)
  have clear: "reg_ports s' = (reg_ports s)(i := MACH_PORT_NULL)"
    using i(2) by (auto simp: free_token_def clear_reg_def vm_deallocate_def split: if_split_asm)
  have "HASH_PORT token (reg_ports s') = Inr i" unfolding clear by (rule port_map.search_clear [OF i(1)])
  moreover have "reg_ports s' i = MACH_PORT_NULL" using fun_cong [OF clear, of i] by simp
  ultimately have "cas_verify_token_ids token s' = Inr (AS_FAILURE, NULL_ID, [])"
    using assms(3) by (simp add: cas_verify_token_ids_def Let_def)
  moreover have "ret = kern_return (if r_group_ids (reg_port_map s i) = [] then junk else vm_deallocate_kr k (calls s))"
    using i(2) by (simp add: free_token_def vm_deallocate_def split: if_split_asm)
  ultimately show ?thesis using i(1) by blast
qed

lemma delete_token_runs:
  assumes "private_record s port = Inr (Some c)" "HASH_PORT token (reg_ports s) = Inr i" "r_private_port (reg_port_map s i) = port"
  shows "\<exists>s'. cas_delete_token k junk port token s =
    Inr (kern_return (if r_group_ids (reg_port_map s i) = [] then junk else vm_deallocate_kr k (calls s)), s')"
  using assms by (auto simp: cas_delete_token_def free_token_def vm_deallocate_def Let_def)

text \<open>The session with one token registered.\<close>

definition token_state :: "u32 list \<Rightarrow> cas_state" where
  "token_state ids = (session_state 1 [])\<lparr>reg_port_map := (\<lambda>_. empty_reg)(9 := \<lparr>r_mapped_port = 9, r_private_port = 7,
     r_group_ids = ids, r_user_id = 1\<rparr>)\<rparr>"

lemma token_state_ok: "private_record (token_state ids) 7 = Inr (Some 0)" "HASH_PORT 9 (reg_ports (token_state ids)) = Inr 9"
proof -
  show "private_record (token_state ids) 7 = Inr (Some 0)" using session_record [of 1 "[]"] by (simp add: token_state_def private_record_def MACH_PORT_NULL_def)
  have "port_home 9 = 9" by (simp add: port_home_def PORT_MAP_MAX_def)
  then show "HASH_PORT 9 (reg_ports (token_state ids)) = Inr 9"
    by (simp add: HASH_PORT_def PORT_MAP_MAX_def token_state_def eval_nat_numeral)
qed

lemma delete_token_effect_witness:
  "\<exists>s'. cas_delete_token ready_kernel 99 7 9 (token_state []) = Inr (AS_KERN 99, s')
    \<and> cas_verify_token_ids 9 s' = Inr (AS_FAILURE, NULL_ID, [])"
proof -
  obtain s' where s': "cas_delete_token ready_kernel 99 7 9 (token_state []) = Inr (AS_KERN 99, s')"
    using delete_token_runs [OF token_state_ok, of "[]" ready_kernel 99] by (auto simp: token_state_def kern_return_def)
  then show ?thesis using delete_token_effect [OF s'] by (simp add: MACH_PORT_NULL_def)
qed

section \<open>Logging out\<close>

definition cleared_reg :: reg_entry where
  "cleared_reg = \<lparr>r_mapped_port = MACH_PORT_NULL, r_private_port = MACH_PORT_NULL, r_group_ids = [], r_user_id = NULL_ID\<rparr>"

lemma logout_token_reg:
  "reg_port_map (logout_token k port i s) =
    (if r_private_port (reg_port_map s i) = port then (reg_port_map s)(i := cleared_reg) else reg_port_map s)"
  by (simp add: logout_token_def free_token_def clear_reg_def cleared_reg_def vm_deallocate_def)

lemma logout_tokens_reg:
  "distinct is \<Longrightarrow> reg_port_map (fold (logout_token k port) is s) i =
    (if i \<in> set is \<and> r_private_port (reg_port_map s i) = port then cleared_reg else reg_port_map s i)"
  by (induction "is" arbitrary: s) (auto simp: logout_token_reg)

text \<open>
  C27. A logout ends the session and revokes its tokens: after \<open>cas_logout\<close> has succeeded the slot of
  the private port is free, every entry of the table of registered ports that belonged to it is
  cleared, and all other entries are untouched.
\<close>

theorem logout_revokes:
  assumes "cas_logout k port s = Inr (AS_SUCCESS, s')" "i < PORT_MAP_MAX"
  shows "reg_port_map s' i = (if r_private_port (reg_port_map s i) = port then cleared_reg else reg_port_map s i) \<and>
    (\<exists>j. HASH_PORT port (priv_ports s) = Inr j \<and> p_group_record_ptr (priv_port_map s j) \<noteq> None \<and>
      priv_port_map s' = (priv_port_map s)(j := empty_priv))"
proof -
  obtain j p s1 where j: "HASH_PORT port (priv_ports s) = Inr j" "p_group_record_ptr (priv_port_map s j) = p" "p \<noteq> None"
    and s1: "upd_rec (\<lambda>r. r\<lparr>tr_memberships := []\<rparr>) p
      (snd (vm_deallocate k (s\<lparr>priv_port_map := (priv_port_map s)(j := empty_priv)\<rparr>))) = Inr s1"
    and s': "s' = fold (logout_token k port) [0..<PORT_MAP_MAX] s1"
    using assms(1) unfolding cas_logout_def Let_def
    by (auto simp: empty_priv_def simp del: upt.simps elim!: bindE_InrE split: if_split_asm)
  have s1': "reg_port_map s1 = reg_port_map s" "priv_port_map s1 = (priv_port_map s)(j := empty_priv)"
    using s1 by (auto simp: upd_rec_Inr vm_deallocate_def)
  have "priv_port_map (fold (logout_token k port) is t) = priv_port_map t" for "is" t
    by (induction "is" arbitrary: t) (simp_all add: logout_token_def free_token_def clear_reg_def vm_deallocate_def)
  then show ?thesis
    using logout_tokens_reg [of "[0..<PORT_MAP_MAX]" k port s1 i] s1' s' j assms(2) by auto
qed

theorem logout_revokes_witness:
  "\<exists>s'. cas_logout ready_kernel 7 (token_state [3]) = Inr (AS_SUCCESS, s') \<and> reg_port_map s' 9 = cleared_reg"
proof -
  let ?s = "token_state [3]"
  have h: "HASH_PORT 7 (priv_ports ?s) = Inr 7" "p_group_record_ptr (priv_port_map ?s 7) = Some 0"
    using session_hash [of 1 "[]"] by (simp_all add: token_state_def) (simp add: session_state_def)
  have "recs ?s 0 \<noteq> None" by (simp add: token_state_def session_state_def)
  then obtain s' where s': "cas_logout ready_kernel 7 ?s = Inr (AS_SUCCESS, s')"
    using h by (auto simp: cas_logout_def Let_def rec_at_def upd_rec_def vm_deallocate_def MACH_PORT_NULL_def simp del: upt.simps)
  then show ?thesis using logout_revokes [OF s', of 9] by (simp add: PORT_MAP_MAX_def token_state_def)
qed

section \<open>Listing groups\<close>

lemma list_loop:
  assumes "P = (\<lambda>i. group_id_map s i \<noteq> None)"
  shows "foldE (\<lambda>i (group_ids, n). if group_id_map s i \<noteq> None
      then bindE (put_id group_ids n (of_nat i)) (\<lambda>group_ids. Inr (group_ids, Suc n)) else Inr (group_ids, n))
      is (Some (pre @ replicate (length (filter P is)) 0), length pre)
    = Inr (Some (pre @ map of_nat (filter P is)), length pre + length (filter P is))"
  using assms
proof (induction "is" arbitrary: pre)
  case (Cons i "is")
  show ?case
  proof (cases "P i")
    case True
    have "put_id (Some (pre @ replicate (length (filter P (i # is))) 0)) (length pre) (of_nat i)
      = Inr (Some ((pre @ [of_nat i]) @ replicate (length (filter P is)) 0))"
      using True by (simp add: put_id_def list_update_append)
    then show ?thesis using True Cons.IH [of "pre @ [of_nat i]"] Cons.prems by simp
  next
    case False
    then show ?thesis using Cons.IH [of pre] Cons.prems by simp
  qed
qed simp

text \<open>
  \<open>cas_list_all_groups\<close> returns the ids of all groups in increasing order: the second loop
  stores just as many ids as the first one counted.
\<close>

lemma list_all_groups_correct:
  "cas_list_all_groups k s =
    (if vm_allocate_ok k (calls s)
     then Inr (AS_SUCCESS, Some (map of_nat (filter (\<lambda>i. group_id_map s i \<noteq> None) [0..<GROUP_ID_MAX])), s\<lparr>calls := Suc (calls s)\<rparr>)
     else Inr (AS_FAILURE, None, s\<lparr>calls := Suc (calls s)\<rparr>))"
  using list_loop [OF refl, of "s\<lparr>calls := Suc (calls s)\<rparr>" "[0..<GROUP_ID_MAX]" "[]"]
  by (simp add: cas_list_all_groups_def vm_allocate_def del: upt.simps)

end
