(* ===== verification/Cas_Security.thy ===== *)
theory Cas_Security
  imports Cas_Behaviour
begin

text \<open>
  Who may do what: the private port of a session leads to a record only through a login that
  was entitled to it, and what the database says of a group changes only on behalf of a caller
  entitled to change it. Both are stated for one request in any state, and the first also for
  every sequence of messages.
\<close>

section \<open>What leaves the sessions alone\<close>

named_theorems same_sessions \<open>operations that leave the map of private ports alone\<close>

lemma upd_rec_sessions [same_sessions]: "upd_rec g p s = Inr s' \<Longrightarrow> priv_port_map s' = priv_port_map s"
  by (auto simp: upd_rec_Inr)

lemma save_database_sessions [same_sessions]: "save_database k s = Inr s' \<Longrightarrow> priv_port_map s' = priv_port_map s"
  by (auto simp: save_database_def rename_def Let_def elim!: bindE_InrE split: if_split_asm)

lemma set_id_map_sessions [same_sessions]: "set_id_map i p s = Inr s' \<Longrightarrow> priv_port_map s' = priv_port_map s"
  by (auto simp: set_id_map_Inr)

lemma vm_sessions [simp]: "priv_port_map (snd (vm_allocate k s)) = priv_port_map s"
    "priv_port_map (snd (vm_deallocate k s)) = priv_port_map s" "priv_port_map (vm_deallocate_record p s) = priv_port_map s"
  by (simp_all add: vm_allocate_def vm_deallocate_def vm_deallocate_record_def split: option.split)

lemma do_recursive_search_sessions:
  "do_recursive_search n m copy x st = Inr st' \<Longrightarrow> priv_port_map (snd (snd st')) = priv_port_map (snd (snd st))"
proof (induction n arbitrary: x st st')
  case (Suc n)
  obtain b c s where st: "st = (b, c, s)" by (cases st)
  obtain p where p: "id_map_at s x = Inr p" using Suc.prems(1) st by (auto elim!: bindE_InrE)
  consider "st' = st" | r s1 b' where "rec_at s p = Inr r" "upd_rec (\<lambda>r. r\<lparr>touched := True\<rparr>) p s = Inr s1"
      "foldE (do_recursive_search n m copy) (group_list m r) (b', Suc c, s1) = Inr st'"
    using Suc.prems(1) st p by (auto simp: fault_simps split: if_splits)
  then show ?case
  proof cases
    case 2
    then show ?thesis
      using foldE_keeps [OF 2(3), of "\<lambda>st. priv_port_map (snd (snd st)) = priv_port_map s1"] Suc.IH upd_rec_sessions [OF 2(2)] st by simp
  qed simp
qed simp

lemma do_transitive_closure_sessions [same_sessions]:
  "do_transitive_closure k p m s = Inr (ids, s') \<Longrightarrow> priv_port_map s' = priv_port_map s"
proof -
  have search: "priv_port_map t = priv_port_map s" if "foldE (do_recursive_search n m copy) xs (b, c, s) = Inr (b', c', t)" for n copy xs b c s b' c' t
    using foldE_keeps [OF that, of "\<lambda>st. priv_port_map (snd (snd st)) = priv_port_map s"] do_recursive_search_sessions by fastforce
  have clear: "priv_port_map t = priv_port_map s" if "foldE clear_touched xs s = Inr t" for xs s t
    using foldE_keeps [OF that, of "\<lambda>t. priv_port_map t = priv_port_map s"] upd_rec_sessions
    by (fastforce simp: clear_touched_def split: if_split_asm)
  assume "do_transitive_closure k p m s = Inr (ids, s')"
  then show ?thesis
    unfolding do_transitive_closure_def
    by (auto simp: Let_def vm_allocate_def simp del: upt.simps elim!: bindE_InrE dest!: clear search split: prod.split_asm)
qed

lemma cas_create_group_rec_sessions [same_sessions]:
  assumes "cas_create_group_rec k gid ids u s = Inr (p, s')"
  shows "priv_port_map s' = priv_port_map s"
proof (cases p)
  case None
  then show ?thesis using assms
    by (auto simp: cas_create_group_rec_def vm_allocate_record_def elim!: bindE_InrE split: if_split_asm)
next
  case (Some a)
  then show ?thesis using cas_create_group_rec_Some assms by blast
qed

lemma find_or_create_sessions [same_sessions]: "find_or_create k gid ids u s = Inr (p, s') \<Longrightarrow> priv_port_map s' = priv_port_map s"
  by (auto simp: find_or_create_def split: if_split_asm dest: same_sessions)

lemma check_groups_sessions: "check_groups k c ids s = Inr (ok, s') \<Longrightarrow> priv_port_map s' = priv_port_map s"
proof (induction k c ids s rule: check_groups.induct)
  case (2 k c gid ids s)
  then show ?case by (auto split: if_split_asm elim!: bindE_InrE) (metis cas_create_group_rec_sessions)+
qed simp

lemma check_restriction_sessions [same_sessions]: "check_restriction k c ids r s = Inr (ok, s') \<Longrightarrow> priv_port_map s' = priv_port_map s"
  by (auto simp: check_restriction_def split: if_split_asm dest: check_groups_sessions)

lemma free_token_sessions [simp]: "priv_port_map (snd (free_token k i s)) = priv_port_map s"
  by (simp add: free_token_def clear_reg_def vm_deallocate_def)

lemma logout_token_sessions [simp]: "priv_port_map (fold (logout_token k port) is s) = priv_port_map s"
  by (induction "is" arbitrary: s) (simp_all add: logout_token_def)

lemma make_group_sessions [same_sessions]: "make_group k name gtype full pw owner gid s = Inr (ret, s') \<Longrightarrow> priv_port_map s' = priv_port_map s"
  using make_group_Inr by fastforce

lemma drop_all_sessions [same_sessions]:
  "drop_all n memberships drop_member p i s = Inr s' \<Longrightarrow> priv_port_map s' = priv_port_map s"
  "drop_all n members drop_membership p i s = Inr s' \<Longrightarrow> priv_port_map s' = priv_port_map s"
proof -
  have "lists_only s s'" if "drop_all n memberships drop_member p i s = Inr s'"
    by (rule drop_all_keeps [OF _ that, where P = "lists_only s"]) (auto dest: drop_lists intro: lists_only_trans)
  then show "drop_all n memberships drop_member p i s = Inr s' \<Longrightarrow> priv_port_map s' = priv_port_map s"
    using lists_only_fields(3) by blast
  have "lists_only s s'" if "drop_all n members drop_membership p i s = Inr s'"
    by (rule drop_all_keeps [OF _ that, where P = "lists_only s"]) (auto dest: drop_lists intro: lists_only_trans)
  then show "drop_all n members drop_membership p i s = Inr s' \<Longrightarrow> priv_port_map s' = priv_port_map s"
    using lists_only_fields(3) by blast
qed

lemma delete_name_sessions [same_sessions]: "delete_name k name s = Inr s' \<Longrightarrow> priv_port_map s' = priv_port_map s"
  by (auto simp: delete_name_def outside_def simp del: rehash_following.simps elim!: bindE_InrE split: option.split_asm if_split_asm
      dest!: rehash_following_ptrs)

section \<open>Sessions\<close>

text \<open>The caller behind a private port is a member of the administrators' group.\<close>

definition admin :: "cas_state \<Rightarrow> u32 \<Rightarrow> bool" where
  "admin s port \<longleftrightarrow> (\<exists>c r. private_record s port = Inr (Some c) \<and> recs s c = Some r \<and> check_for_membership SYS_ADM_ID r)"

text \<open>
  A request may open a session of the record \<open>a\<close> on a port: with the password of a primary group,
  or for an administrator.
\<close>

fun entitled :: "request \<Rightarrow> cas_state \<Rightarrow> u32 \<Rightarrow> nat \<Rightarrow> bool" where
  "entitled (Login name pw port) s p a = (port = p \<and> (\<exists>r pw'. recs s a = Some r \<and> group_name r = to_lower name \<and>
     group_type r = AS_PRIMARY \<and> encrypt_password pw = Inr pw' \<and> PW_EQUAL pw' (pass_word r)))"
| "entitled (Login_Priv c uid port) s p a = (port = p \<and> admin s c \<and> lookup_id s uid = Some a \<and>
     (\<exists>r. recs s a = Some r \<and> group_type r = AS_PRIMARY))"
| "entitled (Login_Create c ids port) s p a = (port = p \<and> admin s c \<and> ids \<noteq> [] \<and>
     (lookup_id s (hd ids) = Some a \<or> lookup_id s (hd ids) = None \<and> a = next_addr s))"
| "entitled _ s p a = False"

lemma open_session_sessions:
  assumes "open_session k p port s = Inr (ret, s')"
  shows "ret = AS_SUCCESS \<and> (\<exists>i. priv_port_map s' = (priv_port_map s)(i := \<lparr>p_mapped_port = port, p_group_record_ptr = p\<rparr>))"
proof -
  obtain r ids s1 s2 where "rec_at s p = Inr r" and s1: "do_transitive_closure k p True (if 0 < length (tr_memberships r) then snd (vm_deallocate k s) else s) = Inr (ids, s1)"
    and s2: "upd_rec (\<lambda>r. r\<lparr>tr_memberships := ids\<rparr>) p s1 = Inr s2" and s': "map_private port p s2 = Inr s'" "ret = AS_SUCCESS"
    using assms unfolding open_session_def Let_def by (auto simp: fault_simps)
  have "priv_port_map s2 = priv_port_map s"
    using upd_rec_sessions [OF s2] do_transitive_closure_sessions [OF s1] by simp
  then show ?thesis using s' by (auto simp: map_private_def elim!: bindE_InrE)
qed

lemma find_or_create_ptr:
  "find_or_create k gid ids u s = Inr (Some a, s') \<Longrightarrow> lookup_id s gid = Some a \<or> lookup_id s gid = None \<and> a = next_addr s"
  by (auto simp: find_or_create_def split: if_split_asm dest!: cas_create_group_rec_Some)

text \<open>What the three login calls do to the map of private ports.\<close>

definition opens :: "request \<Rightarrow> cas_state \<Rightarrow> as_return \<Rightarrow> cas_state \<Rightarrow> bool" where
  "opens q s ret s' \<longleftrightarrow> priv_port_map s' = priv_port_map s \<or>
     ret = AS_SUCCESS \<and> (\<exists>i p a. priv_port_map s' = (priv_port_map s)(i := \<lparr>p_mapped_port = p, p_group_record_ptr = Some a\<rparr>) \<and> entitled q s p a)"

lemma cas_login_opens:
  assumes "cas_login k name pw port s = Inr (ret, s')"
  shows "opens (Login name pw port) s ret s'"
proof (cases "s' = s")
  case False
  then obtain a r pw' where a: "lookup_name s (to_lower name) = Inr (Some a)" "rec_at s (Some a) = Inr r" "group_type r = AS_PRIMARY"
      "encrypt_password pw = Inr pw'" "PW_EQUAL pw' (pass_word r)" "open_session k (Some a) port s = Inr (ret, s')"
    using assms by (auto simp: cas_login_def elim!: bindE_InrE split: if_split_asm)
  then have "recs s a = Some r" "group_name r = to_lower name" using lookup_name_found(1) [OF a(1)] by (auto simp: rec_at_Inr)
  then show ?thesis using a open_session_sessions [OF a(6)] unfolding opens_def by auto
qed (simp add: opens_def)

lemma admin_check: "private_record s port = Inr (Some c) \<Longrightarrow> rec_at s (Some c) = Inr r \<Longrightarrow> check_for_membership SYS_ADM_ID r \<Longrightarrow> admin s port"
  by (auto simp: admin_def rec_at_Inr)

lemma cas_login_priv_opens:
  assumes "cas_login_priv k port uid new_port s = Inr (ret, s')"
  shows "opens (Login_Priv port uid new_port) s ret s'"
proof (cases "s' = s")
  case False
  then obtain c cr a r where a: "private_record s port = Inr (Some c)" "rec_at s (Some c) = Inr cr" "check_for_membership SYS_ADM_ID cr"
      "lookup_id s uid = Some a" "rec_at s (Some a) = Inr r" "group_type r = AS_PRIMARY" "open_session k (Some a) new_port s = Inr (ret, s')"
    using assms by (auto simp: cas_login_priv_def Let_def elim!: bindE_InrE split: if_split_asm)
  then show ?thesis using open_session_sessions [OF a(7)] admin_check [OF a(1-3)] unfolding opens_def by (auto simp: rec_at_Inr)
qed (simp add: opens_def)

lemma cas_login_create_opens:
  assumes "cas_login_create k port ids new_port s = Inr (ret, s')"
  shows "opens (Login_Create port ids new_port) s ret s'"
proof (cases "s' = s")
  case False
  then obtain c cr p1 s1 where a: "private_record s port = Inr (Some c)" "rec_at s (Some c) = Inr cr" "check_for_membership SYS_ADM_ID cr"
      "ids \<noteq> []" and s1: "find_or_create k (hd ids) ids True s = Inr (p1, s1)"
    and rest: "(if p1 = None then Inr (AS_BAD_NAME, s1)
      else bindE (id_at ids 1) (\<lambda>gid. bindE (find_or_create k gid [] False s1) (\<lambda>(g, s).
        if g = None then Inr (AS_BAD_NAME, s) else bindE (rec_at s p1) (\<lambda>r.
        if group_type r \<noteq> AS_PRIMARY then Inr (AS_NOT_PRIMARY, s) else open_session k p1 new_port s)))) = Inr (ret, s')"
    using assms unfolding cas_login_create_def id_at_def
    by (auto simp: hd_conv_nth [symmetric] simp del: One_nat_def elim!: bindE_InrE split: if_split_asm)
  have same1: "priv_port_map s1 = priv_port_map s" by (rule find_or_create_sessions [OF s1])
  show ?thesis
  proof (cases "priv_port_map s' = priv_port_map s")
    case changed: False
    then obtain b gid g s2 where p1: "p1 = Some b" and s2: "find_or_create k gid [] False s1 = Inr (g, s2)"
      and end': "s' = s2 \<or> open_session k p1 new_port s2 = Inr (ret, s')"
      using rest same1 by (auto elim!: bindE_InrE split: if_split_asm)
    have "priv_port_map s2 = priv_port_map s" using find_or_create_sessions [OF s2] same1 by simp
    then show ?thesis
      using end' changed open_session_sessions [of k p1 new_port s2 ret s'] admin_check [OF a(1-3)] a(4) find_or_create_ptr [of k "hd ids" ids True s b s1] s1
      unfolding opens_def p1 by auto
  qed (simp add: opens_def)
qed (simp add: opens_def)

lemma empty_priv_ptr [simp]: "p_group_record_ptr empty_priv = None" "p_mapped_port empty_priv = MACH_PORT_NULL"
  by (simp_all add: empty_priv_def)

lemma cas_logout_sessions:
  assumes "cas_logout k port s = Inr (ret, s')"
  shows "priv_port_map s' i = priv_port_map s i \<or> priv_port_map s' i = empty_priv"
  using assms unfolding cas_logout_def Let_def
  by (auto simp del: upt.simps elim!: bindE_InrE split: if_split_asm dest!: upd_rec_sessions)

lemma quiet_sessions:
  "cas_register_token k port ids token c s = Inr (ret, s') \<Longrightarrow> priv_port_map s' = priv_port_map s"
  "cas_delete_token k junk port token s = Inr (ret, s') \<Longrightarrow> priv_port_map s' = priv_port_map s"
  "cas_verify_token_names k token s = Inr (ret, user, names, s') \<Longrightarrow> priv_port_map s' = priv_port_map s"
  "cas_create_group k port name gtype full pw owner gid s = Inr (ret, gid', s') \<Longrightarrow> priv_port_map s' = priv_port_map s"
  "cas_change_owner k port name owner s = Inr (ret, s') \<Longrightarrow> priv_port_map s' = priv_port_map s"
  "cas_change_password k port name old_pw new_pw s = Inr (ret, s') \<Longrightarrow> priv_port_map s' = priv_port_map s"
  "list_groups m k name closure s = Inr (ret, ids', s') \<Longrightarrow> priv_port_map s' = priv_port_map s"
  "cas_list_all_groups k s = Inr (ret, ids', s') \<Longrightarrow> priv_port_map s' = priv_port_map s"
proof -
  show "cas_register_token k port ids token c s = Inr (ret, s') \<Longrightarrow> priv_port_map s' = priv_port_map s"
    unfolding cas_register_token_def
    by (auto simp: Let_def set_reg_ids_def vm_deallocate_def vm_allocate_def elim!: bindE_InrE split: if_split_asm
        dest!: check_restriction_sessions)
  show "cas_delete_token k junk port token s = Inr (ret, s') \<Longrightarrow> priv_port_map s' = priv_port_map s"
    using free_token_sessions [of k _ s] by (auto simp: cas_delete_token_def split_def Let_def elim!: bindE_InrE split: if_split_asm)
  show "cas_verify_token_names k token s = Inr (ret, user, names, s') \<Longrightarrow> priv_port_map s' = priv_port_map s"
    by (auto simp: cas_verify_token_names_def vm_allocate_def Let_def elim!: bindE_InrE split: if_split_asm)
  show "cas_create_group k port name gtype full pw owner gid s = Inr (ret, gid', s') \<Longrightarrow> priv_port_map s' = priv_port_map s"
    by (auto simp: cas_create_group_def elim!: bindE_InrE split: if_split_asm sum.split_asm dest!: make_group_sessions)
  show "cas_change_owner k port name owner s = Inr (ret, s') \<Longrightarrow> priv_port_map s' = priv_port_map s"
    by (auto simp: cas_change_owner_def elim!: bindE_InrE split: if_split_asm dest!: same_sessions)
  show "cas_change_password k port name old_pw new_pw s = Inr (ret, s') \<Longrightarrow> priv_port_map s' = priv_port_map s"
    by (auto simp: cas_change_password_def elim!: bindE_InrE split: if_split_asm dest!: upd_rec_sessions save_database_sessions)
  show "list_groups m k name closure s = Inr (ret, ids', s') \<Longrightarrow> priv_port_map s' = priv_port_map s"
    by (auto simp: list_groups_def vm_allocate_def Let_def elim!: bindE_InrE split: if_split_asm dest!: do_transitive_closure_sessions)
  show "cas_list_all_groups k s = Inr (ret, ids', s') \<Longrightarrow> priv_port_map s' = priv_port_map s"
    by (auto simp: cas_list_all_groups_def vm_allocate_def Let_def simp del: upt.simps elim!: bindE_InrE split: if_split_asm)
qed

lemma member_sessions:
  "cas_add_to_group k port name add s = Inr (ret, s') \<Longrightarrow> priv_port_map s' = priv_port_map s"
  "cas_remove_from_group k port name rem s = Inr (ret, s') \<Longrightarrow> priv_port_map s' = priv_port_map s"
  "cas_delete_group k port name s = Inr (ret, s') \<Longrightarrow> priv_port_map s' = priv_port_map s"
proof -
  show "cas_add_to_group k port name add s = Inr (ret, s') \<Longrightarrow> priv_port_map s' = priv_port_map s"
    by (auto simp: cas_add_to_group_def add_member_def add_membership_def elim!: bindE_InrE split: if_split_asm
        dest!: upd_rec_sessions save_database_sessions)
  show "cas_remove_from_group k port name rem s = Inr (ret, s') \<Longrightarrow> priv_port_map s' = priv_port_map s"
    by (auto simp: cas_remove_from_group_def elim!: bindE_InrE split: if_split_asm dest!: upd_rec_sessions save_database_sessions)
  show "cas_delete_group k port name s = Inr (ret, s') \<Longrightarrow> priv_port_map s' = priv_port_map s"
    by (auto simp: cas_delete_group_def Let_def vm_deallocate_def elim!: bindE_InrE split: if_split_asm
        dest!: drop_all_sessions delete_name_sessions set_id_map_sessions save_database_sessions)
qed

lemma handle_port_death_sessions:
  assumes "cas_handle_port_death k junk port s = Inr s'"
  shows "priv_port_map s' i = priv_port_map s i \<or> priv_port_map s' i = empty_priv"
  using assms by (auto simp: cas_handle_port_death_def elim!: bindE_InrE split: if_split_asm dest!: cas_logout_sessions [where i = i] quiet_sessions(2))

lemma cas_serve_sessions:
  assumes "cas_serve k junk q s = Inr (reply, s')"
  shows "(\<exists>ret. reply = Return ret \<and> opens q s ret s') \<or>
    (\<forall>i. priv_port_map s' i = priv_port_map s i \<or> priv_port_map s' i = empty_priv)"
proof (cases q)
  case (Login name pw port)
  then show ?thesis using assms by (auto simp: return_of_def elim!: bindE_InrE dest!: cas_login_opens)
next
  case (Login_Priv port uid new_port)
  then show ?thesis using assms by (auto simp: return_of_def elim!: bindE_InrE dest!: cas_login_priv_opens)
next
  case (Login_Create port ids new_port)
  then show ?thesis using assms by (auto simp: return_of_def elim!: bindE_InrE dest!: cas_login_create_opens)
next
  case (Logout port)
  then obtain ret where "cas_logout k port s = Inr (ret, s')" using assms by (auto simp: return_of_def elim!: bindE_InrE)
  then have "\<forall>i. priv_port_map s' i = priv_port_map s i \<or> priv_port_map s' i = empty_priv"
    by (intro allI) (rule cas_logout_sessions)
  then show ?thesis by blast
qed (use assms in \<open>auto simp: return_of_def cas_list_members_def cas_list_memberships_def elim!: bindE_InrE
      dest!: quiet_sessions member_sessions\<close>)

lemma new_session:
  assumes serve: "cas_serve k junk q s = Inr (reply, s')"
    and new: "p_group_record_ptr (priv_port_map s' i) = Some a" "priv_port_map s' i \<noteq> priv_port_map s i"
  shows "entitled q s (p_mapped_port (priv_port_map s' i)) a \<and> reply = Return AS_SUCCESS"
  using cas_serve_sessions [OF serve]
proof
  assume "\<exists>ret. reply = Return ret \<and> opens q s ret s'"
  then show ?thesis using new unfolding opens_def by (auto simp: fun_upd_apply split: if_split_asm)
next
  assume "\<forall>i. priv_port_map s' i = priv_port_map s i \<or> priv_port_map s' i = empty_priv"
  then show ?thesis using new by (metis empty_priv_ptr option.distinct(1))
qed

text \<open>
  C28. A session comes from a login: when a request leaves a private port leading to a record to
  which its slot did not lead before, the request is a login on that port that returned success,
  and it gave the password of that record, of a primary group, or it came from a member of
  the administrators' group.
\<close>

theorem cas_session_authentic:
  assumes "cas_serve k junk q s = Inr (reply, s')"
    and "p_group_record_ptr (priv_port_map s' i) = Some a" "priv_port_map s' i \<noteq> priv_port_map s i"
  shows "entitled q s (p_mapped_port (priv_port_map s' i)) a \<and> reply = Return AS_SUCCESS"
  by (rule new_session [OF assms])

theorem cas_session_authentic_witness:
  "\<exists>pw s'. cas_serve ready_kernel 0 (Login (ascii ''Root'') demo_password 7) (user_state pw) = Inr (Return AS_SUCCESS, s')
    \<and> entitled (Login (ascii ''Root'') demo_password 7) (user_state pw) 7 0"
proof -
  obtain pw where pw: "encrypt_password demo_password = Inr pw" using demo_password_encrypted by blast
  obtain s' where s': "cas_login ready_kernel (ascii ''Root'') demo_password 7 (user_state pw) = Inr (AS_SUCCESS, s')"
      "private_record s' 7 = Inr (Some 0)"
    using user_login [OF pw] by blast
  then have serve: "cas_serve ready_kernel 0 (Login (ascii ''Root'') demo_password 7) (user_state pw) = Inr (Return AS_SUCCESS, s')"
    by (simp add: return_of_def)
  obtain i where i: "p_group_record_ptr (priv_port_map s' i) = Some 0"
    using s'(2) by (auto simp: private_record_def elim!: bindE_InrE split: if_split_asm)
  moreover have "priv_port_map (user_state pw) i = empty_priv" by (simp add: user_state_def demo_state_def static_state_def)
  ultimately have "priv_port_map s' i \<noteq> priv_port_map (user_state pw) i" by (auto simp: empty_priv_def)
  from cas_session_authentic [OF serve i this] show ?thesis using serve by auto
qed

section \<open>Sessions over the life of the server\<close>

lemma read_lines_sessions: "read_lines k buffer db s = Inr (ok, s') \<Longrightarrow> priv_port_map s' = priv_port_map s"
proof (induction k buffer db s rule: read_lines.induct)
  case (1 k buffer db s)
  show ?case
  proof (cases "db = []")
    case True
    then show ?thesis using "1.prems" by (subst (asm) read_lines.simps) simp
  next
    case False
    obtain line rest where f: "fgets (INPUT_LINE_MAX - 1) db = (line, rest)" by fastforce
    let ?b = "load_line line buffer"
    show ?thesis
    proof (cases "hd ?b = 35")
      case True
      then have "read_lines k ?b rest s = Inr (ok, s')"
        using "1.prems"(1) False f by (subst (asm) read_lines.simps) (simp add: Let_def)
      then show ?thesis using "1.IH"(1) [OF False f [symmetric] refl refl True] by blast
    next
      case c: False
      obtain ok1 s1 where g: "read_group k ?b s = Inr (ok1, s1)"
          "(if ok1 then read_lines k ?b rest s1 else Inr (False, s1)) = Inr (ok, s')"
        using "1.prems"(1) False f c by (subst (asm) read_lines.simps) (auto simp: Let_def split: sum.split_asm prod.split_asm)
      have "priv_port_map s1 = priv_port_map s"
        using g(1) by (auto simp: read_group_def vm_allocate_record_def elim!: bindE_InrE split: if_split_asm dest!: set_id_map_sessions)
      then show ?thesis using "1.IH"(2) [OF False f [symmetric] refl refl c g(1) refl] g(2) by (cases ok1) simp_all
    qed
  qed
qed

lemma enter_id_sessions: "enter_id k i s = Inr s' \<Longrightarrow> priv_port_map s' = priv_port_map s"
  using enter_name_ptrs(1) by (auto simp: enter_id_def outside_def split: if_split_asm)

lemma cas_init_sessions:
  assumes "cas_init k buffer ports_ok (static_state db) = Inr (True, s')"
  shows "priv_port_map s' = (\<lambda>_. empty_priv)"
proof -
  obtain ok s where s: "cas_utils_init k (static_state db) = (ok, s)" by fastforce
  then have start: "priv_port_map s = (\<lambda>_. empty_priv)"
    by (cases "vm_allocate_ok k 0") (auto simp: cas_utils_init_def vm_allocate_def static_state_def)
  obtain cs s1 where r: "read_lines k buffer cs (s\<lparr>calls := Suc (calls s)\<rparr>) = Inr (True, s1)"
      "foldE (enter_id k) [0..<GROUP_ID_MAX] s1 = Inr s'"
    using assms s by (auto simp: cas_init_def read_database_def simp del: upt.simps elim!: bindE_InrE split: if_split_asm option.split_asm)
  have "priv_port_map s' = priv_port_map s1"
    by (rule foldE_keeps [OF r(2), of "\<lambda>s. priv_port_map s = priv_port_map s1"]) (auto dest!: enter_id_sessions)
  then show ?thesis using read_lines_sessions [OF r(1)] start by simp
qed

text \<open>
  A message that opened a session of the record \<open>a\<close> on a port: a central login on that port that
  returned success, or a login of the service that handed the port out; in the state it was
  served in, it was entitled to the session.
\<close>

fun opened :: "message \<Rightarrow> cas_state \<Rightarrow> u32 \<Rightarrow> nat \<Rightarrow> reply option \<Rightarrow> bool" where
  "opened (Request q) s p a r = (entitled q s p a \<and> r = Some (Return AS_SUCCESS))"
| "opened (As_Request q) s p a r = (entitled (central q p) s p a \<and> r = Some (New_Port AS_SUCCESS p))"
| "opened _ s p a r = False"

fun null_login :: "message \<Rightarrow> bool" where
  "null_login (Request (Login name pw port)) = (port = MACH_PORT_NULL)"
| "null_login (Request (Login_Priv c uid port)) = (port = MACH_PORT_NULL)"
| "null_login (Request (Login_Create c ids port)) = (port = MACH_PORT_NULL)"
| "null_login _ = False"

lemma entitled_null: "entitled q s MACH_PORT_NULL a \<Longrightarrow> null_login (Request q)"
  by (cases q) auto

lemma entitled_calls: "entitled q (s\<lparr>calls := n\<rparr>) p a = entitled q s p a"
  by (cases q) (simp_all add: admin_def private_record_def lookup_id_def)

lemma entitled_central: "entitled (central q p) s p' a \<Longrightarrow> logs_in q \<and> p' = p"
  by (cases q) auto

lemma clas_serve_sessions:
  assumes "clas_serve k junk q s = Inr (reply, s')"
    and new: "p_group_record_ptr (priv_port_map s' i) = Some a" "priv_port_map s' i \<noteq> priv_port_map s i"
  shows "opened (As_Request q) s (p_mapped_port (priv_port_map s' i)) a (Some reply) \<and>
    port_allocate_name k (calls s) = Some (p_mapped_port (priv_port_map s' i))"
proof -
  obtain p n r where p: "logs_in q \<or> new_token q \<Longrightarrow> port_allocate_name k (calls s) = Some p"
      "cas_serve k junk (central q p) (s\<lparr>calls := n\<rparr>) = Inr (r, s')" "reply = as_reply q p r"
  proof (cases "logs_in q \<or> new_token q")
    case True
    then obtain p where "port_allocate_name k (calls s) = Some p" "forward k junk q p (s\<lparr>calls := Suc (calls s)\<rparr>) = Inr (reply, s')"
      using assms by (auto simp: clas_serve_forward split: option.split_asm)
    then show thesis using that [of p "Suc (calls s)"] by (auto simp: forward_def elim!: bindE_InrE)
  next
    case False
    then show thesis using that [of MACH_PORT_NULL "calls s"] assms(1) by (auto simp: clas_serve_forward forward_def elim!: bindE_InrE)
  qed
  have "entitled (central q p) s (p_mapped_port (priv_port_map s' i)) a" "r = Return AS_SUCCESS"
    using new_session [OF p(2) new(1)] new(2) by (simp_all add: entitled_calls)
  moreover from entitled_central [OF this(1)] have "logs_in q" "p_mapped_port (priv_port_map s' i) = p" by auto
  ultimately show ?thesis using p by (auto simp: as_reply_def)
qed

lemma cas_main_sessions:
  assumes "cas_main k junk stack_port m s = Inr (reply, s')"
    and new: "p_group_record_ptr (priv_port_map s' i) = Some a" "priv_port_map s' i \<noteq> priv_port_map s i"
  shows "opened m s (p_mapped_port (priv_port_map s' i)) a reply \<and>
    (p_mapped_port (priv_port_map s' i) = MACH_PORT_NULL \<longrightarrow> null_login m \<or> port_allocate_name k (calls s) = Some MACH_PORT_NULL)"
proof (cases m)
  case (Request q)
  then obtain r where r: "cas_serve k junk q s = Inr (r, s')" "reply = Some r" using assms(1) by (auto elim!: bindE_InrE)
  from new_session [OF r(1) new] show ?thesis using Request r(2) entitled_null by auto
next
  case (As_Request q)
  then obtain r where r: "clas_serve k junk q s = Inr (r, s')" "reply = Some r" using assms(1) by (auto elim!: bindE_InrE)
  from clas_serve_sessions [OF r(1) new] show ?thesis using As_Request r(2) by simp
next
  case (Dead_Name port)
  then have "cas_handle_port_death k junk stack_port s = Inr s'" using assms(1) by (auto elim!: bindE_InrE)
  from handle_port_death_sessions [OF this, of i] show ?thesis using new by simp
qed (use assms in simp_all)

text \<open>
  C1. Over the life of the server: starting with consistent tables and no sessions, as after
  \<open>cas_init\<close>, if after any sequence of messages in which no login asks for the null port a
  private port leads to a record, then one of these messages was a login that returned success
  and gave that port, and in the state it was served in, the one the messages before it had led to, it was
  entitled to a session of that record. The kernel is assumed never to name a new port null.
\<close>

theorem cas_session_origin:
  assumes start: "cas_inv s" "\<forall>i. p_group_record_ptr (priv_port_map s i) = None"
    and run: "serve_all (cas_main k junk stack_port) ms s = Inr (replies, s')"
    and null: "\<forall>m \<in> set ms. \<not> null_login m" "\<forall>n. port_allocate_name k n \<noteq> Some MACH_PORT_NULL"
    and session: "private_record s' port = Inr (Some a)"
  shows "\<exists>j < length ms. \<exists>s1. serve_all (cas_main k junk stack_port) (take j ms) s = Inr (take j replies, s1) \<and>
    cas_inv s1 \<and> opened (ms ! j) s1 port a (replies ! j)"
proof -
  obtain i where i: "HASH_PORT port (priv_ports s') = Inr i" "p_group_record_ptr (priv_port_map s' i) = Some a"
    using session by (auto simp: private_record_def elim!: bindE_InrE split: if_split_asm)
  let ?P = "\<lambda>t. priv_port_map t i = priv_port_map s' i" and ?p = "p_mapped_port (priv_port_map s' i)"
  have "\<not> ?P s" using start(2) i(2) by (metis option.distinct(1))
  then obtain j s1 s2 where j: "j < length ms" "serve_all (cas_main k junk stack_port) (take j ms) s = Inr (take j replies, s1)"
      "cas_inv s1" "cas_main k junk stack_port (ms ! j) s1 = Inr (replies ! j, s2)" "\<not> ?P s1" "?P s2"
    using cas.origin [OF run start(1), of ?P] by blast
  then have q: "opened (ms ! j) s1 ?p a (replies ! j)" "?p \<noteq> MACH_PORT_NULL"
    using cas_main_sessions [OF j(4), of i a] i(2) null nth_mem [OF j(1)] by auto
  then have "?p = port" using HASH_PORT_slot [OF i(1)] by simp
  then show ?thesis using j(1,2,3) q(1) by blast
qed

lemma ready_ports: "\<forall>n. port_allocate_name ready_kernel n \<noteq> Some MACH_PORT_NULL"
proof
  fix n
  have "x \<noteq> 0" if "0x1000 AND x \<noteq> 0" for x :: u32 using that by auto
  from this [of "0x1000 OR of_nat n"] have "(0x1000 OR of_nat n :: u32) \<noteq> 0" by (simp add: word_ao_absorbs)
  then show "port_allocate_name ready_kernel n \<noteq> Some MACH_PORT_NULL" by (simp add: ready_kernel_def MACH_PORT_NULL_def)
qed

theorem cas_session_origin_witness:
  "\<exists>pw replies s'. serve_all (cas_main ready_kernel 0 0) [Stray, Request (Login (ascii ''Root'') demo_password 7)] (user_state pw)
      = Inr (replies, s') \<and> private_record s' 7 = Inr (Some 0) \<and>
    opened (Request (Login (ascii ''Root'') demo_password 7)) (user_state pw) 7 0 (Some (Return AS_SUCCESS))"
proof -
  let ?ms = "[Stray, Request (Login (ascii ''Root'') demo_password 7)]"
  obtain pw where pw: "encrypt_password demo_password = Inr pw" using demo_password_encrypted by blast
  obtain s' where s': "cas_login ready_kernel (ascii ''Root'') demo_password 7 (user_state pw) = Inr (AS_SUCCESS, s')"
      "private_record s' 7 = Inr (Some 0)"
    using user_login [OF pw] by blast
  let ?rs = "[None, Some (Return AS_SUCCESS)]"
  have run: "serve_all (cas_main ready_kernel 0 0) ?ms (user_state pw) = Inr (?rs, s')"
    using s'(1) by (simp add: return_of_def)
  have "\<forall>i. p_group_record_ptr (priv_port_map (user_state pw) i) = None"
    by (simp add: user_state_def demo_state_def static_state_def empty_priv_def)
  moreover have "\<forall>m \<in> set ?ms. \<not> null_login m" by (simp add: MACH_PORT_NULL_def)
  ultimately obtain j s1 where j: "j < length ?ms" "serve_all (cas_main ready_kernel 0 0) (take j ?ms) (user_state pw) = Inr (take j ?rs, s1)"
      "opened (?ms ! j) s1 7 0 (?rs ! j)"
    using cas_session_origin [OF user_state_inv _ run _ ready_ports s'(2)] by blast
  then have "j = 1" by (cases j) auto
  then have "opened (Request (Login (ascii ''Root'') demo_password 7)) (user_state pw) 7 0 (Some (Return AS_SUCCESS))"
    using j(2,3) by simp
  then show ?thesis using run s'(2) by blast
qed

end
