(* ===== verification/Las_Central.thy ===== *)
theory Las_Central
  imports Las_Behaviour Cas_Security
begin

text \<open>
  The local server in front of the central one. The transport between them delivers a request
  and its reply, or loses one of them, in which case the caller times out after the request was
  served or before; a central server that faults is gone, and calls then fail. The interface
  description c_auth.defs has no parameter \<open>create_groups\<close>, so the handler of the central server
  finds an arbitrary value there: the argument \<open>flag\<close>.

  The locale \<open>authority\<close> is what the local server relies on: a central server knows which private
  ports have a session, only a login adds one, and a privileged request from another port fails.
\<close>

section \<open>The transport\<close>

datatype delivery = Delivered | Reply_Lost | Request_Lost

record wire =
  server :: "cas_state option"
  sent :: nat

definition SEND_INVALID_PORT :: u32 where "SEND_INVALID_PORT = - 102"

definition RCV_PORT_DIED :: u32 where "RCV_PORT_DIED = - 207"

fun with_flag :: "bool \<Rightarrow> request \<Rightarrow> request" where
  "with_flag flag (Register_Token port ids token create) = Register_Token port ids token flag"
| "with_flag flag q = q"

definition cas_rpc :: "kernel \<Rightarrow> u32 \<Rightarrow> (nat \<Rightarrow> bool) \<Rightarrow> (nat \<Rightarrow> delivery) \<Rightarrow> wire rpc" where
  "cas_rpc k junk flag link port q w =
     (let n = sent w; w = w\<lparr>sent := Suc n\<rparr> in
      case server w of
        None \<Rightarrow> (Inl SEND_INVALID_PORT, w)
      | Some c \<Rightarrow>
          if link n = Request_Lost then (Inl RCV_TIMED_OUT, w)
          else (case cas_serve k junk (with_flag (flag n) q) c of
                  Inl f \<Rightarrow> (Inl RCV_PORT_DIED, w\<lparr>server := None\<rparr>)
                | Inr (r, c) \<Rightarrow> (if link n = Reply_Lost then Inl RCV_TIMED_OUT else Inr r, w\<lparr>server := Some c\<rparr>)))"

lemma cas_serve_fits: "cas_serve k junk q s = Inr (r, s') \<Longrightarrow> fits q r"
  by (cases q) (auto simp: return_of_def elim!: bindE_InrE)

lemma fits_with_flag [simp]: "fits (with_flag flag q) = fits q"
  by (cases q) (simp_all add: fun_eq_iff)

section \<open>What the local server relies on\<close>

text \<open>The port a central login asks to be mapped, and the private port a privileged login comes from.\<close>

fun new_port :: "request \<Rightarrow> u32 option" where
  "new_port (Login name pw port) = Some port"
| "new_port (Login_Priv c uid port) = Some port"
| "new_port (Login_Create c ids port) = Some port"
| "new_port _ = None"

fun privileged :: "request \<Rightarrow> u32 option" where
  "privileged (Login_Priv c uid port) = Some c"
| "privileged (Login_Create c ids port) = Some c"
| "privileged _ = None"

text \<open>The kernel names no two new ports alike, and none null.\<close>

definition new_names :: "kernel \<Rightarrow> bool" where
  "new_names k \<longleftrightarrow> (\<forall>n. port_allocate_name k n \<noteq> Some MACH_PORT_NULL) \<and>
     (\<forall>m n p. port_allocate_name k m = Some p \<longrightarrow> port_allocate_name k n = Some p \<longrightarrow> m = n)"

definition future :: "kernel \<Rightarrow> nat \<Rightarrow> u32 set" where
  "future k n = {p. \<exists>m \<ge> n. port_allocate_name k m = Some p}"

definition locals :: "'w las_state \<Rightarrow> u32 set" where
  "locals s = range (las_priv_ports s) - {MACH_PORT_NULL}"

text \<open>
  The private ports of the local server are unknown to the central one, and the ports the kernel
  will give next are in use with neither.
\<close>

definition apart :: "('w \<Rightarrow> bool) \<Rightarrow> ('w \<Rightarrow> u32 set) \<Rightarrow> kernel \<Rightarrow> 'w las_state \<Rightarrow> bool" where
  "apart ok sessions k s \<longleftrightarrow> new_names k \<and> ok (net s) \<and> locals s \<inter> sessions (net s) = {} \<and>
     future k (las_calls s) \<inter> (locals s \<union> sessions (net s)) = {}"

lemma apart_cache [simp]: "apart ok sessions k (s\<lparr>las_reg_port_map := m\<rparr>) = apart ok sessions k s"
  by (simp add: apart_def locals_def)

lemma future_Suc: "p \<in> future k (Suc n) \<Longrightarrow> p \<in> future k n"
  by (auto simp: future_def dest: Suc_leD)

lemma future_name: "new_names k \<Longrightarrow> port_allocate_name k n = Some p \<Longrightarrow> p \<in> future k n \<and> p \<notin> future k (Suc n) \<and> p \<noteq> MACH_PORT_NULL"
  unfolding future_def new_names_def by (auto intro: exI [of _ n]) (metis not_less_eq_eq order_refl)

lemma locals_set: "locals (s\<lparr>las_priv_port_map := (las_priv_port_map s)(i := \<lparr>l_mapped_port = p, l_central_pport = c\<rparr>)\<rparr>) \<subseteq> insert p (locals s) - {MACH_PORT_NULL}"
  by (auto simp: locals_def)

lemma locals_simps [simp]: "locals (s\<lparr>las_calls := n\<rparr>) = locals s" "locals (s\<lparr>net := w\<rparr>) = locals s" "locals (s\<lparr>cas_port := p\<rparr>) = locals s"
    "locals (s\<lparr>las_lookups := n\<rparr>) = locals s" "locals (s\<lparr>las_reg_port_map := m\<rparr>) = locals s"
  by (simp_all add: locals_def)

locale authority =
  fixes rpc :: "'w rpc" and ok :: "'w \<Rightarrow> bool" and sessions :: "'w \<Rightarrow> u32 set"
  assumes sessions_grow: "ok w \<Longrightarrow> new_port q \<noteq> Some MACH_PORT_NULL \<Longrightarrow> rpc port q w = (a, w') \<Longrightarrow>
      ok w' \<and> sessions w' \<subseteq> sessions w \<union> set_option (new_port q)"
    and privileged_fails: "ok w \<Longrightarrow> privileged q = Some c \<Longrightarrow> c \<notin> sessions w \<Longrightarrow> rpc port q w = (Inr r, w') \<Longrightarrow> code r \<noteq> AS_SUCCESS"
begin

lemma allocate_apart:
  assumes "apart ok sessions k s" "port_allocate k s = (p, s')"
  shows "apart ok sessions k s'"
  using assms future_Suc [of _ k "las_calls s"] by (clarsimp simp: apart_def port_allocate_def) blast

lemma deallocate_apart:
  assumes "apart ok sessions k s" "port_deallocate k s = (kr, s')"
  shows "apart ok sessions k s'"
  using assms future_Suc [of _ k "las_calls s"] by (clarsimp simp: apart_def port_deallocate_def) blast

lemma call_net:
  assumes "call rpc q s = (a, s')"
  shows "\<exists>answer w. rpc (cas_port s) q (net s) = (answer, w) \<and> s' = s\<lparr>net := w\<rparr> \<and> a = stub q answer"
  using assms by (auto simp: call_def Let_def split_def prod_eq_iff)

lemma call_apart:
  assumes "apart ok sessions k s" "call rpc q s = (a, s')" "new_port q = None"
  shows "apart ok sessions k s'"
proof -
  obtain answer w where w: "rpc (cas_port s) q (net s) = (answer, w)" "s' = s\<lparr>net := w\<rparr>" using call_net [OF assms(2)] by blast
  have "ok (net s)" using assms(1) by (simp add: apart_def)
  then have "ok w" "sessions w \<subseteq> sessions (net s)" using sessions_grow [OF _ _ w(1)] assms(3) by auto
  then show ?thesis using assms(1) w(2) by (auto simp: apart_def)
qed

lemma login_apart:
  assumes "apart ok sessions k s" "port_allocate k s = (Some p, s1)" "call rpc q s1 = (a, s')" "new_port q = Some p"
  shows "apart ok sessions k s'"
proof -
  have p: "port_allocate_name k (las_calls s) = Some p" "s1 = s\<lparr>las_calls := Suc (las_calls s)\<rparr>" using assms(2) by (auto simp: port_allocate_def)
  have names: "p \<in> future k (las_calls s)" "p \<notin> future k (Suc (las_calls s))" "p \<noteq> MACH_PORT_NULL"
    using future_name [OF _ p(1)] assms(1) by (auto simp: apart_def)
  obtain answer w where w: "rpc (cas_port s1) q (net s1) = (answer, w)" "s' = s1\<lparr>net := w\<rparr>" using call_net [OF assms(3)] by blast
  have "ok (net s1)" using assms(1) p(2) by (simp add: apart_def)
  then have "ok w" "sessions w \<subseteq> insert p (sessions (net s))" using sessions_grow [OF _ _ w(1)] assms(4) p(2) names(3) by auto
  then show ?thesis using assms(1) w(2) p(2) names future_Suc [of _ k "las_calls s"] by (auto simp: apart_def)
qed

lemma map_local_apart:
  assumes "apart ok sessions k s" "map_local k cp s = Inr (ret, port, s')"
  shows "apart ok sessions k s'"
proof -
  obtain p s1 where p: "port_allocate k s = (p, s1)" by fastforce
  note a = allocate_apart [OF assms(1) p]
  show ?thesis
  proof (cases p)
    case None
    then show ?thesis using assms(2) p a by (auto simp: map_local_def)
  next
    case (Some l)
    then have l: "port_allocate_name k (las_calls s) = Some l" "s1 = s\<lparr>las_calls := Suc (las_calls s)\<rparr>" using p by (auto simp: port_allocate_def)
    obtain i where s': "s' = s1\<lparr>las_priv_port_map := (las_priv_port_map s1)(i := \<lparr>l_mapped_port = l, l_central_pport = cp\<rparr>)\<rparr>"
      using assms(2) p Some by (auto simp: map_local_def elim!: bindE_InrE)
    have names: "l \<in> future k (las_calls s)" "l \<notin> future k (Suc (las_calls s))"
      using future_name [OF _ l(1)] assms(1) by (auto simp: apart_def)
    have "l \<notin> sessions (net s)" using names(1) assms(1) by (auto simp: apart_def)
    moreover have "las_calls s' = Suc (las_calls s)" "net s' = net s" using s' l(2) by simp_all
    moreover have "locals s' \<subseteq> insert l (locals s1)" unfolding s' using locals_set by blast
    ultimately show ?thesis using a l(2) names(2) unfolding apart_def by auto
  qed
qed

lemma as_logout_apart:
  assumes "apart ok sessions k s" "as_logout k rpc port s = Inr (ret, s')"
  shows "apart ok sessions k s'"
proof (cases "s' = s")
  case False
  then obtain i where fin: "(case call rpc (Logout (l_central_pport (las_priv_port_map s i))) (s\<lparr>las_priv_port_map := (las_priv_port_map s)(i := no_session)\<rparr>) of
        (Inl kr, s) \<Rightarrow> Inr (timed_out kr, s)
      | (Inr r, s) \<Rightarrow>
          (let (kr, s) = port_deallocate k s in
           if kr \<noteq> 0 then Inr (AS_FAILURE, s)
           else Inr (AS_SUCCESS, fold (logout_cached port) [0..<LAS_PORT_MAP_MAX] s))) = (Inr (ret, s') :: (as_return \<times> 'w las_state) result)"
    using assms(2) by (auto simp: as_logout_def no_session_def Let_def simp del: upt.simps elim!: bindE_InrE split: if_split_asm)
  have "locals (s\<lparr>las_priv_port_map := (las_priv_port_map s)(i := no_session)\<rparr>) \<subseteq> locals s" unfolding no_session_def using locals_set by blast
  then have "apart ok sessions k (s\<lparr>las_priv_port_map := (las_priv_port_map s)(i := no_session)\<rparr>)" using assms(1) by (auto simp: apart_def)
  moreover obtain a t where c: "call rpc (Logout (l_central_pport (las_priv_port_map s i))) (s\<lparr>las_priv_port_map := (las_priv_port_map s)(i := no_session)\<rparr>) = (a, t)"
    by fastforce
  ultimately have t: "apart ok sessions k t" by (rule call_apart) simp
  obtain kr u where u: "port_deallocate k t = (kr, u)" by fastforce
  have "apart ok sessions k (fold (logout_cached port) is v)" if "apart ok sessions k v" for "is" v
    using that by (induction "is" arbitrary: v) (auto simp: logout_cached_def clear_cache_def apart_def)
  then show ?thesis using fin c t deallocate_apart [OF t u] u by (auto simp del: upt.simps split: sum.split_asm if_split_asm)
qed (use assms in simp)

lemmas keep_apart = map_local_apart call_apart allocate_apart login_apart as_logout_apart

lemma logins_apart:
  assumes "apart ok sessions k s"
  shows "as_login k rpc name pw s = Inr (ret, port, s') \<Longrightarrow> apart ok sessions k s'"
    "as_login_priv k rpc c uid s = Inr (ret, port, s') \<Longrightarrow> apart ok sessions k s'"
    "as_login_create k rpc c ids s = Inr (ret, port, s') \<Longrightarrow> apart ok sessions k s'"
  unfolding as_login_def as_login_priv_def as_login_create_def
  by (auto split: option.split_asm prod.split_asm sum.split_asm dest: allocate_apart [OF assms] login_apart [OF assms] intro: map_local_apart)

lemma tokens_apart:
  assumes "apart ok sessions k s"
  shows "as_create_token k rpc c ids s = Inr (ret, port, s') \<Longrightarrow> apart ok sessions k s'"
    "as_create_token_group k rpc c ids s = Inr (ret, port, s') \<Longrightarrow> apart ok sessions k s'"
    "as_delete_token k rpc c token s = Inr (ret', s') \<Longrightarrow> apart ok sessions k s'"
    "as_verify_token_ids rpc token s = Inr (ret, uid, ids', s') \<Longrightarrow> apart ok sessions k s'"
    "as_verify_token_names rpc token s = Inr (ret, user, names, s') \<Longrightarrow> apart ok sessions k s'"
proof -
  show "as_create_token k rpc c ids s = Inr (ret, port, s') \<Longrightarrow> apart ok sessions k s'"
    "as_create_token_group k rpc c ids s = Inr (ret, port, s') \<Longrightarrow> apart ok sessions k s'"
    using assms unfolding as_create_token_def as_create_token_group_def
    by (auto elim!: bindE_InrE split: option.split_asm prod.split_asm sum.split_asm
        dest!: allocate_apart [OF assms] call_apart [where k = k, rotated])
  show "as_delete_token k rpc c token s = Inr (ret', s') \<Longrightarrow> apart ok sessions k s'"
    using assms by (auto simp: as_delete_token_def clear_cache_def elim!: bindE_InrE split: if_split_asm prod.split_asm sum.split_asm
        dest!: call_apart [where k = k, rotated])
  show "as_verify_token_ids rpc token s = Inr (ret, uid, ids', s') \<Longrightarrow> apart ok sessions k s'"
    using assms call_apart [OF assms, of "Verify_Token_Ids token"]
    by (auto simp: as_verify_token_ids_def Let_def elim!: bindE_InrE split: if_split_asm prod.split_asm sum.split_asm reply.split_asm)
  show "as_verify_token_names rpc token s = Inr (ret, user, names, s') \<Longrightarrow> apart ok sessions k s'"
    using assms call_apart [OF assms, of "Verify_Token_Names token"]
    by (auto simp: as_verify_token_names_def Let_def elim!: bindE_InrE split: if_split_asm prod.split_asm sum.split_asm reply.split_asm)
qed

lemma pass_on_apart:
  assumes "apart ok sessions k s" "pass_on rpc q s = Inr (a, s')" "new_port q = None"
  shows "apart ok sessions k s'"
  using assms by (auto simp: pass_on_def split: prod.split_asm sum.split_asm dest: call_apart)

lemma las_serve_apart:
  assumes "apart ok sessions k s" "las_serve k rpc q s = Inr (r, s')"
  shows "apart ok sessions k s'"
  using assms
  by (cases q) (auto simp: las_port_def las_return_def las_answer_def las_query_defs las_group_defs elim!: bindE_InrE split: option.split_asm
      dest!: logins_apart [OF assms(1)] tokens_apart [OF assms(1)] as_logout_apart [OF assms(1)] pass_on_apart [OF assms(1)])

lemma las_main_apart:
  assumes "apart ok sessions k s" "las_main k rpc ns m s = Inr (r, s')"
  shows "apart ok sessions k s'"
proof (cases m)
  case (Service_Request q)
  then show ?thesis using assms by (auto elim!: bindE_InrE dest: las_serve_apart)
next
  case (Port_Deleted port)
  then show ?thesis using assms
    by (auto simp: look_up_cas_def las_handle_port_death_def elim!: bindE_InrE split: if_split_asm option.split_asm
        dest: as_logout_apart tokens_apart(3)) (simp add: apart_def)
qed (use assms in simp_all)

text \<open>A privileged login from a private port of the local server fails.\<close>

lemma privileged_login_fails:
  assumes "apart ok sessions k s" "c \<in> locals s"
  shows "as_login_priv k rpc c uid s = Inr (ret, port, s') \<Longrightarrow> ret \<noteq> AS_SUCCESS"
    "as_login_create k rpc c ids s = Inr (ret, port, s') \<Longrightarrow> ret \<noteq> AS_SUCCESS"
proof -
  have "\<exists>kr. a = Inl kr \<and> timed_out kr \<noteq> AS_SUCCESS"
    if p: "port_allocate k s = (p, s1)" and q: "call rpc q s1 = (a, s2)" "privileged q = Some c" for p s1 q a s2
  proof -
    obtain answer w where w: "rpc (cas_port s1) q (net s1) = (answer, w)" "a = stub q answer" using call_net [OF q(1)] by blast
    have "ok (net s1)" "c \<notin> sessions (net s1)" using p assms by (auto simp: apart_def port_allocate_def)
    then show ?thesis using privileged_fails [OF _ q(2)] w by (cases answer) (auto simp: stub_def timed_out_def)
  qed
  then show "as_login_priv k rpc c uid s = Inr (ret, port, s') \<Longrightarrow> ret \<noteq> AS_SUCCESS"
    "as_login_create k rpc c ids s = Inr (ret, port, s') \<Longrightarrow> ret \<noteq> AS_SUCCESS"
    unfolding as_login_priv_def as_login_create_def
    by (auto split: option.split_asm prod.split_asm sum.split_asm) fastforce+
qed

end

sublocale authority \<subseteq> local_server: service "las_main k rpc ns" "apart ok sessions k" for k ns
  by unfold_locales (rule las_main_apart)

section \<open>The central server keeps the contract\<close>

definition cas_ok :: "wire \<Rightarrow> bool" where
  "cas_ok w = (case server w of None \<Rightarrow> True
     | Some c \<Rightarrow> \<forall>i. priv_ports c i = MACH_PORT_NULL \<longrightarrow> p_group_record_ptr (priv_port_map c i) = None)"

definition cas_sessions :: "wire \<Rightarrow> u32 set" where
  "cas_sessions w = (case server w of None \<Rightarrow> {}
     | Some c \<Rightarrow> {p. \<exists>i. priv_ports c i = p \<and> p_group_record_ptr (priv_port_map c i) \<noteq> None})"

lemma entitled_new_port: "entitled q s p a \<Longrightarrow> new_port q = Some p"
  by (cases q) auto

lemma new_port_flag [simp]: "new_port (with_flag flag q) = new_port q" "privileged (with_flag flag q) = privileged q"
  by (cases q; simp)+

lemma cas_serve_grow:
  assumes "cas_serve k junk q s = Inr (r, s')" "new_port q \<noteq> Some MACH_PORT_NULL"
    and "\<forall>i. priv_ports s i = MACH_PORT_NULL \<longrightarrow> p_group_record_ptr (priv_port_map s i) = None"
  shows "(\<forall>i. priv_ports s' i = MACH_PORT_NULL \<longrightarrow> p_group_record_ptr (priv_port_map s' i) = None) \<and>
    (\<forall>i. p_group_record_ptr (priv_port_map s' i) \<noteq> None \<longrightarrow> priv_port_map s' i = priv_port_map s i \<or> Some (priv_ports s' i) = new_port q)"
  using cas_serve_sessions [OF assms(1)]
proof
  assume "\<exists>ret. r = Return ret \<and> opens q s ret s'"
  then show ?thesis using assms(2,3) entitled_new_port unfolding opens_def by fastforce
next
  assume "\<forall>i. priv_port_map s' i = priv_port_map s i \<or> priv_port_map s' i = empty_priv"
  then show ?thesis using assms(3) by (metis empty_priv_ptr(1))
qed

lemma unknown_port:
  assumes "\<forall>i. priv_ports s i = MACH_PORT_NULL \<longrightarrow> p_group_record_ptr (priv_port_map s i) = None"
    and "\<forall>i. priv_ports s i = port \<longrightarrow> p_group_record_ptr (priv_port_map s i) = None" "private_record s port = Inr p"
  shows "p = None"
  using assms HASH_PORT_slot by (fastforce simp: private_record_def elim!: bindE_InrE split: if_split_asm)

interpretation cas_authority: authority "cas_rpc k junk flag link" cas_ok cas_sessions for k junk flag link
proof
  fix w q port a w'
  assume ok: "cas_ok w" and new: "new_port q \<noteq> Some MACH_PORT_NULL" and call: "cas_rpc k junk flag link port q w = (a, w')"
  show "cas_ok w' \<and> cas_sessions w' \<subseteq> cas_sessions w \<union> set_option (new_port q)"
  proof (cases "server w' = server w \<or> server w' = None")
    case True
    then show ?thesis using ok by (auto simp: cas_ok_def cas_sessions_def)
  next
    case False
    then obtain c r c' where c: "server w = Some c" "cas_serve k junk (with_flag (flag (sent w)) q) c = Inr (r, c')" "server w' = Some c'"
      using call by (auto simp: cas_rpc_def Let_def split: option.split_asm if_split_asm sum.split_asm prod.split_asm)
    have ok': "\<forall>i. priv_ports c i = MACH_PORT_NULL \<longrightarrow> p_group_record_ptr (priv_port_map c i) = None" using ok c(1) by (simp add: cas_ok_def)
    from cas_serve_grow [OF c(2) _ ok'] new have g: "cas_ok w'"
        "\<forall>i. p_group_record_ptr (priv_port_map c' i) \<noteq> None \<longrightarrow> priv_port_map c' i = priv_port_map c i \<or> Some (priv_ports c' i) = new_port q"
      by (simp_all add: cas_ok_def c(3))
    then show ?thesis using c(1,3) by (fastforce simp: cas_sessions_def)
  qed
next
  fix w q c port r w'
  assume ok: "cas_ok w" and q: "privileged q = Some c" and c: "c \<notin> cas_sessions w" and call: "cas_rpc k junk flag link port q w = (Inr r, w')"
  obtain s s' where s: "server w = Some s" "cas_serve k junk (with_flag (flag (sent w)) q) s = Inr (r, s')"
    using call by (auto simp: cas_rpc_def Let_def split: option.split_asm if_split_asm sum.split_asm prod.split_asm)
  have "p = None" if "private_record s c = Inr p" for p
    by (rule unknown_port [OF _ _ that]) (use ok c s(1) in \<open>auto simp: cas_ok_def cas_sessions_def\<close>)
  then show "code r \<noteq> AS_SUCCESS"
    using q s(2) by (cases q) (auto simp: return_of_def cas_login_priv_def cas_login_create_def elim!: bindE_InrE split: if_split_asm)
qed

text \<open>
  C29. A privileged login cannot be made through the local server: starting with a central server
  that knows none of the ports the kernel will give to the local one, after any sequence of
  messages \<open>as_login_priv\<close> and \<open>as_login_create\<close> from a private port of the local server do not
  succeed, whoever is logged in there: they send the local port on, where the central server
  knows the caller by another one.
\<close>

theorem las_privileged_login_fails:
  assumes "las_init kl ns (las_start w) = Inr (True, s0)" "new_names kl" "cas_ok w" "\<forall>n p. port_allocate_name kl n = Some p \<longrightarrow> p \<notin> cas_sessions w"
    and "serve_all (las_main kl (cas_rpc k junk flag link) ns) ms s0 = Inr (rs, s)"
    and "central_port port s = Inr (Some cp)" "q = As_Login_Priv port uid \<or> q = As_Login_Create port ids"
    and "las_serve kl (cas_rpc k junk flag link) q s = Inr (r, s')"
  shows "code r \<noteq> AS_SUCCESS"
proof -
  have s0: "las_calls s0 = 1" "las_priv_port_map s0 = (\<lambda>_. no_session)" "net s0 = w"
    using assms(1) by (auto simp: las_init_def port_allocate_def look_up_cas_def las_start_def Let_def elim!: bindE_InrE split: option.split_asm if_split_asm)
  then have "apart cas_ok cas_sessions kl s0"
    using assms(2-4) by (auto simp: apart_def locals_def no_session_def future_def)
  then have "apart cas_ok cas_sessions kl s" using cas_authority.local_server.all_keep [OF assms(5)] by blast
  moreover have "port \<in> locals s"
    using assms(6) las_map.slot by (fastforce simp: central_port_def locals_def elim!: bindE_InrE split: if_split_asm)
  ultimately show ?thesis
    using cas_authority.privileged_login_fails assms(7,8) by (fastforce simp: las_port_def elim!: bindE_InrE)
qed

end
