(* ===== verification/Las_Session.thy ===== *)
theory Las_Session
  imports Las_Central
begin

text \<open>
  The two servers together: what a user of the local server gets when everything is well, and
  that the requests on groups come out as the central server's own service would answer them.
\<close>

section \<open>Calls that come through\<close>

lemma cas_rpc_delivered:
  assumes "server w = Some c" "link (sent w) = Delivered" "cas_serve k junk (with_flag (flag (sent w)) q) c = Inr (r, c')"
  shows "cas_rpc k junk flag link port q w = (Inr r, w\<lparr>server := Some c', sent := Suc (sent w)\<rparr>)"
  using assms by (simp add: cas_rpc_def Let_def)

lemma call_delivered:
  assumes "server (net s) = Some c" "link (sent (net s)) = Delivered"
    and "cas_serve k junk (with_flag (flag (sent (net s))) q) c = Inr (r, c')" "code r = AS_SUCCESS"
  shows "call (cas_rpc k junk flag link) q s = (Inr r, s\<lparr>net := (net s)\<lparr>server := Some c', sent := Suc (sent (net s))\<rparr>\<rparr>)"
  using cas_rpc_delivered [where port = "cas_port s" and flag = flag and link = link, OF assms(1-3)] cas_serve_fits [OF assms(3)] assms(4)
  by (simp add: call_def stub_def)

definition las_free :: "u32 \<Rightarrow> (nat \<Rightarrow> u32) \<Rightarrow> bool" where
  "las_free port mp \<longleftrightarrow> (\<exists>i < LAS_PORT_MAP_MAX. mp i = port \<or> mp i = MACH_PORT_NULL)"

lemma map_local_runs:
  assumes "port_allocate_name k (las_calls s) = Some lp" "lp \<noteq> MACH_PORT_NULL" "las_free lp (las_priv_ports s)"
  shows "\<exists>s'. map_local k cp s = Inr (AS_SUCCESS, lp, s') \<and> central_port lp s' = Inr (Some cp) \<and>
    las_reg_port_map s' = las_reg_port_map s \<and> net s' = net s \<and> las_calls s' = Suc (las_calls s) \<and>
    (\<exists>i. las_priv_port_map s' = (las_priv_port_map s)(i := \<lparr>l_mapped_port = lp, l_central_pport = cp\<rparr>))"
proof -
  obtain i where i: "LAS_HASH_PORT lp (las_priv_ports s) = Inr i"
    using assms(3) las_map.total unfolding las_free_def by metis
  let ?s = "s\<lparr>las_calls := Suc (las_calls s), las_priv_port_map := (las_priv_port_map s)(i := \<lparr>l_mapped_port = lp, l_central_pport = cp\<rparr>)\<rparr>"
  have "las_priv_ports ?s = (las_priv_ports s)(i := lp)" by auto
  then have "central_port lp ?s = Inr (Some cp)" using las_map.search_set [OF i] assms(2) by (simp add: central_port_def)
  moreover have "map_local k cp s = Inr (AS_SUCCESS, lp, ?s)" using assms(1) i by (simp add: map_local_def port_allocate_def)
  ultimately show ?thesis by auto
qed

lemma as_login_runs:
  assumes "server (net s) = Some c" "link (sent (net s)) = Delivered" "cas_login k name pw cp c = Inr (AS_SUCCESS, c')"
    and "port_allocate_name kl (las_calls s) = Some cp" "port_allocate_name kl (Suc (las_calls s)) = Some lp"
    and "lp \<noteq> MACH_PORT_NULL" "las_free lp (las_priv_ports s)"
  shows "\<exists>s'. as_login kl (cas_rpc k junk flag link) name pw s = Inr (AS_SUCCESS, lp, s') \<and> central_port lp s' = Inr (Some cp) \<and>
    las_reg_port_map s' = las_reg_port_map s \<and> net s' = (net s)\<lparr>server := Some c', sent := Suc (sent (net s))\<rparr> \<and>
    las_calls s' = Suc (Suc (las_calls s)) \<and>
    (\<exists>i. las_priv_port_map s' = (las_priv_port_map s)(i := \<lparr>l_mapped_port = lp, l_central_pport = cp\<rparr>))"
proof -
  let ?s = "s\<lparr>las_calls := Suc (las_calls s)\<rparr>"
  have call: "call (cas_rpc k junk flag link) (Login name pw cp) ?s = (Inr (Return AS_SUCCESS), ?s\<lparr>net := (net s)\<lparr>server := Some c', sent := Suc (sent (net s))\<rparr>\<rparr>)"
    using call_delivered [of ?s c link k junk flag "Login name pw cp" "Return AS_SUCCESS" c'] assms(1-3) by (simp add: return_of_def)
  let ?t = "?s\<lparr>net := (net s)\<lparr>server := Some c', sent := Suc (sent (net s))\<rparr>\<rparr>"
  obtain s' where "map_local kl cp ?t = Inr (AS_SUCCESS, lp, s')" "central_port lp s' = Inr (Some cp)"
    "las_reg_port_map s' = las_reg_port_map ?t" "net s' = net ?t" "las_calls s' = Suc (las_calls ?t)"
    "\<exists>i. las_priv_port_map s' = (las_priv_port_map ?t)(i := \<lparr>l_mapped_port = lp, l_central_pport = cp\<rparr>)"
    using map_local_runs [of kl ?t lp cp] assms(5-7) by auto
  then show ?thesis using assms(4) call by (simp add: as_login_def port_allocate_def)
qed

lemma as_create_token_runs:
  assumes "central_port lp s = Inr (Some cp)" "server (net s) = Some c" "link (sent (net s)) = Delivered"
    and "cas_register_token k cp ids token (flag (sent (net s))) c = Inr (AS_SUCCESS, c')"
    and "port_allocate_name kl (las_calls s) = Some token"
  shows "\<exists>s'. as_create_token kl (cas_rpc k junk flag link) lp ids s = Inr (AS_SUCCESS, token, s') \<and>
    las_reg_port_map s' = las_reg_port_map s \<and> net s' = (net s)\<lparr>server := Some c', sent := Suc (sent (net s))\<rparr>"
proof -
  let ?s = "s\<lparr>las_calls := Suc (las_calls s)\<rparr>"
  have "call (cas_rpc k junk flag link) (Register_Token cp ids token False) ?s =
      (Inr (Return AS_SUCCESS), ?s\<lparr>net := (net s)\<lparr>server := Some c', sent := Suc (sent (net s))\<rparr>\<rparr>)"
    using call_delivered [of ?s c link k junk flag "Register_Token cp ids token False" "Return AS_SUCCESS" c'] assms(2-4) by (simp add: return_of_def)
  then show ?thesis using assms(1,5) by (simp add: as_create_token_def port_allocate_def)
qed

lemma as_verify_token_ids_runs:
  assumes "\<forall>i. las_reg_ports s i \<noteq> token" "las_free token (las_reg_ports s)" "server (net s) = Some c" "link (sent (net s)) = Delivered"
    and "cas_verify_token_ids token c = Inr (AS_SUCCESS, uid, ids)"
  shows "\<exists>s'. as_verify_token_ids (cas_rpc k junk flag link) token s = Inr (AS_SUCCESS, uid, ids, s')"
proof -
  obtain i where "LAS_HASH_PORT token (las_reg_ports s) = Inr i" using assms(2) las_map.total unfolding las_free_def by metis
  then show ?thesis
    using call_delivered [of s c link k junk flag "Verify_Token_Ids token" "Token_Ids AS_SUCCESS uid ids" c] assms
    by (simp add: as_verify_token_ids_def Let_def)
qed

text \<open>The local server, just started, in front of a central server with one user.\<close>

definition site_kernel :: kernel where
  "site_kernel = \<lparr>vm_allocate_ok = (\<lambda>_. True), vm_deallocate_kr = (\<lambda>_. 0), file_ok = (\<lambda>_. True),
     port_allocate_name = (\<lambda>n. if n < 8 then Some (0x10 + of_nat n) else None), port_deallocate_kr = (\<lambda>_. 0)\<rparr>"

definition site :: "u8 list \<Rightarrow> wire las_state" where
  "site pw = (las_start \<lparr>server = Some (user_state pw), sent = 0\<rparr>)\<lparr>las_calls := 1, las_service_port := 0x10, cas_port := 99, las_lookups := 2\<rparr>"

lemma site_init: "las_init site_kernel demo_names (las_start \<lparr>server = Some (user_state pw), sent = 0\<rparr>) = Inr (True, site pw)"
  by (simp add: las_init_def port_allocate_def site_kernel_def demo_names_def look_up_cas_def las_start_def site_def
      find_cas.simps Let_def numeral_2_eq_2)

lemma site_fields: "server (net (site pw)) = Some (user_state pw)" "las_calls (site pw) = 1" "las_free p (las_priv_ports (site pw))"
    "las_free p (las_reg_ports (site pw))" "las_reg_ports (site pw) i = 0"
  by (auto simp: site_def las_start_def las_free_def no_session_def no_token_def LAS_PORT_MAP_MAX_def MACH_PORT_NULL_def intro!: exI [of _ 0])

lemma site_names: "new_names site_kernel"
proof -
  have "m = n" if "m < 8" "n < 8" "(0x10 + of_nat m :: u32) = 0x10 + of_nat n" for m n
    using that by (simp add: word_of_nat_eq_iff take_bit_eq_mod)
  moreover have "(0x10 + of_nat n :: u32) \<noteq> 0" if "n < 8" for n
  proof -
    have "unat (0x10 + of_nat n :: u32) = 0x10 + n" using that by (simp add: unat_word_ariths unat_of_nat)
    then show ?thesis by (metis add_is_0 unsigned_0 zero_neq_numeral)
  qed
  ultimately show ?thesis by (auto simp: new_names_def site_kernel_def MACH_PORT_NULL_def)
qed

lemma user_state_tables: "reg_ports (user_state pw) i = 0" "priv_port_map (user_state pw) i = empty_priv"
  by (simp_all add: user_state_def demo_state_def static_state_def empty_reg_def MACH_PORT_NULL_def)

section \<open>From the login to the token\<close>

lemma register_all_runs:
  assumes "private_record s port = Inr (Some a)" "recs s a = Some r" "\<And>n. vm_allocate_ok k n" "port_free token (reg_ports s)"
  shows "\<exists>s'. cas_register_token k port [] token create s = Inr (AS_SUCCESS, s') \<and> recs s' = recs s"
proof -
  obtain i where "HASH_PORT token (reg_ports s) = Inr i" using assms(4) HASH_PORT_total unfolding port_free_def by metis
  then show ?thesis using assms(1-3)
    by (auto simp: cas_register_token_def check_restriction_def rec_at_def Let_def vm_deallocate_def vm_allocate_def split_def)
qed

text \<open>
  C3. From the login to the token, through both servers: a user who logs in at the local server with
  the name and password of a primary group gets a private port; with it, a token; and the token
  verifies there to the id of the user and the transitive closure of the user's memberships, each
  group once. This holds when the central server is up and its tables are well-formed, the
  messages come through, memory and ports are to be had and the port maps have room.
\<close>

theorem las_login_token_verify:
  assumes "server (net s) = Some c" "\<And>n. link n = Delivered"
    and "ids_ok c" "lists_ok c" "lookup_name c (to_lower name) = Inr (Some a)" "recs c a = Some r"
    and "group_type r = AS_PRIMARY" "encrypt_password pw = Inr pw'" "PW_EQUAL pw' (pass_word r)" "\<And>n. vm_allocate_ok k n"
    and "port_allocate_name kl (las_calls s) = Some cp" "cp \<noteq> MACH_PORT_NULL" "port_free cp (priv_ports c)"
    and "port_allocate_name kl (Suc (las_calls s)) = Some lp" "lp \<noteq> MACH_PORT_NULL" "las_free lp (las_priv_ports s)"
    and "port_allocate_name kl (Suc (Suc (las_calls s))) = Some token" "port_free token (reg_ports c)"
    and "\<forall>i. las_reg_ports s i \<noteq> token" "las_free token (las_reg_ports s)"
  shows "\<exists>s1 s2 s3 ids. as_login kl (cas_rpc k junk flag link) name pw s = Inr (AS_SUCCESS, lp, s1) \<and>
    as_create_token kl (cas_rpc k junk flag link) lp [] s1 = Inr (AS_SUCCESS, token, s2) \<and>
    as_verify_token_ids (cas_rpc k junk flag link) token s2 = Inr (AS_SUCCESS, group_id r, ids, s3) \<and>
    distinct ids \<and> set ids = reach (group_graph True c) (memberships r)"
proof -
  obtain c1 r1 where c1: "cas_login k name pw cp c = Inr (AS_SUCCESS, c1)" "private_record c1 cp = Inr (Some a)" "recs c1 a = Some r1"
      "distinct (tr_memberships r1)" "set (tr_memberships r1) = reach (group_graph True c) (memberships r)" "group_id r1 = group_id r"
      "reg_port_map c1 = reg_port_map c"
    using login_runs [OF assms(3-10,12,13)] by blast
  obtain s1 where s1: "as_login kl (cas_rpc k junk flag link) name pw s = Inr (AS_SUCCESS, lp, s1)" "central_port lp s1 = Inr (Some cp)"
      "las_reg_port_map s1 = las_reg_port_map s" "net s1 = (net s)\<lparr>server := Some c1, sent := Suc (sent (net s))\<rparr>" "las_calls s1 = Suc (Suc (las_calls s))"
    using as_login_runs [where link = link, OF assms(1,2) c1(1) assms(11,14-16)] by blast
  let ?flag = "flag (sent (net s1))"
  have "port_free token (reg_ports c1)" using assms(18) c1(7) by simp
  then obtain c2 where c2: "cas_register_token k cp [] token ?flag c1 = Inr (AS_SUCCESS, c2)" "recs c2 = recs c1"
    using register_all_runs [OF c1(2,3) assms(10)] by blast
  then have v: "cas_verify_token_ids token c2 = Inr (AS_SUCCESS, group_id r1, tr_memberships r1)"
    using register_result [OF c2(1)] c1(2,3) by auto
  obtain s2 where s2: "as_create_token kl (cas_rpc k junk flag link) lp [] s1 = Inr (AS_SUCCESS, token, s2)"
      "las_reg_port_map s2 = las_reg_port_map s1" "server (net s2) = Some c2"
    using as_create_token_runs [where flag = flag and link = link and kl = kl and junk = junk, OF s1(2) _ assms(2) c2(1)] s1(4,5) assms(17) by auto
  have "\<forall>i. las_reg_ports s2 i \<noteq> token" "las_free token (las_reg_ports s2)" using assms(19,20) s2(2) s1(3) by simp_all
  from as_verify_token_ids_runs [where link = link, OF this s2(3) assms(2) v] show ?thesis using s1(1) s2(1) c1(4-6) by metis
qed

theorem las_login_token_verify_witness:
  "\<exists>pw s1 s2 s3 ids. as_login site_kernel (cas_rpc ready_kernel 0 (\<lambda>_. True) (\<lambda>_. Delivered)) (ascii ''Root'') demo_password (site pw)
      = Inr (AS_SUCCESS, 0x12, s1) \<and>
    as_create_token site_kernel (cas_rpc ready_kernel 0 (\<lambda>_. True) (\<lambda>_. Delivered)) 0x12 [] s1 = Inr (AS_SUCCESS, 0x13, s2) \<and>
    as_verify_token_ids (cas_rpc ready_kernel 0 (\<lambda>_. True) (\<lambda>_. Delivered)) 0x13 s2 = Inr (AS_SUCCESS, 1, ids, s3)"
proof -
  obtain pw where pw: "encrypt_password demo_password = Inr pw" using demo_password_encrypted by blast
  let ?r = "demo_record\<lparr>pass_word := pw\<rparr>"
  have r: "recs (user_state pw) 0 = Some ?r" by (simp add: user_state_def)
  have "\<exists>s1 s2 s3 ids. as_login site_kernel (cas_rpc ready_kernel 0 (\<lambda>_. True) (\<lambda>_. Delivered)) (ascii ''Root'') demo_password (site pw)
      = Inr (AS_SUCCESS, 0x12, s1) \<and>
    as_create_token site_kernel (cas_rpc ready_kernel 0 (\<lambda>_. True) (\<lambda>_. Delivered)) 0x12 [] s1 = Inr (AS_SUCCESS, 0x13, s2) \<and>
    as_verify_token_ids (cas_rpc ready_kernel 0 (\<lambda>_. True) (\<lambda>_. Delivered)) 0x13 s2 = Inr (AS_SUCCESS, group_id ?r, ids, s3) \<and>
    distinct ids \<and> set ids = reach (group_graph True (user_state pw)) (memberships ?r)"
  proof (rule las_login_token_verify [where cp = "0x11" and pw' = pw, OF site_fields(1) refl user_state_ok(1-3) r _ pw])
    show "port_free 0x11 (priv_ports (user_state pw))" by (rule user_state_ok(4))
    show "port_free 0x13 (reg_ports (user_state pw))" unfolding port_free_def using user_state_tables(1) by (auto simp: PORT_MAP_MAX_def MACH_PORT_NULL_def intro!: exI [of _ 0])
    show "las_free 0x12 (las_priv_ports (site pw))" "las_free 0x13 (las_reg_ports (site pw))" by (rule site_fields)+
    show "\<forall>i. las_reg_ports (site pw) i \<noteq> 0x13" by (simp add: site_fields(5))
  qed (simp_all add: site_fields(2) site_kernel_def ready_kernel_def MACH_PORT_NULL_def demo_record_def zero_record_def AS_PRIMARY_def
      PW_EQUAL_def list_all_iff)
  moreover have "group_id ?r = 1" by (simp add: demo_record_def)
  ultimately show ?thesis by metis
qed

abbreviation site_rpc :: "wire rpc" where
  "site_rpc \<equiv> cas_rpc ready_kernel 0 (\<lambda>_. True) (\<lambda>_. Delivered)"

lemma site_login:
  assumes "encrypt_password demo_password = Inr pw"
  shows "\<exists>s. as_login site_kernel site_rpc (ascii ''Root'') demo_password (site pw) = Inr (AS_SUCCESS, 0x12, s) \<and>
    central_port 0x12 s = Inr (Some 0x11) \<and> las_calls s = 3 \<and> las_free p (las_priv_ports s)"
proof -
  have r: "recs (user_state pw) 0 = Some (demo_record\<lparr>pass_word := pw\<rparr>)" by (simp add: user_state_def)
  obtain c' where c': "cas_login ready_kernel (ascii ''Root'') demo_password 0x11 (user_state pw) = Inr (AS_SUCCESS, c')"
    using login_runs [OF user_state_ok(1-3) r _ assms, of ready_kernel "0x11"] user_state_ok(4)
    by (auto simp: demo_record_def zero_record_def PW_EQUAL_def list_all_iff ready_kernel_def MACH_PORT_NULL_def AS_PRIMARY_def)
  have "\<exists>s. as_login site_kernel site_rpc (ascii ''Root'') demo_password (site pw) = Inr (AS_SUCCESS, 0x12, s) \<and>
    central_port 0x12 s = Inr (Some 0x11) \<and> las_reg_port_map s = las_reg_port_map (site pw) \<and>
    net s = (net (site pw))\<lparr>server := Some c', sent := Suc (sent (net (site pw)))\<rparr> \<and> las_calls s = Suc (Suc (las_calls (site pw))) \<and>
    (\<exists>i. las_priv_port_map s = (las_priv_port_map (site pw))(i := \<lparr>l_mapped_port = 0x12, l_central_pport = 0x11\<rparr>))"
    by (rule as_login_runs [OF site_fields(1) refl c']) (simp_all add: site_fields(2,3) site_kernel_def MACH_PORT_NULL_def)
  then obtain s i where s: "as_login site_kernel site_rpc (ascii ''Root'') demo_password (site pw) = Inr (AS_SUCCESS, 0x12, s)"
      "central_port 0x12 s = Inr (Some 0x11)" "las_calls s = Suc (Suc (las_calls (site pw)))"
      "las_priv_port_map s = (las_priv_port_map (site pw))(i := \<lparr>l_mapped_port = 0x12, l_central_pport = 0x11\<rparr>)" by blast
  have "las_free p (las_priv_ports s)"
    unfolding las_free_def s(4) by (rule exI [of _ "if i = 0 then 1 else 0"]) (simp add: site_def las_start_def no_session_def LAS_PORT_MAP_MAX_def)
  then show ?thesis using s(1-3) by (simp add: site_fields(2))
qed

lemma as_login_priv_returns:
  assumes "\<And>p. las_free p (las_priv_ports s)" "port_allocate_name k (Suc (las_calls s)) = Some p" "p \<noteq> MACH_PORT_NULL"
  shows "\<exists>ret port s'. as_login_priv k rpc c uid s = Inr (ret, port, s')"
proof (cases "port_allocate_name k (las_calls s)")
  case (Some cp)
  let ?s = "s\<lparr>las_calls := Suc (las_calls s)\<rparr>"
  obtain a t where c: "call rpc (Login_Priv c uid cp) ?s = (a, t)" by fastforce
  then have "las_priv_port_map t = las_priv_port_map s" "las_calls t = Suc (las_calls s)" by (auto simp: call_def Let_def split_def)
  then have "\<exists>ret port s'. map_local k cp t = Inr (ret, port, s')" using map_local_runs [of k t p cp] assms by auto
  then show ?thesis using Some c by (cases a) (auto simp: as_login_priv_def port_allocate_def)
qed (simp add: as_login_priv_def port_allocate_def)

theorem las_privileged_login_fails_witness:
  "\<exists>pw s r s'. serve_all (las_main site_kernel site_rpc demo_names)
      [Service_Request (As_Login (ascii ''Root'') demo_password)] (site pw) = Inr ([Some (New_Port AS_SUCCESS 0x12)], s) \<and>
    las_serve site_kernel site_rpc (As_Login_Priv 0x12 1) s = Inr (r, s') \<and> code r \<noteq> AS_SUCCESS"
proof -
  obtain pw where pw: "encrypt_password demo_password = Inr pw" using demo_password_encrypted by blast
  obtain s where s: "as_login site_kernel site_rpc (ascii ''Root'') demo_password (site pw) = Inr (AS_SUCCESS, 0x12, s)"
      "central_port 0x12 s = Inr (Some 0x11)" "las_calls s = 3" using site_login [OF pw] by blast
  have free: "las_free p (las_priv_ports s)" for p using site_login [OF pw, of p] s(1) by auto
  have run: "serve_all (las_main site_kernel site_rpc demo_names)
      [Service_Request (As_Login (ascii ''Root'') demo_password)] (site pw) = Inr ([Some (New_Port AS_SUCCESS 0x12)], s)"
    using s(1) by (simp add: las_port_def)
  have "port_allocate_name site_kernel (Suc (las_calls s)) = Some 0x14" by (simp add: s(3) site_kernel_def)
  then obtain r s' where r: "las_serve site_kernel site_rpc (As_Login_Priv 0x12 1) s = Inr (r, s')"
    using as_login_priv_returns [OF free, of site_kernel "0x14" site_rpc "0x12" 1] by (auto simp: las_port_def MACH_PORT_NULL_def)
  have "cas_ok \<lparr>server = Some (user_state pw), sent = 0\<rparr>" "cas_sessions \<lparr>server = Some (user_state pw), sent = 0\<rparr> = {}"
    by (simp_all add: cas_ok_def cas_sessions_def user_state_tables(2))
  then have "code r \<noteq> AS_SUCCESS"
    using las_privileged_login_fails [OF site_init site_names _ _ run s(2) _ r] by simp
  then show ?thesis using run r by blast
qed

section \<open>Requests on groups\<close>

text \<open>
  The requests on groups as the central server would get them: with the central port behind the
  private port of the caller (none, when the local server refuses the port), or unchanged when
  they have no caller. The other requests are the local server's own business.
\<close>

fun passed :: "as_request \<Rightarrow> 'w las_state \<Rightarrow> as_request option result" where
  "passed (As_Create_Group port name gtype full pw owner gid) s =
     bindE (central_port port s) (\<lambda>c. Inr (map_option (\<lambda>c. As_Create_Group c name gtype full pw owner gid) c))"
| "passed (As_Delete_Group port name) s = bindE (central_port port s) (\<lambda>c. Inr (map_option (\<lambda>c. As_Delete_Group c name) c))"
| "passed (As_Change_Owner port name owner) s =
     bindE (central_port port s) (\<lambda>c. Inr (map_option (\<lambda>c. As_Change_Owner c name owner) c))"
| "passed (As_Change_Password port name old_pw new_pw) s =
     bindE (central_port port s) (\<lambda>c. Inr (map_option (\<lambda>c. As_Change_Password c name old_pw new_pw) c))"
| "passed (As_Add_To_Group port name add) s = bindE (central_port port s) (\<lambda>c. Inr (map_option (\<lambda>c. As_Add_To_Group c name add) c))"
| "passed (As_Remove_From_Group port name rem) s =
     bindE (central_port port s) (\<lambda>c. Inr (map_option (\<lambda>c. As_Remove_From_Group c name rem) c))"
| "passed (As_Translate_Group_Id gid) s = Inr (Some (As_Translate_Group_Id gid))"
| "passed (As_Translate_Group_Name name) s = Inr (Some (As_Translate_Group_Name name))"
| "passed (As_List_Members name closure) s = Inr (Some (As_List_Members name closure))"
| "passed (As_List_Memberships name closure) s = Inr (Some (As_List_Memberships name closure))"
| "passed As_List_All_Groups s = Inr (Some As_List_All_Groups)"
| "passed q s = Inr None"

lemma passed_served:
  assumes "passed q s = Inr (Some q')"
  shows "las_serve kl rpc q s = las_answer (pass_on rpc (central q' MACH_PORT_NULL) s) \<and> \<not> logs_in q' \<and> \<not> new_token q' \<and>
    with_flag flag (central q' MACH_PORT_NULL) = central q' MACH_PORT_NULL"
  using assms by (cases q) (auto simp: las_query_defs las_group_defs elim!: bindE_InrE)

lemma answer_eq:
  assumes "server (net s) = Some c" "link (sent (net s)) = Delivered" "with_flag (flag (sent (net s))) q = q"
  shows "las_answer (pass_on (cas_rpc k junk flag link) q s) =
    (case cas_serve k junk q c of
       Inl f \<Rightarrow> Inr (Return (AS_KERN RCV_PORT_DIED), s\<lparr>net := (net s)\<lparr>server := None, sent := Suc (sent (net s))\<rparr>\<rparr>)
     | Inr (r, c') \<Rightarrow> Inr (if code r = AS_SUCCESS then r else Return (timed_out (code r)),
         s\<lparr>net := (net s)\<lparr>server := Some c', sent := Suc (sent (net s))\<rparr>\<rparr>))"
  using assms
  by (auto simp: las_answer_def pass_on_def call_def cas_rpc_def stub_def timed_out_def RCV_TIMED_OUT_def RCV_PORT_DIED_def Let_def
      split: sum.split dest!: cas_serve_fits)

text \<open>
  C16. A request on groups comes out of the local server as the central server's own service would
  answer it to the session behind the caller's port: the same reply, cut down to its code when
  it failed, and the same effect on the central server; when the central server faults on the
  request, the caller is told of an error of the message layer.
\<close>

theorem las_group_requests:
  assumes "passed q s = Inr (Some q')" "server (net s) = Some c" "link (sent (net s)) = Delivered"
  shows "las_serve kl (cas_rpc k junk flag link) q s =
    (case clas_serve k junk q' c of
       Inl f \<Rightarrow> Inr (Return (AS_KERN RCV_PORT_DIED), s\<lparr>net := (net s)\<lparr>server := None, sent := Suc (sent (net s))\<rparr>\<rparr>)
     | Inr (r, c') \<Rightarrow> Inr (if code r = AS_SUCCESS then r else Return (timed_out (code r)),
         s\<lparr>net := (net s)\<lparr>server := Some c', sent := Suc (sent (net s))\<rparr>\<rparr>))"
proof -
  note p = passed_served [OF assms(1), of kl "cas_rpc k junk flag link" "flag (sent (net s))"]
  have "clas_serve k junk q' c = cas_serve k junk (central q' MACH_PORT_NULL) c"
    using p by (cases "cas_serve k junk (central q' MACH_PORT_NULL) c") (auto simp: clas_serve_forward forward_def as_reply_def)
  then show ?thesis using p answer_eq [where link = link and flag = flag and k = k and junk = junk, OF assms(2,3)] by simp
qed

theorem las_group_requests_witness:
  "\<exists>s'. las_serve site_kernel site_rpc (As_Translate_Group_Name (ascii ''Root'')) (site []) =
    Inr (Name_Info AS_SUCCESS 0 1 (Some 0) [], s')"
proof -
  let ?q = "As_Translate_Group_Name (ascii ''Root'')"
  have "clas_serve ready_kernel 0 ?q (user_state []) = Inr (Name_Info AS_SUCCESS 0 1 (Some 0) [], user_state [])"
    using user_state_ok(3) [of "[]"]
    by (simp add: clas_translate_group_name_def cas_translate_group_name_def rec_at_def user_state_def demo_record_def zero_record_def)
  then show ?thesis
    using las_group_requests [where link = "\<lambda>_. Delivered" and flag = "\<lambda>_. True" and k = ready_kernel and junk = 0 and kl = site_kernel,
      of ?q "site []" ?q, OF _ site_fields(1)]
    by simp
qed

end
