(* ===== verification/Cas_Db_Roundtrip.thy ===== *)
theory Cas_Db_Roundtrip
  imports Cas_Closure Cas_Db
begin

text \<open>
  What \<open>save_database\<close> writes, \<open>read_database\<close> reads back: the numbers, the fields and lists of
  one line, a line, and the whole file. Names may not contain a colon, a newline or a zero byte, and no
  password a newline or a zero byte.
\<close>

section \<open>Numbers\<close>

lemma dec_nat_bytes: "c \<in> set (dec_nat n) \<Longrightarrow> digit_byte c"
proof (induction n rule: dec_nat.induct)
  case (1 n)
  have digit: "digit_byte (of_nat (48 + m))" if "m < 10" for m
    using that by (simp add: digit_byte_def word_le_nat_alt unat_of_nat unat_word_ariths)
  show ?case
  proof (cases "n < 10")
    case True
    then show ?thesis using "1.prems" digit by (subst (asm) dec_nat.simps) simp
  next
    case False
    then have "c \<in> set (dec_nat (n div 10)) \<or> c = of_nat (48 + n mod 10)" using "1.prems" by (subst (asm) dec_nat.simps) auto
    then show ?thesis using "1.IH" False digit [of "n mod 10"] by auto
  qed
qed

lemma dec_nat_nonempty [simp]: "dec_nat n \<noteq> []"
  by (subst dec_nat.simps) simp

lemma dec_value_nat: "dec_value (dec_nat n) = of_nat n"
proof -
  have all: "takeWhile digit_byte (dec_nat n) = dec_nat n" for n
    using dec_nat_bytes by (simp add: takeWhile_eq_all_conv)
  have "foldl (\<lambda>v c. 10 * v + (ucast c - 48)) 0 (dec_nat n) = (of_nat n :: u32)"
  proof (induction n rule: dec_nat.induct)
    case (1 n)
    have "list_all (\<lambda>m. ucast (of_nat (48 + m) :: u8) - 48 = (of_nat m :: u32)) [0..<10]" by code_simp
    then have digit: "ucast (of_nat (48 + m) :: u8) - 48 = (of_nat m :: u32)" if "m < 10" for m
      using that unfolding list_all_iff by simp
    show ?case
    proof (cases "n < 10")
      case True
      then show ?thesis using digit by (subst dec_nat.simps) simp
    next
      case False
      have "10 * (of_nat (n div 10) :: u32) + of_nat (n mod 10) = of_nat n" by (metis mult_div_mod_eq of_nat_add of_nat_mult of_nat_numeral)
      then show ?thesis using False "1.IH" digit [of "n mod 10"] by (subst dec_nat.simps) simp
    qed
  qed
  then show ?thesis by (simp add: dec_value_def all)
qed

lemma atoi_print_d: "atoi (print_d i) = i"
proof -
  have first: "dropWhile space_byte (dec_nat n) = dec_nat n \<and> hd (dec_nat n) \<noteq> 45 \<and> hd (dec_nat n) \<noteq> 43" for n
  proof -
    have "digit_byte (hd (dec_nat n))" using dec_nat_bytes [of "hd (dec_nat n)" n] by simp
    then have "\<not> space_byte (hd (dec_nat n))" "hd (dec_nat n) \<noteq> 45" "hd (dec_nat n) \<noteq> 43"
      by (auto simp: digit_byte_def space_byte_def word_le_nat_alt)
    then show ?thesis by (cases "dec_nat n") auto
  qed
  have nat: "atoi (dec_nat n) = of_nat n" for n
    using first [of n] dec_value_nat [of n] by (cases "dec_nat n") (auto simp: atoi_def)
  show ?thesis
  proof (cases "0 \<le> sint i")
    case True
    then have "(of_nat (nat (sint i)) :: u32) = i" by simp
    then show ?thesis using True nat by (simp add: print_d_def)
  next
    case False
    then have "- (of_nat (nat (- sint i)) :: u32) = i" by simp
    moreover have "\<not> space_byte 45" by (simp add: space_byte_def)
    ultimately show ?thesis using False dec_value_nat by (simp add: print_d_def atoi_def)
  qed
qed

section \<open>Fields\<close>

definition number_byte :: "u8 \<Rightarrow> bool" where
  "number_byte c \<longleftrightarrow> digit_byte c \<or> c = 45"

lemma print_d_bytes: "c \<in> set (print_d i) \<Longrightarrow> number_byte c"
  using dec_nat_bytes by (auto simp: print_d_def number_byte_def split: if_splits)

lemma print_d_nonempty [simp]: "print_d i \<noteq> []"
  by (simp add: print_d_def)

lemma number_byte_stops: "\<not> number_byte 0" "\<not> number_byte 10" "\<not> number_byte 44" "\<not> number_byte colon"
  by (simp_all add: number_byte_def digit_byte_def colon_def)

lemma print_d_free: "set (print_d i) \<inter> {0, 10, 44, colon} = {}"
  using print_d_bytes number_byte_stops by blast

lemma dec_nat_length: "n < 10 ^ m \<Longrightarrow> 0 < m \<Longrightarrow> length (dec_nat n) \<le> m"
proof (induction m arbitrary: n)
  case (Suc m)
  show ?case
  proof (cases "n < 10")
    case True
    then show ?thesis by (subst dec_nat.simps) simp
  next
    case False
    then have "n div 10 < 10 ^ m" "0 < m" using Suc.prems by (auto intro: ccontr simp: less_mult_imp_div_less mult.commute)
    from Suc.IH [OF this] show ?thesis using False by (subst dec_nat.simps) simp
  qed
qed simp

lemma print_d_length: "length (print_d i) \<le> 11"
proof -
  have b: "- (2 ^ 31) \<le> sint i" "sint i < 2 ^ 31" using sint_ge [of i] sint_lt [of i] by simp_all
  have "length (dec_nat (nat x)) \<le> 10" if "x \<le> 2 ^ 31" for x
    by (rule dec_nat_length) (use that in \<open>auto simp: nat_less_iff\<close>)
  from this [of "sint i"] this [of "- sint i"] show ?thesis using b by (auto simp: print_d_def)
qed

lemma scan_field_upto:
  "set f \<inter> insert 0 (set stops) = {} \<Longrightarrow> length f < room \<Longrightarrow> c = 0 \<or> c \<in> set stops \<Longrightarrow>
    scan_field room stops (f @ c # rest) = Inr (f, c # rest)"
proof (induction f arbitrary: room)
  case (Cons x f)
  then show ?case using Cons.IH [of "room - 1"] by auto
qed auto

lemma scan_number: "c \<in> set stops \<Longrightarrow> set stops \<subseteq> {44, colon} \<Longrightarrow> scan_field 64 stops (print_d i @ c # rest) = Inr (print_d i, c # rest)"
  using print_d_free [of i] print_d_length [of i] by (intro scan_field_upto) auto

lemma scan_password_all: "length pw = n \<Longrightarrow> scan_password n (pw @ rest) = Inr (pw, rest)"
  by (induction pw arbitrary: n) (auto simp: peek_def advance_def)

text \<open>A list of ids as it is printed.\<close>

fun ids_text :: "u32 list \<Rightarrow> u8 list" where
  "ids_text [] = []"
| "ids_text [i] = print_d i"
| "ids_text (i # j # ids) = print_d i @ 44 # ids_text (j # ids)"

lemma print_ids_text: "print_ids True ids = Inr t \<Longrightarrow> t = ids_text ids"
proof -
  have tail: "print_ids False ids = Inr t \<Longrightarrow> t = (if ids = [] then [] else 44 # ids_text ids)" for ids t
  proof (induction ids arbitrary: t)
    case (Cons i ids)
    then show ?case by (cases ids) (auto simp: mem_id_def elim!: bindE_InrE split: if_split_asm)
  qed simp
  assume "print_ids True ids = Inr t"
  then show ?thesis
  proof (cases ids)
    case (Cons i xs)
    then obtain u where "print_ids False xs = Inr u" "t = print_d i @ u"
      using \<open>print_ids True ids = Inr t\<close> by (auto simp: mem_id_def elim!: bindE_InrE split: if_split_asm)
    then show ?thesis using tail [of xs u] Cons by (cases xs) simp_all
  qed simp
qed

lemma ids_text_free: "set (ids_text ids) \<inter> {0, 10, colon} = {}"
proof (induction ids rule: ids_text.induct)
  case (2 i)
  then show ?case using print_d_free [of i] by auto
next
  case (3 i j ids)
  then show ?case using print_d_free [of i] by (auto simp: colon_def)
qed simp

lemma scan_ids_text:
  "length ids < n \<Longrightarrow> length acc + length ids \<le> MEMBERS_MAX \<Longrightarrow>
    scan_ids n acc (ids_text ids @ colon # rest) = Inr (acc @ ids, colon # rest)"
proof (induction ids arbitrary: n acc rule: ids_text.induct)
  case 1
  then show ?case by (cases n) (simp_all add: peek_def)
next
  case (2 i)
  obtain m where n: "n = Suc (Suc m)" using 2(1) by (metis Suc_less_eq2 length_Cons less_imp_Suc_add add_0 list.size(3) One_nat_def not0_implies_Suc not_less_zero)
  obtain x xs where x: "print_d i = x # xs" by (cases "print_d i") simp_all
  have "x \<noteq> 0" "x \<noteq> colon" using print_d_free [of i] x by auto
  then show ?case using n x 2(2) scan_number [of colon "[colon, 44]" i rest] by (simp add: peek_def atoi_print_d [of i, unfolded x] colon_def)
next
  case (3 i j ids)
  obtain m where n: "n = Suc m" using 3(2) by (cases n) auto
  obtain x xs where x: "print_d i = x # xs" by (cases "print_d i") simp_all
  have "x \<noteq> 0" "x \<noteq> colon" using print_d_free [of i] x by auto
  moreover have "scan_ids m (acc @ [i]) (ids_text (j # ids) @ colon # rest) = Inr ((acc @ [i]) @ j # ids, colon # rest)"
    using 3(1) [of m "acc @ [i]"] 3(2,3) n by simp
  ultimately show ?case using n x 3(3) scan_number [of 44 "[colon, 44]" i "ids_text (j # ids) @ colon # rest"]
    by (simp add: peek_def advance_def atoi_print_d [of i, unfolded x])
qed

section \<open>Lines\<close>

definition text_field :: "nat \<Rightarrow> cstring \<Rightarrow> bool" where
  "text_field room f \<longleftrightarrow> length f < room \<and> set f \<inter> {0, 10, colon} = {}"

text \<open>The records that a line of the database can hold, and what is left of one there.\<close>

definition storable :: "group_record \<Rightarrow> bool" where
  "storable r \<longleftrightarrow> text_field GROUP_NAME_SIZE (group_name r) \<and> (group_name r = [] \<or> hd (group_name r) \<noteq> 35) \<and>
     text_field FULL_NAME_SIZE (full_name r) \<and> length (memberships r) \<le> MEMBERS_MAX \<and>
     (if group_type r = AS_PRIMARY then members r = [] \<and> length (pass_word r) = PASS_WORD_SIZE \<and> set (pass_word r) \<inter> {0, 10} = {}
      else group_type r = AS_SECONDARY \<and> pass_word r = replicate PASS_WORD_SIZE 0 \<and> length (members r) \<le> MEMBERS_MAX)"

definition stored :: "group_record \<Rightarrow> group_record" where
  "stored r = r\<lparr>touched := False, tr_memberships := []\<rparr>"

definition line_text :: "group_record \<Rightarrow> u8 list" where
  "line_text r = group_name r @ [colon] @ print_d (group_id r) @ [colon] @
     (if group_type r = AS_PRIMARY then [80] else [83]) @ [colon] @ full_name r @ [colon] @ print_d (owner_id r) @ [colon] @
     (if group_type r = AS_PRIMARY then pass_word r else ids_text (members r)) @ [colon] @ ids_text (memberships r) @ [colon, 10]"

lemma output_line_text: "output_line r = Inr line \<Longrightarrow> line = line_text r \<and> length line < INPUT_LINE_MAX"
  by (auto simp: output_line_def line_text_def Let_def elim!: bindE_InrE split: if_split_asm dest!: print_ids_text)

lemma ids_text_length: "length ids \<le> length (ids_text ids)"
proof (induction ids rule: ids_text.induct)
  case (2 i)
  then show ?case by (simp add: Suc_le_eq)
qed simp_all

lemma scan_ids_line: "length ids \<le> MEMBERS_MAX \<Longrightarrow>
    scan_ids (Suc (length (ids_text ids @ colon # rest))) [] (ids_text ids @ colon # rest) = Inr (ids, colon # rest)"
  using scan_ids_text [of ids "Suc (length (ids_text ids @ colon # rest))" "[]" rest] ids_text_length [of ids] by simp

lemma parse_line_text:
  assumes "storable r"
  shows "parse_line (line_text r @ rest) = Inr (stored r)"
proof -
  have name: "scan_field GROUP_NAME_SIZE [colon] (group_name r @ colon # u) = Inr (group_name r, colon # u)"
    and full: "scan_field FULL_NAME_SIZE [colon] (full_name r @ colon # u) = Inr (full_name r, colon # u)" for u
    using assms by (auto simp: storable_def text_field_def intro!: scan_field_upto)
  have num: "scan_field 64 [colon] (print_d i @ colon # u) = Inr (print_d i, colon # u)" for i u
    by (rule scan_number) auto
  have ms: "length (memberships r) \<le> MEMBERS_MAX" using assms by (simp add: storable_def)
  show ?thesis
  proof (cases "group_type r = AS_PRIMARY")
    case True
    have pw: "scan_password PASS_WORD_SIZE (pass_word r @ u) = Inr (pass_word r, u)" for u
      by (rule scan_password_all) (use assms True in \<open>simp add: storable_def\<close>)
    have "members r = []" using assms True by (simp add: storable_def)
    then show ?thesis using True
      by (simp add: parse_line_def line_text_def stored_def name full num pw scan_ids_line [OF ms] advance_def peek_def atoi_print_d Let_def
          del: length_append scan_ids.simps)
  next
    case False
    then have r: "group_type r = AS_SECONDARY" "pass_word r = replicate PASS_WORD_SIZE 0" "length (members r) \<le> MEMBERS_MAX"
      using assms by (simp_all add: storable_def)
    then show ?thesis using False
      by (simp add: parse_line_def line_text_def stored_def name full num scan_ids_line [OF ms] scan_ids_line [OF r(3)] advance_def peek_def atoi_print_d Let_def
          del: length_append scan_ids.simps)
  qed
qed

section \<open>The file\<close>

lemma fgets_line: "10 \<notin> set l \<Longrightarrow> length l < n \<Longrightarrow> fgets n (l @ 10 # rest) = (l @ [10], rest)"
proof (induction l arbitrary: n)
  case Nil
  then show ?case by (cases n) simp_all
next
  case (Cons c l)
  then show ?case by (cases n) (auto simp: Let_def)
qed

lemma line_text_one_line:
  assumes "text_field GROUP_NAME_SIZE (group_name r)" "group_name r = [] \<or> hd (group_name r) \<noteq> 35" "text_field FULL_NAME_SIZE (full_name r)"
    and "group_type r = AS_PRIMARY \<Longrightarrow> set (pass_word r) \<inter> {0, 10} = {}"
  shows "\<exists>l. line_text r = l @ [10] \<and> 10 \<notin> set l \<and> 0 \<notin> set l \<and> l \<noteq> [] \<and> hd l \<noteq> 35"
proof -
  let ?l = "butlast (line_text r)"
  have l: "?l = group_name r @ [colon] @ print_d (group_id r) @ [colon] @
     (if group_type r = AS_PRIMARY then [80] else [83]) @ [colon] @ full_name r @ [colon] @ print_d (owner_id r) @ [colon] @
     (if group_type r = AS_PRIMARY then pass_word r else ids_text (members r)) @ [colon] @ ids_text (memberships r) @ [colon]"
    by (simp add: line_text_def butlast_append)
  have "set ?l \<inter> {0, 10} = {}"
    unfolding l using assms print_d_free [of "group_id r"] print_d_free [of "owner_id r"] ids_text_free [of "members r"] ids_text_free [of "memberships r"]
    by (auto simp: text_field_def colon_def)
  moreover have "?l \<noteq> []" "hd ?l \<noteq> 35" unfolding l using assms by (auto simp: colon_def hd_append)
  moreover have "line_text r = ?l @ [10]" unfolding l by (simp add: line_text_def)
  ultimately show ?thesis by (intro exI [of _ ?l]) auto
qed

lemma line_text_line: "storable r \<Longrightarrow> \<exists>l. line_text r = l @ [10] \<and> 10 \<notin> set l \<and> 0 \<notin> set l \<and> l \<noteq> [] \<and> hd l \<noteq> 35"
  by (rule line_text_one_line) (simp_all add: storable_def)

lemma fputs_line_text: "storable r \<Longrightarrow> fputs (line_text r) cs = cs @ line_text r"
proof -
  assume "storable r"
  then obtain l where "line_text r = l @ [10]" "0 \<notin> set l" using line_text_line by blast
  then have "takeWhile (\<lambda>c. c \<noteq> 0) (line_text r) = line_text r" by (auto simp: takeWhile_eq_all_conv)
  then show ?thesis by (simp add: fputs_def)
qed

text \<open>The records of the groups with the given ids, and their lines.\<close>

definition lines :: "cas_state \<Rightarrow> nat list \<Rightarrow> u8 list" where
  "lines s is = concat (map (\<lambda>i. case group_id_map s i of None \<Rightarrow> [] | Some a \<Rightarrow> line_text (the (recs s a))) is)"

definition all_storable :: "cas_state \<Rightarrow> bool" where
  "all_storable s \<longleftrightarrow> (\<forall>i < GROUP_ID_MAX. \<forall>a. group_id_map s i = Some a \<longrightarrow>
     (\<exists>r. recs s a = Some r \<and> unat (group_id r) = i \<and> storable r))"

lemma lines_cong: "recs s' = recs s \<Longrightarrow> group_id_map s' = group_id_map s \<Longrightarrow> lines s' is = lines s is"
  by (simp add: lines_def cong: option.case_cong)

lemma write_groups:
  assumes "all_storable s"
  shows "set is \<subseteq> {..<GROUP_ID_MAX} \<Longrightarrow> foldE (write_group s) is cs = Inr cs' \<Longrightarrow> cs' = cs @ lines s is \<and>
    (\<forall>i \<in> set is. \<forall>a. group_id_map s i = Some a \<longrightarrow> length (line_text (the (recs s a))) < INPUT_LINE_MAX)"
proof (induction "is" arbitrary: cs)
  case Nil
  then show ?case by (simp add: lines_def)
next
  case (Cons i "is")
  obtain cs1 where one: "write_group s i cs = Inr cs1" "foldE (write_group s) is cs1 = Inr cs'" using Cons.prems(2) by (auto elim!: bindE_InrE)
  have IH: "cs' = cs1 @ lines s is" "\<forall>i \<in> set is. \<forall>a. group_id_map s i = Some a \<longrightarrow> length (line_text (the (recs s a))) < INPUT_LINE_MAX"
    using Cons.IH [OF _ one(2)] Cons.prems(1) by auto
  show ?case
  proof (cases "group_id_map s i")
    case None
    then show ?thesis using IH one(1) by (auto simp: write_group_def lines_def)
  next
    case (Some a)
    have "i < GROUP_ID_MAX" using Cons.prems(1) by simp
    then obtain r where r: "recs s a = Some r" "storable r" using assms Some unfolding all_storable_def by blast
    then have "cs1 = cs @ line_text r" "length (line_text r) < INPUT_LINE_MAX"
      using one(1) Some by (auto simp: write_group_def rec_at_def elim!: bindE_InrE dest!: output_line_text simp: fputs_line_text)
    then show ?thesis using IH Some r by (auto simp: lines_def)
  qed
qed

lemma read_comment:
  assumes "10 \<notin> set l" "length l < 1000"
  shows "\<exists>buffer'. read_lines k buffer (35 # l @ 10 # rest) s = read_lines k buffer' rest s"
proof -
  have "fgets (INPUT_LINE_MAX - 1) ((35 # l) @ 10 # rest) = ((35 # l) @ [10], rest)"
    by (rule fgets_line) (use assms in \<open>auto simp: INPUT_LINE_MAX_def\<close>)
  then show ?thesis by (subst read_lines.simps) (auto simp: load_line_def)
qed

lemma read_comments:
  "\<forall>l \<in> set ls. 10 \<notin> set l \<and> length l < 1000 \<Longrightarrow>
    \<exists>buffer'. read_lines k buffer (concat (map (\<lambda>l. 35 # l @ [10]) ls) @ rest) s = read_lines k buffer' rest s"
proof (induction ls arbitrary: buffer)
  case (Cons l ls)
  obtain b where "read_lines k buffer (35 # l @ 10 # concat (map (\<lambda>l. 35 # l @ [10]) ls) @ rest) s
      = read_lines k b (concat (map (\<lambda>l. 35 # l @ [10]) ls) @ rest) s"
    using read_comment [of l k buffer "concat (map (\<lambda>l. 35 # l @ [10]) ls) @ rest" s] Cons.prems by auto
  then show ?case using Cons.IH [of b] Cons.prems by auto
qed auto

definition header_lines :: "u8 list list" where
  "header_lines = [[], tl (ascii ''# Database format:''),
     tl (ascii ''#     Primary groups:   <user-name>:<group-id>:P:<full-name>:<owner-id>:<encry-password>:<membership-list>''),
     tl (ascii ''#     Secondary groups: <group-name>:<group-id>:S:<full-name>:<owner-id>:<member-list>:<membership-list>''), []]"

lemma read_header: "\<exists>buffer'. read_lines k buffer (db_header @ rest) s = read_lines k buffer' rest s"
proof -
  have "db_header = concat (map (\<lambda>l. 35 # l @ [10]) header_lines)" "list_all (\<lambda>l. 10 \<notin> set l \<and> length l < 1000) header_lines"
    by code_simp+
  then show ?thesis using read_comments [of header_lines k buffer rest s] by (simp add: list_all_iff)
qed

text \<open>What reading one line adds to the state.\<close>

definition add_record :: "group_record \<Rightarrow> cas_state \<Rightarrow> cas_state" where
  "add_record r s = s\<lparr>calls := Suc (calls s), next_addr := Suc (next_addr s), recs := (recs s)(next_addr s \<mapsto> stored r),
     group_id_map := (group_id_map s)(unat (group_id r) := Some (next_addr s))\<rparr>"

lemma read_record:
  assumes "storable r" "length (line_text r) < INPUT_LINE_MAX" "unat (group_id r) < GROUP_ID_MAX" "vm_allocate_ok k (calls s)"
  shows "\<exists>buffer'. read_lines k buffer (line_text r @ rest) s = read_lines k buffer' rest (add_record r s)"
proof -
  obtain l where l: "line_text r = l @ [10]" "10 \<notin> set l" "l \<noteq> []" "hd l \<noteq> 35" using line_text_line [OF assms(1)] by blast
  have "fgets (INPUT_LINE_MAX - 1) (line_text r @ rest) = (line_text r, rest)"
    using fgets_line [OF l(2), of "INPUT_LINE_MAX - 1" rest] assms(2) l(1) by (simp add: INPUT_LINE_MAX_def)
  moreover obtain u where u: "load_line (line_text r) buffer = line_text r @ u" by (auto simp: load_line_def)
  moreover have "hd (line_text r @ u) \<noteq> 35" "line_text r @ rest \<noteq> []" using l by (simp_all add: hd_append)
  moreover have "read_group k (line_text r @ u) s = Inr (True, add_record r s)"
    using assms parse_line_text [OF assms(1), of u]
    by (simp add: read_group_def vm_allocate_record_def set_id_map_def add_record_def stored_def)
  ultimately show ?thesis by (subst read_lines.simps) auto
qed

lemma read_groups:
  assumes "all_storable s" "\<And>n. vm_allocate_ok k n"
  shows "distinct is \<Longrightarrow> set is \<subseteq> {..<GROUP_ID_MAX} \<Longrightarrow>
    \<forall>i \<in> set is. \<forall>a. group_id_map s i = Some a \<longrightarrow> length (line_text (the (recs s a))) < INPUT_LINE_MAX \<Longrightarrow>
    \<exists>t'. read_lines k buffer (lines s is) t = Inr (True, t') \<and> next_addr t \<le> next_addr t' \<and>
      (\<forall>b < next_addr t. recs t' b = recs t b) \<and> (\<forall>i. i \<notin> set is \<longrightarrow> group_id_map t' i = group_id_map t i) \<and>
      (\<forall>i \<in> set is. case group_id_map s i of None \<Rightarrow> group_id_map t' i = group_id_map t i
        | Some a \<Rightarrow> \<exists>b < next_addr t'. group_id_map t' i = Some b \<and> recs t' b = map_option stored (recs s a))"
proof (induction "is" arbitrary: buffer t)
  case Nil
  then show ?case by (simp add: lines_def read_lines.simps)
next
  case (Cons i "is")
  show ?case
  proof (cases "group_id_map s i")
    case None
    then show ?thesis using Cons.IH [of buffer t] Cons.prems by (fastforce simp: lines_def)
  next
    case (Some a)
    have i: "i < GROUP_ID_MAX" "i \<notin> set is" using Cons.prems(1,2) by auto
    then obtain r where r: "recs s a = Some r" "unat (group_id r) = i" "storable r" using assms(1) Some unfolding all_storable_def by blast
    have "length (line_text r) < INPUT_LINE_MAX" using Cons.prems(3) Some r(1) by auto
    then obtain b where b: "read_lines k buffer (line_text r @ lines s is) t = read_lines k b (lines s is) (add_record r t)"
      using read_record [OF r(3) _ _ assms(2)] r(2) i(1) by blast
    obtain t' where t': "read_lines k b (lines s is) (add_record r t) = Inr (True, t')" "Suc (next_addr t) \<le> next_addr t'"
        "\<forall>c < Suc (next_addr t). recs t' c = recs (add_record r t) c"
        "\<forall>j. j \<notin> set is \<longrightarrow> group_id_map t' j = group_id_map (add_record r t) j"
        "\<forall>j \<in> set is. case group_id_map s j of None \<Rightarrow> group_id_map t' j = group_id_map (add_record r t) j
          | Some a \<Rightarrow> \<exists>c < next_addr t'. group_id_map t' j = Some c \<and> recs t' c = map_option stored (recs s a)"
      using Cons.IH [of b "add_record r t"] Cons.prems by (auto simp: add_record_def)
    have "lines s (i # is) = line_text r @ lines s is" using Some r(1) by (simp add: lines_def)
    then have "read_lines k buffer (lines s (i # is)) t = Inr (True, t')" using b t'(1) by simp
    moreover have "\<forall>c < next_addr t. recs t' c = recs t c" using t'(3) by (simp add: add_record_def)
    moreover have "\<forall>j. j \<notin> set (i # is) \<longrightarrow> group_id_map t' j = group_id_map t j" using t'(4) r(2) by (simp add: add_record_def)
    moreover have "group_id_map t' i = Some (next_addr t)" "recs t' (next_addr t) = Some (stored r)"
      using t'(3,4) i(2) r(2) by (simp_all add: add_record_def)
    moreover have "case group_id_map s j of None \<Rightarrow> group_id_map t' j = group_id_map t j
          | Some a \<Rightarrow> \<exists>c < next_addr t'. group_id_map t' j = Some c \<and> recs t' c = map_option stored (recs s a)" if "j \<in> set is" for j
      using t'(5) that i(2) r(2) by (auto simp: add_record_def split: option.split)
    ultimately show ?thesis using t'(2) Some r(1) by (intro exI [of _ t']) auto
  qed
qed

text \<open>
  C11. The database survives being saved and read: when \<open>save_database\<close> has written the groups of a
  state whose names and passwords fit the format, the loop of \<open>read_database\<close> over the lines of
  that file ends, and in an empty server it gives back a record for just the ids that had one,
  each the same but for the cached closure and the mark of the closure search.
\<close>

theorem database_roundtrip:
  assumes "all_storable s" "database s \<noteq> None" "\<And>n. file_ok k n" "save_database k s = Inr s'" "\<And>n. vm_allocate_ok k' n"
  shows "\<exists>cs t. database s' = Some cs \<and> db_backup s' = database s \<and> read_lines k' buffer cs (static_state db) = Inr (True, t) \<and>
    (\<forall>i < GROUP_ID_MAX. case group_id_map s i of None \<Rightarrow> group_id_map t i = None
      | Some a \<Rightarrow> \<exists>b. group_id_map t i = Some b \<and> recs t b = map_option stored (recs s a))"
proof -
  let ?s = "s\<lparr>calls := Suc (calls s), db_backup := database s, database := None\<rparr>" and ?is = "[0..<GROUP_ID_MAX]"
  have same: "lines ?s ?is = lines s ?is" by (rule lines_cong) simp_all
  obtain cs where cs: "foldE (write_group ?s) ?is db_header = Inr cs" "database s' = Some cs" "db_backup s' = database s"
    using assms(2-4) by (auto simp: save_database_def rename_def Let_def simp del: upt.simps elim!: bindE_InrE)
  have "all_storable ?s" using assms(1) by (simp add: all_storable_def)
  moreover have below: "set ?is \<subseteq> {..<GROUP_ID_MAX}" by (auto simp del: upt.simps)
  ultimately have w: "cs = db_header @ lines s ?is"
      "\<forall>i \<in> set ?is. \<forall>a. group_id_map s i = Some a \<longrightarrow> length (line_text (the (recs s a))) < INPUT_LINE_MAX"
    using write_groups [OF _ _ cs(1)] by (auto simp: same simp del: upt.simps set_upt)
  obtain b where "read_lines k' buffer cs (static_state db) = read_lines k' b (lines s ?is) (static_state db)"
    using read_header w(1) by blast
  moreover obtain t where "read_lines k' b (lines s ?is) (static_state db) = Inr (True, t)"
      "\<forall>i \<in> set ?is. case group_id_map s i of None \<Rightarrow> group_id_map t i = group_id_map (static_state db) i
        | Some a \<Rightarrow> \<exists>b < next_addr t. group_id_map t i = Some b \<and> recs t b = map_option stored (recs s a)"
    using read_groups [OF assms(1,5) distinct_upt below w(2), of b "static_state db"] by blast
  ultimately show ?thesis using cs(2,3)
    by (intro exI [of _ cs] exI [of _ t]) (auto simp: static_state_def split: option.split_asm option.split simp del: upt.simps dest!: bspec)
qed

text \<open>A database of one user.\<close>

definition db_state :: cas_state where
  "db_state = (static_state (Some []))\<lparr>recs := [0 \<mapsto> zero_record\<lparr>group_name := ascii ''root'', group_id := 1,
     pass_word := replicate 16 65, memberships := [2, 30]\<rparr>], next_addr := 1, group_id_map := (\<lambda>i. if i = 1 then Some 0 else None)\<rparr>"

lemma foldE_runs: "(\<And>x s. \<exists>s'. f x s = Inr s') \<Longrightarrow> \<exists>s'. foldE f xs s = Inr s'"
proof (induction xs arbitrary: s)
  case (Cons x xs)
  obtain s' where "f x s = Inr s'" using Cons.prems by blast
  then show ?case using Cons.IH [OF Cons.prems] by simp
qed simp

lemma db_state_writes: "\<exists>cs'. write_group db_state i cs = Inr cs'"
proof -
  have "output_line (zero_record\<lparr>group_name := ascii ''root'', group_id := 1, pass_word := replicate 16 65, memberships := [2, 30]\<rparr>) \<noteq> Inl e" for e
    by (cases e) code_simp+
  then obtain l where "output_line (zero_record\<lparr>group_name := ascii ''root'', group_id := 1, pass_word := replicate 16 65, memberships := [2, 30]\<rparr>) = Inr l"
    by (metis sum.exhaust)
  then show ?thesis by (simp add: write_group_def db_state_def rec_at_def)
qed

theorem database_roundtrip_witness:
  "\<exists>s' cs t. save_database ready_kernel db_state = Inr s' \<and> database s' = Some cs \<and>
    read_lines ready_kernel [] cs (static_state None) = Inr (True, t) \<and>
    (\<exists>b r. group_id_map t 1 = Some b \<and> recs t b = Some r \<and> memberships r = [2, 30])"
proof -
  let ?r = "zero_record\<lparr>group_name := ascii ''root'', group_id := 1, pass_word := replicate 16 65, memberships := [2, 30]\<rparr>"
  let ?s = "db_state\<lparr>calls := Suc (calls db_state), db_backup := database db_state, database := None\<rparr>"
  have "write_group ?s = write_group db_state" by (intro ext) (simp add: write_group_def rec_at_def cong: option.case_cong)
  then obtain cs where "foldE (write_group ?s) [0..<GROUP_ID_MAX] db_header = Inr cs" using foldE_runs [of "write_group db_state"] db_state_writes by metis
  then obtain s' where s': "save_database ready_kernel db_state = Inr s'"
    by (simp add: save_database_def rename_def ready_kernel_def db_state_def static_state_def del: upt.simps)
  have "storable ?r" by code_simp
  then have ok: "all_storable db_state" by (auto simp: all_storable_def db_state_def zero_record_def split: if_splits)
  have f: "file_ok ready_kernel n" "vm_allocate_ok ready_kernel n" for n by (simp_all add: ready_kernel_def)
  have "database db_state \<noteq> None" by (simp add: db_state_def static_state_def)
  from database_roundtrip [OF ok this f(1) s' f(2), of "[]" None]
  obtain cs t where t: "database s' = Some cs" "read_lines ready_kernel [] cs (static_state None) = Inr (True, t)"
      "\<forall>i < GROUP_ID_MAX. case group_id_map db_state i of None \<Rightarrow> group_id_map t i = None
      | Some a \<Rightarrow> \<exists>b. group_id_map t i = Some b \<and> recs t b = map_option stored (recs db_state a)" by blast
  from t(3) [rule_format, of 1] have "\<exists>b. group_id_map t 1 = Some b \<and> recs t b = Some (stored ?r)" by (simp add: GROUP_ID_MAX_def db_state_def)
  then show ?thesis using s' t(1,2) by (auto simp: stored_def)
qed

end
