(* ===== verification/Encrypt_Db.thy ===== *)
theory Encrypt_Db
  imports Cas_Db_Roundtrip
begin

text \<open>
  The program server/as/encrypt_db.c, which turns a database with clear passwords into the one the
  central server reads: every line is copied, with the password of a primary group encrypted. The
  array \<open>pass_word\<close> keeps the bytes of earlier lines behind the terminating zero.
\<close>

section \<open>The program\<close>

definition ENCRYPT_LINE_MAX :: nat where "ENCRYPT_LINE_MAX = 256"

definition overwrite :: "u8 list \<Rightarrow> u8 list \<Rightarrow> u8 list" where
  "overwrite f array = f @ drop (length f) array"

text \<open>What is printed for a line that is not a comment, and the array \<open>pass_word\<close> after it.\<close>

definition encrypt_line :: "u8 list \<Rightarrow> u8 list \<Rightarrow> (u8 list \<times> u8 list) result" where
  "encrypt_line pw cp =
     bindE (scan_field GROUP_NAME_SIZE [colon] cp) (\<lambda>(name, cp). bindE (advance cp) (\<lambda>cp.
     bindE (scan_field 64 [colon] cp) (\<lambda>(field, cp).
     let gid = atoi field in bindE (advance cp) (\<lambda>cp.
     bindE (peek cp) (\<lambda>c.
     let gtype = (if c = 80 then AS_PRIMARY else AS_SECONDARY) in
     bindE (advance cp) (\<lambda>cp. bindE (advance cp) (\<lambda>cp.
     bindE (scan_field FULL_NAME_SIZE [colon] cp) (\<lambda>(full, cp). bindE (advance cp) (\<lambda>cp.
     bindE (scan_field 64 [colon] cp) (\<lambda>(field, cp).
     let owner = atoi field in bindE (advance cp) (\<lambda>cp.
     bindE (if gtype = AS_PRIMARY
            then bindE (scan_field PASS_WORD_SIZE [colon] cp) (\<lambda>(clear, cp).
                 bindE (encrypt_password (overwrite (clear @ [0]) pw)) (\<lambda>pw. Inr (pw, cp)))
            else Inr (pw, cp))
       (\<lambda>(pw, cp).
     Inr (name @ [colon] @ print_d gid @ [colon] @ (if gtype = AS_PRIMARY then [80] else [83]) @ [colon] @ full @ [colon] @
          print_d owner @ [colon] @ (if gtype = AS_PRIMARY then take PASS_WORD_SIZE pw else []) @ takeWhile (\<lambda>c. c \<noteq> 0) cp, pw)))))))))))))"

function encrypt_lines :: "u8 list \<Rightarrow> u8 list \<Rightarrow> u8 list \<Rightarrow> u8 list \<Rightarrow> u8 list result" where
  "encrypt_lines pw buffer cs out =
     (if cs = [] then Inr out
      else (let (line, rest) = fgets (ENCRYPT_LINE_MAX - 1) cs; buffer = load_line line buffer
            in if hd buffer = 35 then encrypt_lines pw buffer rest (out @ takeWhile (\<lambda>c. c \<noteq> 0) buffer)
               else (case encrypt_line pw buffer of
                       Inl e \<Rightarrow> Inl e
                     | Inr (text, pw) \<Rightarrow> encrypt_lines pw buffer rest (out @ text))))"
  by pat_completeness auto
termination
  by (relation "measure (\<lambda>(pw, buffer, cs, out). length cs)")
    (use fgets_rest [of "ENCRYPT_LINE_MAX - 1"] in \<open>auto simp: ENCRYPT_LINE_MAX_def, (metis snd_conv zero_less_numeral)+\<close>)

declare encrypt_lines.simps [simp del]

text \<open>
  \<open>main\<close>: the exit code and what is printed; \<open>db\<close> is the file named on the command line, or the
  standard input, if it can be opened. The arrays start with what the stack holds.
\<close>

definition encrypt_db_main :: "u8 list \<Rightarrow> u8 list \<Rightarrow> u8 list option \<Rightarrow> (bool \<times> u8 list) result" where
  "encrypt_db_main pw buffer db = (case db of
      None \<Rightarrow> Inr (False, [])
    | Some cs \<Rightarrow> bindE (encrypt_lines pw buffer cs []) (\<lambda>out. Inr (True, out)))"

section \<open>What it makes of a database\<close>

text \<open>A record and the clear password it is to have: the line that is read and the line that is to be written.\<close>

definition password_for :: "group_record \<Rightarrow> u8 list \<Rightarrow> bool" where
  "password_for r clear \<longleftrightarrow> storable r \<and>
     (if group_type r = AS_PRIMARY then clear \<noteq> [] \<and> length clear < PASS_WORD_SIZE \<and> set clear \<inter> {0, 10, colon} = {} \<and>
        encrypt_password (clear @ replicate (PASS_WORD_SIZE - length clear) 0) = Inr (pass_word r)
      else clear = pass_word r)"

definition clear_line :: "group_record \<times> u8 list \<Rightarrow> u8 list" where
  "clear_line x = line_text ((fst x)\<lparr>pass_word := snd x\<rparr>)"

lemma encrypt_password_stale:
  assumes "clear \<noteq> []" "length clear < PASS_WORD_SIZE" "0 \<notin> set clear" "length u = PASS_WORD_SIZE - Suc (length clear)"
  shows "encrypt_password (clear @ 0 # u) = encrypt_password (clear @ replicate (PASS_WORD_SIZE - length clear) 0)"
proof -
  let ?n = "length clear"
  have n: "strlen (clear @ 0 # v) = Inr ?n" for v
    using assms(3) by (auto simp: strlen_Inr nth_append in_set_conv_nth)
  have r: "repeat_password (PASS_WORD_SIZE - ?n) ?n ?n (clear @ 0 # v) = map (\<lambda>i. clear ! (i mod ?n)) [0..<16]"
    if "length v = PASS_WORD_SIZE - Suc ?n" for v
  proof -
    have "repeat_password (PASS_WORD_SIZE - ?n) ?n ?n (clear @ 0 # v) = map (\<lambda>i. (clear @ 0 # v) ! (i mod ?n)) [0..<16]"
      by (rule repeat_password_cyclic [OF _ n]) (use assms(1,2) that in \<open>auto simp: PASS_WORD_SIZE_def\<close>)
    also have "\<dots> = map (\<lambda>i. clear ! (i mod ?n)) [0..<16]" using assms(1) by (simp add: nth_append)
    finally show ?thesis .
  qed
  have "replicate (PASS_WORD_SIZE - ?n) 0 = 0 # replicate (PASS_WORD_SIZE - Suc ?n) (0 :: u8)"
    using assms(2) by (simp add: Suc_diff_Suc flip: replicate_Suc)
  then show ?thesis using r [OF assms(4)] r [of "replicate (PASS_WORD_SIZE - Suc ?n) 0"] by (simp add: encrypt_password_cipher [OF n])
qed

lemma takeWhile_line: "0 \<notin> set l \<Longrightarrow> takeWhile (\<lambda>c. c \<noteq> (0 :: u8)) (l @ 0 # u) = l"
  by (induction l) auto

lemma encrypt_line_text:
  assumes ok: "password_for r clear" and pw: "length pw = PASS_WORD_SIZE"
  shows "\<exists>pw'. encrypt_line pw (clear_line (r, clear) @ 0 # u) = Inr (line_text r, pw') \<and> length pw' = PASS_WORD_SIZE"
proof -
  have st: "storable r" using ok by (simp add: password_for_def)
  have name: "scan_field GROUP_NAME_SIZE [colon] (group_name r @ colon # u) = Inr (group_name r, colon # u)"
    and full: "scan_field FULL_NAME_SIZE [colon] (full_name r @ colon # u) = Inr (full_name r, colon # u)" for u
    using st by (auto simp: storable_def text_field_def intro!: scan_field_upto)
  have num: "scan_field 64 [colon] (print_d i @ colon # u) = Inr (print_d i, colon # u)" for i u
    by (rule scan_number) auto
  have ms: "0 \<notin> set (ids_text ids)" for ids using ids_text_free [of ids] by auto
  show ?thesis
  proof (cases "group_type r = AS_PRIMARY")
    case True
    have c: "clear \<noteq> []" "length clear < PASS_WORD_SIZE" "set clear \<inter> {0, 10, colon} = {}"
        "encrypt_password (clear @ replicate (PASS_WORD_SIZE - length clear) 0) = Inr (pass_word r)"
      using ok True by (simp_all add: password_for_def)
    have scan: "scan_field PASS_WORD_SIZE [colon] (clear @ colon # u) = Inr (clear, colon # u)" for u
      using c(2,3) by (intro scan_field_upto) auto
    have "encrypt_password (overwrite (clear @ [0]) pw) = Inr (pass_word r)"
      using encrypt_password_stale [OF c(1,2), of "drop (Suc (length clear)) pw"] c(3,4) pw by (simp add: overwrite_def)
    moreover have "takeWhile (\<lambda>c. c \<noteq> 0) (colon # ids_text (memberships r) @ colon # 10 # 0 # u) = colon # ids_text (memberships r) @ [colon, 10]"
      using takeWhile_line [of "colon # ids_text (memberships r) @ [colon, 10]" u] ms by (simp add: colon_def)
    moreover have "length (pass_word r) = PASS_WORD_SIZE" using st True by (simp add: storable_def)
    ultimately show ?thesis using True
      by (simp add: encrypt_line_def clear_line_def line_text_def name full num scan advance_def peek_def atoi_print_d Let_def)
  next
    case False
    then have "group_type r = AS_SECONDARY" using st by (simp add: storable_def)
    moreover have "takeWhile (\<lambda>c. c \<noteq> 0) (ids_text (members r) @ colon # ids_text (memberships r) @ colon # 10 # 0 # u)
        = ids_text (members r) @ colon # ids_text (memberships r) @ [colon, 10]"
      using takeWhile_line [of "ids_text (members r) @ colon # ids_text (memberships r) @ [colon, 10]" u] ms by (simp add: colon_def)
    ultimately show ?thesis using False pw
      by (simp add: encrypt_line_def clear_line_def line_text_def name full num advance_def peek_def atoi_print_d Let_def)
  qed
qed

lemma clear_line_line:
  assumes "password_for r clear"
  shows "\<exists>l. clear_line (r, clear) = l @ [10] \<and> 10 \<notin> set l \<and> 0 \<notin> set l \<and> l \<noteq> [] \<and> hd l \<noteq> 35"
  unfolding clear_line_def
  by (rule line_text_one_line) (use assms in \<open>auto simp: password_for_def storable_def split: if_splits\<close>)

lemma encrypt_lines_text:
  assumes "\<forall>x \<in> set xs. password_for (fst x) (snd x) \<and> length (clear_line x) < ENCRYPT_LINE_MAX" "length pw = PASS_WORD_SIZE"
  shows "encrypt_lines pw buffer (concat (map clear_line xs)) out = Inr (out @ concat (map (line_text \<circ> fst) xs))"
  using assms
proof (induction xs arbitrary: pw buffer out)
  case Nil
  then show ?case by (simp add: encrypt_lines.simps)
next
  case (Cons x xs)
  obtain r clear where x: "x = (r, clear)" by fastforce
  then have ok: "password_for r clear" "length (clear_line x) < ENCRYPT_LINE_MAX" using Cons.prems(1) by auto
  obtain l where l: "clear_line x = l @ [10]" "10 \<notin> set l" "l \<noteq> []" "hd l \<noteq> 35" using clear_line_line [OF ok(1)] x by auto
  let ?cs = "concat (map clear_line xs)"
  have "fgets (ENCRYPT_LINE_MAX - 1) (clear_line x @ ?cs) = (clear_line x, ?cs)"
    using fgets_line [OF l(2), of "ENCRYPT_LINE_MAX - 1" ?cs] ok(2) l(1) by (simp add: ENCRYPT_LINE_MAX_def)
  moreover obtain u where u: "load_line (clear_line x) buffer = clear_line x @ 0 # u" by (auto simp: load_line_def)
  moreover have "hd (clear_line x @ 0 # u) \<noteq> 35" "clear_line x \<noteq> []" using l by (simp_all add: hd_append)
  moreover obtain pw' where "encrypt_line pw (clear_line x @ 0 # u) = Inr (line_text r, pw')" "length pw' = PASS_WORD_SIZE"
    using encrypt_line_text [OF ok(1) Cons.prems(2)] x by blast
  moreover from this(2) have "encrypt_lines pw' (clear_line x @ 0 # u) ?cs (out @ line_text r)
      = Inr ((out @ line_text r) @ concat (map (line_text \<circ> fst) xs))"
    using Cons.IH Cons.prems(1) by (simp add: comp_def)
  ultimately show ?case using x by (subst encrypt_lines.simps) (simp add: comp_def)
qed

text \<open>
  C30. The database that \<open>encrypt_db\<close> prints is the one the central server is to read: given a file
  with a line for each group, with the clear password of each primary group, it prints for each
  the line of the record with the encrypted password, which \<open>parse_line\<close> reads back as that
  record, whatever the arrays held before.
\<close>

theorem encrypt_db_correct:
  assumes "\<forall>x \<in> set xs. password_for (fst x) (snd x) \<and> length (clear_line x) < ENCRYPT_LINE_MAX" "length pw = PASS_WORD_SIZE"
  shows "encrypt_db_main pw buffer (Some (concat (map clear_line xs))) = Inr (True, concat (map (line_text \<circ> fst) xs)) \<and>
    (\<forall>x \<in> set xs. parse_line (line_text (fst x) @ u) = Inr (stored (fst x)))"
  using encrypt_lines_text [OF assms, of buffer "[]"] assms(1) parse_line_text
  by (auto simp: encrypt_db_main_def password_for_def)

theorem encrypt_db_correct_witness:
  "\<exists>r. encrypt_db_main (replicate 16 1) [] (Some (clear_line (r, ascii ''secret''))) = Inr (True, line_text r) \<and>
    parse_line (line_text r) = Inr (stored r) \<and> group_name r = ascii ''root''"
proof -
  have "0 \<in> set (ascii ''secret'' @ replicate 10 0)" by simp
  then obtain n where n: "strlen (ascii ''secret'' @ replicate 10 0) = Inr n" using strlen_total by blast
  let ?c = "password_cipher (repeat_password (PASS_WORD_SIZE - n) n n (ascii ''secret'' @ replicate 10 0))"
  let ?r = "zero_record\<lparr>group_name := ascii ''root'', group_id := 1, pass_word := ?c\<rparr>"
  note enc = encrypt_password_cipher [OF n]
  have "length ?c = 16" using password_cipher_printable by (simp add: ascii_def)
  moreover have "set ?c \<inter> {0, 10} = {}" using password_cipher_printable unfolding list_all_iff by fastforce
  moreover have "text_field GROUP_NAME_SIZE (ascii ''root'')" "hd (ascii ''root'') \<noteq> 35" "text_field FULL_NAME_SIZE []" by code_simp+
  ultimately have "storable ?r" by (simp add: storable_def zero_record_def AS_PRIMARY_def PASS_WORD_SIZE_def)
  moreover have "set (ascii ''secret'') \<inter> {0, 10, colon} = {}" "length (ascii ''secret'') = 6" "ascii ''secret'' \<noteq> []" by code_simp+
  ultimately have ok: "password_for ?r (ascii ''secret'')"
    using enc by (simp add: password_for_def zero_record_def AS_PRIMARY_def PASS_WORD_SIZE_def)
  have "clear_line (?r, ascii ''secret'') = line_text (zero_record\<lparr>group_name := ascii ''root'', group_id := 1, pass_word := ascii ''secret''\<rparr>)"
    by (simp add: clear_line_def)
  moreover have "length (line_text (zero_record\<lparr>group_name := ascii ''root'', group_id := 1, pass_word := ascii ''secret''\<rparr>)) < ENCRYPT_LINE_MAX"
    by code_simp
  ultimately have "length (clear_line (?r, ascii ''secret'')) < ENCRYPT_LINE_MAX" by simp
  then show ?thesis
    using encrypt_db_correct [of "[(?r, ascii ''secret'')]" "replicate 16 1" "[]" "[]"] ok by (auto simp: PASS_WORD_SIZE_def zero_record_def)
qed

end
