(* ===== verification/Cthread_Malloc.thy ===== *)
theory Cthread_Malloc
  imports Mach_Prelude "HOL-Library.Signed_Division"
begin

text \<open>
  The memory allocator of the thread library, lib/threads/malloc.c, in the variant for kernel
  threads. Blocks have a size of a power of two, one free list for each, and a header of four
  bytes: the next block of the list while free, the address of the list while allocated. New
  blocks are cut from the ends of pools of pages; a pool begins with the address of the next pool
  and its own size.

  Memory is a function from addresses to bytes, with the regions the kernel has given out; to read
  or write outside of them is a fault. Addresses are natural numbers below \<open>2 ^ 32\<close>, 0 is null. What
  \<open>vm_allocate\<close> answers is the argument \<open>vm\<close>: the address for the n-th request, given the regions already
  in use and the size, or none. A thread
  that takes a lock it holds spins for ever.
\<close>

section \<open>Memory\<close>

definition load32 :: "(nat \<Rightarrow> u8) \<Rightarrow> nat \<Rightarrow> u32" where
  "load32 m a = ucast (m a) OR push_bit 8 (ucast (m (a + 1))) OR push_bit 16 (ucast (m (a + 2))) OR push_bit 24 (ucast (m (a + 3)))"

definition store32 :: "(nat \<Rightarrow> u8) \<Rightarrow> nat \<Rightarrow> u32 \<Rightarrow> nat \<Rightarrow> u8" where
  "store32 m a w = m(a := ucast w, a + 1 := ucast (drop_bit 8 w), a + 2 := ucast (drop_bit 16 w), a + 3 := ucast (drop_bit 24 w))"

record heap_state =
  bytes :: "nat \<Rightarrow> u8"
  regions :: "(nat \<times> nat) list"
  fl_head :: "nat \<Rightarrow> nat"
  fl_lock :: "nat \<Rightarrow> bool"
  malloc_lock :: bool
  pool :: nat
  pool_size :: nat
  vm_calls :: nat

record vm =
  vm_page_size :: nat
  vm_answer :: "nat \<Rightarrow> (nat \<times> nat) list \<Rightarrow> nat \<Rightarrow> nat option"
  malloc_free_list :: nat
  malloc_pool_size :: nat

definition in_regions :: "heap_state \<Rightarrow> nat \<Rightarrow> nat \<Rightarrow> bool" where
  "in_regions s a n = list_ex (\<lambda>(r, len). r \<le> a \<and> a + n \<le> r + len) (regions s)"

definition read_word :: "heap_state \<Rightarrow> nat \<Rightarrow> nat result" where
  "read_word s a = (if in_regions s a 4 then Inr (unat (load32 (bytes s) a)) else Inl Bad_Address)"

definition write_word :: "nat \<Rightarrow> nat \<Rightarrow> heap_state \<Rightarrow> heap_state result" where
  "write_word a w s = (if in_regions s a 4 then Inr (s\<lparr>bytes := store32 (bytes s) a (of_nat w)\<rparr>) else Inl Bad_Address)"

definition vm_allocate_pages :: "vm \<Rightarrow> nat \<Rightarrow> heap_state \<Rightarrow> nat option \<times> heap_state" where
  "vm_allocate_pages v amount s =
     (case vm_answer v (vm_calls s) (regions s) amount of
        None \<Rightarrow> (None, s\<lparr>vm_calls := Suc (vm_calls s)\<rparr>)
      | Some a \<Rightarrow> (Some a, s\<lparr>vm_calls := Suc (vm_calls s), regions := (a, amount) # regions s,
          bytes := (\<lambda>x. if a \<le> x \<and> x < a + amount then 0 else bytes s x)\<rparr>))"

section \<open>Constants and locks\<close>

definition MIN_SIZE :: u32 where "MIN_SIZE = 8"
definition HEADER_SIZE :: u32 where "HEADER_SIZE = 4"
definition NBUCKETS :: nat where "NBUCKETS = 29"

definition spin_lock_malloc :: "heap_state \<Rightarrow> heap_state result" where
  "spin_lock_malloc s = (if malloc_lock s then Inl Diverges else Inr (s\<lparr>malloc_lock := True\<rparr>))"

definition spin_lock_list :: "nat \<Rightarrow> heap_state \<Rightarrow> heap_state result" where
  "spin_lock_list i s = (if fl_lock s i then Inl Diverges else Inr (s\<lparr>fl_lock := (fl_lock s)(i := True)\<rparr>))"

definition spin_unlock_list :: "nat \<Rightarrow> heap_state \<Rightarrow> heap_state" where
  "spin_unlock_list i s = s\<lparr>fl_lock := (fl_lock s)(i := False)\<rparr>"

section \<open>more\_memory\<close>

text \<open>
  The search of the pools behind the first for one with enough left; 0 when there is none. The
  first argument bounds the length of the chain: every pool is a region of its own.
\<close>

primrec search_pools :: "nat \<Rightarrow> nat \<Rightarrow> nat \<Rightarrow> heap_state \<Rightarrow> (nat \<times> heap_state) result" where
  "search_pools 0 amount prev s = Inl Diverges"
| "search_pools (Suc n) amount prev s =
     bindE (read_word s prev) (\<lambda>cur.
     if cur = 0 then Inr (0, s)
     else bindE (read_word s (cur + 4)) (\<lambda>cur_size.
     if amount \<le> cur_size
     then bindE (write_word (cur + 4) (cur_size - amount) s) (\<lambda>s.
          if cur_size - amount = 0
          then bindE (read_word s cur) (\<lambda>cur_next. bindE (write_word prev cur_next s) (\<lambda>s. Inr (cur, s)))
          else Inr (cur + (cur_size - amount), s))
     else search_pools n amount cur s))"

text \<open>The critical section: the address of \<open>amount\<close> bytes, none when the kernel has no memory.\<close>

definition take_from_pool :: "nat \<Rightarrow> heap_state \<Rightarrow> (nat \<times> heap_state) result" where
  "take_from_pool amount s =
     (let left = pool_size s - amount; addr = pool s + left; s = s\<lparr>pool_size := left\<rparr> in
      if left = 0
      then bindE (read_word s (pool s)) (\<lambda>pool_next.
           let s = s\<lparr>pool := pool_next\<rparr> in
           if pool_next \<noteq> 0 then bindE (read_word s (pool_next + 4)) (\<lambda>sz. Inr (addr, s\<lparr>pool_size := sz\<rparr>))
           else Inr (addr, s))
      else Inr (addr, s))"

definition pool_bytes :: "vm \<Rightarrow> nat" where
  "pool_bytes v = vm_page_size v * malloc_pool_size v mod 2 ^ 32"

definition new_memory :: "vm \<Rightarrow> nat \<Rightarrow> heap_state \<Rightarrow> (nat option \<times> heap_state) result" where
  "new_memory v amount s =
     (if pool_bytes v \<le> amount then Inr (vm_allocate_pages v amount s)
      else (case vm_allocate_pages v (pool_bytes v) s of
              (None, s) \<Rightarrow> Inr (None, s)
            | (Some new_pool, s) \<Rightarrow>
                bindE (if pool s \<noteq> 0 then write_word (pool s + 4) (pool_size s) s else Inr s) (\<lambda>s.
                bindE (write_word new_pool (pool s) s) (\<lambda>s.
                let left = pool_bytes v - amount in
                Inr (Some (new_pool + left), s\<lparr>pool := new_pool, pool_size := left\<rparr>)))))"

definition get_memory :: "vm \<Rightarrow> nat \<Rightarrow> heap_state \<Rightarrow> (nat option \<times> heap_state) result" where
  "get_memory v amount s =
     (if amount \<le> pool_size s
      then bindE (take_from_pool amount s) (\<lambda>(addr, s). Inr (Some addr, s))
      else bindE (if pool s \<noteq> 0 then search_pools (Suc (length (regions s))) amount (pool s) s else Inr (0, s)) (\<lambda>(addr, s).
           if addr = 0 then new_memory v amount s else Inr (Some addr, s)))"

text \<open>The new blocks go onto the free list.\<close>

primrec push_blocks :: "nat \<Rightarrow> nat \<Rightarrow> nat \<Rightarrow> nat \<Rightarrow> heap_state \<Rightarrow> heap_state result" where
  "push_blocks 0 block i h s = Inr s"
| "push_blocks (Suc n) block i h s =
     bindE (write_word h (fl_head s i) s) (\<lambda>s. push_blocks n block i (h + block) (s\<lparr>fl_head := (fl_head s)(i := h)\<rparr>))"

definition more_memory :: "vm \<Rightarrow> nat \<Rightarrow> nat \<Rightarrow> heap_state \<Rightarrow> (bool \<times> heap_state) result" where
  "more_memory v block i s =
     (let (amount, n) = (if block \<le> vm_page_size v then (vm_page_size v, vm_page_size v div block) else (block, 1)) in
      bindE (spin_lock_malloc s) (\<lambda>s.
      bindE (get_memory v amount s) (\<lambda>(addr, s).
      let s = s\<lparr>malloc_lock := False\<rparr> in
      case addr of None \<Rightarrow> Inr (False, s)
      | Some h \<Rightarrow> bindE (push_blocks n block i h s) (\<lambda>s. Inr (True, s)))))"

section \<open>malloc, free and realloc\<close>

text \<open>The smallest block that holds the requested bytes and the header.\<close>

function bucket_of :: "u32 \<Rightarrow> nat \<Rightarrow> u32 \<Rightarrow> nat \<times> u32" where
  "bucket_of need i n = (if n < need \<and> i < NBUCKETS then bucket_of need (i + 1) (push_bit 1 n) else (i, n))"
  by pat_completeness auto
termination
  by (relation "measure (\<lambda>(need, i, n). NBUCKETS - i)") auto

declare bucket_of.simps [simp del]

definition malloc :: "vm \<Rightarrow> u32 \<Rightarrow> heap_state \<Rightarrow> (nat \<times> heap_state) result" where
  "malloc v request s =
     (let need = request + HEADER_SIZE in
      if need \<le> HEADER_SIZE then Inr (0, s)
      else (let (i, n) = bucket_of need 0 MIN_SIZE in
      if i = NBUCKETS then Inr (0, s)
      else bindE (spin_lock_list i s) (\<lambda>s.
           bindE (if fl_head s i = 0 then more_memory v (unat n) i s else Inr (True, s)) (\<lambda>(ok, s).
           if \<not> ok then Inr (0, spin_unlock_list i s)
           else (let h = fl_head s i in
                bindE (read_word s h) (\<lambda>h_next.
                let s = spin_unlock_list i (s\<lparr>fl_head := (fl_head s)(i := h_next)\<rparr>) in
                bindE (write_word h (malloc_free_list v + 8 * i) s) (\<lambda>s.
                Inr (h + 4, s))))))))"

text \<open>The index of the free list a header points to, if it points to one: the difference of the pointers in 32 bits.\<close>

definition list_index :: "vm \<Rightarrow> nat \<Rightarrow> nat option" where
  "list_index v fl =
     (let i = sint (word_of_int (int fl - int (malloc_free_list v)) :: u32) sdiv 8 in
      if i < 0 \<or> int NBUCKETS \<le> i then None
      else if int fl \<noteq> int (malloc_free_list v) + 8 * i then None
      else Some (nat i))"

definition free :: "vm \<Rightarrow> nat \<Rightarrow> heap_state \<Rightarrow> heap_state result" where
  "free v base s =
     (if base = 0 then Inr s
      else (let h = base - 4 in
      bindE (read_word s h) (\<lambda>fl.
      case list_index v fl of None \<Rightarrow> Inr s
      | Some i \<Rightarrow>
          bindE (spin_lock_list i s) (\<lambda>s.
          bindE (write_word h (fl_head s i) s) (\<lambda>s.
          Inr (spin_unlock_list i (s\<lparr>fl_head := (fl_head s)(i := h)\<rparr>)))))))"

definition bcopy :: "nat \<Rightarrow> nat \<Rightarrow> nat \<Rightarrow> heap_state \<Rightarrow> heap_state result" where
  "bcopy src dst n s =
     (if in_regions s src n \<and> in_regions s dst n
      then Inr (s\<lparr>bytes := (\<lambda>x. if dst \<le> x \<and> x < dst + n then bytes s (src + (x - dst)) else bytes s x)\<rparr>)
      else Inl Bad_Address)"

definition realloc :: "vm \<Rightarrow> nat \<Rightarrow> u32 \<Rightarrow> heap_state \<Rightarrow> (nat \<times> heap_state) result" where
  "realloc v old_base new_size s =
     (if old_base = 0 then malloc v new_size s
      else bindE (read_word s (old_base - 4)) (\<lambda>fl.
      case list_index v fl of None \<Rightarrow> Inr (0, s)
      | Some i \<Rightarrow>
          (let old_size = push_bit (i + 3) 1 - HEADER_SIZE in
           if new_size \<le> old_size \<and> push_bit (i + 2) 1 < new_size + HEADER_SIZE then Inr (old_base, s)
           else bindE (malloc v new_size s) (\<lambda>(new_base, s).
                bindE (if new_base \<noteq> 0 then bcopy old_base new_base (unat (min old_size new_size)) s else Inr s) (\<lambda>s.
                bindE (free v old_base s) (\<lambda>s.
                Inr (new_base, s)))))))"

section \<open>Forking\<close>

definition malloc_fork_prepare :: "heap_state \<Rightarrow> heap_state result" where
  "malloc_fork_prepare s = foldE spin_lock_list [0..<NBUCKETS] s"

definition malloc_fork_parent :: "heap_state \<Rightarrow> heap_state" where
  "malloc_fork_parent s = fold spin_unlock_list (rev [0..<NBUCKETS]) s"

definition malloc_fork_child :: "heap_state \<Rightarrow> heap_state" where
  "malloc_fork_child s = fold spin_unlock_list (rev [0..<NBUCKETS]) s"

end
