(* ===== verification/Cthread_Heap.thy ===== *)
theory Cthread_Heap
  imports Cthread_Malloc
begin

text \<open>
  The allocator keeps its memory in order: every byte of the regions it got from the kernel
  belongs to at most one block or pool, the free lists and the chain of pools are what the memory
  says, and the header of a block in use names its list.
\<close>

section \<open>Words in memory\<close>

lemma load_store_same: "load32 (store32 m a w) a = w"
proof (rule bit_word_eqI)
  fix n assume "n < LENGTH(32)"
  then consider "n < 8" | "8 \<le> n" "n < 16" | "16 \<le> n" "n < 24" | "24 \<le> n" "n < 32" by fastforce
  then show "bit (load32 (store32 m a w) a) n = bit w n"
    by cases (simp_all add: load32_def store32_def bit_or_iff bit_push_bit_iff bit_ucast_iff bit_drop_bit_eq, arith+)
qed

lemma store32_other: "x < a \<or> a + 4 \<le> x \<Longrightarrow> store32 m a w x = m x"
  by (auto simp: store32_def)

lemma load32_cong:
  assumes "\<And>x. a \<le> x \<Longrightarrow> x < a + 4 \<Longrightarrow> m' x = m x"
  shows "load32 m' a = load32 m a"
  using assms [of a] assms [of "a + 1"] assms [of "a + 2"] assms [of "a + 3"] by (simp add: load32_def)

lemma load_store_other: "b + 4 \<le> a \<or> a + 4 \<le> b \<Longrightarrow> load32 (store32 m a w) b = load32 m b"
  by (rule load32_cong) (auto simp: store32_other)

lemma in_regions_iff: "in_regions s a n \<longleftrightarrow> (\<exists>(r, len) \<in> set (regions s). r \<le> a \<and> a + n \<le> r + len)"
  by (auto simp: in_regions_def list_ex_iff)

lemma in_regions_sub: "in_regions s a n \<Longrightarrow> a \<le> b \<Longrightarrow> b + k \<le> a + n \<Longrightarrow> in_regions s b k"
  unfolding in_regions_iff by (elim bexE, rule_tac x = x in bexI) auto

lemma in_regions_same [simp]:
  "in_regions (s\<lparr>bytes := m\<rparr>) = in_regions s" "in_regions (s\<lparr>fl_head := h\<rparr>) = in_regions s"
  "in_regions (s\<lparr>fl_lock := l\<rparr>) = in_regions s" "in_regions (s\<lparr>malloc_lock := b\<rparr>) = in_regions s"
  "in_regions (s\<lparr>pool := p\<rparr>) = in_regions s" "in_regions (s\<lparr>pool_size := n\<rparr>) = in_regions s"
  by (auto simp: in_regions_def fun_eq_iff)

section \<open>The invariant\<close>

text \<open>Every byte belongs to a block of a size, to a pool, or to nobody.\<close>

datatype owner = Block nat nat | Pool nat

type_synonym ownership = "nat \<Rightarrow> owner option"

definition owned :: "heap_state \<Rightarrow> ownership \<Rightarrow> owner option \<Rightarrow> nat \<Rightarrow> nat \<Rightarrow> bool" where
  "owned s own t a n \<longleftrightarrow> 0 < a \<and> a + n \<le> 2 ^ 32 \<and> in_regions s a n \<and> (\<forall>x. a \<le> x \<longrightarrow> x < a + n \<longrightarrow> own x = t)"

definition block_size :: "nat \<Rightarrow> nat" where
  "block_size i = 2 ^ (i + 3)"

primrec free_path :: "(nat \<Rightarrow> u8) \<Rightarrow> nat \<Rightarrow> nat list \<Rightarrow> bool" where
  "free_path m h [] \<longleftrightarrow> h = 0"
| "free_path m h (x # xs) \<longleftrightarrow> h = x \<and> free_path m (unat (load32 m x)) xs"

primrec pool_path :: "(nat \<Rightarrow> u8) \<Rightarrow> nat \<Rightarrow> (nat \<times> nat) list \<Rightarrow> bool" where
  "pool_path m a [] \<longleftrightarrow> a = 0"
| "pool_path m a (q # qs) \<longleftrightarrow> a = fst q \<and> unat (load32 m (fst q + 4)) = snd q \<and> pool_path m (unat (load32 m (fst q))) qs"

definition pools_ok :: "vm \<Rightarrow> heap_state \<Rightarrow> ownership \<Rightarrow> (nat \<times> nat) list \<Rightarrow> bool" where
  "pools_ok v s own qs \<longleftrightarrow> distinct (map fst qs) \<and> length qs \<le> length (regions s) \<and>
     (\<forall>q \<in> set qs. 0 < snd q \<and> vm_page_size v dvd snd q \<and> owned s own (Some (Pool (fst q))) (fst q) (snd q))"

primrec first_pool :: "heap_state \<Rightarrow> (nat \<times> nat) list \<Rightarrow> bool" where
  "first_pool s [] \<longleftrightarrow> pool s = 0 \<and> pool_size s = 0"
| "first_pool s (q # qs) \<longleftrightarrow> q = (pool s, pool_size s) \<and> pool_path (bytes s) (unat (load32 (bytes s) (pool s))) qs"

lemma first_pool_same [simp]:
  "first_pool (s\<lparr>fl_head := h\<rparr>) qs = first_pool s qs" "first_pool (s\<lparr>fl_lock := l\<rparr>) qs = first_pool s qs"
  "first_pool (s\<lparr>malloc_lock := b\<rparr>) qs = first_pool s qs"
  by (cases qs; simp)+

definition lists_ok :: "heap_state \<Rightarrow> ownership \<Rightarrow> (nat \<Rightarrow> nat list) \<Rightarrow> bool" where
  "lists_ok s own fl \<longleftrightarrow> (\<forall>i < NBUCKETS. distinct (fl i) \<and> free_path (bytes s) (fl_head s i) (fl i) \<and>
     (\<forall>h \<in> set (fl i). owned s own (Some (Block i h)) h (block_size i)))"

definition live_ok :: "vm \<Rightarrow> heap_state \<Rightarrow> ownership \<Rightarrow> (nat \<Rightarrow> nat list) \<Rightarrow> (nat \<rightharpoonup> nat) \<Rightarrow> bool" where
  "live_ok v s own fl live \<longleftrightarrow> (\<forall>h i. live h = Some i \<longrightarrow> i < NBUCKETS \<and> h \<notin> set (fl i) \<and>
     owned s own (Some (Block i h)) h (block_size i) \<and> unat (load32 (bytes s) h) = malloc_free_list v + 8 * i)"

definition only_regions :: "heap_state \<Rightarrow> ownership \<Rightarrow> bool" where
  "only_regions s own \<longleftrightarrow> (\<forall>x. own x \<noteq> None \<longrightarrow> in_regions s x 1)"

definition blocks_inv :: "vm \<Rightarrow> heap_state \<Rightarrow> ownership \<Rightarrow> (nat \<Rightarrow> nat list) \<Rightarrow> (nat \<rightharpoonup> nat) \<Rightarrow> bool" where
  "blocks_inv v s own fl live \<longleftrightarrow> lists_ok s own fl \<and> live_ok v s own fl live"

definition pools_inv :: "vm \<Rightarrow> heap_state \<Rightarrow> ownership \<Rightarrow> (nat \<times> nat) list \<Rightarrow> bool" where
  "pools_inv v s own qs \<longleftrightarrow> pools_ok v s own qs \<and> first_pool s qs"

definition heap_inv :: "vm \<Rightarrow> heap_state \<Rightarrow> ownership \<Rightarrow> (nat \<Rightarrow> nat list) \<Rightarrow> (nat \<times> nat) list \<Rightarrow> (nat \<rightharpoonup> nat) \<Rightarrow> bool" where
  "heap_inv v s own fl qs live \<longleftrightarrow> blocks_inv v s own fl live \<and> pools_inv v s own qs \<and> only_regions s own"

definition vm_ok :: "vm \<Rightarrow> bool" where
  "vm_ok v \<longleftrightarrow> (\<exists>k. 3 \<le> k \<and> k < 32 \<and> vm_page_size v = 2 ^ k) \<and> malloc_free_list v + 8 * NBUCKETS \<le> 2 ^ 32 \<and>
     (\<forall>k rs n a. vm_answer v k rs n = Some a \<longrightarrow> 0 < a \<and> a + n \<le> 2 ^ 32 \<and> (\<forall>(r, len) \<in> set rs. a + n \<le> r \<or> r + len \<le> a))"

section \<open>Frames\<close>

lemma owned_disjoint:
  assumes "owned s own t a n" "owned s own u b k" "t \<noteq> u" "0 < n" "0 < k"
  shows "a + n \<le> b \<or> b + k \<le> a"
proof (rule ccontr)
  assume "\<not> ?thesis"
  then have "a \<le> max a b" "max a b < a + n" "b \<le> max a b" "max a b < b + k" using assms(4,5) by auto
  then show False using assms(1-3) unfolding owned_def by metis
qed

lemma owned_sub: "owned s own t a n \<Longrightarrow> a \<le> b \<Longrightarrow> b + k \<le> a + n \<Longrightarrow> owned s own t b k"
  by (auto simp: owned_def intro: in_regions_sub)

lemma free_path_cong: "(\<And>x. x \<in> set xs \<Longrightarrow> load32 m' x = load32 m x) \<Longrightarrow> free_path m' h xs = free_path m h xs"
  by (induction xs arbitrary: h) auto

lemma pool_path_cong:
  "(\<And>q. q \<in> set qs \<Longrightarrow> load32 m' (fst q) = load32 m (fst q) \<and> load32 m' (fst q + 4) = load32 m (fst q + 4))
    \<Longrightarrow> pool_path m' a qs = pool_path m a qs"
proof (induction qs arbitrary: a)
  case (Cons q qs)
  have "load32 m' (fst q) = load32 m (fst q)" "load32 m' (fst q + 4) = load32 m (fst q + 4)" using Cons.prems [of q] by simp_all
  moreover have "pool_path m' b qs = pool_path m b qs" for b using Cons.prems by (intro Cons.IH) simp
  ultimately show ?case by (cases "a = fst q") simp_all
qed simp

lemma block_size_ge: "8 \<le> block_size i"
proof -
  have "(2 :: nat) ^ 3 \<le> 2 ^ (i + 3)" by (rule power_increasing) auto
  then show ?thesis by (simp add: block_size_def)
qed

lemma owned_same [simp]:
  "owned (s\<lparr>bytes := m\<rparr>) own t a n = owned s own t a n" "owned (s\<lparr>fl_head := h\<rparr>) own t a n = owned s own t a n"
  "owned (s\<lparr>fl_lock := l\<rparr>) own t a n = owned s own t a n" "owned (s\<lparr>malloc_lock := b\<rparr>) own t a n = owned s own t a n"
  "owned (s\<lparr>pool := p\<rparr>) own t a n = owned s own t a n" "owned (s\<lparr>pool_size := k\<rparr>) own t a n = owned s own t a n"
  unfolding owned_def in_regions_same by (rule refl)+

lemmas heap_inv_defs = heap_inv_def blocks_inv_def pools_inv_def lists_ok_def live_ok_def pools_ok_def only_regions_def

lemma heap_inv_same [simp]:
  "blocks_inv v (s\<lparr>fl_lock := l\<rparr>) own fl live = blocks_inv v s own fl live"
  "blocks_inv v (s\<lparr>malloc_lock := b\<rparr>) own fl live = blocks_inv v s own fl live"
  "blocks_inv v (s\<lparr>pool := p\<rparr>) own fl live = blocks_inv v s own fl live"
  "blocks_inv v (s\<lparr>pool_size := n\<rparr>) own fl live = blocks_inv v s own fl live"
  "pools_inv v (s\<lparr>fl_lock := l\<rparr>) own qs = pools_inv v s own qs"
  "pools_inv v (s\<lparr>malloc_lock := b\<rparr>) own qs = pools_inv v s own qs"
  "pools_inv v (s\<lparr>fl_head := h\<rparr>) own qs = pools_inv v s own qs"
  "heap_inv v (s\<lparr>fl_lock := l\<rparr>) own fl qs live = heap_inv v s own fl qs live"
  "heap_inv v (s\<lparr>malloc_lock := b\<rparr>) own fl qs live = heap_inv v s own fl qs live"
  "only_regions (s\<lparr>bytes := m\<rparr>) own = only_regions s own" "only_regions (s\<lparr>fl_head := h\<rparr>) own = only_regions s own"
  "only_regions (s\<lparr>pool := p\<rparr>) own = only_regions s own" "only_regions (s\<lparr>pool_size := n\<rparr>) own = only_regions s own"
  by (simp_all add: heap_inv_defs)

lemma owned_load:
  assumes "owned s own t a n" "a \<le> b" "b + 4 \<le> a + n"
    and "\<And>x. own x = t \<Longrightarrow> b \<le> x \<Longrightarrow> x < b + 4 \<Longrightarrow> m x = bytes s x"
  shows "load32 m b = load32 (bytes s) b"
  using assms by (intro load32_cong) (simp add: owned_def)

lemma page_size_ge: "vm_ok v \<Longrightarrow> 8 \<le> vm_page_size v"
proof -
  assume "vm_ok v"
  then obtain k where k: "3 \<le> k" "vm_page_size v = 2 ^ k" by (auto simp: vm_ok_def)
  have "(2 :: nat) ^ 3 \<le> 2 ^ k" using k(1) by (rule power_increasing) simp
  then show ?thesis using k(2) by simp
qed

lemma pool_large: "vm_ok v \<Longrightarrow> pools_ok v s own qs \<Longrightarrow> q \<in> set qs \<Longrightarrow> 8 \<le> snd q"
  using page_size_ge [of v] by (force simp: pools_ok_def dest!: dvd_imp_le)

text \<open>
  Bytes may change that are no word of a free list and not in the header of a block in use.
\<close>

definition not_header :: "ownership \<Rightarrow> (nat \<Rightarrow> nat list) \<Rightarrow> (nat \<rightharpoonup> nat) \<Rightarrow> nat \<Rightarrow> bool" where
  "not_header own fl live x \<longleftrightarrow>
     (\<forall>i h. own x = Some (Block i h) \<longrightarrow> i < NBUCKETS \<longrightarrow> h \<in> set (fl i) \<or> live h = Some i \<longrightarrow> h + 4 \<le> x)"

lemma blocks_inv_write:
  assumes "blocks_inv v s own fl live" "\<And>x. m x \<noteq> bytes s x \<Longrightarrow> not_header own fl live x"
  shows "blocks_inv v (s\<lparr>bytes := m\<rparr>) own fl live"
proof -
  have kept: "load32 m h = load32 (bytes s) h" if "i < NBUCKETS" "h \<in> set (fl i) \<or> live h = Some i" for i h
  proof (rule owned_load [where n = "block_size i"])
    show "owned s own (Some (Block i h)) h (block_size i)" using assms(1) that by (auto simp: heap_inv_defs)
    show "m x = bytes s x" if "own x = Some (Block i h)" "h \<le> x" "x < h + 4" for x
      using assms(2) [of x] that \<open>i < NBUCKETS\<close> \<open>h \<in> set (fl i) \<or> live h = Some i\<close> by (auto simp: not_header_def)
  qed (use block_size_ge [of i] in auto)
  then have "free_path m h (fl i) = free_path (bytes s) h (fl i)" if "i < NBUCKETS" for i h
    using that by (intro free_path_cong) blast
  moreover have "load32 m h = load32 (bytes s) h" if "live h = Some i" for h i
    using kept [of i h] that assms(1) by (simp add: heap_inv_defs)
  ultimately show ?thesis using assms(1) by (simp add: heap_inv_defs)
qed

lemma pools_inv_write:
  assumes "vm_ok v" "pools_inv v s own qs" "\<And>x q. m x \<noteq> bytes s x \<Longrightarrow> q \<in> set qs \<Longrightarrow> own x \<noteq> Some (Pool (fst q))"
  shows "pools_inv v (s\<lparr>bytes := m\<rparr>) own qs"
proof -
  have kept: "load32 m b = load32 (bytes s) b" if "q \<in> set qs" "fst q \<le> b" "b \<le> fst q + 4" for q b
  proof (rule owned_load [where n = "snd q" and a = "fst q"])
    show "owned s own (Some (Pool (fst q))) (fst q) (snd q)" using assms(2) that by (auto simp: heap_inv_defs)
    show "m x = bytes s x" if "own x = Some (Pool (fst q))" for x using assms(3) that \<open>q \<in> set qs\<close> by blast
    show "b + 4 \<le> fst q + snd q" using pool_large [OF assms(1), of s own qs q] assms(2) that by (simp add: pools_inv_def)
  qed (use that in auto)
  have "first_pool (s\<lparr>bytes := m\<rparr>) qs"
  proof (cases qs)
    case (Cons q qs')
    have "load32 m (fst r) = load32 (bytes s) (fst r) \<and> load32 m (fst r + 4) = load32 (bytes s) (fst r + 4)" if "r \<in> set qs'" for r
      using kept [of r "fst r"] kept [of r "fst r + 4"] that Cons by simp
    then have "pool_path m a qs' = pool_path (bytes s) a qs'" for a by (intro pool_path_cong)
    then show ?thesis using kept [of q "fst q"] assms(2) Cons by (auto simp: pools_inv_def)
  qed (use assms(2) in \<open>simp add: pools_inv_def\<close>)
  then show ?thesis using assms(2) by (simp add: heap_inv_defs)
qed

definition spare :: "(nat \<Rightarrow> nat list) \<Rightarrow> (nat \<times> nat) list \<Rightarrow> (nat \<rightharpoonup> nat) \<Rightarrow> owner option \<Rightarrow> bool" where
  "spare fl qs live t \<longleftrightarrow> (\<forall>i h. t = Some (Block i h) \<longrightarrow> h \<notin> set (fl i) \<and> live h \<noteq> Some i) \<and>
     (\<forall>p. t = Some (Pool p) \<longrightarrow> p \<notin> fst ` set qs)"

lemma write_word_owned:
  "owned s own t a n \<Longrightarrow> a \<le> b \<Longrightarrow> b + 4 \<le> a + n \<Longrightarrow> write_word b w s = Inr (s\<lparr>bytes := store32 (bytes s) b (of_nat w)\<rparr>)"
  by (auto simp: write_word_def owned_def intro: in_regions_sub)

lemma read_word_owned:
  "owned s own t a n \<Longrightarrow> a \<le> b \<Longrightarrow> b + 4 \<le> a + n \<Longrightarrow> read_word s b = Inr (unat (load32 (bytes s) b))"
  by (auto simp: read_word_def owned_def intro: in_regions_sub)

lemma store32_changes: "store32 m b w x \<noteq> m x \<Longrightarrow> b \<le> x \<and> x < b + 4"
  using store32_other [of x b m w] by (meson not_le)

lemma write_spare:
  assumes "vm_ok v" "heap_inv v s own fl qs live" "owned s own t a n" "spare fl qs live t" "a \<le> b" "b + 4 \<le> a + n"
  shows "heap_inv v (s\<lparr>bytes := store32 (bytes s) b w\<rparr>) own fl qs live"
proof -
  have "own x = t" if "store32 (bytes s) b w x \<noteq> bytes s x" for x
    using store32_changes [OF that] assms(3,5,6) by (simp add: owned_def)
  then have "not_header own fl live x" "q \<in> set qs \<Longrightarrow> own x \<noteq> Some (Pool (fst q))"
    if "store32 (bytes s) b w x \<noteq> bytes s x" for x q
    using assms(4) that by (auto simp: not_header_def spare_def)
  then have "blocks_inv v (s\<lparr>bytes := store32 (bytes s) b w\<rparr>) own fl live" "pools_inv v (s\<lparr>bytes := store32 (bytes s) b w\<rparr>) own qs"
    using assms(2) by (auto simp: heap_inv_def intro!: blocks_inv_write pools_inv_write [OF assms(1)])
  then show ?thesis using assms(2) by (simp add: heap_inv_def)
qed

section \<open>Free lists\<close>

lemma lists_head_lt: "lists_ok s own fl \<Longrightarrow> i < NBUCKETS \<Longrightarrow> fl_head s i < 2 ^ 32"
proof -
  assume "lists_ok s own fl" "i < NBUCKETS"
  then have l: "free_path (bytes s) (fl_head s i) (fl i)" "\<forall>h \<in> set (fl i). h + block_size i \<le> 2 ^ 32"
    by (simp_all add: lists_ok_def owned_def)
  then show ?thesis using block_size_ge [of i] by (cases "fl i") auto
qed

lemma push_block:
  assumes "vm_ok v" "heap_inv v s own fl qs live" "i < NBUCKETS" "owned s own (Some (Block i h)) h (block_size i)"
    and "spare fl qs live (Some (Block i h))"
  shows "heap_inv v (s\<lparr>bytes := store32 (bytes s) h (of_nat (fl_head s i)), fl_head := (fl_head s)(i := h)\<rparr>) own (fl(i := h # fl i)) qs live"
proof -
  let ?s = "s\<lparr>bytes := store32 (bytes s) h (of_nat (fl_head s i))\<rparr>"
  have inv: "heap_inv v ?s own fl qs live"
    using write_spare [OF assms(1,2,4,5)] block_size_ge [of i] by simp
  have "fl_head s i < 2 ^ 32" using assms(2,3) lists_head_lt by (auto simp: heap_inv_def blocks_inv_def)
  then have "unat (load32 (bytes ?s) h) = fl_head ?s i" by (simp add: load_store_same unat_of_nat)
  then have "lists_ok (?s\<lparr>fl_head := (fl_head s)(i := h)\<rparr>) own (fl(i := h # fl i))"
    using inv assms(3,4,5) by (auto simp: heap_inv_defs spare_def)
  moreover have "live_ok v (?s\<lparr>fl_head := (fl_head s)(i := h)\<rparr>) own (fl(i := h # fl i)) live"
    using inv assms(5) by (auto simp: heap_inv_defs spare_def)
  ultimately show ?thesis
    using inv by (simp add: heap_inv_def blocks_inv_def)
qed

lemma pop_block:
  assumes "heap_inv v s own fl qs live" "i < NBUCKETS" "fl i = h # hs"
  shows "fl_head s i = h" "owned s own (Some (Block i h)) h (block_size i)" "spare (fl(i := hs)) qs live (Some (Block i h))"
    and "heap_inv v (s\<lparr>fl_head := (fl_head s)(i := unat (load32 (bytes s) h))\<rparr>) own (fl(i := hs)) qs live"
proof -
  have l: "distinct (h # hs)" "free_path (bytes s) (fl_head s i) (h # hs)" "owned s own (Some (Block i h)) h (block_size i)"
    using assms by (auto simp: heap_inv_defs)
  then show "fl_head s i = h" "owned s own (Some (Block i h)) h (block_size i)" by simp_all
  show "spare (fl(i := hs)) qs live (Some (Block i h))"
    using l(1) assms by (fastforce simp: spare_def heap_inv_defs)
  have "lists_ok (s\<lparr>fl_head := (fl_head s)(i := unat (load32 (bytes s) h))\<rparr>) own (fl(i := hs))"
    using assms l by (auto simp: heap_inv_defs)
  moreover have "live_ok v (s\<lparr>fl_head := (fl_head s)(i := unat (load32 (bytes s) h))\<rparr>) own (fl(i := hs)) live"
    using assms by (fastforce simp: heap_inv_defs)
  ultimately show "heap_inv v (s\<lparr>fl_head := (fl_head s)(i := unat (load32 (bytes s) h))\<rparr>) own (fl(i := hs)) qs live"
    using assms(1) by (simp add: heap_inv_def blocks_inv_def)
qed

section \<open>New blocks\<close>

definition assign :: "ownership \<Rightarrow> nat \<Rightarrow> nat \<Rightarrow> owner option \<Rightarrow> ownership" where
  "assign own a n t = (\<lambda>x. if a \<le> x \<and> x < a + n then t else own x)"

lemma owned_assign_same: "owned s own u a n \<Longrightarrow> owned s (assign own a n t) t a n"
  by (simp add: owned_def assign_def)

lemma owned_assign_apart: "owned s own t b k \<Longrightarrow> a + n \<le> b \<or> b + k \<le> a \<Longrightarrow> owned s (assign own a n u) t b k"
  by (auto simp: owned_def assign_def)

lemma owned_assign_other:
  "owned s own t a n \<Longrightarrow> owned s own u b k \<Longrightarrow> t \<noteq> u \<Longrightarrow> owned s (assign own a n w) u b k"
  by (auto simp: owned_def assign_def)

lemma only_regions_assign: "only_regions s own \<Longrightarrow> owned s own t a n \<Longrightarrow> only_regions s (assign own a n u)"
  by (auto simp: only_regions_def assign_def owned_def intro: in_regions_sub)

lemma claim:
  assumes "heap_inv v s own fl qs live" "owned s own None a n"
  shows "heap_inv v s (assign own a n u) fl qs live"
proof -
  have "owned s (assign own a n u) (Some t) b k" if "owned s own (Some t) b k" for t b k
    by (rule owned_assign_other [OF assms(2) that]) simp
  then show ?thesis using assms(1) only_regions_assign [OF _ assms(2)]
    by (auto simp: heap_inv_def blocks_inv_def lists_ok_def live_ok_def pools_inv_def pools_ok_def)
qed

lemma claim_block:
  assumes "heap_inv v s own fl qs live" "owned s own None a (block_size i)" "i < NBUCKETS"
  defines "own' \<equiv> assign own a (block_size i) (Some (Block i a))"
  shows "heap_inv v s own' fl qs live" "spare fl qs live (Some (Block i a))" "owned s own' (Some (Block i a)) a (block_size i)"
proof -
  show "heap_inv v s own' fl qs live" unfolding own'_def by (rule claim [OF assms(1,2)])
  have "own a = None" using assms(2) block_size_ge [of i] by (simp add: owned_def)
  moreover have "own h = Some (Block i h)" if "h \<in> set (fl i) \<or> live h = Some i" for h
  proof -
    have "owned s own (Some (Block i h)) h (block_size i)" using that assms(1,3) by (auto simp: heap_inv_defs)
    then show ?thesis using block_size_ge [of i] by (simp add: owned_def)
  qed
  ultimately show "spare fl qs live (Some (Block i a))" by (fastforce simp: spare_def)
  show "owned s own' (Some (Block i a)) a (block_size i)"
    unfolding own'_def using assms(2) by (rule owned_assign_same)
qed

text \<open>The parts of the state the work on blocks and pools does not touch.\<close>

definition same_rest :: "heap_state \<Rightarrow> heap_state \<Rightarrow> bool" where
  "same_rest s s' \<longleftrightarrow> fl_lock s' = fl_lock s \<and> malloc_lock s' = malloc_lock s \<and> pool s' = pool s \<and>
     pool_size s' = pool_size s \<and> regions s' = regions s \<and> vm_calls s' = vm_calls s"

lemma push_blocks_ok:
  assumes "vm_ok v" "heap_inv v s own fl qs live" "i < NBUCKETS" "owned s own None h (n * block_size i)" "h + n * block_size i \<le> e"
  shows "\<exists>s' own' hs. push_blocks n (block_size i) i h s = Inr s' \<and> length hs = n \<and>
    heap_inv v s' own' (fl(i := hs @ fl i)) qs live \<and> same_rest s s' \<and> (\<forall>x. x < h \<or> e \<le> x \<longrightarrow> bytes s' x = bytes s x)"
  using assms(2,4,5)
proof (induction n arbitrary: s own fl h)
  case 0
  then show ?case by (intro exI [of _ s] exI [of _ own] exI [of _ "[]"]) (simp add: same_rest_def)
next
  case (Suc n)
  let ?own = "assign own h (block_size i) (Some (Block i h))"
  let ?s = "s\<lparr>bytes := store32 (bytes s) h (of_nat (fl_head s i)), fl_head := (fl_head s)(i := h)\<rparr>"
  have "owned s own None h (block_size i)" by (rule owned_sub [OF Suc.prems(2)]) simp_all
  note c = claim_block [OF Suc.prems(1) this assms(3)]
  have inv: "heap_inv v ?s ?own (fl(i := h # fl i)) qs live"
    by (rule push_block [OF assms(1) c(1) assms(3) c(3) c(2)])
  have "owned s own None (h + block_size i) (n * block_size i)" by (rule owned_sub [OF Suc.prems(2)]) simp_all
  then have "owned ?s ?own None (h + block_size i) (n * block_size i)" by (simp add: owned_assign_apart)
  moreover have "h + block_size i + n * block_size i \<le> e" using Suc.prems(3) by simp
  ultimately obtain s' own' hs where s':
    "push_blocks n (block_size i) i (h + block_size i) ?s = Inr s'" "length hs = n"
    "heap_inv v s' own' (fl(i := hs @ h # fl i)) qs live" "same_rest ?s s'"
    "\<forall>x. x < h + block_size i \<or> e \<le> x \<longrightarrow> bytes s' x = bytes ?s x"
    using Suc.IH [OF inv, unfolded fun_upd_same fun_upd_upd] by blast
  have w: "write_word h (fl_head s i) s = Inr (s\<lparr>bytes := store32 (bytes s) h (of_nat (fl_head s i))\<rparr>)"
    using write_word_owned [OF c(3)] block_size_ge [of i] by simp
  have "push_blocks (Suc n) (block_size i) i h s = Inr s'" using s'(1) by (simp add: w)
  moreover have "bytes s' x = bytes s x" if "x < h \<or> e \<le> x" for x
    using s'(5) that Suc.prems(3) block_size_ge [of i] by (auto simp: store32_other)
  moreover have "heap_inv v s' own' (fl(i := (hs @ [h]) @ fl i)) qs live" "length (hs @ [h]) = Suc n" "same_rest s s'"
    using s'(2-4) by (simp_all add: same_rest_def)
  ultimately show ?case by blast
qed

end
