(* ===== verification/Cthread_Pools.thy ===== *)
theory Cthread_Pools
  imports Cthread_Heap
begin

text \<open>
  Where the blocks come from: \<open>get_memory\<close> cuts a segment that belongs to nobody from the first
  pool, from one behind it or from new pages, and leaves the blocks, free or in use, as they are.
\<close>

section \<open>Blocks in use keep their bytes\<close>

definition same_live :: "(nat \<rightharpoonup> nat) \<Rightarrow> heap_state \<Rightarrow> heap_state \<Rightarrow> bool" where
  "same_live live s s' \<longleftrightarrow> (\<forall>h i x. live h = Some i \<longrightarrow> h \<le> x \<longrightarrow> x < h + block_size i \<longrightarrow> bytes s' x = bytes s x)"

lemma same_liveD: "same_live live s s' \<Longrightarrow> live h = Some i \<Longrightarrow> h \<le> x \<Longrightarrow> x < h + block_size i \<Longrightarrow> bytes s' x = bytes s x"
  by (simp add: same_live_def)

lemma same_live_refl [simp]: "bytes s' = bytes s \<Longrightarrow> same_live live s s'"
  by (simp add: same_live_def)

lemma same_live_trans: "same_live live s t \<Longrightarrow> same_live live t u \<Longrightarrow> same_live live s u"
  by (simp add: same_live_def)

lemma same_liveI:
  assumes "blocks_inv v s own fl live" "\<And>x i h. bytes s' x \<noteq> bytes s x \<Longrightarrow> own x = Some (Block i h) \<Longrightarrow> live h \<noteq> Some i"
  shows "same_live live s s'"
  unfolding same_live_def
proof (intro allI impI)
  fix h i x assume l: "live h = Some i" "h \<le> x" "x < h + block_size i"
  then have "own x = Some (Block i h)" using assms(1) by (simp add: heap_inv_defs owned_def)
  then show "bytes s' x = bytes s x" using assms(2) l(1) by blast
qed

lemma no_block_write:
  assumes "blocks_inv v s own fl live" "\<And>x i h. m x \<noteq> bytes s x \<Longrightarrow> own x \<noteq> Some (Block i h)"
  shows "blocks_inv v (s\<lparr>bytes := m\<rparr>) own fl live" "same_live live s (s\<lparr>bytes := m\<rparr>)"
  using assms by (auto intro!: blocks_inv_write same_liveI [OF assms(1)] simp: not_header_def)

definition same_lists :: "heap_state \<Rightarrow> heap_state \<Rightarrow> bool" where
  "same_lists s s' \<longleftrightarrow> fl_head s' = fl_head s \<and> fl_lock s' = fl_lock s \<and> malloc_lock s' = malloc_lock s"

text \<open>What a piece of memory for new blocks is.\<close>

definition provides :: "vm \<Rightarrow> (nat \<Rightarrow> nat list) \<Rightarrow> (nat \<rightharpoonup> nat) \<Rightarrow> nat \<Rightarrow> heap_state \<Rightarrow> nat \<Rightarrow> heap_state \<Rightarrow> bool" where
  "provides v fl live amount s a s' \<longleftrightarrow> (\<exists>own qs. heap_inv v s' own fl qs live \<and> owned s' own None a amount) \<and>
     same_live live s s' \<and> same_lists s s'"

section \<open>Pools\<close>

lemma release_pool:
  assumes "heap_inv v s own fl qs live" "owned s own (Some (Pool p)) a n" "\<And>q. q \<in> set qs \<Longrightarrow> fst q = p \<Longrightarrow> p + snd q \<le> a"
  shows "heap_inv v s (assign own a n None) fl qs live" "owned s (assign own a n None) None a n"
proof -
  have keep: "owned s (assign own a n None) (Some t) b k" if "owned s own (Some t) b k" "t \<noteq> Pool p" for t b k
    using assms(2) that by (intro owned_assign_other) auto
  have "owned s (assign own a n None) (Some (Pool (fst q))) (fst q) (snd q)" if "q \<in> set qs" for q
  proof (cases "fst q = p")
    case True
    then show ?thesis using assms(1,3) that by (intro owned_assign_apart) (auto simp: heap_inv_defs)
  next
    case False
    then show ?thesis using assms(1) that by (intro keep) (auto simp: heap_inv_defs)
  qed
  then show "heap_inv v s (assign own a n None) fl qs live"
    using assms(1) keep only_regions_assign [OF _ assms(2)]
    by (auto simp: heap_inv_def blocks_inv_def lists_ok_def live_ok_def pools_inv_def pools_ok_def)
  show "owned s (assign own a n None) None a n" using assms(2) by (rule owned_assign_same)
qed

lemma pool_owned: "heap_inv v s own fl qs live \<Longrightarrow> q \<in> set qs \<Longrightarrow> owned s own (Some (Pool (fst q))) (fst q) (snd q)"
  by (simp add: heap_inv_defs)

lemma pool_ge: "vm_ok v \<Longrightarrow> heap_inv v s own fl qs live \<Longrightarrow> q \<in> set qs \<Longrightarrow> 8 \<le> snd q"
  by (metis heap_inv_def pool_large pools_inv_def)

text \<open>To give out the end of a pool, or all of a pool that has left the chain.\<close>

lemma providesI:
  assumes "heap_inv v s' own fl qs live" "owned s' own (Some (Pool p)) a n" "\<And>q. q \<in> set qs \<Longrightarrow> fst q = p \<Longrightarrow> p + snd q \<le> a"
    and "same_live live s s'" "same_lists s s'"
  shows "provides v fl live n s a s'"
  using release_pool [OF assms(1-3)] assms(4,5) unfolding provides_def by blast

lemma pools_distinct: "heap_inv v s own fl (q # qs) live \<Longrightarrow> r \<in> set qs \<Longrightarrow> fst r \<noteq> fst q"
  by (force simp: heap_inv_def pools_inv_def pools_ok_def)

lemma take_all:
  assumes "vm_ok v" "heap_inv v s own fl ((pool s, amount) # qs) live" "pool_size s = amount"
  shows "\<exists>a s'. take_from_pool amount s = Inr (a, s') \<and> provides v fl live amount s a s' \<and> vm_calls s' = vm_calls s"
proof -
  let ?next = "unat (load32 (bytes s) (pool s))"
  let ?s = "s\<lparr>pool_size := if qs = [] then 0 else snd (hd qs), pool := ?next\<rparr>"
  have o: "owned s own (Some (Pool (pool s))) (pool s) amount" and n: "8 \<le> amount"
    using pool_owned [OF assms(2), of "(pool s, amount)"] pool_ge [OF assms(1,2), of "(pool s, amount)"] by auto
  have path: "pool_path (bytes s) ?next qs" using assms(2) by (simp add: heap_inv_def pools_inv_def)
  have read: "read_word (s\<lparr>pool_size := 0\<rparr>) (pool s) = Inr ?next" using read_word_owned [OF o, of "pool s"] n by (simp add: read_word_def split: if_splits)
  have "take_from_pool amount s = Inr (pool s, ?s)"
  proof (cases qs)
    case Nil
    then show ?thesis using path read assms(3) by (simp add: take_from_pool_def)
  next
    case (Cons q qs')
    then have q: "owned s own (Some (Pool (fst q))) (fst q) (snd q)" "8 \<le> snd q" "fst q = ?next" "unat (load32 (bytes s) (?next + 4)) = snd q"
      using pool_owned [OF assms(2), of q] pool_ge [OF assms(1,2), of q] path by auto
    then have "read_word (s\<lparr>pool_size := 0, pool := ?next\<rparr>) (?next + 4) = Inr (snd q)" "?next \<noteq> 0"
      using read_word_owned [OF q(1), of "?next + 4"] by (auto simp: read_word_def owned_def split: if_splits)
    then show ?thesis using read assms(3) Cons by (simp add: take_from_pool_def)
  qed
  moreover have "first_pool ?s qs" using path by (cases qs) simp_all
  then have "heap_inv v ?s own fl qs live" using assms(2) by (simp add: heap_inv_def pools_inv_def pools_ok_def)
  then have "provides v fl live amount s (pool s) ?s"
    by (rule providesI [where p = "pool s"]) (use o pools_distinct [OF assms(2)] in \<open>auto simp: same_lists_def\<close>)
  ultimately show ?thesis by (intro exI [of _ "pool s"] exI [of _ ?s] conjI) simp_all
qed

lemma take_part:
  assumes "heap_inv v s own fl ((pool s, n) # qs) live" "pool_size s = n" "vm_page_size v dvd amount" "amount < n"
  shows "\<exists>a s'. take_from_pool amount s = Inr (a, s') \<and> provides v fl live amount s a s' \<and> vm_calls s' = vm_calls s"
proof -
  let ?left = "n - amount"
  let ?s = "s\<lparr>pool_size := ?left\<rparr>"
  have o: "owned s own (Some (Pool (pool s))) (pool s) n" using pool_owned [OF assms(1), of "(pool s, n)"] by simp
  have "vm_page_size v dvd n" using assms(1) by (auto simp: heap_inv_def pools_inv_def pools_ok_def)
  then have "vm_page_size v dvd ?left" using assms(3) by (rule dvd_diff_nat)
  moreover have "owned s own (Some (Pool (pool s))) (pool s) ?left" by (rule owned_sub [OF o]) simp_all
  ultimately have "heap_inv v ?s own fl ((pool s, ?left) # qs) live"
    using assms by (simp add: heap_inv_def pools_inv_def pools_ok_def)
  then have "provides v fl live amount s (pool s + ?left) ?s"
  proof (rule providesI [where p = "pool s"])
    have "owned s own (Some (Pool (pool s))) (pool s + ?left) amount" by (rule owned_sub [OF o]) (use assms(4) in simp_all)
    then show "owned ?s own (Some (Pool (pool s))) (pool s + ?left) amount" by simp
    show "pool s + snd q \<le> pool s + ?left" if "q \<in> set ((pool s, ?left) # qs)" "fst q = pool s" for q
      using pools_distinct [OF assms(1), of q] that by auto
  qed (simp_all add: same_lists_def)
  moreover have "take_from_pool amount s = Inr (pool s + ?left, ?s)" using assms(2,4) by (simp add: take_from_pool_def)
  ultimately show ?thesis by (intro exI [of _ "pool s + ?left"] exI [of _ ?s] conjI) simp_all
qed

lemma take_from_pool_ok:
  assumes "vm_ok v" "heap_inv v s own fl qs live" "0 < amount" "vm_page_size v dvd amount" "amount \<le> pool_size s"
  shows "\<exists>a s'. take_from_pool amount s = Inr (a, s') \<and> provides v fl live amount s a s' \<and> vm_calls s' = vm_calls s"
proof -
  obtain qs' where "qs = (pool s, pool_size s) # qs'"
    using assms(2,3,5) by (cases qs) (auto simp: heap_inv_def pools_inv_def)
  then show ?thesis using take_all [OF assms(1)] take_part [OF _ refl assms(4)] assms(2,5) by (cases "amount = pool_size s") simp_all
qed

section \<open>The search behind the first pool\<close>

lemma pool_path_resize:
  assumes "pool_path m a (A @ (p, n) # B)" "\<And>q. q \<in> set (A @ (p, n) # B) \<Longrightarrow> load32 m' (fst q) = load32 m (fst q)"
    and "\<And>q. q \<in> set (A @ B) \<Longrightarrow> load32 m' (fst q + 4) = load32 m (fst q + 4)" "unat (load32 m' (p + 4)) = k"
  shows "pool_path m' a (A @ (p, k) # B)"
  using assms(1-3)
proof (induction A arbitrary: a)
  case Nil
  then show ?case using pool_path_cong [of B m' m] assms(4) Nil.prems(2) [of "(p, n)"] by simp
qed simp

lemma pool_path_unlink:
  assumes "pool_path m a (A @ (p, k) # (q, n) # B)" "\<And>r. r \<in> set (A @ B) \<Longrightarrow> load32 m' (fst r) = load32 m (fst r)"
    and "\<And>r. r \<in> set (A @ (p, k) # B) \<Longrightarrow> load32 m' (fst r + 4) = load32 m (fst r + 4)" "load32 m' p = load32 m q"
  shows "pool_path m' a (A @ (p, k) # B)"
  using assms(1-3)
proof (induction A arbitrary: a)
  case Nil
  then show ?case using pool_path_cong [of B m' m] assms(4) Nil.prems(3) [of "(p, k)"] by simp
qed simp

lemma pool_load_other:
  assumes "vm_ok v" "heap_inv v s own fl qs live" "p \<in> set qs" "q \<in> set qs" "fst p \<noteq> fst q" "a \<in> {fst p, fst p + 4}" "b \<in> {fst q, fst q + 4}"
  shows "load32 (store32 (bytes s) a w) b = load32 (bytes s) b"
proof (rule load_store_other)
  have "8 \<le> snd p" "8 \<le> snd q" using pool_ge [OF assms(1,2)] assms(3,4) by blast+
  moreover from this have "fst p + snd p \<le> fst q \<or> fst q + snd q \<le> fst p"
    by (intro owned_disjoint [OF pool_owned pool_owned]) (use assms in auto)
  ultimately show "b + 4 \<le> a \<or> a + 4 \<le> b" using assms(6,7) by auto
qed

lemma pool_write_blocks:
  assumes "vm_ok v" "heap_inv v s own fl qs live" "q \<in> set qs" "a \<in> {fst q, fst q + 4}"
  shows "blocks_inv v (s\<lparr>bytes := store32 (bytes s) a w\<rparr>) own fl live" "same_live live s (s\<lparr>bytes := store32 (bytes s) a w\<rparr>)"
proof -
  have "own x = Some (Pool (fst q))" if "store32 (bytes s) a w x \<noteq> bytes s x" for x
    using store32_changes [OF that] pool_owned [OF assms(2,3)] pool_ge [OF assms(1-3)] assms(4) by (auto simp: owned_def)
  then show "blocks_inv v (s\<lparr>bytes := store32 (bytes s) a w\<rparr>) own fl live" "same_live live s (s\<lparr>bytes := store32 (bytes s) a w\<rparr>)"
    using assms(2) by (auto simp: heap_inv_def intro!: no_block_write)
qed

lemma resize_pool:
  assumes "vm_ok v" "heap_inv v s own fl (A @ (p, n) # B) live" "A \<noteq> []" "vm_page_size v dvd k" "0 < k" "k \<le> n"
  shows "heap_inv v (s\<lparr>bytes := store32 (bytes s) (p + 4) (of_nat k)\<rparr>) own fl (A @ (p, k) # B) live" (is "heap_inv v ?s _ _ _ _")
proof -
  note inv = assms(2) [unfolded heap_inv_def pools_inv_def]
  have o: "owned s own (Some (Pool p)) p n" using pool_owned [OF assms(2), of "(p, n)"] by simp
  have d: "p \<noteq> fst q" if "q \<in> set (A @ B)" for q using inv that by (force simp: pools_ok_def)
  have other: "load32 (bytes ?s) b = load32 (bytes s) b" if "q \<in> set (A @ B)" "b \<in> {fst q, fst q + 4}" for q b
    using pool_load_other [OF assms(1,2), of "(p, n)" q "p + 4" b] d that by auto
  have "owned s own (Some (Pool p)) p k" by (rule owned_sub [OF o]) (use assms(6) in simp_all)
  then have "pools_ok v ?s own (A @ (p, k) # B)" using inv assms(4,5) by (auto simp: pools_ok_def)
  moreover obtain q A' where A: "A = q # A'" using assms(3) by (cases A) auto
  have "pool_path (bytes ?s) (unat (load32 (bytes s) (pool s))) (A' @ (p, k) # B)"
  proof (rule pool_path_resize)
    show "pool_path (bytes s) (unat (load32 (bytes s) (pool s))) (A' @ (p, n) # B)" using inv A by simp
    show "unat (load32 (bytes ?s) (p + 4)) = k" using o assms(6) by (simp add: load_store_same owned_def unat_of_nat)
    show "load32 (bytes ?s) (fst q) = load32 (bytes s) (fst q)" if "q \<in> set (A' @ (p, n) # B)" for q
      using that other [of q "fst q"] A load_store_other [of p "p + 4"] by auto
    show "load32 (bytes ?s) (fst q + 4) = load32 (bytes s) (fst q + 4)" if "q \<in> set (A' @ B)" for q
      using that other [of q "fst q + 4"] A by auto
  qed
  then have "first_pool ?s (A @ (p, k) # B)" using inv A other [of q "fst q"] by simp
  ultimately show ?thesis
    using pool_write_blocks(1) [OF assms(1,2), of "(p, n)" "p + 4"] inv by (simp add: heap_inv_def pools_inv_def)
qed

lemma unlink_pool:
  assumes "vm_ok v" "heap_inv v s own fl (A @ (p, k) # (q, n) # B) live"
  shows "heap_inv v (s\<lparr>bytes := store32 (bytes s) p (load32 (bytes s) q)\<rparr>) own fl (A @ (p, k) # B) live" (is "heap_inv v ?s _ _ _ _")
proof -
  note inv = assms(2) [unfolded heap_inv_def pools_inv_def]
  have d: "p \<noteq> fst r" if "r \<in> set (A @ B)" for r using inv that by (force simp: pools_ok_def)
  have other: "load32 (bytes ?s) b = load32 (bytes s) b" if "r \<in> set (A @ B)" "b \<in> {fst r, fst r + 4}" for r b
    using pool_load_other [OF assms(1,2), of "(p, k)" r p b] d that by auto
  have same: "load32 (bytes ?s) p = load32 (bytes s) q" "load32 (bytes ?s) (p + 4) = load32 (bytes s) (p + 4)"
    by (simp_all add: load_store_same load_store_other)
  have "first_pool ?s (A @ (p, k) # B)"
  proof (cases A)
    case Nil
    then have "pool_path (bytes ?s) a B = pool_path (bytes s) a B" for a using other by (intro pool_path_cong) simp
    then show ?thesis using inv Nil same by simp
  next
    case (Cons r A')
    have "pool_path (bytes ?s) (unat (load32 (bytes s) (pool s))) (A' @ (p, k) # B)"
    proof (rule pool_path_unlink [OF _ _ _ same(1)])
      show "pool_path (bytes s) (unat (load32 (bytes s) (pool s))) (A' @ (p, k) # (q, n) # B)" using inv Cons by simp
      show "load32 (bytes ?s) (fst r) = load32 (bytes s) (fst r)" if "r \<in> set (A' @ B)" for r using that other [of r "fst r"] Cons by auto
      show "load32 (bytes ?s) (fst r + 4) = load32 (bytes s) (fst r + 4)" if "r \<in> set (A' @ (p, k) # B)" for r
        using that other [of r "fst r + 4"] Cons same(2) by auto
    qed
    then show ?thesis using inv Cons other [of r "fst r"] by simp
  qed
  moreover have "pools_ok v ?s own (A @ (p, k) # B)" using inv by (auto simp: pools_ok_def)
  ultimately show ?thesis
    using pool_write_blocks(1) [OF assms(1,2), of "(p, k)" p] inv by (simp add: heap_inv_def pools_inv_def)
qed

lemma store32_commute:
  "a + 4 \<le> b \<or> b + 4 \<le> a \<Longrightarrow> store32 (store32 m a w) b u = store32 (store32 m b u) a w"
  by (auto simp: store32_def fun_eq_iff)

lemma pool_next:
  assumes "heap_inv v s own fl (A @ (p, k) # B) live"
  shows "pool_path (bytes s) (unat (load32 (bytes s) p)) B"
proof -
  have path: "pool_path m a (A @ (p, k) # B) \<Longrightarrow> pool_path m (unat (load32 m p)) B" for m a A
    by (induction A arbitrary: a) auto
  show ?thesis using assms path by (cases A) (auto simp: heap_inv_def pools_inv_def)
qed

lemma use_up_pool:
  assumes "vm_ok v" "heap_inv v s own fl (A @ (p, k) # (q, n) # B) live"
  shows "provides v fl live n s q (s\<lparr>bytes := store32 (store32 (bytes s) (q + 4) w) p (load32 (bytes s) q)\<rparr>)"
proof -
  let ?t = "s\<lparr>bytes := store32 (bytes s) p (load32 (bytes s) q)\<rparr>"
  have o: "owned s own (Some (Pool p)) p k" "owned s own (Some (Pool q)) q n" "8 \<le> k" "8 \<le> n"
    using pool_owned [OF assms(2), of "(p, k)"] pool_owned [OF assms(2), of "(q, n)"]
      pool_ge [OF assms(1,2), of "(p, k)"] pool_ge [OF assms(1,2), of "(q, n)"] by auto
  have pq: "p \<noteq> q" "q \<notin> fst ` set (A @ (p, k) # B)" using assms(2) by (auto simp: heap_inv_defs)
  have inv: "heap_inv v ?t own fl (A @ (p, k) # B) live" by (rule unlink_pool [OF assms])
  have "owned ?t own (Some (Pool q)) q n" "spare fl (A @ (p, k) # B) live (Some (Pool q))"
    using o(2) pq(2) by (simp_all add: spare_def)
  from write_spare [OF assms(1) inv this, of "q + 4" w] have
    "heap_inv v (s\<lparr>bytes := store32 (store32 (bytes s) p (load32 (bytes s) q)) (q + 4) w\<rparr>) own fl (A @ (p, k) # B) live"
    using o(4) by simp
  moreover have "store32 (store32 (bytes s) (q + 4) w) p (load32 (bytes s) q) = store32 (store32 (bytes s) p (load32 (bytes s) q)) (q + 4) w"
    using owned_disjoint [OF o(1,2)] o(3,4) pq(1) by (intro store32_commute) auto
  moreover have "same_live live s (s\<lparr>bytes := store32 (store32 (bytes s) (q + 4) w) p (load32 (bytes s) q)\<rparr>)"
  proof (rule same_liveI)
    show "blocks_inv v s own fl live" using assms(2) by (simp add: heap_inv_def)
    show "live h \<noteq> Some i" if c: "bytes (s\<lparr>bytes := store32 (store32 (bytes s) (q + 4) w) p (load32 (bytes s) q)\<rparr>) x \<noteq> bytes s x" "own x = Some (Block i h)" for x i h
    proof -
      have "p \<le> x \<and> x < p + 4 \<or> q + 4 \<le> x \<and> x < q + 4 + 4"
        using c(1) store32_changes [of "store32 (bytes s) (q + 4) w" p "load32 (bytes s) q" x] store32_changes [of "bytes s" "q + 4" w x]
        by (cases "store32 (bytes s) (q + 4) w x = bytes s x") auto
      then show ?thesis using o c(2) by (auto simp: owned_def)
    qed
  qed
  ultimately show ?thesis
    by (intro providesI [where p = q and own = own and qs = "A @ (p, k) # B"]) (use o(2) pq(2) in \<open>auto simp: same_lists_def\<close>)
qed

lemma shrink_pool:
  assumes "vm_ok v" "heap_inv v s own fl (A @ (p, n) # B) live" "A \<noteq> []" "vm_page_size v dvd amount" "amount < n"
  shows "provides v fl live amount s (p + (n - amount)) (s\<lparr>bytes := store32 (bytes s) (p + 4) (of_nat (n - amount))\<rparr>)"
proof (rule providesI [where p = p])
  have o: "owned s own (Some (Pool p)) p n" using pool_owned [OF assms(2), of "(p, n)"] by simp
  have d: "q \<in> set (A @ B) \<Longrightarrow> fst q \<noteq> p" for q using assms(2) by (force simp: heap_inv_defs)
  have "vm_page_size v dvd n" using assms(2) by (auto simp: heap_inv_def pools_inv_def pools_ok_def)
  then show "heap_inv v (s\<lparr>bytes := store32 (bytes s) (p + 4) (of_nat (n - amount))\<rparr>) own fl (A @ (p, n - amount) # B) live"
    using assms by (intro resize_pool [where n = n]) (simp_all add: dvd_diff_nat)
  have "owned s own (Some (Pool p)) (p + (n - amount)) amount" by (rule owned_sub [OF o]) (use assms(5) in simp_all)
  then show "owned (s\<lparr>bytes := store32 (bytes s) (p + 4) (of_nat (n - amount))\<rparr>) own (Some (Pool p)) (p + (n - amount)) amount" by simp
  show "p + snd q \<le> p + (n - amount)" if "q \<in> set (A @ (p, n - amount) # B)" "fst q = p" for q using d [of q] that by (cases q) auto
  show "same_live live s (s\<lparr>bytes := store32 (bytes s) (p + 4) (of_nat (n - amount))\<rparr>)"
    by (rule pool_write_blocks(2) [OF assms(1,2), of "(p, n)"]) simp_all
qed (simp add: same_lists_def)

lemma search_pools_ok:
  assumes "vm_ok v" "0 < amount" "vm_page_size v dvd amount" "heap_inv v s own fl (A @ (prev, k) # B) live" "length B < fuel"
  shows "search_pools fuel amount prev s = Inr (0, s) \<or>
    (\<exists>a s'. search_pools fuel amount prev s = Inr (a, s') \<and> 0 < a \<and> provides v fl live amount s a s' \<and> vm_calls s' = vm_calls s)"
  using assms(4,5)
proof (induction B arbitrary: A prev k fuel)
  case Nil
  then obtain f where "fuel = Suc f" by (cases fuel) auto
  moreover have "read_word s prev = Inr 0"
    using read_word_owned [OF pool_owned [OF Nil(1), of "(prev, k)"], of prev] pool_ge [OF assms(1) Nil(1), of "(prev, k)"] pool_next [OF Nil(1)] by simp
  ultimately show ?case by simp
next
  case (Cons q B)
  obtain cur n where q: "q = (cur, n)" by (cases q)
  obtain f where f: "fuel = Suc f" "length B < f" using Cons.prems(2) by (cases fuel) auto
  have path: "unat (load32 (bytes s) prev) = cur" "unat (load32 (bytes s) (cur + 4)) = n" using pool_next [OF Cons.prems(1)] q by auto
  have op: "owned s own (Some (Pool prev)) prev k" "8 \<le> k" and oc: "owned s own (Some (Pool cur)) cur n" "8 \<le> n"
    using pool_owned [OF Cons.prems(1), of "(prev, k)"] pool_owned [OF Cons.prems(1), of q] pool_ge [OF assms(1) Cons.prems(1), of "(prev, k)"]
      pool_ge [OF assms(1) Cons.prems(1), of q] q by auto
  have inv: "heap_inv v s own fl ((A @ [(prev, k)]) @ (cur, n) # B) live" using Cons.prems(1) q by simp
  have r: "read_word s prev = Inr cur" "read_word s (cur + 4) = Inr n" "cur \<noteq> 0"
    using read_word_owned [OF op(1), of prev] read_word_owned [OF oc(1), of "cur + 4"] path op(2) oc by (auto simp: owned_def)
  have w: "write_word (cur + 4) x s = Inr (s\<lparr>bytes := store32 (bytes s) (cur + 4) (of_nat x)\<rparr>)" for x
    using write_word_owned [OF oc(1)] oc(2) by simp
  consider "n < amount" | "amount = n" | "amount < n" by linarith
  then show ?case
  proof cases
    case 1
    then show ?thesis using Cons.IH [OF inv f(2)] by (simp add: f(1) r)
  next
    case 2
    let ?m = "store32 (bytes s) (cur + 4) 0"
    have "read_word (s\<lparr>bytes := ?m\<rparr>) cur = Inr (unat (load32 (bytes s) cur))"
      using read_word_owned [of "s\<lparr>bytes := ?m\<rparr>" own "Some (Pool cur)" cur n cur] oc by (simp add: load_store_other)
    moreover have "write_word prev x (s\<lparr>bytes := ?m\<rparr>) = Inr (s\<lparr>bytes := store32 ?m prev (of_nat x)\<rparr>)" for x
      using write_word_owned [of "s\<lparr>bytes := ?m\<rparr>" own "Some (Pool prev)" prev k prev x] op by simp
    ultimately have "search_pools fuel amount prev s = Inr (cur, s\<lparr>bytes := store32 ?m prev (load32 (bytes s) cur)\<rparr>)"
      using 2 by (simp add: f(1) r w)
    then show ?thesis using use_up_pool [OF assms(1) Cons.prems(1) [unfolded q], of 0] r(3) 2 by auto
  next
    case 3
    then have "search_pools fuel amount prev s = Inr (cur + (n - amount), s\<lparr>bytes := store32 (bytes s) (cur + 4) (of_nat (n - amount))\<rparr>)"
      by (simp add: f(1) r w)
    then show ?thesis using shrink_pool [OF assms(1) inv _ assms(3) 3] r(3) by auto
  qed
qed

section \<open>New pages\<close>

lemma heap_inv_regions:
  assumes "heap_inv v s own fl qs live"
  shows "heap_inv v (s\<lparr>regions := r # regions s\<rparr>) own fl qs live"
proof -
  have more: "in_regions (s\<lparr>regions := r # regions s\<rparr>) a n" if "in_regions s a n" for a n
    using that by (auto simp: in_regions_def)
  then have "owned (s\<lparr>regions := r # regions s\<rparr>) own t a n" if "owned s own t a n" for t a n
    using that by (simp add: owned_def)
  moreover have "first_pool (s\<lparr>regions := r # regions s\<rparr>) qs" using assms by (cases qs) (auto simp: heap_inv_def pools_inv_def)
  ultimately show ?thesis using assms more by (simp add: heap_inv_def blocks_inv_def pools_inv_def lists_ok_def live_ok_def pools_ok_def only_regions_def)
qed

lemma heap_inv_calls [simp]: "heap_inv v (s\<lparr>vm_calls := n\<rparr>) own fl qs live = heap_inv v s own fl qs live"
  by (cases qs) (simp_all add: heap_inv_defs owned_def in_regions_def)

lemma vm_allocate_ok:
  assumes "vm_ok v" "heap_inv v s own fl qs live" "vm_answer v (vm_calls s) (regions s) n = Some a"
  shows "\<exists>s'. vm_allocate_pages v n s = (Some a, s') \<and> heap_inv v s' own fl qs live \<and> owned s' own None a n \<and> same_live live s s' \<and>
    length qs < length (regions s') \<and> same_lists s s'"
proof -
  let ?m = "\<lambda>x. if a \<le> x \<and> x < a + n then 0 else bytes s x"
  have fresh: "0 < a" "a + n \<le> 2 ^ 32" "\<forall>(r, len) \<in> set (regions s). a + n \<le> r \<or> r + len \<le> a"
    using assms(1,3) unfolding vm_ok_def by blast+
  have none: "own x = None" if "a \<le> x" "x < a + n" for x
  proof (rule ccontr)
    assume "own x \<noteq> None"
    then have "in_regions s x 1" using assms(2) by (simp add: heap_inv_def only_regions_def)
    then show False using fresh(3) that by (fastforce simp: in_regions_iff)
  qed
  have "blocks_inv v (s\<lparr>bytes := ?m\<rparr>) own fl live" and live: "same_live live s (s\<lparr>bytes := ?m\<rparr>)"
    using assms(2) none by (auto simp: heap_inv_def intro!: no_block_write split: if_splits)
  moreover have "pools_inv v (s\<lparr>bytes := ?m\<rparr>) own qs"
    using assms(2) none by (auto simp: heap_inv_def intro!: pools_inv_write [OF assms(1)] split: if_splits)
  ultimately have "heap_inv v (s\<lparr>bytes := ?m\<rparr>) own fl qs live" using assms(2) by (simp add: heap_inv_def)
  from heap_inv_regions [OF this, of "(a, n)"]
  have "heap_inv v (s\<lparr>bytes := ?m, regions := (a, n) # regions s, vm_calls := Suc (vm_calls s)\<rparr>) own fl qs live" by simp
  moreover have "owned (s\<lparr>bytes := ?m, regions := (a, n) # regions s, vm_calls := Suc (vm_calls s)\<rparr>) own None a n"
    using fresh none by (simp add: owned_def in_regions_def)
  moreover have "length qs \<le> length (regions s)" using assms(2) by (simp add: heap_inv_defs)
  ultimately show ?thesis using assms(3) live
    by (intro exI [of _ "s\<lparr>bytes := ?m, regions := (a, n) # regions s, vm_calls := Suc (vm_calls s)\<rparr>"])
      (simp add: vm_allocate_pages_def same_live_def same_lists_def)
qed

lemma save_size:
  assumes "vm_ok v" "heap_inv v s own fl qs live" "qs \<noteq> []"
  defines "s' \<equiv> s\<lparr>bytes := store32 (bytes s) (pool s + 4) (of_nat (pool_size s))\<rparr>"
  shows "write_word (pool s + 4) (pool_size s) s = Inr s'" "heap_inv v s' own fl qs live" "pool_path (bytes s') (pool s') qs" "same_live live s s'"
proof -
  obtain qs' where qs: "qs = (pool s, pool_size s) # qs'" using assms(2,3) by (cases qs) (auto simp: heap_inv_def pools_inv_def)
  have o: "owned s own (Some (Pool (pool s))) (pool s) (pool_size s)" "8 \<le> pool_size s"
    using pool_owned [OF assms(2), of "(pool s, pool_size s)"] pool_ge [OF assms(1,2), of "(pool s, pool_size s)"] qs by auto
  show "write_word (pool s + 4) (pool_size s) s = Inr s'" unfolding s'_def by (rule write_word_owned [OF o(1)]) (use o(2) in simp_all)
  have "load32 (bytes s') b = load32 (bytes s) b" if "q \<in> set qs'" "b \<in> {fst q, fst q + 4}" for q b
    using pool_load_other [OF assms(1,2), of "(pool s, pool_size s)" q "pool s + 4" b] that qs pools_distinct [OF assms(2) [unfolded qs], of q]
    by (auto simp: s'_def)
  then have "pool_path (bytes s') a qs' = pool_path (bytes s) a qs'" for a by (intro pool_path_cong) simp
  moreover have "load32 (bytes s') (pool s) = load32 (bytes s) (pool s)" by (simp add: s'_def load_store_other)
  ultimately have path: "pool_path (bytes s') (unat (load32 (bytes s') (pool s))) qs'" using assms(2) qs by (simp add: heap_inv_def pools_inv_def)
  have "blocks_inv v s' own fl live" and live: "same_live live s s'"
    unfolding s'_def using pool_write_blocks [OF assms(1,2), of "(pool s, pool_size s)" "pool s + 4"] qs by simp_all
  moreover have "first_pool s' qs" using path qs by (simp add: s'_def)
  ultimately show "heap_inv v s' own fl qs live" using assms(2) by (simp add: heap_inv_def pools_inv_def pools_ok_def s'_def)
  have "unat (load32 (bytes s') (pool s + 4)) = pool_size s"
    using o(1) by (simp add: s'_def load_store_same owned_def unat_of_nat)
  then show "pool_path (bytes s') (pool s') qs" using path qs by (simp add: s'_def)
  show "same_live live s s'" by (rule live)
qed

lemma link_pool:
  assumes "vm_ok v" "heap_inv v s own fl qs live" "pool_path (bytes s) (pool s) qs" "owned s own (Some (Pool a)) a n" "a \<notin> fst ` set qs"
    and "vm_page_size v dvd k" "0 < k" "k \<le> n" "8 \<le> n" "length qs < length (regions s)"
  shows "heap_inv v (s\<lparr>bytes := store32 (bytes s) a (of_nat (pool s)), pool := a, pool_size := k\<rparr>) own fl ((a, k) # qs) live"
    "same_live live s (s\<lparr>bytes := store32 (bytes s) a (of_nat (pool s)), pool := a, pool_size := k\<rparr>)"
proof -
  let ?s = "s\<lparr>bytes := store32 (bytes s) a (of_nat (pool s))\<rparr>"
  have inv: "heap_inv v ?s own fl qs live"
    by (rule write_spare [OF assms(1,2,4)]) (use assms(5,9) in \<open>auto simp: spare_def\<close>)
  have "owned s own (Some (Pool a)) a k" by (rule owned_sub [OF assms(4)]) (use assms(8) in simp_all)
  then have "pools_ok v ?s own ((a, k) # qs)" using assms(2,5,6,7,10) by (simp add: heap_inv_defs)
  moreover have "load32 (bytes ?s) b = load32 (bytes s) b" if "q \<in> set qs" "b \<in> {fst q, fst q + 4}" for q b
  proof -
    have "8 \<le> snd q" "a + n \<le> fst q \<or> fst q + snd q \<le> a"
      using pool_ge [OF assms(1,2) that(1)] owned_disjoint [OF assms(4) pool_owned [OF assms(2) that(1)]] assms(5,9) that(1) by auto
    then show ?thesis using that(2) assms(9) by (auto intro!: load_store_other)
  qed
  then have "pool_path (bytes ?s) x qs = pool_path (bytes s) x qs" for x by (intro pool_path_cong) simp
  moreover have "pool s < 2 ^ 32" using assms(3) pool_owned [OF assms(2)] pool_ge [OF assms(1,2)] by (cases qs) (force simp: owned_def)+
  ultimately show "heap_inv v (s\<lparr>bytes := store32 (bytes s) a (of_nat (pool s)), pool := a, pool_size := k\<rparr>) own fl ((a, k) # qs) live"
    using inv assms(3) by (simp add: heap_inv_def pools_inv_def load_store_same unat_of_nat pools_ok_def)
  have "own x = Some (Pool a)" if "store32 (bytes s) a w x \<noteq> bytes s x" for x w
    using store32_changes [OF that] assms(4,9) by (simp add: owned_def)
  then show "same_live live s (s\<lparr>bytes := store32 (bytes s) a (of_nat (pool s)), pool := a, pool_size := k\<rparr>)"
    using assms(2) by (intro same_liveI [of v s own fl]) (auto simp: heap_inv_def)
qed

lemma pool_null_iff: "heap_inv v s own fl qs live \<Longrightarrow> pool s = 0 \<longleftrightarrow> qs = []"
  by (cases qs) (auto simp: heap_inv_def pools_inv_def pools_ok_def owned_def)

lemma save_first:
  assumes "vm_ok v" "heap_inv v s own fl qs live"
  shows "\<exists>s'. (if pool s \<noteq> 0 then write_word (pool s + 4) (pool_size s) s else Inr s) = Inr s' \<and> heap_inv v s' own fl qs live \<and>
    pool_path (bytes s') (pool s') qs \<and> same_live live s s' \<and> same_lists s s' \<and> regions s' = regions s"
proof (cases "qs = []")
  case True
  then show ?thesis using assms pool_null_iff [OF assms(2)] by (intro exI [of _ s]) (simp add: heap_inv_def pools_inv_def same_lists_def)
next
  case False
  then show ?thesis using save_size [OF assms False] pool_null_iff [OF assms(2)]
    by (intro exI [of _ "s\<lparr>bytes := store32 (bytes s) (pool s + 4) (of_nat (pool_size s))\<rparr>"]) (simp add: same_lists_def)
qed

lemma pool_bytes_page: "vm_ok v \<Longrightarrow> vm_page_size v dvd pool_bytes v"
proof -
  assume "vm_ok v"
  then obtain k where k: "k < 32" "vm_page_size v = 2 ^ k" by (auto simp: vm_ok_def)
  have "(2 :: nat) ^ k dvd 2 ^ 32" using k(1) by (intro le_imp_power_dvd) simp
  then show ?thesis unfolding pool_bytes_def using k(2) by (intro dvd_mod) simp_all
qed

text \<open>The kernel refuses the request that would be made for so many bytes.\<close>

definition vm_refuses :: "vm \<Rightarrow> heap_state \<Rightarrow> nat \<Rightarrow> bool" where
  "vm_refuses v s amount \<longleftrightarrow> vm_answer v (vm_calls s) (regions s) (max amount (pool_bytes v)) = None"

lemma new_pool:
  assumes "vm_ok v" "heap_inv v s own fl qs live" "0 < amount" "vm_page_size v dvd amount" "amount < pool_bytes v" "\<not> vm_refuses v s amount"
  shows "\<exists>a s'. new_memory v amount s = Inr (Some a, s') \<and> provides v fl live amount s a s'"
proof -
  let ?n = "pool_bytes v"
  have ref: "vm_answer v (vm_calls s) (regions s) ?n \<noteq> None" using assms(5,6) by (simp add: vm_refuses_def max_def)
  then obtain a s1 where s1: "vm_allocate_pages v ?n s = (Some a, s1)" "heap_inv v s1 own fl qs live" "owned s1 own None a ?n"
    "same_live live s s1" "length qs < length (regions s1)" "same_lists s s1"
    using vm_allocate_ok [OF assms(1,2)] by (metis option.exhaust)
  let ?own = "assign own a ?n (Some (Pool a))"
  have inv1: "heap_inv v s1 ?own fl qs live" by (rule claim [OF s1(2,3)])
  have o1: "owned s1 ?own (Some (Pool a)) a ?n" by (rule owned_assign_same [OF s1(3)])
  have n8: "8 \<le> ?n" using page_size_ge [OF assms(1)] dvd_imp_le [OF pool_bytes_page [OF assms(1)]] assms(5) by linarith
  have fresh: "a \<notin> fst ` set qs"
    using pool_owned [OF s1(2)] s1(3) pool_ge [OF assms(1,2)] n8 by (fastforce simp: owned_def)
  obtain s2 where s2: "(if pool s1 \<noteq> 0 then write_word (pool s1 + 4) (pool_size s1) s1 else Inr s1) = Inr s2"
    "heap_inv v s2 ?own fl qs live" "pool_path (bytes s2) (pool s2) qs" "same_live live s1 s2" "same_lists s1 s2" "regions s2 = regions s1"
    using save_first [OF assms(1) inv1] by blast
  let ?s = "s2\<lparr>bytes := store32 (bytes s2) a (of_nat (pool s2)), pool := a, pool_size := ?n - amount\<rparr>"
  have o2: "owned s2 ?own (Some (Pool a)) a ?n" using o1 s2(6) by (simp add: owned_def in_regions_def)
  have d: "vm_page_size v dvd ?n - amount" using assms(4) pool_bytes_page [OF assms(1)] by (simp add: dvd_diff_nat)
  have "length qs < length (regions s2)" using s1(5) s2(6) by simp
  note link = link_pool [OF assms(1) s2(2,3) o2 fresh d _ _ n8 this]
  have "provides v fl live amount s (a + (?n - amount)) ?s"
  proof (rule providesI [where p = a])
    show "heap_inv v ?s ?own fl ((a, ?n - amount) # qs) live" using link(1) assms(5) by simp
    show "same_live live s ?s" using link(2) assms(5) s1(4) s2(4) by (meson same_live_trans diff_le_self zero_less_diff)
    have "owned s2 ?own (Some (Pool a)) (a + (?n - amount)) amount" by (rule owned_sub [OF o2]) (use assms(5) in simp_all)
    then show "owned ?s ?own (Some (Pool a)) (a + (?n - amount)) amount" by simp
    show "a + snd q \<le> a + (?n - amount)" if "q \<in> set ((a, ?n - amount) # qs)" "fst q = a" for q
    proof -
      have "q \<notin> set qs" using fresh that(2) by force
      then show ?thesis using that(1) by auto
    qed
    show "same_lists s ?s" using s1(6) s2(5) by (simp add: same_lists_def)
  qed
  moreover have "write_word a (pool s2) s2 = Inr (s2\<lparr>bytes := store32 (bytes s2) a (of_nat (pool s2))\<rparr>)"
    using write_word_owned [OF o2] n8 by simp
  then have "new_memory v amount s = Inr (Some (a + (?n - amount)), ?s)"
    using assms(5) s1(1) s2(1) by (simp add: new_memory_def)
  ultimately show ?thesis by blast
qed

lemma new_memory_ok:
  assumes "vm_ok v" "heap_inv v s own fl qs live" "0 < amount" "vm_page_size v dvd amount"
  shows "if vm_refuses v s amount then new_memory v amount s = Inr (None, s\<lparr>vm_calls := Suc (vm_calls s)\<rparr>)
    else \<exists>a s'. new_memory v amount s = Inr (Some a, s') \<and> provides v fl live amount s a s'"
proof (cases "pool_bytes v \<le> amount")
  case True
  then have "new_memory v amount s = Inr (vm_allocate_pages v amount s)" by (simp add: new_memory_def)
  then show ?thesis
    using True vm_allocate_ok [OF assms(1,2), of amount] unfolding provides_def vm_refuses_def
    by (cases "vm_answer v (vm_calls s) (regions s) amount") (auto simp: vm_allocate_pages_def)
next
  case False
  then show ?thesis using new_pool [OF assms] by (auto simp: new_memory_def vm_refuses_def vm_allocate_pages_def max_def)
qed

lemma get_memory_ok:
  assumes "vm_ok v" "heap_inv v s own fl qs live" "0 < amount" "vm_page_size v dvd amount"
  shows "(vm_refuses v s amount \<and> get_memory v amount s = Inr (None, s\<lparr>vm_calls := Suc (vm_calls s)\<rparr>)) \<or>
    (\<exists>a s'. get_memory v amount s = Inr (Some a, s') \<and> provides v fl live amount s a s')"
proof (cases "amount \<le> pool_size s")
  case True
  then show ?thesis using take_from_pool_ok [OF assms True] by (auto simp: get_memory_def)
next
  case False
  let ?search = "if pool s \<noteq> 0 then search_pools (Suc (length (regions s))) amount (pool s) s else Inr (0, s)"
  have "?search = Inr (0, s) \<or> (\<exists>a s'. ?search = Inr (a, s') \<and> 0 < a \<and> provides v fl live amount s a s')"
  proof (cases qs)
    case Nil
    then show ?thesis using pool_null_iff [OF assms(2)] by simp
  next
    case (Cons q qs')
    then have "q = (pool s, pool_size s)" "length qs' < Suc (length (regions s))" "pool s \<noteq> 0"
      using assms(2) pool_null_iff [OF assms(2)] by (auto simp: heap_inv_def pools_inv_def pools_ok_def)
    then show ?thesis using search_pools_ok [OF assms(1,3,4), of s own fl "[]" "pool s" "pool_size s" qs'] assms(2) Cons
      by (auto simp del: search_pools.simps)
  qed
  then show ?thesis
  proof (elim disjE exE conjE)
    assume "?search = Inr (0, s)"
    then have "get_memory v amount s = new_memory v amount s" using False by (simp add: get_memory_def)
    then show ?thesis using new_memory_ok [OF assms] by (simp split: if_splits)
  next
    fix a s' assume "?search = Inr (a, s')" "0 < a" "provides v fl live amount s a s'"
    then show ?thesis using False by (simp add: get_memory_def)
  qed
qed

section \<open>more\_memory\<close>

text \<open>The bytes \<open>more_memory\<close> asks for when a list is empty.\<close>

definition vm_request :: "vm \<Rightarrow> nat \<Rightarrow> nat" where
  "vm_request v i = max (vm_page_size v) (block_size i)"

lemma power_two_chain: "(2 :: nat) ^ a \<le> 2 ^ b \<Longrightarrow> (2 :: nat) ^ a dvd 2 ^ b"
  by (rule le_imp_power_dvd) simp

lemma vm_request_page: "vm_ok v \<Longrightarrow> vm_page_size v dvd vm_request v i"
  by (auto simp: vm_ok_def vm_request_def block_size_def max_def intro!: power_two_chain)

lemma vm_request_blocks: "vm_ok v \<Longrightarrow> vm_request v i = vm_request v i div block_size i * block_size i \<and> 0 < vm_request v i div block_size i"
proof -
  assume "vm_ok v"
  then have "block_size i dvd vm_request v i" by (auto simp: vm_ok_def vm_request_def block_size_def max_def intro!: power_two_chain)
  moreover have "0 < vm_request v i" using block_size_ge [of i] by (simp add: vm_request_def)
  ultimately show ?thesis by (auto elim: dvdE)
qed

lemma fill_list:
  assumes "vm_ok v" "provides v fl live (vm_request v i) s a s1" "i < NBUCKETS"
  shows "\<exists>s' own qs hs. push_blocks (vm_request v i div block_size i) (block_size i) i a (s1\<lparr>malloc_lock := False\<rparr>) = Inr s' \<and> hs \<noteq> [] \<and>
    heap_inv v s' own (fl(i := hs @ fl i)) qs live \<and> same_live live s s' \<and> fl_lock s' = fl_lock s \<and> \<not> malloc_lock s'"
proof -
  let ?n = "vm_request v i div block_size i"
  let ?t = "s1\<lparr>malloc_lock := False\<rparr>"
  obtain own qs where s1: "heap_inv v s1 own fl qs live" "owned s1 own None a (vm_request v i)" "same_live live s s1" "same_lists s s1"
    using assms(2) unfolding provides_def by blast
  have "owned ?t own None a (?n * block_size i)" using s1(2) vm_request_blocks [OF assms(1), of i] by simp
  then obtain s' own' hs where s': "push_blocks ?n (block_size i) i a ?t = Inr s'" "length hs = ?n"
    "heap_inv v s' own' (fl(i := hs @ fl i)) qs live" "same_rest ?t s'" "\<forall>x. x < a \<or> a + ?n * block_size i \<le> x \<longrightarrow> bytes s' x = bytes ?t x"
    using push_blocks_ok [OF assms(1) _ assms(3) _ order_refl, of ?t own fl qs live a ?n] s1(1) heap_inv_same(9) by blast
  have "same_live live s1 s'"
  proof (rule same_liveI)
    show "blocks_inv v s1 own fl live" using s1(1) by (simp add: heap_inv_def)
    show "live h \<noteq> Some j" if "bytes s' x \<noteq> bytes s1 x" "own x = Some (Block j h)" for x j h
    proof -
      have "\<not> (x < a \<or> a + vm_request v i \<le> x)" using s'(5) that(1) vm_request_blocks [OF assms(1), of i] by auto
      then have "own x = None" using s1(2) by (simp add: owned_def)
      then show ?thesis using that(2) by simp
    qed
  qed
  then have "same_live live s s'" by (rule same_live_trans [OF s1(3)])
  moreover have "hs \<noteq> []" using s'(2) vm_request_blocks [OF assms(1), of i] by auto
  moreover have "fl_lock s' = fl_lock s" "\<not> malloc_lock s'" using s'(4) s1(4) by (simp_all add: same_rest_def same_lists_def)
  ultimately show ?thesis using s'(1,3) by blast
qed

lemma more_memory_ok:
  assumes "vm_ok v" "heap_inv v s own fl qs live" "i < NBUCKETS" "\<not> malloc_lock s"
  shows "(vm_refuses v s (vm_request v i) \<and> more_memory v (block_size i) i s = Inr (False, s\<lparr>vm_calls := Suc (vm_calls s)\<rparr>)) \<or>
    (\<exists>s' own' qs' hs. more_memory v (block_size i) i s = Inr (True, s') \<and> hs \<noteq> [] \<and> heap_inv v s' own' (fl(i := hs @ fl i)) qs' live \<and>
      same_live live s s' \<and> fl_lock s' = fl_lock s \<and> \<not> malloc_lock s')"
proof -
  let ?s = "s\<lparr>malloc_lock := True\<rparr>"
  let ?n = "vm_request v i div block_size i"
  have size: "(if block_size i \<le> vm_page_size v then (vm_page_size v, vm_page_size v div block_size i) else (block_size i, 1)) = (vm_request v i, ?n)"
    using block_size_ge [of i] by (auto simp: vm_request_def max_def)
  have more: "more_memory v (block_size i) i s = bindE (get_memory v (vm_request v i) ?s) (\<lambda>(addr, s).
      let s = s\<lparr>malloc_lock := False\<rparr> in
      case addr of None \<Rightarrow> Inr (False, s) | Some h \<Rightarrow> bindE (push_blocks ?n (block_size i) i h s) (\<lambda>s. Inr (True, s)))"
    using assms(4) unfolding more_memory_def size by (simp add: spin_lock_malloc_def)
  have "0 < vm_request v i" "heap_inv v ?s own fl qs live" using block_size_ge [of i] assms(2) by (simp_all add: vm_request_def)
  from get_memory_ok [OF assms(1) this(2,1) vm_request_page [OF assms(1)]]
  consider "vm_refuses v ?s (vm_request v i)" "get_memory v (vm_request v i) ?s = Inr (None, ?s\<lparr>vm_calls := Suc (vm_calls s)\<rparr>)"
    | a s1 where "get_memory v (vm_request v i) ?s = Inr (Some a, s1)" "provides v fl live (vm_request v i) ?s a s1" by auto
  then show ?thesis
  proof cases
    case 1
    have "?s\<lparr>vm_calls := Suc (vm_calls s), malloc_lock := False\<rparr> = s\<lparr>vm_calls := Suc (vm_calls s)\<rparr>" using assms(4) by (cases s) simp
    then show ?thesis using 1 by (simp add: more vm_refuses_def)
  next
    case 2
    obtain s' own' qs' hs where "push_blocks ?n (block_size i) i a (s1\<lparr>malloc_lock := False\<rparr>) = Inr s'"
      "hs \<noteq> []" "heap_inv v s' own' (fl(i := hs @ fl i)) qs' live" "same_live live ?s s'" "fl_lock s' = fl_lock ?s" "\<not> malloc_lock s'"
      using fill_list [OF assms(1) 2(2) assms(3)] by blast
    moreover from this have "more_memory v (block_size i) i s = Inr (True, s')" "same_live live s s'" "fl_lock s' = fl_lock s"
      by (simp_all add: more 2(1) same_live_def)
    ultimately show ?thesis by blast
  qed
qed

end
