(* ===== verification/Cthread_Alloc.thy ===== *)
theory Cthread_Alloc
  imports Cthread_Pools
begin

text \<open>
  \<open>malloc\<close>, \<open>free\<close> and \<open>realloc\<close> against the invariant, and the allocator as an implementation of a
  collection of separate byte arrays.
\<close>

section \<open>The choice of the block size\<close>

lemma block_size_Suc: "block_size (i + 1) = 2 * block_size i"
  by (simp add: block_size_def power_add)

lemma block_size_le: "i < NBUCKETS \<Longrightarrow> block_size i \<le> 2 ^ 31"
  using power_increasing [of "i + 3" 31 "2 :: nat"] by (simp add: block_size_def NBUCKETS_def)

lemma bucket_of_spec:
  assumes "i < NBUCKETS" "unat n = block_size i" "i = 0 \<or> block_size i < 2 * unat need"
  shows "if unat need \<le> 2 ^ 31
    then \<exists>j m. bucket_of need i n = (j, m) \<and> j < NBUCKETS \<and> unat m = block_size j \<and> unat need \<le> block_size j \<and> (j = 0 \<or> block_size j < 2 * unat need)
    else \<exists>m. bucket_of need i n = (NBUCKETS, m)"
  using assms
proof (induction need i n rule: bucket_of.induct)
  case (1 need i n)
  have step: "bucket_of need i n = (if unat n < unat need \<and> i < NBUCKETS then bucket_of need (i + 1) (push_bit 1 n) else (i, n))"
    by (subst bucket_of.simps) (simp add: word_less_nat_alt)
  show ?case
  proof (cases "unat n < unat need")
    case False
    then show ?thesis using 1(2-4) step block_size_le [OF 1(2)] by auto
  next
    case True
    then have rec: "bucket_of need i n = bucket_of need (i + 1) (push_bit 1 n)" using step 1(2) by simp
    show ?thesis
    proof (cases "i + 1 < NBUCKETS")
      case False
      then have "i = 28" using 1(2) by (simp add: NBUCKETS_def)
      then have "\<not> unat need \<le> 2 ^ 31" using True 1(3) by (simp add: block_size_def)
      moreover have "bucket_of need (i + 1) (push_bit 1 n) = (i + 1, push_bit 1 n)" using False by (subst bucket_of.simps) simp
      ultimately show ?thesis using rec \<open>i = 28\<close> by (simp add: NBUCKETS_def)
    next
      case more: True
      have "unat (push_bit 1 n) = 2 * unat n"
        using block_size_le [OF more] 1(3) unfolding block_size_Suc by (simp add: push_bit_eq_mult unat_word_ariths)
      then have "unat (push_bit 1 n) = block_size (i + 1)" using 1(3) unfolding block_size_Suc by simp
      moreover have "block_size (i + 1) < 2 * unat need" using True 1(3) unfolding block_size_Suc by simp
      moreover have "n < need \<and> i < NBUCKETS" using True 1(2) by (simp add: word_less_nat_alt)
      ultimately show ?thesis using "1.IH" more unfolding rec by blast
    qed
  qed
qed

lemma bucket_of_request:
  assumes "\<not> request + HEADER_SIZE \<le> HEADER_SIZE"
  shows "unat (request + HEADER_SIZE) = unat request + 4"
proof -
  have "(unat request + 4) mod 4294967296 = (if unat request + 4 < 4294967296 then unat request + 4 else unat request + 4 - 4294967296)"
    using unat_u32_lt [of request] by (simp add: mod_if)
  moreover have "unat (request + 4) = (unat request + 4) mod 4294967296" by (simp add: unat_word_ariths)
  moreover have "4 < unat (request + 4)" using assms by (simp add: HEADER_SIZE_def word_le_nat_alt)
  ultimately show ?thesis using unat_u32_lt [of request] by (simp add: HEADER_SIZE_def split: if_splits)
qed

text \<open>The request sizes \<open>malloc\<close> turns down at once.\<close>

definition bad_size :: "u32 \<Rightarrow> bool" where
  "bad_size n \<longleftrightarrow> n = 0 \<or> 2 ^ 31 - 4 < unat n"

lemma small_need_bad: "n + HEADER_SIZE \<le> HEADER_SIZE \<Longrightarrow> bad_size n"
proof -
  assume "n + HEADER_SIZE \<le> HEADER_SIZE"
  then have "(unat n + 4) mod 2 ^ 32 \<le> 4" by (simp add: HEADER_SIZE_def word_le_nat_alt unat_word_ariths)
  then have "unat n = 0 \<or> 2 ^ 32 - 4 \<le> unat n" by (simp add: mod_if split: if_splits)
  then show ?thesis by (auto simp: bad_size_def unat_eq_0)
qed

text \<open>The size class of a request.\<close>

definition fits :: "u32 \<Rightarrow> nat \<Rightarrow> bool" where
  "fits n i \<longleftrightarrow> i < NBUCKETS \<and> unat n + 4 \<le> block_size i \<and> (i = 0 \<or> block_size i < 2 * (unat n + 4))"

lemma bucket_cases:
  assumes "\<not> n + HEADER_SIZE \<le> HEADER_SIZE"
  shows "if bad_size n then \<exists>m. bucket_of (n + HEADER_SIZE) 0 MIN_SIZE = (NBUCKETS, m)
    else \<exists>i m. bucket_of (n + HEADER_SIZE) 0 MIN_SIZE = (i, m) \<and> unat m = block_size i \<and> fits n i"
proof -
  have "n \<noteq> 0" using assms by (auto simp: HEADER_SIZE_def)
  then have "bad_size n \<longleftrightarrow> \<not> unat (n + HEADER_SIZE) \<le> 2 ^ 31" by (auto simp: bad_size_def bucket_of_request [OF assms])
  then show ?thesis using bucket_of_spec [of 0 MIN_SIZE "n + HEADER_SIZE"] bucket_of_request [OF assms]
    by (auto simp: MIN_SIZE_def block_size_def NBUCKETS_def fits_def)
qed

section \<open>malloc\<close>

definition heap_ok :: "vm \<Rightarrow> heap_state \<Rightarrow> (nat \<rightharpoonup> nat) \<Rightarrow> bool" where
  "heap_ok v s live \<longleftrightarrow> (\<exists>own fl qs. heap_inv v s own fl qs live) \<and> \<not> malloc_lock s \<and> (\<forall>i. \<not> fl_lock s i)"

lemma mark_live:
  assumes "vm_ok v" "heap_inv v s own fl qs live" "i < NBUCKETS" "owned s own (Some (Block i h)) h (block_size i)" "spare fl qs live (Some (Block i h))"
  defines "s' \<equiv> s\<lparr>bytes := store32 (bytes s) h (of_nat (malloc_free_list v + 8 * i))\<rparr>"
  shows "heap_inv v s' own fl qs (live(h \<mapsto> i))" "live h = None" "same_live live s s'"
proof -
  have inv: "heap_inv v s' own fl qs live" unfolding s'_def by (rule write_spare [OF assms(1,2,4,5)]) (use block_size_ge [of i] in auto)
  have "malloc_free_list v + 8 * i < 2 ^ 32" using assms(1,3) by (simp add: vm_ok_def)
  then have "unat (load32 (bytes s') h) = malloc_free_list v + 8 * i" by (simp add: s'_def load_store_same unat_of_nat del: of_nat_add of_nat_mult)
  then have "live_ok v s' own fl (live(h \<mapsto> i))"
    using inv assms(3,4,5) by (auto simp: heap_inv_def blocks_inv_def live_ok_def spare_def s'_def)
  then show "heap_inv v s' own fl qs (live(h \<mapsto> i))" using inv by (simp add: heap_inv_def blocks_inv_def)
  show none: "live h = None"
  proof (cases "live h")
    case (Some j)
    then have "owned s own (Some (Block j h)) h (block_size j)" using assms(2) by (simp add: heap_inv_defs)
    then have "j = i" using assms(4) block_size_ge [of i] block_size_ge [of j] by (auto simp: owned_def)
    then show ?thesis using Some assms(5) by (simp add: spare_def)
  qed
  have "own x = Some (Block i h)" if "store32 (bytes s) h w x \<noteq> bytes s x" for x w
    using store32_changes [OF that] assms(4) block_size_ge [of i] by (simp add: owned_def)
  then show "same_live live s s'" using assms(2) none by (intro same_liveI [of v s own fl]) (auto simp: heap_inv_def s'_def)
qed

lemma list_null_iff: "heap_inv v s own fl qs live \<Longrightarrow> i < NBUCKETS \<Longrightarrow> fl_head s i = 0 \<longleftrightarrow> fl i = []"
  by (cases "fl i") (auto simp: heap_inv_def blocks_inv_def lists_ok_def owned_def)

text \<open>After the check for an empty list there is a block, unless the kernel refused.\<close>

lemma list_ready:
  assumes "vm_ok v" "heap_inv v s own fl qs live" "i < NBUCKETS" "\<not> malloc_lock s"
  defines "ready \<equiv> if fl_head s i = 0 then more_memory v (block_size i) i s else Inr (True, s)"
  shows "(fl i = [] \<and> vm_refuses v s (vm_request v i) \<and> ready = Inr (False, s\<lparr>vm_calls := Suc (vm_calls s)\<rparr>)) \<or>
    (\<exists>s' own' fl' qs' h hs. ready = Inr (True, s') \<and> heap_inv v s' own' fl' qs' live \<and> fl' i = h # hs \<and>
      same_live live s s' \<and> fl_lock s' = fl_lock s \<and> \<not> malloc_lock s')"
proof (cases "fl i")
  case Nil
  then have ready: "ready = more_memory v (block_size i) i s" using list_null_iff [OF assms(2,3)] by (simp add: ready_def)
  from more_memory_ok [OF assms(1-4)] show ?thesis
  proof (elim disjE exE conjE)
    fix s' own' qs' hs assume m: "more_memory v (block_size i) i s = Inr (True, s')" "hs \<noteq> []"
      "heap_inv v s' own' (fl(i := hs @ fl i)) qs' live" "same_live live s s'" "fl_lock s' = fl_lock s" "\<not> malloc_lock s'"
    have "(fl(i := hs @ fl i)) i = hd hs # tl hs" using Nil m(2) by simp
    then show ?thesis using m unfolding ready by blast
  qed (use Nil ready in simp)
next
  case (Cons h hs)
  then have "ready = Inr (True, s)" using list_null_iff [OF assms(2,3)] by (simp add: ready_def)
  then show ?thesis using Cons assms(2,4) same_live_refl [of s s live] by blast
qed

lemma take_block:
  assumes "vm_ok v" "heap_inv v s own fl qs live" "i < NBUCKETS" "fl i = h # hs" "\<not> malloc_lock s" "\<forall>j. j \<noteq> i \<longrightarrow> \<not> fl_lock s j"
  shows "\<exists>s'. (let h = fl_head s i in
       bindE (read_word s h) (\<lambda>h_next.
       let s = spin_unlock_list i (s\<lparr>fl_head := (fl_head s)(i := h_next)\<rparr>) in
       bindE (write_word h (malloc_free_list v + 8 * i) s) (\<lambda>s. Inr (h + 4, s)))) = Inr (h + 4, s') \<and>
    heap_ok v s' (live(h \<mapsto> i)) \<and> same_live live s s' \<and> live h = None"
proof -
  note pop = pop_block [OF assms(2-4)]
  let ?t = "s\<lparr>fl_head := (fl_head s)(i := unat (load32 (bytes s) h)), fl_lock := (fl_lock s)(i := False)\<rparr>"
  have inv: "heap_inv v ?t own (fl(i := hs)) qs live" and o: "owned ?t own (Some (Block i h)) h (block_size i)" using pop(2,4) by simp_all
  have "read_word s h = Inr (unat (load32 (bytes s) h))" using read_word_owned [OF pop(2)] block_size_ge [of i] by simp
  moreover have "write_word h w ?t = Inr (?t\<lparr>bytes := store32 (bytes ?t) h (of_nat w)\<rparr>)" for w
    using write_word_owned [OF o] block_size_ge [of i] by simp
  moreover note live = mark_live [OF assms(1) inv assms(3) o pop(3)]
  moreover have "heap_ok v (?t\<lparr>bytes := store32 (bytes ?t) h (of_nat (malloc_free_list v + 8 * i))\<rparr>) (live(h \<mapsto> i))"
    using live(1) assms(5,6) unfolding heap_ok_def by (auto simp del: of_nat_add of_nat_mult)
  moreover have "same_live live s (?t\<lparr>bytes := store32 (bytes ?t) h (of_nat (malloc_free_list v + 8 * i))\<rparr>)"
    using live(3) by (simp add: same_live_def)
  ultimately show ?thesis using pop(1)
    by (intro exI [of _ "?t\<lparr>bytes := store32 (bytes ?t) h (of_nat (malloc_free_list v + 8 * i))\<rparr>"] conjI)
      (simp_all add: spin_unlock_list_def Let_def del: of_nat_add of_nat_mult)
qed

text \<open>What a call of \<open>malloc\<close> does.\<close>

definition malloc_result :: "vm \<Rightarrow> u32 \<Rightarrow> heap_state \<Rightarrow> (nat \<rightharpoonup> nat) \<Rightarrow> nat \<Rightarrow> heap_state \<Rightarrow> bool" where
  "malloc_result v n s live p s' \<longleftrightarrow>
     (p = 0 \<and> heap_ok v s' live \<and> bytes s' = bytes s \<and> (bad_size n \<or> (\<exists>i. fits n i \<and> vm_refuses v s (vm_request v i)))) \<or>
     (\<exists>h i. p = h + 4 \<and> fits n i \<and> live h = None \<and> heap_ok v s' (live(h \<mapsto> i)) \<and> same_live live s s')"

lemma malloc_resultE:
  assumes "malloc_result v n s live p s'"
  obtains (fails) "p = 0" "heap_ok v s' live" "bytes s' = bytes s" "bad_size n \<or> (\<exists>i. fits n i \<and> vm_refuses v s (vm_request v i))"
  | (block) h i where "p = h + 4" "fits n i" "live h = None" "heap_ok v s' (live(h \<mapsto> i))" "same_live live s s'"
  using assms unfolding malloc_result_def by blast

lemma malloc_eq:
  assumes "\<not> n + HEADER_SIZE \<le> HEADER_SIZE" "bucket_of (n + HEADER_SIZE) 0 MIN_SIZE = (i, m)" "unat m = block_size i" "i < NBUCKETS" "\<not> fl_lock s i"
  defines "t \<equiv> s\<lparr>fl_lock := (fl_lock s)(i := True)\<rparr>"
  shows "malloc v n s = bindE (if fl_head t i = 0 then more_memory v (block_size i) i t else Inr (True, t)) (\<lambda>(ok, s).
      if \<not> ok then Inr (0, spin_unlock_list i s) else (let h = fl_head s i in
        bindE (read_word s h) (\<lambda>h_next.
        let s = spin_unlock_list i (s\<lparr>fl_head := (fl_head s)(i := h_next)\<rparr>) in
        bindE (write_word h (malloc_free_list v + 8 * i) s) (\<lambda>s. Inr (h + 4, s)))))"
  using assms(1-5) by (simp add: malloc_def spin_lock_list_def t_def)

lemma malloc_in_bucket:
  assumes "vm_ok v" "heap_ok v s live" "\<not> n + HEADER_SIZE \<le> HEADER_SIZE" "bucket_of (n + HEADER_SIZE) 0 MIN_SIZE = (i, m)" "unat m = block_size i" "fits n i"
  shows "\<exists>p s'. malloc v n s = Inr (p, s') \<and> malloc_result v n s live p s'"
proof -
  let ?s = "s\<lparr>fl_lock := (fl_lock s)(i := True)\<rparr>"
  obtain own fl qs where inv: "heap_inv v ?s own fl qs live" using assms(2) by (auto simp: heap_ok_def)
  have i: "i < NBUCKETS" and locks: "\<not> malloc_lock ?s" "\<not> fl_lock s i" "\<forall>j. \<not> fl_lock s j"
    using assms(6) assms(2) by (auto simp: fits_def heap_ok_def)
  note malloc = malloc_eq [OF assms(3-5) i(1) locks(2), of v]
  from list_ready [OF assms(1) inv i(1) locks(1)] show ?thesis
  proof (elim disjE exE conjE)
    assume "vm_refuses v ?s (vm_request v i)" "(if fl_head ?s i = 0 then more_memory v (block_size i) i ?s else Inr (True, ?s)) = Inr (False, ?s\<lparr>vm_calls := Suc (vm_calls ?s)\<rparr>)"
    moreover from this have "heap_ok v (?s\<lparr>vm_calls := Suc (vm_calls ?s), fl_lock := (fl_lock s)(i := False)\<rparr>) live"
      using inv locks by (auto simp: heap_ok_def)
    ultimately show ?thesis using assms(6) unfolding malloc malloc_result_def by (auto simp: spin_unlock_list_def vm_refuses_def)
  next
    fix s' own' fl' qs' h hs assume r: "(if fl_head ?s i = 0 then more_memory v (block_size i) i ?s else Inr (True, ?s)) = Inr (True, s')"
      "heap_inv v s' own' fl' qs' live" "fl' i = h # hs" "same_live live ?s s'" "fl_lock s' = fl_lock ?s" "\<not> malloc_lock s'"
    from take_block [OF assms(1) r(2) i(1) r(3,6)] r(5) locks(3) obtain t where
      "malloc v n s = Inr (h + 4, t)" "heap_ok v t (live(h \<mapsto> i))" "same_live live s' t" "live h = None"
      unfolding malloc r(1) by auto
    moreover from this(3) r(4) have "same_live live s t" by (simp add: same_live_def)
    ultimately show ?thesis using assms(6) unfolding malloc_result_def by blast
  qed
qed

text \<open>A request of the size class of the first block of a free list takes this block.\<close>

lemma fits_less: "fits n i \<Longrightarrow> fits n j \<Longrightarrow> \<not> i < j"
proof
  assume f: "fits n i" "fits n j" and "i < j"
  then have "(2 :: nat) ^ (i + 4) \<le> 2 ^ (j + 3)" by (intro power_increasing) simp_all
  then have "2 * block_size i \<le> block_size j" by (simp add: block_size_def power_add)
  then show False using f \<open>i < j\<close> by (auto simp: fits_def)
qed

lemma malloc_takes_head:
  assumes "vm_ok v" "heap_ok v s live" "n \<noteq> 0" "fits n i" "fl_head s i = h" "h \<noteq> 0"
  shows "\<exists>s'. malloc v n s = Inr (h + 4, s') \<and> heap_ok v s' (live(h \<mapsto> i))"
proof -
  let ?s = "s\<lparr>fl_lock := (fl_lock s)(i := True)\<rparr>"
  have i: "i < NBUCKETS" and good: "\<not> bad_size n" using assms(3,4) block_size_le [of i] by (auto simp: fits_def bad_size_def)
  have need: "\<not> n + HEADER_SIZE \<le> HEADER_SIZE" using small_need_bad good by blast
  obtain j m where "bucket_of (n + HEADER_SIZE) 0 MIN_SIZE = (j, m)" "unat m = block_size j" "fits n j"
    using bucket_cases [OF need] good by auto
  moreover from this(3) have "j = i" using fits_less [OF assms(4), of j] fits_less [OF _ assms(4), of j] by simp
  ultimately have b: "bucket_of (n + HEADER_SIZE) 0 MIN_SIZE = (i, m)" "unat m = block_size i" by simp_all
  have locks: "\<not> malloc_lock ?s" "\<not> fl_lock s i" "\<forall>j. j \<noteq> i \<longrightarrow> \<not> fl_lock ?s j" using assms(2) by (auto simp: heap_ok_def)
  obtain own fl qs where inv: "heap_inv v ?s own fl qs live" using assms(2) by (auto simp: heap_ok_def)
  have "fl i \<noteq> []" using list_null_iff [OF inv i] assms(5,6) by simp
  then obtain hs where "fl i = h # hs" using pop_block(1) [OF inv i] assms(5) by (cases "fl i") auto
  from take_block [OF assms(1) inv i this locks(1,3)] show ?thesis
    using assms(5,6) unfolding malloc_eq [OF need b i locks(2)] by auto
qed

lemma malloc_ok:
  assumes "vm_ok v" "heap_ok v s live"
  shows "\<exists>p s'. malloc v n s = Inr (p, s') \<and> malloc_result v n s live p s'"
proof -
  consider "n + HEADER_SIZE \<le> HEADER_SIZE" | m where "\<not> n + HEADER_SIZE \<le> HEADER_SIZE" "bad_size n" "bucket_of (n + HEADER_SIZE) 0 MIN_SIZE = (NBUCKETS, m)"
    | i m where "\<not> n + HEADER_SIZE \<le> HEADER_SIZE" "\<not> bad_size n" "bucket_of (n + HEADER_SIZE) 0 MIN_SIZE = (i, m)" "unat m = block_size i" "fits n i"
    using bucket_cases [of n] by (metis (full_types))
  then show ?thesis
  proof cases
    case 1
    then show ?thesis using assms(2) small_need_bad [OF 1] by (auto simp: malloc_def malloc_result_def)
  next
    case 2
    then show ?thesis using assms(2) by (auto simp: malloc_def malloc_result_def)
  next
    case (3 i m)
    then show ?thesis by (intro malloc_in_bucket [OF assms])
  qed
qed

section \<open>free\<close>

lemma list_index_ok: "i < NBUCKETS \<Longrightarrow> list_index v (malloc_free_list v + 8 * i) = Some i"
proof -
  assume "i < NBUCKETS"
  moreover from this have "sint (word_of_int (8 * int i) :: u32) = 8 * int i"
    by (simp only: int_word_sint) (simp add: NBUCKETS_def)
  moreover have "8 * int i sdiv 8 = int i" by (cases i) (simp_all add: signed_divide_int_def)
  ultimately show ?thesis by (simp add: list_index_def)
qed

lemma detach_live:
  assumes "heap_inv v s own fl qs live" "live h = Some i"
  shows "heap_inv v s own fl qs (live(h := None))" "owned s own (Some (Block i h)) h (block_size i)" "spare fl qs (live(h := None)) (Some (Block i h))"
    "i < NBUCKETS" "unat (load32 (bytes s) h) = malloc_free_list v + 8 * i"
  using assms by (auto simp: heap_inv_def blocks_inv_def live_ok_def spare_def)

lemma free_ok:
  assumes "vm_ok v" "heap_ok v s live" "live h = Some i"
  shows "\<exists>s'. free v (h + 4) s = Inr s' \<and> heap_ok v s' (live(h := None)) \<and> same_live (live(h := None)) s s' \<and> fl_head s' i = h"
proof -
  obtain own fl qs where inv: "heap_inv v s own fl qs live" using assms(2) by (auto simp: heap_ok_def)
  note d = detach_live [OF inv assms(3)]
  let ?m = "store32 (bytes s) h (of_nat (fl_head s i))"
  let ?s = "s\<lparr>bytes := ?m, fl_head := (fl_head s)(i := h)\<rparr>"
  have locks: "\<not> malloc_lock s" "\<forall>j. \<not> fl_lock s j" using assms(2) by (simp_all add: heap_ok_def)
  have r: "read_word s h = Inr (malloc_free_list v + 8 * i)" using read_word_owned [OF d(2)] d(5) block_size_ge [of i] by simp
  have w: "write_word h w (s\<lparr>fl_lock := l\<rparr>) = Inr (s\<lparr>fl_lock := l, bytes := store32 (bytes s) h (of_nat w)\<rparr>)" for w l
    using write_word_owned [of "s\<lparr>fl_lock := l\<rparr>" own _ h "block_size i" h w] d(2) block_size_ge [of i] by simp
  have "free v (h + 4) s = Inr (s\<lparr>bytes := ?m, fl_head := (fl_head s)(i := h), fl_lock := (fl_lock s)(i := False)\<rparr>)"
    using locks d(4) by (simp add: free_def r w list_index_ok spin_lock_list_def spin_unlock_list_def)
  moreover have "heap_inv v ?s own (fl(i := h # fl i)) qs (live(h := None))" by (rule push_block [OF assms(1) d(1,4,2,3)])
  then have "heap_ok v (s\<lparr>bytes := ?m, fl_head := (fl_head s)(i := h), fl_lock := (fl_lock s)(i := False)\<rparr>) (live(h := None))"
    using locks by (auto simp: heap_ok_def)
  moreover have "own x = Some (Block i h)" if "?m x \<noteq> bytes s x" for x
    using store32_changes [OF that] d(2) block_size_ge [of i] by (simp add: owned_def)
  then have "same_live (live(h := None)) s (s\<lparr>bytes := ?m, fl_head := (fl_head s)(i := h), fl_lock := (fl_lock s)(i := False)\<rparr>)"
    using d(1) by (intro same_liveI [of v s own fl]) (auto simp: heap_inv_def)
  ultimately show ?thesis by (intro exI [of _ "s\<lparr>bytes := ?m, fl_head := (fl_head s)(i := h), fl_lock := (fl_lock s)(i := False)\<rparr>"]) simp
qed

section \<open>Writes by the client\<close>

lemma client_write:
  assumes "heap_ok v s live" "live h = Some i" "vm_ok v" "\<And>x. m x \<noteq> bytes s x \<Longrightarrow> h + 4 \<le> x \<and> x < h + block_size i"
  shows "heap_ok v (s\<lparr>bytes := m\<rparr>) live" "same_live (live(h := None)) s (s\<lparr>bytes := m\<rparr>)"
proof -
  obtain own fl qs where inv: "heap_inv v s own fl qs live" using assms(1) by (auto simp: heap_ok_def)
  note d = detach_live [OF inv assms(2)]
  have own: "own x = Some (Block i h)" "h + 4 \<le> x" if "m x \<noteq> bytes s x" for x using assms(4) [OF that] d(2) by (simp_all add: owned_def)
  have "blocks_inv v (s\<lparr>bytes := m\<rparr>) own fl live" using inv own by (intro blocks_inv_write) (auto simp: heap_inv_def not_header_def)
  moreover have "pools_inv v (s\<lparr>bytes := m\<rparr>) own qs" using inv own(1) by (intro pools_inv_write [OF assms(3)]) (auto simp: heap_inv_def)
  ultimately have "heap_inv v (s\<lparr>bytes := m\<rparr>) own fl qs live" using inv by (simp add: heap_inv_def)
  then show "heap_ok v (s\<lparr>bytes := m\<rparr>) live" using assms(1) by (auto simp: heap_ok_def)
  show "same_live (live(h := None)) s (s\<lparr>bytes := m\<rparr>)"
    using d(1) own(1) by (intro same_liveI [of v s own fl]) (auto simp: heap_inv_def)
qed

text \<open>Blocks in use do not overlap, and lie in memory.\<close>

lemma live_apart:
  assumes "heap_ok v s live" "live h = Some i" "live k = Some j" "h \<noteq> k"
  shows "h + block_size i \<le> k \<or> k + block_size j \<le> h"
proof -
  obtain own fl qs where inv: "heap_inv v s own fl qs live" using assms(1) by (auto simp: heap_ok_def)
  show ?thesis
    by (rule owned_disjoint [OF detach_live(2) [OF inv assms(2)] detach_live(2) [OF inv assms(3)]])
      (use assms(4) block_size_ge [of i] block_size_ge [of j] in auto)
qed

lemma live_nonzero:
  assumes "heap_ok v s live" "live h = Some i" shows "h \<noteq> 0"
proof -
  obtain own fl qs where inv: "heap_inv v s own fl qs live" using assms(1) by (auto simp: heap_ok_def)
  show ?thesis using detach_live(2) [OF inv assms(2)] by (auto simp: owned_def)
qed

lemma live_region:
  assumes "heap_ok v s live" "live h = Some i" "h \<le> a" "a + n \<le> h + block_size i"
  shows "in_regions s a n"
  using assms detach_live(2) by (fastforce simp: heap_ok_def owned_def intro: in_regions_sub)

section \<open>Forking\<close>

lemma lock_all: "distinct is \<Longrightarrow> \<forall>i \<in> set is. \<not> fl_lock s i \<Longrightarrow>
    foldE spin_lock_list is s = Inr (s\<lparr>fl_lock := (\<lambda>i. i \<in> set is \<or> fl_lock s i)\<rparr>)"
proof (induction "is" arbitrary: s)
  case (Cons i "is")
  let ?s = "s\<lparr>fl_lock := (fl_lock s)(i := True)\<rparr>"
  have "foldE spin_lock_list is ?s = Inr (?s\<lparr>fl_lock := (\<lambda>j. j \<in> set is \<or> fl_lock ?s j)\<rparr>)" using Cons.prems by (intro Cons.IH) auto
  moreover have "(\<lambda>j. j \<in> set is \<or> fl_lock ?s j) = (\<lambda>j. j \<in> set (i # is) \<or> fl_lock s j)" by auto
  moreover have "spin_lock_list i s = Inr ?s" using Cons.prems(2) by (simp add: spin_lock_list_def)
  ultimately show ?case by simp
qed simp

lemma unlock_all: "fold spin_unlock_list is s = s\<lparr>fl_lock := (\<lambda>i. i \<notin> set is \<and> fl_lock s i)\<rparr>"
proof (induction "is" arbitrary: s)
  case (Cons i "is")
  have "(\<lambda>j. j \<notin> set is \<and> fl_lock (spin_unlock_list i s) j) = (\<lambda>j. j \<notin> set (i # is) \<and> fl_lock s j)" by (auto simp: spin_unlock_list_def)
  then show ?case using Cons [of "spin_unlock_list i s"] by (simp add: spin_unlock_list_def)
qed simp

text \<open>
  After the preparation for a fork no thread is in the allocator; parent and child go on with
  the state from before.
\<close>

lemma malloc_fork_restores:
  assumes "heap_ok v s live"
  shows "\<exists>t. malloc_fork_prepare s = Inr t \<and> (\<forall>i < NBUCKETS. fl_lock t i) \<and> malloc_fork_parent t = s \<and> malloc_fork_child t = s"
proof -
  have free: "\<forall>i. \<not> fl_lock s i" using assms by (simp add: heap_ok_def)
  then have "(\<lambda>i. False) = fl_lock s" by auto
  then show ?thesis using free lock_all [of "[0..<NBUCKETS]" s]
    by (simp add: malloc_fork_prepare_def malloc_fork_parent_def malloc_fork_child_def unlock_all)
qed

end
