(* ===== verification/Cthread_Spec.thy ===== *)
theory Cthread_Spec
  imports Cthread_Alloc
begin

text \<open>
  What a client sees of the allocator: a collection of byte arrays that do not touch each other.
  Every call of a client that keeps to the rules does to the memory what it does to the collection.
\<close>

section \<open>realloc\<close>

lemma unat_shifted_one: "k < 32 \<Longrightarrow> unat (push_bit k 1 :: u32) = 2 ^ k"
proof -
  assume "k < 32"
  then have "(2 :: nat) ^ k < 2 ^ 32" by (intro power_strict_increasing) simp_all
  then show ?thesis by (subst unsigned_push_bit_eq) (simp add: take_bit_eq_mod)
qed

lemma old_size: "i < NBUCKETS \<Longrightarrow> unat (push_bit (i + 3) 1 - HEADER_SIZE) = block_size i - 4"
proof -
  assume "i < NBUCKETS"
  then have "unat (push_bit (i + 3) 1 :: u32) = block_size i"
    by (simp only: unat_shifted_one NBUCKETS_def block_size_def)
  moreover have "HEADER_SIZE \<le> push_bit (i + 3) 1"
    using calculation block_size_ge [of i] by (simp add: word_le_nat_alt HEADER_SIZE_def)
  ultimately show ?thesis by (simp add: unat_sub HEADER_SIZE_def)
qed

lemma stays_iff:
  assumes "i < NBUCKETS"
  shows "n \<le> push_bit (i + 3) 1 - HEADER_SIZE \<and> push_bit (i + 2) 1 < n + HEADER_SIZE \<longleftrightarrow> n \<noteq> 0 \<and> fits n i"
proof (cases "unat n + 4 \<le> block_size i")
  case True
  then have "unat (n + HEADER_SIZE) = unat n + 4"
    using block_size_le [OF assms] by (simp add: HEADER_SIZE_def unat_word_ariths)
  moreover have "2 * unat (push_bit (i + 2) 1 :: u32) = block_size i"
    using assms unat_shifted_one [of "i + 2"] by (simp add: block_size_def NBUCKETS_def power_add)
  ultimately have "push_bit (i + 2) 1 < n + HEADER_SIZE \<longleftrightarrow> block_size i < 2 * (unat n + 4)" by (simp only: word_less_nat_alt) arith
  moreover have "block_size 0 < 2 * (unat n + 4) \<longleftrightarrow> n \<noteq> 0" by (auto simp: block_size_def unat_gt_0)
  ultimately show ?thesis using True old_size [OF assms] assms block_size_ge [of i] by (auto simp: fits_def word_le_nat_alt)
next
  case False
  then show ?thesis using old_size [OF assms] block_size_ge [of i] by (auto simp: fits_def word_le_nat_alt)
qed

lemma bcopy_ok:
  assumes "vm_ok v" "heap_ok v s live" "live h = Some i" "live k = Some j" "h \<noteq> k" "n + 4 \<le> block_size i" "n + 4 \<le> block_size j"
  shows "\<exists>s'. bcopy (h + 4) (k + 4) n s = Inr s' \<and> heap_ok v s' live \<and> same_live (live(k := None)) s s' \<and>
    (\<forall>x < n. bytes s' (k + 4 + x) = bytes s (h + 4 + x))"
proof -
  let ?m = "\<lambda>x. if k + 4 \<le> x \<and> x < k + 4 + n then bytes s (h + 4 + (x - (k + 4))) else bytes s x"
  have "in_regions s (h + 4) n" "in_regions s (k + 4) n"
    using live_region [OF assms(2,3), of "h + 4" n] live_region [OF assms(2,4), of "k + 4" n] assms(6,7) by simp_all
  then have "bcopy (h + 4) (k + 4) n s = Inr (s\<lparr>bytes := ?m\<rparr>)" by (simp add: bcopy_def)
  moreover have "k + 4 \<le> x \<and> x < k + block_size j" if "?m x \<noteq> bytes s x" for x using that assms(7) by (auto split: if_splits)
  then have "heap_ok v (s\<lparr>bytes := ?m\<rparr>) live" "same_live (live(k := None)) s (s\<lparr>bytes := ?m\<rparr>)"
    using client_write [OF assms(2,4,1), of ?m] by blast+
  ultimately show ?thesis by auto
qed

text \<open>What a call of \<open>realloc\<close> on a block in use does.\<close>

definition realloc_result :: "vm \<Rightarrow> nat \<Rightarrow> nat \<Rightarrow> u32 \<Rightarrow> heap_state \<Rightarrow> (nat \<rightharpoonup> nat) \<Rightarrow> nat \<Rightarrow> heap_state \<Rightarrow> bool" where
  "realloc_result v h i n s live p s' \<longleftrightarrow>
     (if n \<noteq> 0 \<and> fits n i then p = h + 4 \<and> s' = s
      else same_live (live(h := None)) s s' \<and> fl_head s' i = h \<and>
        (\<forall>m. m \<noteq> 0 \<and> fits m i \<longrightarrow> (\<exists>t. malloc v m s' = Inr (h + 4, t))) \<and>
        (p = 0 \<and> heap_ok v s' (live(h := None)) \<and> (bad_size n \<or> (\<exists>j. fits n j \<and> vm_refuses v s (vm_request v j))) \<or>
         (\<exists>k j. p = k + 4 \<and> fits n j \<and> live k = None \<and> heap_ok v s' (live(h := None, k \<mapsto> j)) \<and>
           (\<forall>x < min (block_size i - 4) (unat n). bytes s' (k + 4 + x) = bytes s (h + 4 + x)))))"

lemma realloc_copies:
  assumes "vm_ok v" "heap_ok v s live" "live h = Some i" "heap_ok v s1 (live(k \<mapsto> j))" "live k = None" "fits n j" "same_live live s s1"
  shows "\<exists>s2 s3. bcopy (h + 4) (k + 4) (min (block_size i - 4) (unat n)) s1 = Inr s2 \<and> free v (h + 4) s2 = Inr s3 \<and>
    same_live (live(h := None)) s s3 \<and> heap_ok v s3 (live(h := None, k \<mapsto> j)) \<and> fl_head s3 i = h \<and>
    (\<forall>x < min (block_size i - 4) (unat n). bytes s3 (k + 4 + x) = bytes s (h + 4 + x))"
proof -
  let ?n = "min (block_size i - 4) (unat n)"
  have hk: "h \<noteq> k" using assms(3,5) by auto
  have le: "?n + 4 \<le> block_size i" "?n + 4 \<le> block_size j" using assms(6) block_size_ge [of i] by (auto simp: fits_def)
  have live: "(live(k \<mapsto> j)) h = Some i" "(live(k \<mapsto> j)) k = Some j" using hk assms(3) by simp_all
  obtain s2 where s2: "bcopy (h + 4) (k + 4) ?n s1 = Inr s2" "heap_ok v s2 (live(k \<mapsto> j))" "same_live (live(k := None)) s1 s2"
    "\<forall>x < ?n. bytes s2 (k + 4 + x) = bytes s1 (h + 4 + x)"
    using bcopy_ok [OF assms(1,4) live hk le] unfolding fun_upd_upd by blast
  obtain s3 where s3: "free v (h + 4) s2 = Inr s3" "heap_ok v s3 (live(k \<mapsto> j, h := None))" "same_live (live(k \<mapsto> j, h := None)) s2 s3"
      "fl_head s3 i = h"
    using free_ok [OF assms(1) s2(2) live(1)] by blast
  have twist: "live(k \<mapsto> j, h := None) = live(h := None, k \<mapsto> j)" using hk by (simp add: fun_upd_twist)
  have "bytes s3 (k + 4 + x) = bytes s (h + 4 + x)" if "x < ?n" for x
  proof -
    have "bytes s3 (k + 4 + x) = bytes s2 (k + 4 + x)"
      using same_liveD [OF s3(3), of k j "k + 4 + x"] hk that le(2) by simp
    moreover have "bytes s1 (h + 4 + x) = bytes s (h + 4 + x)"
      using same_liveD [OF assms(7,3), of "h + 4 + x"] that le(1) by simp
    ultimately show ?thesis using s2(4) that by simp
  qed
  moreover have "same_live (live(h := None)) s s3"
    unfolding same_live_def
  proof (intro allI impI)
    fix g l x assume g: "(live(h := None)) g = Some l" "g \<le> x" "x < g + block_size l"
    then have gl: "live g = Some l" "g \<noteq> h" "g \<noteq> k" using assms(5) by (auto split: if_splits)
    then have "bytes s3 x = bytes s2 x" "bytes s2 x = bytes s1 x" "bytes s1 x = bytes s x"
      using same_liveD [OF s3(3), of g l x] same_liveD [OF s2(3), of g l x] same_liveD [OF assms(7), of g l x] g(2,3) by simp_all
    then show "bytes s3 x = bytes s x" by simp
  qed
  ultimately show ?thesis using s2(1) s3(1,2,4) unfolding twist by blast
qed

lemma realloc_eq:
  assumes "heap_ok v s live" "live h = Some i"
  shows "realloc v (h + 4) n s = (if n \<noteq> 0 \<and> fits n i then Inr (h + 4, s)
      else bindE (malloc v n s) (\<lambda>(new_base, s).
           bindE (if new_base \<noteq> 0 then bcopy (h + 4) new_base (min (block_size i - 4) (unat n)) s else Inr s) (\<lambda>s.
           bindE (free v (h + 4) s) (\<lambda>s. Inr (new_base, s)))))"
proof -
  obtain own fl qs where inv: "heap_inv v s own fl qs live" using assms(1) by (auto simp: heap_ok_def)
  note d = detach_live [OF inv assms(2)]
  have r: "read_word s h = Inr (malloc_free_list v + 8 * i)" using read_word_owned [OF d(2)] d(5) block_size_ge [of i] by simp
  have n: "min (block_size i - 4) (unat n) = unat (min (push_bit (i + 3) 1 - HEADER_SIZE) n)" using old_size [OF d(4)] by (auto simp: min_def word_le_nat_alt)
  show ?thesis unfolding stays_iff [OF d(4), symmetric] n by (simp add: realloc_def r list_index_ok [OF d(4)] Let_def del: push_bit_of_1)
qed

lemma realloc_ok:
  assumes "vm_ok v" "heap_ok v s live" "live h = Some i"
  shows "\<exists>p s'. realloc v (h + 4) n s = Inr (p, s') \<and> realloc_result v h i n s live p s'"
proof -
  note realloc = realloc_eq [OF assms(2,3)]
  obtain p s1 where m: "malloc v n s = Inr (p, s1)" "malloc_result v n s live p s1" using malloc_ok [OF assms(1,2)] by blast
  have "h \<noteq> 0" using live_nonzero [OF assms(2,3)] .
  then have reuse: "\<exists>u. malloc v m t = Inr (h + 4, u)" if "heap_ok v t live'" "fl_head t i = h" "m \<noteq> 0" "fits m i" for t live' m
    using malloc_takes_head [OF assms(1) that(1,3,4,2)] by blast
  show ?thesis
  proof (cases "n \<noteq> 0 \<and> fits n i")
    case True
    then show ?thesis by (simp add: realloc realloc_result_def)
  next
    case False
    from m(2) show ?thesis
    proof (cases rule: malloc_resultE)
      case k: (block k j)
      obtain s2 s3 where c: "bcopy (h + 4) (k + 4) (min (block_size i - 4) (unat n)) s1 = Inr s2" "free v (h + 4) s2 = Inr s3"
        "same_live (live(h := None)) s s3" "heap_ok v s3 (live(h := None, k \<mapsto> j))" "fl_head s3 i = h"
        "\<forall>x < min (block_size i - 4) (unat n). bytes s3 (k + 4 + x) = bytes s (h + 4 + x)"
        using realloc_copies [OF assms k(4,3,2,5)] by blast
      have "realloc v (h + 4) n s = Inr (p, s3)" using c(1,2) False k(1) by (auto simp: realloc m(1))
      then show ?thesis using c(3-) reuse [OF c(4,5)] False k(1-3) unfolding realloc_result_def by auto
    next
      case p: fails
      obtain s2 where c: "free v (h + 4) s1 = Inr s2" "heap_ok v s2 (live(h := None))" "same_live (live(h := None)) s1 s2" "fl_head s2 i = h"
        using free_ok [OF assms(1) p(2) assms(3)] by blast
      have "realloc v (h + 4) n s = Inr (p, s2)" "same_live (live(h := None)) s s2"
        using c(1,3) False p by (simp_all add: realloc m(1) same_live_def)
      then show ?thesis using c(2,4) reuse [OF c(2,4)] False p(1,4) unfolding realloc_result_def by auto
    qed
  qed
qed

section \<open>The specification\<close>

datatype heap_call = Malloc u32 | Free nat | Realloc nat u32 | Store nat nat u8

definition run_call :: "vm \<Rightarrow> heap_call \<Rightarrow> heap_state \<Rightarrow> (nat \<times> heap_state) result" where
  "run_call v c s = (case c of
     Malloc n \<Rightarrow> malloc v n s
   | Free p \<Rightarrow> bindE (free v p s) (\<lambda>s. Inr (0, s))
   | Realloc p n \<Rightarrow> realloc v p n s
   | Store p k b \<Rightarrow> if in_regions s (p + k) 1 then Inr (0, s\<lparr>bytes := (bytes s)(p + k := b)\<rparr>) else Inl Bad_Address)"

type_synonym arrays = "nat \<rightharpoonup> u8 list"

inductive heap_spec :: "heap_call \<Rightarrow> nat \<Rightarrow> arrays \<Rightarrow> arrays \<Rightarrow> bool" where
  malloc_fails: "heap_spec (Malloc n) 0 A A"
| malloc_new: "0 < p \<Longrightarrow> A p = None \<Longrightarrow> unat n \<le> length bs \<Longrightarrow> heap_spec (Malloc n) p A (A(p \<mapsto> bs))"
| free_null: "heap_spec (Free 0) 0 A A"
| free_array: "A p = Some bs \<Longrightarrow> heap_spec (Free p) 0 A (A(p := None))"
| realloc_null: "heap_spec (Malloc n) p A A' \<Longrightarrow> heap_spec (Realloc 0 n) p A A'"
| realloc_stays: "A p = Some bs \<Longrightarrow> unat n \<le> length bs \<Longrightarrow> heap_spec (Realloc p n) p A A"
| realloc_moves: "A p = Some bs \<Longrightarrow> 0 < q \<Longrightarrow> A q = None \<Longrightarrow> unat n \<le> length bs' \<Longrightarrow>
    take (min (length bs) (unat n)) bs' = take (min (length bs) (unat n)) bs \<Longrightarrow> heap_spec (Realloc p n) q A (A(p := None, q \<mapsto> bs'))"
| realloc_fails: "A p = Some bs \<Longrightarrow> heap_spec (Realloc p n) 0 A (A(p := None))"
| store: "A p = Some bs \<Longrightarrow> k < length bs \<Longrightarrow> heap_spec (Store p k b) 0 A (A(p \<mapsto> bs[k := b]))"

text \<open>The rules for the client: pass pointers that are in use, stay within the block.\<close>

fun call_ok :: "heap_call \<Rightarrow> arrays \<Rightarrow> bool" where
  "call_ok (Malloc n) A = True"
| "call_ok (Free p) A = (p = 0 \<or> A p \<noteq> None)"
| "call_ok (Realloc p n) A = (p = 0 \<or> A p \<noteq> None)"
| "call_ok (Store p k b) A = (case A p of None \<Rightarrow> False | Some bs \<Rightarrow> k < length bs)"

text \<open>The arrays the memory holds.\<close>

definition contents :: "heap_state \<Rightarrow> (nat \<rightharpoonup> nat) \<Rightarrow> arrays" where
  "contents s live p = (if p < 4 then None else map_option (\<lambda>i. map (\<lambda>x. bytes s (p + x)) [0..<block_size i - 4]) (live (p - 4)))"

section \<open>Refinement\<close>

lemma contents_eq:
  assumes "same_live live s s'"
  shows "contents s' live = contents s live"
proof
  fix p
  show "contents s' live p = contents s live p"
    using same_liveD [OF assms, of "p - 4"] by (cases "live (p - 4)") (auto simp: contents_def)
qed

lemma contents_upd: "contents s (live(h \<mapsto> i)) = (contents s live)(h + 4 \<mapsto> map (\<lambda>x. bytes s (h + 4 + x)) [0..<block_size i - 4])"
  by (auto simp: contents_def fun_eq_iff)

lemma contents_del: "contents s (live(h := None)) = (contents s live)(h + 4 := None)"
  by (auto simp: contents_def fun_eq_iff)

lemma contents_freed:
  assumes "same_live (live(h := None)) s s'"
  shows "contents s' (live(h := None)) = (contents s live)(h + 4 := None)"
  unfolding contents_eq [OF assms] by (rule contents_del)

lemma contents_SomeE:
  assumes "contents s live p = Some bs"
  obtains h i where "p = h + 4" "live h = Some i" "bs = map (\<lambda>x. bytes s (h + 4 + x)) [0..<block_size i - 4]"
  using assms that [of "p - 4"] by (auto simp: contents_def split: if_splits)

lemma contents_None: "live h = None \<Longrightarrow> contents s live (h + 4) = None"
  by (simp add: contents_def)

lemma fits_length: "fits n i \<Longrightarrow> unat n \<le> block_size i - 4"
  by (auto simp: fits_def)

lemma malloc_refines:
  assumes "vm_ok v" "heap_ok v s live"
  shows "\<exists>p s' live'. malloc v n s = Inr (p, s') \<and> heap_ok v s' live' \<and> heap_spec (Malloc n) p (contents s live) (contents s' live')"
proof -
  obtain p s' where m: "malloc v n s = Inr (p, s')" "malloc_result v n s live p s'" using malloc_ok [OF assms] by blast
  from m(2) show ?thesis
  proof (cases rule: malloc_resultE)
    case fails
    then show ?thesis using m(1) contents_eq [of live s s'] malloc_fails [of n "contents s live"] by auto
  next
    case h: (block h i)
    let ?bs = "map (\<lambda>x. bytes s' (h + 4 + x)) [0..<block_size i - 4]"
    have "contents s' (live(h \<mapsto> i)) = (contents s live)(p \<mapsto> ?bs)" using h(1) by (simp add: contents_upd contents_eq [OF h(5)])
    moreover have "heap_spec (Malloc n) p (contents s live) ((contents s live)(p \<mapsto> ?bs))"
      using h(1-3) fits_length [of n i] by (intro malloc_new) (simp_all add: contents_None)
    ultimately show ?thesis using m(1) h(4) by metis
  qed
qed

lemma realloc_refines:
  assumes "vm_ok v" "heap_ok v s live" "contents s live p = Some bs"
  shows "\<exists>r s' live'. realloc v p n s = Inr (r, s') \<and> heap_ok v s' live' \<and> heap_spec (Realloc p n) r (contents s live) (contents s' live')"
proof -
  obtain h i where h: "p = h + 4" "live h = Some i" "bs = map (\<lambda>x. bytes s (h + 4 + x)) [0..<block_size i - 4]"
    using assms(3) by (rule contents_SomeE)
  obtain q s' where r: "realloc v p n s = Inr (q, s')" "realloc_result v h i n s live q s'"
    using realloc_ok [OF assms(1,2) h(2)] h(1) by blast
  show ?thesis
  proof (cases "n \<noteq> 0 \<and> fits n i")
    case True
    then have "q = p" "s' = s" "unat n \<le> length bs" using r(2) h(1,3) fits_length [of n i] by (auto simp: realloc_result_def)
    then show ?thesis using r(1) assms(2) realloc_stays [where A = "contents s live", OF assms(3)] by blast
  next
    case False
    then have live: "same_live (live(h := None)) s s'" and res: "(q = 0 \<and> heap_ok v s' (live(h := None))) \<or>
         (\<exists>k j. q = k + 4 \<and> fits n j \<and> live k = None \<and> heap_ok v s' (live(h := None, k \<mapsto> j)) \<and>
           (\<forall>x < min (block_size i - 4) (unat n). bytes s' (k + 4 + x) = bytes s (h + 4 + x)))"
      using r(2) unfolding realloc_result_def by (metis, metis)
    have del: "contents s' (live(h := None)) = (contents s live)(p := None)"
      using contents_freed [OF live] h(1) by simp
    from res show ?thesis
    proof (elim disjE exE conjE)
      assume "q = 0" "heap_ok v s' (live(h := None))"
      then show ?thesis using r(1) realloc_fails [where A = "contents s live", OF assms(3), of n] unfolding del [symmetric] by blast
    next
      fix k j assume k: "q = k + 4" "fits n j" "live k = None" "heap_ok v s' (live(h := None, k \<mapsto> j))"
        "\<forall>x < min (block_size i - 4) (unat n). bytes s' (k + 4 + x) = bytes s (h + 4 + x)"
      let ?bs = "map (\<lambda>x. bytes s' (k + 4 + x)) [0..<block_size j - 4]"
      have "contents s' (live(h := None, k \<mapsto> j)) = (contents s live)(p := None, q \<mapsto> ?bs)" by (simp only: contents_upd del k(1))
      moreover have "take (min (length bs) (unat n)) ?bs = take (min (length bs) (unat n)) bs"
        using k(2,5) fits_length [of n j] by (intro nth_equalityI) (auto simp: h(3))
      then have "heap_spec (Realloc p n) q (contents s live) ((contents s live)(p := None, q \<mapsto> ?bs))"
        using k(1-3) fits_length [of n j] by (intro realloc_moves [where A = "contents s live", OF assms(3)]) (simp_all add: contents_None)
      ultimately show ?thesis using r(1) k(4) by metis
    qed
  qed
qed

lemma store_refines:
  assumes "vm_ok v" "heap_ok v s live" "contents s live p = Some bs" "k < length bs"
  shows "in_regions s (p + k) 1" "heap_ok v (s\<lparr>bytes := (bytes s)(p + k := b)\<rparr>) live"
    "contents (s\<lparr>bytes := (bytes s)(p + k := b)\<rparr>) live = (contents s live)(p \<mapsto> bs[k := b])"
proof -
  let ?s = "s\<lparr>bytes := (bytes s)(p + k := b)\<rparr>"
  obtain h i where h: "p = h + 4" "live h = Some i" "bs = map (\<lambda>x. bytes s (h + 4 + x)) [0..<block_size i - 4]"
    using assms(3) by (rule contents_SomeE)
  have k: "k < block_size i - 4" using assms(4) h(3) by simp
  show "in_regions s (p + k) 1" using live_region [OF assms(2) h(2)] h(1) k by simp
  have "h + 4 \<le> x \<and> x < h + block_size i" if "((bytes s)(p + k := b)) x \<noteq> bytes s x" for x
    using that h(1) k by (auto split: if_splits)
  then have w: "heap_ok v ?s live" "same_live (live(h := None)) s ?s"
    using client_write [OF assms(2) h(2) assms(1), of "(bytes s)(p + k := b)"] by blast+
  show "heap_ok v ?s live" by (rule w(1))
  have "contents ?s live = contents ?s ((live(h := None))(h \<mapsto> i))" using h(2) by (simp add: fun_upd_idem)
  also have "\<dots> = (contents ?s (live(h := None)))(h + 4 \<mapsto> map (\<lambda>x. bytes ?s (h + 4 + x)) [0..<block_size i - 4])"
    by (rule contents_upd)
  also have "\<dots> = (contents s live)(p \<mapsto> map (\<lambda>x. bytes ?s (h + 4 + x)) [0..<block_size i - 4])"
    by (simp only: contents_freed [OF w(2)]) (simp only: h(1) fun_upd_upd)
  also have "map (\<lambda>x. bytes ?s (h + 4 + x)) [0..<block_size i - 4] = bs[k := b]"
    by (rule nth_equalityI) (auto simp: h(1,3) nth_list_update)
  finally show "contents ?s live = (contents s live)(p \<mapsto> bs[k := b])" .
qed

lemma call_refines:
  assumes "vm_ok v" "heap_ok v s live" "call_ok c (contents s live)"
  shows "\<exists>r s' live'. run_call v c s = Inr (r, s') \<and> heap_ok v s' live' \<and> heap_spec c r (contents s live) (contents s' live')"
proof (cases c)
  case (Malloc n)
  then show ?thesis using malloc_refines [OF assms(1,2)] by (simp add: run_call_def)
next
  case (Realloc p n)
  show ?thesis
  proof (cases "p = 0")
    case True
    then show ?thesis using malloc_refines [OF assms(1,2), of n] Realloc by (auto simp: run_call_def realloc_def intro: realloc_null)
  next
    case False
    then show ?thesis using realloc_refines [OF assms(1,2)] assms(3) Realloc by (auto simp: run_call_def)
  qed
next
  case (Free p)
  show ?thesis
  proof (cases "p = 0")
    case True
    then show ?thesis using assms(2) free_null Free by (auto simp: run_call_def free_def)
  next
    case False
    then obtain bs where bs: "contents s live p = Some bs" using assms(3) Free by auto
    then obtain h i where h: "p = h + 4" "live h = Some i" by (rule contents_SomeE)
    obtain s' where s': "free v p s = Inr s'" "heap_ok v s' (live(h := None))" "same_live (live(h := None)) s s'"
      using free_ok [OF assms(1,2) h(2)] h(1) by blast
    have "contents s' (live(h := None)) = (contents s live)(p := None)" using contents_freed [OF s'(3)] h(1) by simp
    then show ?thesis using s'(1,2) free_array [where A = "contents s live", OF bs] Free by (auto simp: run_call_def)
  qed
next
  case (Store p k b)
  then obtain bs where bs: "contents s live p = Some bs" "k < length bs" using assms(3) by (auto split: option.splits)
  then show ?thesis using store_refines [OF assms(1,2) bs] store [where A = "contents s live", OF bs, of b] Store
    by (intro exI [of _ 0] exI [of _ "s\<lparr>bytes := (bytes s)(p + k := b)\<rparr>"] exI [of _ live]) (simp add: run_call_def)
qed

section \<open>Clients\<close>

text \<open>
  A client is a program of its own: in each state it makes a call, and it goes on from the result.
  With the specification it may see any result the specification allows.
\<close>

record 'k client =
  begins :: 'k
  calls :: "'k \<Rightarrow> heap_call"
  learns :: "'k \<Rightarrow> nat \<Rightarrow> 'k"

inductive client_reach :: "'k client \<Rightarrow> 'k \<Rightarrow> arrays \<Rightarrow> bool" for c where
  begin_client: "client_reach c (begins c) Map.empty"
| call_client: "client_reach c k A \<Longrightarrow> call_ok (calls c k) A \<Longrightarrow> heap_spec (calls c k) r A A' \<Longrightarrow> client_reach c (learns c k r) A'"

inductive_cases heap_specE: "heap_spec (Malloc n) r A A'" "heap_spec (Store p k b) r A A'" "heap_spec (Free p) r A A'"

definition keeps_rules :: "'k client \<Rightarrow> bool" where
  "keeps_rules c \<longleftrightarrow> (\<forall>k A. client_reach c k A \<longrightarrow> call_ok (calls c k) A)"

text \<open>The client on an implementation, for a number of calls.\<close>

primrec client_run :: "(heap_call \<Rightarrow> 's \<Rightarrow> (nat \<times> 's) result) \<Rightarrow> 's \<Rightarrow> 'k client \<Rightarrow> nat \<Rightarrow> ('k \<times> 's) result" where
  "client_run run s c 0 = Inr (begins c, s)"
| "client_run run s c (Suc n) = bindE (client_run run s c n) (\<lambda>(k, s). bindE (run (calls c k) s) (\<lambda>(r, s). Inr (learns c k r, s)))"

locale byte_arrays =
  fixes run :: "heap_call \<Rightarrow> 's \<Rightarrow> (nat \<times> 's) result" and start :: 's and represents :: "'s \<Rightarrow> arrays \<Rightarrow> bool"
  assumes start_represents: "represents start Map.empty"
    and run_represents: "represents s A \<Longrightarrow> call_ok c A \<Longrightarrow> \<exists>r s' A'. run c s = Inr (r, s') \<and> heap_spec c r A A' \<and> represents s' A'"
begin

lemma client_safe:
  assumes "keeps_rules c"
  shows "\<exists>k s A. client_run run start c n = Inr (k, s) \<and> represents s A \<and> client_reach c k A"
proof (induction n)
  case 0
  then show ?case using start_represents begin_client [of c] by auto
next
  case (Suc n)
  then obtain k s A where k: "client_run run start c n = Inr (k, s)" "represents s A" "client_reach c k A" by blast
  then have ok: "call_ok (calls c k) A" using assms by (simp add: keeps_rules_def)
  obtain r s' A' where r: "run (calls c k) s = Inr (r, s')" "heap_spec (calls c k) r A A'" "represents s' A'"
    using run_represents [OF k(2) ok] by blast
  then show ?case using k(1) call_client [OF k(3) ok r(2)] by auto
qed

end

section \<open>The allocator at the start\<close>

definition heap_start :: heap_state where
  "heap_start = \<lparr>bytes = (\<lambda>_. 0), regions = [], fl_head = (\<lambda>_. 0), fl_lock = (\<lambda>_. False), malloc_lock = False, pool = 0, pool_size = 0, vm_calls = 0\<rparr>"

lemma heap_start_ok: "heap_ok v heap_start Map.empty"
  by (auto simp: heap_ok_def heap_start_def heap_inv_def blocks_inv_def pools_inv_def lists_ok_def live_ok_def pools_ok_def only_regions_def
    intro!: exI [of _ "\<lambda>_. None"] exI [of _ "\<lambda>_. []"] exI [of _ "[]"])

definition holds_arrays :: "vm \<Rightarrow> heap_state \<Rightarrow> arrays \<Rightarrow> bool" where
  "holds_arrays v s A \<longleftrightarrow> (\<exists>live. heap_ok v s live \<and> A = contents s live)"

locale honest_kernel =
  fixes v :: vm
  assumes honest: "vm_ok v"

sublocale honest_kernel \<subseteq> byte_arrays "run_call v" heap_start "holds_arrays v"
proof unfold_locales
  have "contents heap_start Map.empty = Map.empty" by (auto simp: contents_def)
  then show "holds_arrays v heap_start Map.empty" using heap_start_ok [of v] unfolding holds_arrays_def by metis
  show "\<exists>r s' A'. run_call v c s = Inr (r, s') \<and> heap_spec c r A A' \<and> holds_arrays v s' A'" if "holds_arrays v s A" "call_ok c A" for s A c
    using that call_refines [OF honest] unfolding holds_arrays_def by metis
qed

context honest_kernel
begin

lemma clients_safe:
  assumes "keeps_rules c"
  shows "\<exists>k s live. client_run (run_call v) heap_start c n = Inr (k, s) \<and> heap_ok v s live \<and> client_reach c k (contents s live)"
  using client_safe [OF assms] unfolding holds_arrays_def by blast

end

text \<open>A kernel that gives out addresses in increasing order.\<close>

definition page_kernel :: vm where
  "page_kernel = \<lparr>vm_page_size = 4096, vm_answer = (\<lambda>k rs n. let a = foldr (\<lambda>(r, len). max (r + len)) rs 65536 in if a + n \<le> 2 ^ 32 then Some a else None),
     malloc_free_list = 8192, malloc_pool_size = 32\<rparr>"

lemma regions_below: "q \<in> set rs \<Longrightarrow> fst q + snd q \<le> foldr (\<lambda>(r, len). max (r + len)) rs (b :: nat)"
  by (induction rs) auto

lemma regions_base: "(b :: nat) \<le> foldr (\<lambda>(r, len). max (r + len)) rs b"
  by (induction rs) auto

interpretation page_kernel: honest_kernel page_kernel
proof
  have "\<exists>k \<ge> 3. k < 32 \<and> (4096 :: nat) = 2 ^ k" by (rule exI [of _ 12]) simp
  moreover have "0 < foldr (\<lambda>(r, len). max (r + len)) rs (65536 :: nat)" for rs :: "(nat \<times> nat) list"
    using regions_base [of 65536 rs] by simp
  ultimately show "vm_ok page_kernel"
    using regions_below by (fastforce simp: vm_ok_def page_kernel_def NBUCKETS_def Let_def split: if_splits)
qed

section \<open>The properties\<close>

text \<open>
  C4. Memory safety of malloc.c. Whatever a client does, as long as it keeps to the rules of the
  specification (frees and reallocates only what it got, writes only inside its blocks), after
  any number of calls no call has faulted or spun for ever, the blocks it holds are disjoint, and
  their contents are those of the arrays of the specification: what was written last, kept
  by every call on another block, and copied by \<open>realloc\<close>. The kernel may refuse any request; what it
  gives must be new memory.
\<close>

theorem malloc_clients_safe:
  assumes "vm_ok v" "keeps_rules c"
  shows "\<exists>k s live. client_run (run_call v) heap_start c n = Inr (k, s) \<and> client_reach c k (contents s live) \<and>
    (\<forall>h i g j. live h = Some i \<longrightarrow> live g = Some j \<longrightarrow> h \<noteq> g \<longrightarrow> h + block_size i \<le> g \<or> g + block_size j \<le> h)"
proof -
  obtain k s live where k: "client_run (run_call v) heap_start c n = Inr (k, s)" "heap_ok v s live" "client_reach c k (contents s live)"
    using honest_kernel.clients_safe [OF honest_kernel.intro [OF assms(1)] assms(2)] by blast
  then show ?thesis using live_apart [OF k(2)] by blast
qed

text \<open>A client for the witness: it allocates ten bytes, writes the last of them and frees the block.\<close>

definition writer :: "(nat \<times> nat) client" where
  "writer = \<lparr>begins = (0, 0),
     calls = (\<lambda>(phase, p). if phase = 0 \<or> p = 0 then Malloc 10 else if phase = 1 then Store p 9 65 else Free p),
     learns = (\<lambda>(phase, p) r. if phase = 0 \<or> p = 0 then (1, r) else if phase = 1 then (2, p) else (0, 0))\<rparr>"

lemma writer_inv:
  "client_reach writer k A \<Longrightarrow> fst k = 0 \<or> snd k = 0 \<or> (\<exists>bs. A (snd k) = Some bs \<and> (fst k = 1 \<longrightarrow> 10 \<le> length bs))"
proof (induction rule: client_reach.induct)
  case (call_client k A r A')
  then show ?case by (cases k) (auto simp: writer_def split: if_splits elim!: heap_specE)
qed (simp add: writer_def)

lemma writer_keeps_rules: "keeps_rules writer"
  unfolding keeps_rules_def
proof (intro allI impI)
  fix k A assume "client_reach writer k A"
  from writer_inv [OF this] show "call_ok (calls writer k) A" by (cases k) (auto simp: writer_def)
qed

theorem malloc_clients_safe_witness:
  "vm_ok page_kernel \<and> keeps_rules writer \<and>
   (\<exists>k s live. client_run (run_call page_kernel) heap_start writer 3 = Inr (k, s) \<and> client_reach writer k (contents s live) \<and>
    (\<forall>h i g j. live h = Some i \<longrightarrow> live g = Some j \<longrightarrow> h \<noteq> g \<longrightarrow> h + block_size i \<le> g \<or> g + block_size j \<le> h))"
  using malloc_clients_safe [OF page_kernel.honest writer_keeps_rules, of 3] page_kernel.honest writer_keeps_rules by blast

text \<open>
  C18. In a heap in order \<open>malloc\<close> always returns. It returns null only for a request of no bytes or of more
  than 2^31 - 4, or when the kernel refuses the pages it would need, and changes no memory then. Otherwise the
  block behind the pointer holds the request and its header, is the smallest power of two that
  does, is disjoint from every block in use, and the blocks in use keep their bytes.
\<close>

theorem malloc_correct:
  assumes "vm_ok v" "heap_ok v s live"
  shows "\<exists>p s'. malloc v n s = Inr (p, s') \<and>
    (if p = 0 then heap_ok v s' live \<and> bytes s' = bytes s \<and>
       (n = 0 \<or> 2 ^ 31 - 4 < unat n \<or> (\<exists>i. fits n i \<and> vm_answer v (vm_calls s) (regions s) (max (vm_request v i) (pool_bytes v)) = None))
     else 4 \<le> p \<and> (\<exists>i. unat n + 4 \<le> block_size i \<and> (i = 0 \<or> block_size i < 2 * (unat n + 4)) \<and>
       heap_ok v s' (live(p - 4 \<mapsto> i)) \<and> same_live live s s' \<and>
       (\<forall>k j. live k = Some j \<longrightarrow> p - 4 + block_size i \<le> k \<or> k + block_size j \<le> p - 4)))"
proof -
  obtain p s' where m: "malloc v n s = Inr (p, s')" "malloc_result v n s live p s'" using malloc_ok [OF assms] by blast
  from m(2) show ?thesis
  proof (cases rule: malloc_resultE)
    case fails
    then show ?thesis using m(1) by (auto simp: bad_size_def vm_refuses_def)
  next
    case (block h i)
    then have "h + block_size i \<le> k \<or> k + block_size j \<le> h" if "live k = Some j" for k j
      using live_apart [OF block(4), of h i k j] that by (cases "h = k") auto
    then show ?thesis using m(1) block
      by (intro exI [of _ p] exI [of _ s'] conjI) (auto simp: fits_def intro!: exI [of _ i])
  qed
qed

theorem malloc_correct_witness:
  "\<exists>p s'. malloc page_kernel 10 heap_start = Inr (p, s') \<and>
    (if p = 0 then heap_ok page_kernel s' Map.empty \<and> bytes s' = bytes heap_start \<and>
       ((10 :: u32) = 0 \<or> 2 ^ 31 - 4 < unat (10 :: u32) \<or>
        (\<exists>i. fits 10 i \<and> vm_answer page_kernel (vm_calls heap_start) (regions heap_start) (max (vm_request page_kernel i) (pool_bytes page_kernel)) = None))
     else 4 \<le> p \<and> (\<exists>i. unat (10 :: u32) + 4 \<le> block_size i \<and> (i = 0 \<or> block_size i < 2 * (unat (10 :: u32) + 4)) \<and>
       heap_ok page_kernel s' (Map.empty(p - 4 \<mapsto> i)) \<and> same_live Map.empty heap_start s' \<and>
       (\<forall>k j. Map.empty k = Some j \<longrightarrow> p - 4 + block_size i \<le> k \<or> k + block_size j \<le> p - 4)))"
  using malloc_correct [OF page_kernel.honest heap_start_ok, of 10] .

text \<open>
  C19. \<open>realloc\<close> on a block in use always returns. A request of the same size class leaves everything as it
  is. Otherwise the old block is freed in every case: it heads the free list of its size class, and the next
  request of that class gets it. There is a new block, disjoint from those in use, that
  begins with the bytes of the old one as far as both reach, or, when there is no memory for it,
  the null pointer and the loss of the old bytes. The other blocks in use keep theirs.
\<close>

theorem realloc_correct:
  assumes "vm_ok v" "heap_ok v s live" "live h = Some i"
  shows "\<exists>p s'. realloc v (h + 4) n s = Inr (p, s') \<and>
    (if n \<noteq> 0 \<and> fits n i then p = h + 4 \<and> s' = s
     else same_live (live(h := None)) s s' \<and> fl_head s' i = h \<and>
       (\<forall>m. m \<noteq> 0 \<and> fits m i \<longrightarrow> (\<exists>t. malloc v m s' = Inr (h + 4, t))) \<and>
       (p = 0 \<and> heap_ok v s' (live(h := None)) \<and> (bad_size n \<or> (\<exists>j. fits n j \<and> vm_refuses v s (vm_request v j))) \<or>
        (\<exists>k j. p = k + 4 \<and> fits n j \<and> live k = None \<and> heap_ok v s' (live(h := None, k \<mapsto> j)) \<and>
          (\<forall>x < min (block_size i - 4) (unat n). bytes s' (k + 4 + x) = bytes s (h + 4 + x)))))"
  using realloc_ok [OF assms, of n] unfolding realloc_result_def .

lemma fits_ten: "fits 10 i \<Longrightarrow> i = 1"
proof -
  assume f: "fits 10 i"
  have "i < 2"
  proof (rule ccontr)
    assume "\<not> i < 2"
    then have "(2 :: nat) ^ 5 \<le> 2 ^ (i + 3)" by (intro power_increasing) simp_all
    then show False using f by (auto simp: fits_def block_size_def)
  qed
  moreover have "i \<noteq> 0" using f by (cases "i = 0") (auto simp: fits_def block_size_def)
  ultimately show ?thesis by simp
qed

lemma first_block: "\<exists>h s. malloc page_kernel 10 heap_start = Inr (h + 4, s) \<and> heap_ok page_kernel s [h \<mapsto> 1]"
proof -
  obtain p s where m: "malloc page_kernel 10 heap_start = Inr (p, s)" "malloc_result page_kernel 10 heap_start Map.empty p s"
    using malloc_ok [OF page_kernel.honest heap_start_ok] by blast
  from m(2) show ?thesis
  proof (cases rule: malloc_resultE)
    case fails
    have "\<not> vm_refuses page_kernel heap_start (vm_request page_kernel 1)"
      by (simp add: vm_refuses_def vm_request_def page_kernel_def heap_start_def pool_bytes_def block_size_def)
    then show ?thesis using fails(4) fits_ten by (auto simp: bad_size_def)
  next
    case (block h i)
    then show ?thesis using m(1) fits_ten by auto
  qed
qed

theorem realloc_correct_witness:
  "\<exists>h t. malloc page_kernel 10 heap_start = Inr (h + 4, t) \<and> heap_ok page_kernel t [h \<mapsto> 1] \<and>
    (\<exists>p s'. realloc page_kernel (h + 4) 100 t = Inr (p, s') \<and> same_live ([h \<mapsto> 1](h := None)) t s' \<and>
       fl_head s' 1 = h \<and> (\<exists>u. malloc page_kernel 12 s' = Inr (h + 4, u)) \<and>
       (p = 0 \<and> heap_ok page_kernel s' ([h \<mapsto> 1](h := None)) \<or>
        (\<exists>k j. p = k + 4 \<and> fits 100 j \<and> heap_ok page_kernel s' ([h \<mapsto> 1](h := None, k \<mapsto> j)) \<and>
          (\<forall>x < min (block_size 1 - 4) (unat (100 :: u32)). bytes s' (k + 4 + x) = bytes t (h + 4 + x)))))"
proof -
  obtain h t where t: "malloc page_kernel 10 heap_start = Inr (h + 4, t)" "heap_ok page_kernel t [h \<mapsto> 1]" using first_block by blast
  have no: "\<not> ((100 :: u32) \<noteq> 0 \<and> fits 100 1)" by (simp add: fits_def block_size_def)
  have live: "[h \<mapsto> 1] h = Some 1" and again: "(12 :: u32) \<noteq> 0 \<and> fits 12 1" by (simp_all add: fits_def block_size_def NBUCKETS_def)
  from realloc_correct [OF page_kernel.honest t(2) live, of 100] show ?thesis using t again unfolding if_not_P [OF no] by blast
qed

end
