(* ===== verification/Cthread_Queue.thy ===== *)
theory Cthread_Queue
  imports Mach_Prelude
begin

text \<open>
  The queue macros of lib/threads/cthreads.h, on which the condition variables and the requests for new
  threads rest: items are linked through a field of their own, and a queue has a pointer to
  the first and one to the last. Pointers are numbers, 0 is null; all queues share the field. As long
  as an item is in one queue at most, the queues are lists.
\<close>

record cthread_queue =
  head :: nat
  tail :: nat

definition cthread_queue_init :: cthread_queue where
  "cthread_queue_init = \<lparr>head = 0, tail = 0\<rparr>"

definition cthread_queue_enq :: "nat \<Rightarrow> (nat \<Rightarrow> nat) \<Rightarrow> cthread_queue \<Rightarrow> (nat \<Rightarrow> nat) \<times> cthread_queue" where
  "cthread_queue_enq x nx q =
     (let nx = nx(x := 0);
          (nx, q) = (if tail q = 0 then (nx, q\<lparr>head := x\<rparr>) else (nx(tail q := x), q))
      in (nx, q\<lparr>tail := x\<rparr>))"

definition cthread_queue_preq :: "nat \<Rightarrow> (nat \<Rightarrow> nat) \<Rightarrow> cthread_queue \<Rightarrow> (nat \<Rightarrow> nat) \<times> cthread_queue" where
  "cthread_queue_preq x nx q =
     (let q = (if tail q = 0 then q\<lparr>tail := x\<rparr> else q)
      in (nx(x := head q), q\<lparr>head := x\<rparr>))"

definition cthread_queue_deq :: "(nat \<Rightarrow> nat) \<Rightarrow> cthread_queue \<Rightarrow> nat \<times> cthread_queue" where
  "cthread_queue_deq nx q =
     (let x = head q in
      if x \<noteq> 0 then (let q = q\<lparr>head := nx x\<rparr> in (x, if head q = 0 then q\<lparr>tail := 0\<rparr> else q))
      else (x, q))"

text \<open>The items in the order in which \<open>cthread_queue_map\<close> calls its function.\<close>

partial_function (option) walk :: "(nat \<Rightarrow> nat) \<Rightarrow> nat \<Rightarrow> nat list option" where
  "walk nx x = (if x = 0 then Some [] else Option.bind (walk nx (nx x)) (\<lambda>xs. Some (x # xs)))"

definition cthread_queue_map :: "(nat \<Rightarrow> nat) \<Rightarrow> cthread_queue \<Rightarrow> nat list option" where
  "cthread_queue_map nx q = walk nx (head q)"

section \<open>Queues are lists\<close>

fun links :: "(nat \<Rightarrow> nat) \<Rightarrow> nat \<Rightarrow> nat list \<Rightarrow> bool" where
  "links nx p [] \<longleftrightarrow> p = 0"
| "links nx p (x # xs) \<longleftrightarrow> p = x \<and> x \<noteq> 0 \<and> links nx (nx x) xs"

definition queue_is :: "(nat \<Rightarrow> nat) \<Rightarrow> cthread_queue \<Rightarrow> nat list \<Rightarrow> bool" where
  "queue_is nx q xs \<longleftrightarrow> links nx (head q) xs \<and> tail q = (if xs = [] then 0 else last xs)"

lemma links_upd: "x \<notin> set xs \<Longrightarrow> links (nx(x := v)) p xs \<longleftrightarrow> links nx p xs"
  by (induction xs arbitrary: p) auto

lemma links_snoc:
  assumes "links nx p (xs @ [y])" "distinct (xs @ [y])" "x \<noteq> 0" "x \<notin> set (xs @ [y])"
  shows "links (nx(x := 0, y := x)) p (xs @ [y, x])"
  using assms by (induction xs arbitrary: p) auto

lemma queue_is_frame: "x \<notin> set xs \<Longrightarrow> queue_is (nx(x := v)) q xs \<longleftrightarrow> queue_is nx q xs"
  by (simp add: queue_is_def links_upd)

lemma links_nonzero: "links nx p xs \<Longrightarrow> 0 \<notin> set xs"
  by (induction xs arbitrary: p) auto

lemma tail_null: "queue_is nx q xs \<Longrightarrow> tail q = 0 \<longleftrightarrow> xs = []"
  using links_nonzero [of nx "head q" xs] last_in_set [of xs] by (cases "last xs = 0") (auto simp: queue_is_def)

lemma enq_is:
  assumes q: "queue_is nx q xs" and "distinct xs" "x \<noteq> 0" "x \<notin> set xs"
  shows "cthread_queue_enq x nx q = (nx', q') \<Longrightarrow> queue_is nx' q' (xs @ [x])"
    and "cthread_queue_enq x nx q = (nx', q') \<Longrightarrow> y \<noteq> x \<Longrightarrow> y \<notin> set xs \<Longrightarrow> nx' y = nx y"
proof -
  show "cthread_queue_enq x nx q = (nx', q') \<Longrightarrow> queue_is nx' q' (xs @ [x])"
  proof (cases xs rule: rev_cases)
    case Nil
    then show "cthread_queue_enq x nx q = (nx', q') \<Longrightarrow> ?thesis"
      using q assms(3) by (auto simp: cthread_queue_enq_def queue_is_def)
  next
    case (snoc ys y)
    then have "tail q = y" "y \<noteq> 0" using q tail_null [OF q] by (auto simp: queue_is_def)
    then show "cthread_queue_enq x nx q = (nx', q') \<Longrightarrow> ?thesis"
      using links_snoc [of nx "head q" ys y x] q assms snoc by (auto simp: cthread_queue_enq_def queue_is_def)
  qed
  show "cthread_queue_enq x nx q = (nx', q') \<Longrightarrow> y \<noteq> x \<Longrightarrow> y \<notin> set xs \<Longrightarrow> nx' y = nx y"
    using q tail_null [OF q] last_in_set [of xs]
    by (auto simp: cthread_queue_enq_def queue_is_def split: if_splits)
qed

lemma preq_is:
  assumes q: "queue_is nx q xs" and "x \<noteq> 0" "x \<notin> set xs"
  shows "cthread_queue_preq x nx q = (nx', q') \<Longrightarrow> queue_is nx' q' (x # xs)"
    and "cthread_queue_preq x nx q = (nx', q') \<Longrightarrow> y \<noteq> x \<Longrightarrow> nx' y = nx y"
proof -
  show "cthread_queue_preq x nx q = (nx', q') \<Longrightarrow> queue_is nx' q' (x # xs)"
    using q assms tail_null [OF q] by (auto simp: cthread_queue_preq_def queue_is_def links_upd split: if_splits)
  show "cthread_queue_preq x nx q = (nx', q') \<Longrightarrow> y \<noteq> x \<Longrightarrow> nx' y = nx y"
    by (auto simp: cthread_queue_preq_def Let_def)
qed

lemma deq_is:
  assumes "queue_is nx q xs"
  shows "cthread_queue_deq nx q = (x, q') \<Longrightarrow> queue_is nx q' (tl xs) \<and> x = (case xs of [] \<Rightarrow> 0 | y # ys \<Rightarrow> y)"
  using assms
  by (cases xs; cases "tl xs") (auto simp: cthread_queue_deq_def queue_is_def Let_def split: if_splits)

lemma walk_links: "links nx p xs \<Longrightarrow> walk nx p = Some xs"
  by (induction xs arbitrary: p) (auto simp: walk.simps)

section \<open>Many queues\<close>

text \<open>The operations on queues with numbers, with the item that each returns, and the same on lists.\<close>

datatype queue_op = Enq nat nat | Preq nat nat | Deq nat

type_synonym queues = "(nat \<Rightarrow> nat) \<times> (nat \<Rightarrow> cthread_queue)"

fun queue_do :: "queue_op \<Rightarrow> queues \<Rightarrow> nat \<times> queues" where
  "queue_do (Enq c x) (nx, Q) = (let (nx, q) = cthread_queue_enq x nx (Q c) in (0, nx, Q(c := q)))"
| "queue_do (Preq c x) (nx, Q) = (let (nx, q) = cthread_queue_preq x nx (Q c) in (0, nx, Q(c := q)))"
| "queue_do (Deq c) (nx, Q) = (let (x, q) = cthread_queue_deq nx (Q c) in (x, nx, Q(c := q)))"

fun list_do :: "queue_op \<Rightarrow> (nat \<Rightarrow> nat list) \<Rightarrow> nat \<times> (nat \<Rightarrow> nat list)" where
  "list_do (Enq c x) L = (0, L(c := L c @ [x]))"
| "list_do (Preq c x) L = (0, L(c := x # L c))"
| "list_do (Deq c) L = (case L c of [] \<Rightarrow> 0 | x # xs \<Rightarrow> x, L(c := tl (L c)))"

text \<open>The rule for clients: an item that joins a queue is in none.\<close>

fun queue_rule :: "queue_op \<Rightarrow> (nat \<Rightarrow> nat list) \<Rightarrow> bool" where
  "queue_rule (Enq c x) L \<longleftrightarrow> x \<noteq> 0 \<and> (\<forall>d. x \<notin> set (L d))"
| "queue_rule (Preq c x) L \<longleftrightarrow> x \<noteq> 0 \<and> (\<forall>d. x \<notin> set (L d))"
| "queue_rule (Deq c) L \<longleftrightarrow> True"

fun queue_run :: "queue_op list \<Rightarrow> queues \<Rightarrow> nat list \<times> queues" where
  "queue_run [] s = ([], s)"
| "queue_run (a # as) s = (let (x, s) = queue_do a s; (xs, s) = queue_run as s in (x # xs, s))"

fun list_run :: "queue_op list \<Rightarrow> (nat \<Rightarrow> nat list) \<Rightarrow> nat list \<times> (nat \<Rightarrow> nat list)" where
  "list_run [] L = ([], L)"
| "list_run (a # as) L = (let (x, L) = list_do a L; (xs, L) = list_run as L in (x # xs, L))"

fun queue_rules :: "queue_op list \<Rightarrow> (nat \<Rightarrow> nat list) \<Rightarrow> bool" where
  "queue_rules [] L \<longleftrightarrow> True"
| "queue_rules (a # as) L \<longleftrightarrow> queue_rule a L \<and> queue_rules as (snd (list_do a L))"

definition queues_are :: "queues \<Rightarrow> (nat \<Rightarrow> nat list) \<Rightarrow> bool" where
  "queues_are s L \<longleftrightarrow> (\<forall>c. queue_is (fst s) (snd s c) (L c) \<and> distinct (L c)) \<and>
     (\<forall>c d. c \<noteq> d \<longrightarrow> set (L c) \<inter> set (L d) = {})"

lemma links_cong: "(\<And>y. y \<in> set xs \<Longrightarrow> nx' y = nx y) \<Longrightarrow> links nx' p xs \<longleftrightarrow> links nx p xs"
  by (induction xs arbitrary: p) auto

lemma queue_is_cong: "queue_is nx q xs \<Longrightarrow> (\<And>y. y \<in> set xs \<Longrightarrow> nx' y = nx y) \<Longrightarrow> queue_is nx' q xs"
  using links_cong [of xs nx' nx "head q"] by (auto simp: queue_is_def)

lemma queues_areD:
  assumes "queues_are (nx, Q) L"
  shows "queue_is nx (Q c) (L c)" "distinct (L c)" "c \<noteq> d \<Longrightarrow> y \<in> set (L c) \<Longrightarrow> y \<notin> set (L d)"
  using assms by (auto simp: queues_are_def)

text \<open>An operation on one queue leaves the links of the other queues alone.\<close>

lemma queues_are_upd:
  assumes s: "queues_are (nx, Q) L" and q: "queue_is nx' q xs" "distinct xs"
    and xs: "\<And>y d. y \<in> set xs \<Longrightarrow> d \<noteq> c \<Longrightarrow> y \<notin> set (L d)"
    and frame: "\<And>d y. d \<noteq> c \<Longrightarrow> y \<in> set (L d) \<Longrightarrow> nx' y = nx y"
  shows "queues_are (nx', Q(c := q)) (L(c := xs))"
proof -
  have "queue_is nx' (Q d) (L d)" if "d \<noteq> c" for d
    using queue_is_cong [OF queues_areD(1) [OF s, of d]] frame [OF that] by blast
  then show ?thesis
    using queues_areD(2,3) [OF s] q xs by (auto simp: queues_are_def)
qed

lemma queue_do_is:
  assumes s: "queues_are s L" and r: "queue_rule a L"
  shows "fst (queue_do a s) = fst (list_do a L) \<and> queues_are (snd (queue_do a s)) (snd (list_do a L))"
proof -
  obtain nx Q where e: "s = (nx, Q)" by fastforce
  note D = queues_areD [OF s [unfolded e]]
  show ?thesis
  proof (cases a)
    case (Enq c x)
    obtain nx' q' where q: "cthread_queue_enq x nx (Q c) = (nx', q')" by fastforce
    have x: "x \<noteq> 0" "\<And>d. x \<notin> set (L d)" using r Enq by auto
    note i = enq_is [OF D(1) [of c] D(2) [of c] x(1) x(2) q]
    have "nx' y = nx y" if "d \<noteq> c" "y \<in> set (L d)" for y d
      using i(2) [of y] x(2) [of d] D(3) [OF that] that(2) by auto
    then have "queues_are (nx', Q(c := q')) (L(c := L c @ [x]))"
      using i(1) D(2) [of c] x D(3) by (intro queues_are_upd [OF s [unfolded e]]) auto
    then show ?thesis using Enq e q by simp
  next
    case (Preq c x)
    obtain nx' q' where q: "cthread_queue_preq x nx (Q c) = (nx', q')" by fastforce
    have x: "x \<noteq> 0" "\<And>d. x \<notin> set (L d)" using r Preq by auto
    note i = preq_is [OF D(1) [of c] x(1) x(2) q]
    have "nx' y = nx y" if "y \<in> set (L d)" for y d
      using i(2) [of y] x(2) [of d] that by auto
    then have "queues_are (nx', Q(c := q')) (L(c := x # L c))"
      using i(1) D(2) [of c] x D(3) by (intro queues_are_upd [OF s [unfolded e]]) auto
    then show ?thesis using Preq e q by simp
  next
    case (Deq c)
    obtain x q' where q: "cthread_queue_deq nx (Q c) = (x, q')" by fastforce
    note i = deq_is [OF D(1) [of c] q]
    have "y \<in> set (L c)" if "y \<in> set (tl (L c))" for y using that by (cases "L c") auto
    then have "queues_are (nx, Q(c := q')) (L(c := tl (L c)))"
      using i D(2) [of c] D(3) by (intro queues_are_upd [OF s [unfolded e]]) (auto simp: distinct_tl)
    then show ?thesis using Deq e q i by simp
  qed
qed

lemma queue_run_is:
  assumes "queues_are s L" "queue_rules as L"
  shows "fst (queue_run as s) = fst (list_run as L) \<and> queues_are (snd (queue_run as s)) (snd (list_run as L))"
  using assms
proof (induction as arbitrary: s L)
  case (Cons a as)
  then show ?case
    using queue_do_is [of s L a] Cons.IH [of "snd (queue_do a s)" "snd (list_do a L)"]
    by (simp add: case_prod_unfold Let_def)
qed simp

lemma queues_are_init: "queues_are (nx, \<lambda>_. cthread_queue_init) (\<lambda>_. [])"
  by (simp add: queues_are_def queue_is_def cthread_queue_init_def)

text \<open>
  C20. The queue macros implement lists: over every sequence of operations on any number of queues that
  share their links, in which an item joins a queue only when it is in none, each dequeue returns the
  item at the front of its list, or null for an empty one, and walking a queue at the end gives its list.
\<close>

theorem queues_are_lists:
  assumes "queue_rules as (\<lambda>_. [])" "queue_run as (nx, \<lambda>_. cthread_queue_init) = (xs, nx', Q)"
  shows "xs = fst (list_run as (\<lambda>_. [])) \<and> cthread_queue_map nx' (Q c) = Some (snd (list_run as (\<lambda>_. [])) c)"
proof -
  have "xs = fst (list_run as (\<lambda>_. []))" "queues_are (nx', Q) (snd (list_run as (\<lambda>_. [])))"
    using queue_run_is [OF queues_are_init assms(1), of nx] assms(2) by auto
  then show ?thesis
    using queues_areD(1) [of nx' Q _ c] walk_links by (auto simp: cthread_queue_map_def queue_is_def)
qed

theorem queues_are_lists_witness:
  "\<exists>nx Q. queue_run [Enq 0 5, Enq 0 6, Preq 0 7, Enq 1 8, Deq 0, Deq 1, Deq 1] (\<lambda>_. 99, \<lambda>_. cthread_queue_init) =
     ([0, 0, 0, 0, 7, 8, 0], nx, Q) \<and> cthread_queue_map nx (Q 0) = Some [5, 6]"
proof -
  let ?as = "[Enq 0 5, Enq 0 6, Preq 0 7, Enq 1 8, Deq 0, Deq 1, Deq 1]"
  obtain xs nx Q where r: "queue_run ?as (\<lambda>_. 99, \<lambda>_. cthread_queue_init) = (xs, nx, Q)"
    by (metis prod_cases3)
  have "queue_rules ?as (\<lambda>_. [])" by simp
  from queues_are_lists [OF this r, of 0] r show ?thesis by simp
qed

end
