(* ===== verification/State_Machine.thy ===== *)
theory State_Machine
  imports Mach_Prelude
begin

text \<open>
  Concurrent programs as state machines: a relation of steps, each the work of one thread between
  two points where others may run. The locale \<open>state_machine\<close> is the contract of an invariant; it
  gives the invariant in every state the steps lead to.
\<close>

inductive reachable :: "('s \<Rightarrow> 's \<Rightarrow> bool) \<Rightarrow> 's \<Rightarrow> 's \<Rightarrow> bool" for step s where
  reachable_start: "reachable step s s"
| reachable_step: "reachable step s t \<Longrightarrow> step t u \<Longrightarrow> reachable step s u"

locale state_machine =
  fixes step :: "'s \<Rightarrow> 's \<Rightarrow> bool" and start :: 's and inv :: "'s \<Rightarrow> bool"
  assumes start_inv: "inv start"
    and step_inv: "inv s \<Longrightarrow> step s t \<Longrightarrow> inv t"
begin

lemma reachable_inv: "reachable step start s \<Longrightarrow> inv s"
  by (induction rule: reachable.induct) (auto intro: start_inv step_inv)

end

text \<open>
  Runs with events: a step either has an event, which a user of the program can see, or none. The locale
  \<open>event_refinement\<close> is the contract of a machine that implements a more abstract one: its steps keep
  an invariant, a step without event leaves the abstract state as it is, and a step with an event is an
  abstract step with this event. Its runs are then runs of the abstract machine, with the same events in the
  same order.
\<close>

inductive runs :: "('e option \<Rightarrow> 's \<Rightarrow> 's \<Rightarrow> bool) \<Rightarrow> 's \<Rightarrow> 'e list \<Rightarrow> 's \<Rightarrow> bool" for step s where
  runs_start: "runs step s [] s"
| runs_hidden: "runs step s es t \<Longrightarrow> step None t u \<Longrightarrow> runs step s es u"
| runs_event: "runs step s es t \<Longrightarrow> step (Some e) t u \<Longrightarrow> runs step s (es @ [e]) u"

lemma runs_reachable:
  "runs step s es t \<Longrightarrow> reachable (\<lambda>t u. \<exists>e. step e t u) s t"
  by (induction rule: runs.induct) (auto intro: reachable.intros)

lemma runs_hidden_trans:
  "runs step t [] u \<Longrightarrow> runs step s es t \<Longrightarrow> runs step s es u"
  by (induction "[] :: 'a list" u rule: runs.induct) (auto intro: runs.intros)

lemma runs_hidden_Cons: "step None s t \<Longrightarrow> runs step t [] u \<Longrightarrow> runs step s [] u"
  by (rule runs_hidden_trans) (auto intro: runs.intros)

locale event_refinement = state_machine "\<lambda>s t. \<exists>e. step e s t" start inv
  for step :: "'e option \<Rightarrow> 's \<Rightarrow> 's \<Rightarrow> bool" and start inv +
  fixes abs_step :: "'e option \<Rightarrow> 'a \<Rightarrow> 'a \<Rightarrow> bool" and abs_start :: 'a and abs :: "'s \<Rightarrow> 'a"
  assumes abs_start: "abs start = abs_start"
    and hidden: "inv s \<Longrightarrow> step None s t \<Longrightarrow> abs t = abs s"
    and event: "inv s \<Longrightarrow> step (Some e) s t \<Longrightarrow> abs_step (Some e) (abs s) (abs t)"
begin

lemma runs_inv: "runs step start es s \<Longrightarrow> inv s"
  by (rule reachable_inv [OF runs_reachable])

lemma runs_refine: "runs step start es s \<Longrightarrow> runs abs_step abs_start es (abs s)"
proof (induction rule: runs.induct)
  case runs_start
  then show ?case by (simp add: abs_start runs.runs_start)
next
  case (runs_hidden es t u)
  then show ?case using hidden [OF runs_inv] by metis
next
  case (runs_event es t e u)
  then show ?case using event [OF runs_inv] runs.runs_event by metis
qed

end

text \<open>
  Schedules: a list of moves, where a move either gives a step with its event or is not possible. The locale
  \<open>schedule\<close> is the contract of a function of moves; playing a schedule then gives a run.
\<close>

fun play :: "('x \<Rightarrow> 's \<Rightarrow> ('e option \<times> 's) option) \<Rightarrow> 'x list \<Rightarrow> 'e list \<times> 's \<Rightarrow> ('e list \<times> 's) option" where
  "play f [] r = Some r"
| "play f (x # xs) (es, s) = (case f x s of
       None \<Rightarrow> None | Some (None, s') \<Rightarrow> play f xs (es, s') | Some (Some e, s') \<Rightarrow> play f xs (es @ [e], s'))"

definition played :: "('x \<Rightarrow> 's \<Rightarrow> ('e option \<times> 's) option) \<Rightarrow> 's \<Rightarrow> 'x list \<Rightarrow> 's" where
  "played f s xs = snd (the (play f xs ([], s)))"

locale schedule =
  fixes step :: "'e option \<Rightarrow> 's \<Rightarrow> 's \<Rightarrow> bool" and f :: "'x \<Rightarrow> 's \<Rightarrow> ('e option \<times> 's) option"
  assumes f_step: "f x s = Some (e, s') \<Longrightarrow> step e s s'"
begin

lemma play_runs:
  "play f xs r = Some (fs, s') \<Longrightarrow> runs step s0 (fst r) (snd r) \<Longrightarrow> runs step s0 fs s'"
proof (induction xs arbitrary: r)
  case (Cons x xs)
  then obtain e s where m: "f x (snd r) = Some (e, s)"
    by (cases r) (auto split: option.splits)
  note st = f_step [OF m]
  show ?case
  proof (cases e)
    case None
    with m Cons.prems(1) have "play f xs (fst r, s) = Some (fs, s')" by (cases r) simp
    then show ?thesis using Cons.IH [of "(fst r, s)"] st None runs_hidden [OF Cons.prems(2)] by simp
  next
    case (Some g)
    with m Cons.prems(1) have "play f xs (fst r @ [g], s) = Some (fs, s')" by (cases r) simp
    then show ?thesis using Cons.IH [of "(fst r @ [g], s)"] st Some runs_event [OF Cons.prems(2)] by simp
  qed
qed simp

lemma played_runs:
  assumes "map_option fst (play f xs ([], s)) = Some es" shows "runs step s es (played f s xs)"
proof -
  from assms obtain s' where "play f xs ([], s) = Some (es, s')" by auto
  then show ?thesis using play_runs [of xs "([], s)" es s' s] by (simp add: played_def runs_start)
qed

end

end
