(* ===== verification/Cprocs.thy ===== *)
theory Cprocs
  imports State_Machine
begin

text \<open>
  Mutexes and condition variables of the thread library, lib/threads/cprocs.c, in the variant
  for kernel threads (MTHREAD). A thread that waits for a condition first watches its own state, and
  then blocks in a receive on its port; a thread that signals the condition takes waiting threads from
  its queue, sets their state, and sends a message to those that block.

  A step is what a thread does between two points where others can see or change what it uses:
  a section under the spin lock of a condition, one look at its state, one message. The
  queue of a condition is a list; the library links it through the threads, which is the
  same as long as no thread is in two queues. A mutex is free or held by a thread. A port holds at
  most one message (\<open>mach_port_set_qlimit\<close>), and a send to a full port gives up
  (\<open>MACH_SEND_TIMEOUT\<close>).
\<close>

datatype cproc_state = CPROC_RUNNING | CPROC_SPINNING | CPROC_BLOCKED

text \<open>
  Where a thread is: outside of the library; in \<open>condition_wait\<close> before the release of the mutex, in
  its loops, in the receive, and at the end taking the mutex again; in \<open>cond_signal\<close> or
  \<open>cond_broadcast\<close> before taking threads from the queue; in \<open>cproc_continue\<close> for the first of a list of
  threads, and there before the message.
\<close>

datatype cpoint = Outside | Unlocking nat nat | Watching nat nat nat | Receiving nat nat | Relocking nat
  | Signalling nat | Broadcasting nat | Continuing nat "nat list" | Sending nat nat "nat list"

record cthreads =
  cstate :: "nat \<Rightarrow> cproc_state"
  wait_port :: "nat \<Rightarrow> nat"
  cqueue :: "nat \<Rightarrow> nat list"
  mutex :: "nat \<Rightarrow> nat option"
  cpc :: "nat \<Rightarrow> cpoint"

definition condition_spin_limit :: nat where "condition_spin_limit = 0"
definition condition_yield_limit :: nat where "condition_yield_limit = 7"
definition PORT_QLIMIT :: nat where "PORT_QLIMIT = 1"

definition at_point :: "nat \<Rightarrow> cpoint \<Rightarrow> cthreads \<Rightarrow> cthreads" where
  "at_point t p s = s\<lparr>cpc := (cpc s)(t := p)\<rparr>"

section \<open>Waiting\<close>

definition condition_wait :: "nat \<Rightarrow> nat \<Rightarrow> nat \<Rightarrow> cthreads \<Rightarrow> cthreads" where
  "condition_wait t c m s = at_point t (Unlocking c m)
     (s\<lparr>cstate := (cstate s)(t := CPROC_SPINNING), cqueue := (cqueue s)(c := cqueue s c @ [t])\<rparr>)"

definition wait_unlock :: "nat \<Rightarrow> nat \<Rightarrow> nat \<Rightarrow> cthreads \<Rightarrow> cthreads" where
  "wait_unlock t c m s = at_point t (Watching c m (condition_spin_limit + condition_yield_limit)) (s\<lparr>mutex := (mutex s)(m := None)\<rparr>)"

definition wait_watch :: "nat \<Rightarrow> nat \<Rightarrow> nat \<Rightarrow> nat \<Rightarrow> cthreads \<Rightarrow> cthreads" where
  "wait_watch t c m n s =
     (if cstate s t = CPROC_RUNNING then at_point t (Relocking m) s
      else if n \<noteq> 0 then at_point t (Watching c m (n - 1)) s
      else at_point t (Receiving c m) (s\<lparr>cstate := (cstate s)(t := CPROC_BLOCKED)\<rparr>))"

definition wait_receive :: "nat \<Rightarrow> nat \<Rightarrow> nat \<Rightarrow> cthreads \<Rightarrow> cthreads option" where
  "wait_receive t c m s =
     (if wait_port s t = 0 then None
      else Some (at_point t (Relocking m) (s\<lparr>wait_port := (wait_port s)(t := wait_port s t - 1)\<rparr>)))"

definition mutex_lock :: "nat \<Rightarrow> nat \<Rightarrow> cthreads \<Rightarrow> cthreads option" where
  "mutex_lock t m s = (if mutex s m = None then Some (at_point t Outside (s\<lparr>mutex := (mutex s)(m := Some t)\<rparr>)) else None)"

definition mutex_unlock :: "nat \<Rightarrow> cthreads \<Rightarrow> cthreads" where
  "mutex_unlock m s = s\<lparr>mutex := (mutex s)(m := None)\<rparr>"

section \<open>Signals\<close>

definition condition_signal :: "nat \<Rightarrow> nat \<Rightarrow> cthreads \<Rightarrow> cthreads" where
  "condition_signal t c s = (if cqueue s c \<noteq> [] then at_point t (Signalling c) s else s)"

definition condition_broadcast :: "nat \<Rightarrow> nat \<Rightarrow> cthreads \<Rightarrow> cthreads" where
  "condition_broadcast t c s = (if cqueue s c \<noteq> [] then at_point t (Broadcasting c) s else s)"

definition cond_signal :: "nat \<Rightarrow> nat \<Rightarrow> cthreads \<Rightarrow> cthreads" where
  "cond_signal t c s = (case cqueue s c of
       [] \<Rightarrow> at_point t Outside s
     | p # ps \<Rightarrow> at_point t (Continuing c [p]) (s\<lparr>cqueue := (cqueue s)(c := ps)\<rparr>))"

definition cond_broadcast :: "nat \<Rightarrow> nat \<Rightarrow> cthreads \<Rightarrow> cthreads" where
  "cond_broadcast t c s = at_point t (Continuing c (cqueue s c)) (s\<lparr>cqueue := (cqueue s)(c := [])\<rparr>)"

definition cproc_continue :: "nat \<Rightarrow> nat \<Rightarrow> nat \<Rightarrow> nat list \<Rightarrow> cthreads \<Rightarrow> cthreads" where
  "cproc_continue t c p ps s =
     (let old_state = cstate s p; s = s\<lparr>cstate := (cstate s)(p := CPROC_RUNNING)\<rparr> in
      if old_state \<noteq> CPROC_BLOCKED then at_point t (Continuing c ps) s
      else at_point t (Sending c p ps) s)"

definition send_wakeup :: "nat \<Rightarrow> nat \<Rightarrow> nat \<Rightarrow> nat list \<Rightarrow> cthreads \<Rightarrow> cthreads" where
  "send_wakeup t c p ps s = at_point t (Continuing c ps)
     (if wait_port s p < PORT_QLIMIT then s\<lparr>wait_port := (wait_port s)(p := wait_port s p + 1)\<rparr> else s)"

section \<open>Steps\<close>

text \<open>What a thread inside the library does next; none when it must wait.\<close>

definition advance :: "nat \<Rightarrow> cthreads \<Rightarrow> cthreads option" where
  "advance t s = (case cpc s t of
     Outside \<Rightarrow> None
   | Unlocking c m \<Rightarrow> Some (wait_unlock t c m s)
   | Watching c m n \<Rightarrow> Some (wait_watch t c m n s)
   | Receiving c m \<Rightarrow> wait_receive t c m s
   | Relocking m \<Rightarrow> mutex_lock t m s
   | Signalling c \<Rightarrow> Some (cond_signal t c s)
   | Broadcasting c \<Rightarrow> Some (cond_broadcast t c s)
   | Continuing c [] \<Rightarrow> Some (at_point t Outside s)
   | Continuing c (p # ps) \<Rightarrow> Some (cproc_continue t c p ps s)
   | Sending c p ps \<Rightarrow> Some (send_wakeup t c p ps s))"

text \<open>
  What a step does for the users of the library: a thread waits, which releases its mutex; a signal or a
  broadcast has its effect; a thread returns from its wait with the mutex; a mutex is taken or
  released. A signal has its effect when \<open>cond_signal\<close> takes a thread from the queue, or already in the macro
  \<open>condition_signal\<close> when it finds the queue empty. The other steps have no event.
\<close>

datatype cevent = Wait nat nat nat | Wakeup nat nat | Signal nat | Broadcast nat | Lock nat nat | Unlock nat nat

definition advance_event :: "nat \<Rightarrow> cthreads \<Rightarrow> cevent option" where
  "advance_event t s = (case cpc s t of
     Relocking m \<Rightarrow> Some (Wakeup t m) | Signalling c \<Rightarrow> Some (Signal c)
   | Broadcasting c \<Rightarrow> Some (Broadcast c) | _ \<Rightarrow> None)"

definition if_empty :: "nat list \<Rightarrow> cevent \<Rightarrow> cevent option" where
  "if_empty q e = (if q = [] then Some e else None)"

text \<open>
  Threads outside call the library: they wait with a mutex they hold, and release only such mutexes.
\<close>

inductive cthread_step :: "cevent option \<Rightarrow> cthreads \<Rightarrow> cthreads \<Rightarrow> bool" where
  c_advance: "advance t s = Some s' \<Longrightarrow> cthread_step (advance_event t s) s s'"
| c_wait: "cpc s t = Outside \<Longrightarrow> mutex s m = Some t \<Longrightarrow> cthread_step (Some (Wait t c m)) s (condition_wait t c m s)"
| c_signal: "cpc s t = Outside \<Longrightarrow> cthread_step (if_empty (cqueue s c) (Signal c)) s (condition_signal t c s)"
| c_broadcast: "cpc s t = Outside \<Longrightarrow> cthread_step (if_empty (cqueue s c) (Broadcast c)) s (condition_broadcast t c s)"
| c_lock: "cpc s t = Outside \<Longrightarrow> mutex_lock t m s = Some s' \<Longrightarrow> cthread_step (Some (Lock t m)) s s'"
| c_unlock: "cpc s t = Outside \<Longrightarrow> mutex s m = Some t \<Longrightarrow> cthread_step (Some (Unlock t m)) s (mutex_unlock m s)"

definition cthreads_start :: cthreads where
  "cthreads_start = \<lparr>cstate = (\<lambda>_. CPROC_RUNNING), wait_port = (\<lambda>_. 0), cqueue = (\<lambda>_. []), mutex = (\<lambda>_. None), cpc = (\<lambda>_. Outside)\<rparr>"

end
