(* ===== verification/Cprocs_Inv.thy ===== *)
theory Cprocs_Inv
  imports Cprocs
begin

text \<open>
  The invariant of the condition variables: a thread is in at most one queue or list of threads to be
  continued, its state tells whether it is in one, and a thread in the receive whose state is already
  \<open>CPROC_RUNNING\<close> has a message in its port or there is one thread about to send it.
\<close>

datatype place = Queued nat | Taken nat

fun woken :: "cpoint \<Rightarrow> nat list" where
  "woken (Continuing c ps) = ps"
| "woken (Sending c p ps) = ps"
| "woken _ = []"

fun sending :: "cpoint \<Rightarrow> nat option" where
  "sending (Sending c p ps) = Some p"
| "sending _ = None"

fun on_list :: "nat \<Rightarrow> place option \<Rightarrow> bool" where
  "on_list c (Some (Queued d)) \<longleftrightarrow> d = c"
| "on_list c (Some (Taken u)) \<longleftrightarrow> True"
| "on_list c None \<longleftrightarrow> False"

definition spins :: "nat \<Rightarrow> cproc_state \<Rightarrow> place option \<Rightarrow> bool" where
  "spins c st l \<longleftrightarrow> st = CPROC_SPINNING \<and> on_list c l \<or> st = CPROC_RUNNING \<and> l = None"

fun thread_ok :: "cpoint \<Rightarrow> cproc_state \<Rightarrow> nat \<Rightarrow> place option \<Rightarrow> nat option \<Rightarrow> bool" where
  "thread_ok (Unlocking c m) st port l sn \<longleftrightarrow> spins c st l \<and> port = 0 \<and> sn = None"
| "thread_ok (Watching c m n) st port l sn \<longleftrightarrow> spins c st l \<and> port = 0 \<and> sn = None"
| "thread_ok (Receiving c m) st port l sn \<longleftrightarrow>
     st = CPROC_BLOCKED \<and> on_list c l \<and> port = 0 \<and> sn = None \<or>
     st = CPROC_RUNNING \<and> l = None \<and> (port = 1 \<and> sn = None \<or> port = 0 \<and> sn \<noteq> None)"
| "thread_ok _ st port l sn \<longleftrightarrow> st = CPROC_RUNNING \<and> l = None \<and> port = 0 \<and> sn = None"

definition lists_ok :: "(nat \<Rightarrow> nat list) \<Rightarrow> (nat \<Rightarrow> cpoint) \<Rightarrow> (nat \<Rightarrow> place option) \<Rightarrow> (nat \<Rightarrow> nat option) \<Rightarrow> bool" where
  "lists_ok q pc loc sn \<longleftrightarrow>
     (\<forall>c. distinct (q c)) \<and> (\<forall>u. distinct (woken (pc u))) \<and>
     (\<forall>c p. p \<in> set (q c) \<longleftrightarrow> loc p = Some (Queued c)) \<and>
     (\<forall>u p. p \<in> set (woken (pc u)) \<longleftrightarrow> loc p = Some (Taken u)) \<and>
     (\<forall>u p. sending (pc u) = Some p \<longleftrightarrow> sn p = Some u)"

definition mutexes_ok :: "(nat \<Rightarrow> nat option) \<Rightarrow> (nat \<Rightarrow> cpoint) \<Rightarrow> bool" where
  "mutexes_ok mx pc \<longleftrightarrow> (\<forall>t c m. pc t = Unlocking c m \<longrightarrow> mx m = Some t)"

definition placed :: "(nat \<Rightarrow> place option) \<Rightarrow> (nat \<Rightarrow> nat option) \<Rightarrow> cthreads \<Rightarrow> bool" where
  "placed loc sn s \<longleftrightarrow> lists_ok (cqueue s) (cpc s) loc sn \<and> mutexes_ok (mutex s) (cpc s) \<and>
     (\<forall>t. thread_ok (cpc s t) (cstate s t) (wait_port s t) (loc t) (sn t))"

definition cthreads_inv :: "cthreads \<Rightarrow> bool" where
  "cthreads_inv s \<longleftrightarrow> (\<exists>loc sn. placed loc sn s)"

section \<open>What the invariant says\<close>

lemma placedD:
  assumes "placed loc sn s"
  shows "thread_ok (cpc s t) (cstate s t) (wait_port s t) (loc t) (sn t)"
    "p \<in> set (cqueue s c) \<longleftrightarrow> loc p = Some (Queued c)"
    "p \<in> set (woken (cpc s u)) \<longleftrightarrow> loc p = Some (Taken u)"
    "sending (cpc s u) = Some p \<longleftrightarrow> sn p = Some u"
    "distinct (cqueue s c)" "distinct (woken (cpc s u))"
    "cpc s t = Unlocking c m \<Longrightarrow> mutex s m = Some t"
  using assms by (auto simp: placed_def lists_ok_def mutexes_ok_def)

lemma spins_on: "spins c st l \<Longrightarrow> l \<noteq> None \<Longrightarrow> st = CPROC_SPINNING \<and> on_list c l"
  by (auto simp: spins_def)

lemma spins_off: "spins c st None \<longleftrightarrow> st = CPROC_RUNNING"
  by (auto simp: spins_def)

text \<open>A thread in a queue is in a wait: whatever its list, it may move to the list of a thread that continues it.\<close>

lemma thread_ok_taken:
  "thread_ok pc st port (Some l) sn \<Longrightarrow> thread_ok pc st port (Some (Taken u)) sn"
  by (cases pc) (auto simp: spins_def)

text \<open>A thread that is continued has the state \<open>CPROC_RUNNING\<close>; if it was blocked, a message is due.\<close>

lemma thread_ok_continued:
  assumes "thread_ok pc st port (Some l) sn"
  shows "thread_ok pc CPROC_RUNNING port None (if st = CPROC_BLOCKED then Some u else None)"
  using assms by (cases pc) (auto simp: spins_def)

lemma thread_ok_listed:
  assumes "thread_ok pc st port (Some l) sn"
  shows "port = 0" "sn = None" "woken pc = []" "sending pc = None"
  using assms by (cases pc; simp add: spins_def)+

lemma thread_ok_sent:
  assumes "thread_ok pc st port l (Some u)"
  shows "port = 0" "thread_ok pc st 1 l None" "woken pc = []" "sending pc = None" "\<exists>c m. pc = Receiving c m"
  using assms by (cases pc; simp)+

section \<open>The steps keep the invariant\<close>

lemma at_point_sel [simp]:
  "cpc (at_point t pc s) = (cpc s)(t := pc)" "cstate (at_point t pc s) = cstate s"
  "wait_port (at_point t pc s) = wait_port s" "cqueue (at_point t pc s) = cqueue s" "mutex (at_point t pc s) = mutex s"
  by (simp_all add: at_point_def)

text \<open>A thread moves, and may change its own state and its port.\<close>

lemma placed_move:
  assumes inv: "placed loc sn s"
    and "woken pc = woken (cpc s t)" "sending pc = sending (cpc s t)" "\<And>c m. pc \<noteq> Unlocking c m"
    and "thread_ok pc st port (loc t) (sn t)"
  shows "placed loc sn (at_point t pc (s\<lparr>cstate := (cstate s)(t := st), wait_port := (wait_port s)(t := port)\<rparr>))"
  using assms by (auto simp: placed_def lists_ok_def mutexes_ok_def)

lemma placed_move_pc:
  assumes "placed loc sn s"
    and "woken pc = woken (cpc s t)" "sending pc = sending (cpc s t)" "\<And>c m. pc \<noteq> Unlocking c m"
    and "thread_ok pc (cstate s t) (wait_port s t) (loc t) (sn t)"
  shows "placed loc sn (at_point t pc s)"
  using placed_move [OF assms(1-5)] by simp

lemma placed_move_state:
  assumes "placed loc sn s"
    and "woken pc = woken (cpc s t)" "sending pc = sending (cpc s t)" "\<And>c m. pc \<noteq> Unlocking c m"
    and "thread_ok pc st (wait_port s t) (loc t) (sn t)"
  shows "placed loc sn (at_point t pc (s\<lparr>cstate := (cstate s)(t := st)\<rparr>))"
  using placed_move [OF assms(1-5)] by simp

lemma placed_move_port:
  assumes "placed loc sn s"
    and "woken pc = woken (cpc s t)" "sending pc = sending (cpc s t)" "\<And>c m. pc \<noteq> Unlocking c m"
    and "thread_ok pc (cstate s t) port (loc t) (sn t)"
  shows "placed loc sn (at_point t pc (s\<lparr>wait_port := (wait_port s)(t := port)\<rparr>))"
  using placed_move [OF assms(1-5)] by simp

lemma placed_outside:
  assumes inv: "placed loc sn s" and out: "cpc s t = Outside"
  shows "cstate s t = CPROC_RUNNING \<and> loc t = None \<and> wait_port s t = 0 \<and> sn t = None"
  using placedD(1) [OF inv, of t] out by simp

lemma condition_wait_placed:
  assumes inv: "placed loc sn s" and out: "cpc s t = Outside" and own: "mutex s m = Some t"
  shows "placed (loc(t := Some (Queued c))) sn (condition_wait t c m s)"
proof -
  note t = placed_outside [OF inv out]
  have none: "loc p \<noteq> Some (Taken t)" "sn p \<noteq> Some t" for p
    using placedD(3) [OF inv, of p t] placedD(4) [OF inv, of t p] out by auto
  have l: "lists_ok ((cqueue s)(c := cqueue s c @ [t])) ((cpc s)(t := Unlocking c m)) (loc(t := Some (Queued c))) sn"
    using inv out t none unfolding placed_def lists_ok_def by auto
  show ?thesis
    using inv t own l by (auto simp: placed_def mutexes_ok_def condition_wait_def spins_def)
qed

lemma wait_unlock_placed:
  assumes inv: "placed loc sn s" and pc: "cpc s t = Unlocking c m"
  shows "placed loc sn (wait_unlock t c m s)"
proof -
  have "placed loc sn (at_point t (Watching c m n) s)" for n
    using placedD(1) [OF inv, of t] pc by (intro placed_move_pc [OF inv]) auto
  moreover have "u = t" if "cpc s u = Unlocking d m" for u d
    using placedD(7) [OF inv that] placedD(7) [OF inv pc] by simp
  ultimately show ?thesis
    by (auto simp: placed_def mutexes_ok_def wait_unlock_def)
qed

lemma wait_watch_placed:
  assumes inv: "placed loc sn s" and pc: "cpc s t = Watching c m n"
  shows "placed loc sn (wait_watch t c m n s)"
proof -
  have ok: "thread_ok (Watching c m n) (cstate s t) (wait_port s t) (loc t) (sn t)"
    using placedD(1) [OF inv, of t] pc by simp
  consider "cstate s t = CPROC_RUNNING" | "cstate s t \<noteq> CPROC_RUNNING" "n \<noteq> 0" | "cstate s t \<noteq> CPROC_RUNNING" "n = 0"
    by blast
  then show ?thesis
  proof cases
    case 1
    with ok pc show ?thesis
      by (auto simp: wait_watch_def spins_def intro!: placed_move_pc [OF inv])
  next
    case 2
    with ok pc show ?thesis
      by (auto simp: wait_watch_def intro!: placed_move_pc [OF inv])
  next
    case 3
    with ok pc show ?thesis
      by (auto simp: wait_watch_def spins_def intro!: placed_move_state [OF inv])
  qed
qed

lemma wait_receive_placed:
  assumes inv: "placed loc sn s" and pc: "cpc s t = Receiving c m" and r: "wait_receive t c m s = Some s'"
  shows "placed loc sn s'"
  using placedD(1) [OF inv, of t] pc r
  by (auto simp: wait_receive_def split: if_splits intro!: placed_move_port [OF inv])

lemma mutex_lock_placed:
  assumes inv: "placed loc sn s" and pc: "cpc s t = Relocking m' \<or> cpc s t = Outside" and l: "mutex_lock t m s = Some s'"
  shows "placed loc sn s'"
proof -
  have "placed loc sn (at_point t Outside s)"
    using placedD(1) [OF inv, of t] pc by (intro placed_move_pc [OF inv]) auto
  then show ?thesis
    using l placedD(7) [OF inv] by (fastforce simp: placed_def mutexes_ok_def mutex_lock_def split: if_splits)
qed

lemma mutex_unlock_placed:
  assumes inv: "placed loc sn s" and "cpc s t = Outside" "mutex s m = Some t"
  shows "placed loc sn (mutex_unlock m s)"
  using assms placedD(7) [OF inv] by (fastforce simp: placed_def mutexes_ok_def mutex_unlock_def)

lemma condition_signal_placed:
  assumes inv: "placed loc sn s" and out: "cpc s t = Outside"
  shows "placed loc sn (condition_signal t c s)" "placed loc sn (condition_broadcast t c s)"
  using placed_outside [OF inv out] out inv
  by (auto simp: condition_signal_def condition_broadcast_def intro!: placed_move_pc [OF inv])

lemma cond_signal_placed:
  assumes inv: "placed loc sn s" and pc: "cpc s t = Signalling c"
  shows "\<exists>loc. placed loc sn (cond_signal t c s)"
proof (cases "cqueue s c")
  case Nil
  with placedD(1) [OF inv, of t] pc have "placed loc sn (cond_signal t c s)"
    by (auto simp: cond_signal_def intro!: placed_move_pc [OF inv])
  then show ?thesis by blast
next
  case (Cons p ps)
  let ?loc = "loc(p := Some (Taken t))"
  have p: "loc p = Some (Queued c)" "p \<notin> set ps" "distinct ps"
    using placedD(2) [OF inv, of p c] placedD(5) [OF inv, of c] Cons by auto
  have t: "loc t = None" "cstate s t = CPROC_RUNNING" "wait_port s t = 0" "sn t = None"
    using placedD(1) [OF inv, of t] pc by auto
  have none: "loc q \<noteq> Some (Taken t)" "sn q \<noteq> Some t" for q
    using placedD(3) [OF inv, of q t] placedD(4) [OF inv, of t q] pc by auto
  have ps: "q \<noteq> p \<Longrightarrow> loc q = Some (Queued c) \<longleftrightarrow> q \<in> set ps" for q
    using placedD(2) [OF inv, of q c] Cons by auto
  have "lists_ok ((cqueue s)(c := ps)) ((cpc s)(t := Continuing c [p])) ?loc sn"
    using inv p none ps unfolding placed_def lists_ok_def by auto
  moreover have "mutexes_ok (mutex s) ((cpc s)(t := Continuing c [p]))"
    using inv by (auto simp: placed_def mutexes_ok_def)
  moreover have "thread_ok (((cpc s)(t := Continuing c [p])) u) (cstate s u) (wait_port s u) (?loc u) (sn u)" for u
    using placedD(1) [OF inv, of u] t p by (auto intro: thread_ok_taken)
  ultimately have "placed ?loc sn (cond_signal t c s)"
    by (simp add: placed_def cond_signal_def Cons)
  then show ?thesis by blast
qed

lemma cond_broadcast_placed:
  assumes inv: "placed loc sn s" and pc: "cpc s t = Broadcasting c"
  shows "\<exists>loc. placed loc sn (cond_broadcast t c s)"
proof -
  let ?loc = "\<lambda>p. if loc p = Some (Queued c) then Some (Taken t) else loc p"
  have none: "loc p \<noteq> Some (Taken t)" "sn p \<noteq> Some t" for p
    using placedD(3) [OF inv, of p t] placedD(4) [OF inv, of t p] pc by auto
  have "lists_ok ((cqueue s)(c := [])) ((cpc s)(t := Continuing c (cqueue s c))) ?loc sn"
    using inv pc none unfolding placed_def lists_ok_def by auto
  moreover have "mutexes_ok (mutex s) ((cpc s)(t := Continuing c (cqueue s c)))"
    using inv by (auto simp: placed_def mutexes_ok_def)
  moreover have "thread_ok (((cpc s)(t := Continuing c (cqueue s c))) u) (cstate s u) (wait_port s u) (?loc u) (sn u)" for u
    using placedD(1) [OF inv, of u] placedD(1) [OF inv, of t] pc by (auto intro: thread_ok_taken)
  ultimately have "placed ?loc sn (cond_broadcast t c s)"
    by (simp add: placed_def cond_broadcast_def)
  then show ?thesis by blast
qed

lemma cproc_continue_placed:
  assumes inv: "placed loc sn s" and pc: "cpc s t = Continuing c (p # ps)"
  shows "\<exists>loc sn. placed loc sn (cproc_continue t c p ps s)"
proof -
  let ?b = "cstate s p = CPROC_BLOCKED"
  let ?loc = "loc(p := None)" and ?sn = "sn(p := if ?b then Some t else None)"
  let ?pc = "if ?b then Sending c p ps else Continuing c ps"
  have p: "loc p = Some (Taken t)" "p \<notin> set ps" "distinct ps"
    using placedD(3) [OF inv, of p t] placedD(6) [OF inv, of t] pc by auto
  note okp = placedD(1) [OF inv, of p, unfolded p(1)]
  have t: "thread_ok ?pc (cstate s t) (wait_port s t) (loc t) (sn t)" "p \<noteq> t"
    using placedD(1) [OF inv, of t] p(1) pc by auto
  have none: "sn q \<noteq> Some t" for q
    using placedD(4) [OF inv, of t q] pc by auto
  have ps: "q \<noteq> p \<Longrightarrow> loc q = Some (Taken t) \<longleftrightarrow> q \<in> set ps" for q
    using placedD(3) [OF inv, of q t] pc by auto
  have "lists_ok (cqueue s) ((cpc s)(t := ?pc)) ?loc ?sn"
    using inv p none ps thread_ok_listed(2) [OF okp] unfolding placed_def lists_ok_def by auto
  moreover have "mutexes_ok (mutex s) ((cpc s)(t := ?pc))"
    using inv by (auto simp: placed_def mutexes_ok_def)
  moreover have "thread_ok (((cpc s)(t := ?pc)) u) (((cstate s)(p := CPROC_RUNNING)) u) (wait_port s u) (?loc u) (?sn u)" for u
    using placedD(1) [OF inv, of u] t thread_ok_continued [OF okp, of t] by auto
  moreover have "cproc_continue t c p ps s = at_point t ?pc (s\<lparr>cstate := (cstate s)(p := CPROC_RUNNING)\<rparr>)"
    by (simp add: cproc_continue_def Let_def)
  ultimately have "placed ?loc ?sn (cproc_continue t c p ps s)"
    by (simp add: placed_def del: fun_upd_apply)
  then show ?thesis by blast
qed

text \<open>The port of a thread that gets a message is empty: the send never has to give up.\<close>

lemma send_port_empty:
  assumes inv: "placed loc sn s" and pc: "cpc s t = Sending c p ps"
  shows "wait_port s p = 0" "sn p = Some t" "p \<noteq> t" "\<exists>d m. cpc s p = Receiving d m"
proof -
  show sn: "sn p = Some t" using placedD(4) [OF inv, of t p] pc by simp
  show "wait_port s p = 0" "\<exists>d m. cpc s p = Receiving d m"
    using thread_ok_sent [OF placedD(1) [OF inv, of p, unfolded sn]] by auto
  then show "p \<noteq> t" using pc by auto
qed

lemma send_wakeup_placed:
  assumes inv: "placed loc sn s" and pc: "cpc s t = Sending c p ps"
  shows "\<exists>sn. placed loc sn (send_wakeup t c p ps s)"
proof -
  let ?sn = "sn(p := None)"
  note p = send_port_empty [OF inv pc]
  note okp = placedD(1) [OF inv, of p, unfolded p(2)]
  have t: "thread_ok (Continuing c ps) (cstate s t) (wait_port s t) (loc t) (sn t)"
    using placedD(1) [OF inv, of t] pc by simp
  have only: "q \<noteq> p \<Longrightarrow> sn q \<noteq> Some t" for q
    using placedD(4) [OF inv, of t q] pc by auto
  have ps: "loc q = Some (Taken t) \<longleftrightarrow> q \<in> set ps" "distinct ps" for q
    using placedD(3) [OF inv, of q t] placedD(6) [OF inv, of t] pc by auto
  have "lists_ok (cqueue s) ((cpc s)(t := Continuing c ps)) loc ?sn"
    using inv p(2) only ps unfolding placed_def lists_ok_def by auto
  moreover have "mutexes_ok (mutex s) ((cpc s)(t := Continuing c ps))"
    using inv by (auto simp: placed_def mutexes_ok_def)
  moreover have "thread_ok (((cpc s)(t := Continuing c ps)) u) (cstate s u) (((wait_port s)(p := 1)) u) (loc u) (?sn u)" for u
    using placedD(1) [OF inv, of u] t p thread_ok_sent(2) [OF okp] by auto
  ultimately have "placed loc ?sn (send_wakeup t c p ps s)"
    using p by (simp add: placed_def send_wakeup_def PORT_QLIMIT_def)
  then show ?thesis by blast
qed

section \<open>All steps\<close>

lemma continued_placed:
  assumes inv: "placed loc sn s" and pc: "cpc s t = Continuing c []"
  shows "placed loc sn (at_point t Outside s)"
  using placedD(1) [OF inv, of t] pc by (auto intro!: placed_move_pc [OF inv])

lemmas advance_placed =
  wait_unlock_placed wait_watch_placed wait_receive_placed mutex_lock_placed cond_signal_placed
  cond_broadcast_placed continued_placed cproc_continue_placed send_wakeup_placed

lemma advance_inv:
  assumes "cthreads_inv s" "advance t s = Some s'"
  shows "cthreads_inv s'"
proof -
  from assms(1) obtain loc sn where inv: "placed loc sn s" by (auto simp: cthreads_inv_def)
  note step = advance_placed [OF inv, where t = t]
  show ?thesis
    using assms(2) step unfolding advance_def cthreads_inv_def
    by (cases "cpc s t") (simp split: list.splits; fast)+
qed

lemma cthread_step_inv:
  assumes "cthread_step e s s'" "cthreads_inv s"
  shows "cthreads_inv s'"
  using assms
proof (induction rule: cthread_step.induct)
  case (c_advance t s s')
  then show ?case using advance_inv by blast
qed (auto simp: cthreads_inv_def
    dest: condition_wait_placed condition_signal_placed mutex_lock_placed mutex_unlock_placed)

lemma cthreads_start_inv: "cthreads_inv cthreads_start"
proof -
  have "placed (\<lambda>_. None) (\<lambda>_. None) cthreads_start"
    by (simp add: placed_def lists_ok_def mutexes_ok_def cthreads_start_def)
  then show ?thesis by (auto simp: cthreads_inv_def)
qed

end
