(* ===== verification/Cprocs_Spec.thy ===== *)
theory Cprocs_Spec
  imports Cprocs_Inv
begin

text \<open>
  What the condition variables promise, as a machine whose operations are atomic: a wait releases the
  mutex and joins the threads asleep in one step, a signal wakes the thread that has waited longest, a
  broadcast wakes all, and a woken thread takes its mutex when it is free. Every run of the threads
  of Cprocs is a run of this machine, and a woken thread can always come to the mutex.
\<close>

section \<open>The specification\<close>

datatype athread = Active | Asleep nat nat | Woken nat

record acv =
  athreads :: "nat \<Rightarrow> athread"
  aqueue :: "nat \<Rightarrow> nat list"
  amutex :: "nat \<Rightarrow> nat option"

fun wake :: "athread \<Rightarrow> athread" where
  "wake (Asleep c m) = Woken m"
| "wake a = a"

definition wake_all :: "nat list \<Rightarrow> (nat \<Rightarrow> athread) \<Rightarrow> nat \<Rightarrow> athread" where
  "wake_all ps f = (\<lambda>t. if t \<in> set ps then wake (f t) else f t)"

fun acv_do :: "cevent \<Rightarrow> acv \<Rightarrow> acv option" where
  "acv_do (Wait t c m) a =
     (if athreads a t = Active \<and> amutex a m = Some t
      then Some (a\<lparr>athreads := (athreads a)(t := Asleep c m), aqueue := (aqueue a)(c := aqueue a c @ [t]),
                   amutex := (amutex a)(m := None)\<rparr>) else None)"
| "acv_do (Signal c) a =
     Some (a\<lparr>athreads := wake_all (take 1 (aqueue a c)) (athreads a), aqueue := (aqueue a)(c := drop 1 (aqueue a c))\<rparr>)"
| "acv_do (Broadcast c) a =
     Some (a\<lparr>athreads := wake_all (aqueue a c) (athreads a), aqueue := (aqueue a)(c := [])\<rparr>)"
| "acv_do (Wakeup t m) a =
     (if athreads a t = Woken m \<and> amutex a m = None
      then Some (a\<lparr>athreads := (athreads a)(t := Active), amutex := (amutex a)(m := Some t)\<rparr>) else None)"
| "acv_do (Lock t m) a =
     (if athreads a t = Active \<and> amutex a m = None then Some (a\<lparr>amutex := (amutex a)(m := Some t)\<rparr>) else None)"
| "acv_do (Unlock t m) a =
     (if athreads a t = Active \<and> amutex a m = Some t then Some (a\<lparr>amutex := (amutex a)(m := None)\<rparr>) else None)"

definition acv_step :: "cevent option \<Rightarrow> acv \<Rightarrow> acv \<Rightarrow> bool" where
  "acv_step e a b \<longleftrightarrow> (case e of None \<Rightarrow> a = b | Some e \<Rightarrow> acv_do e a = Some b)"

definition acv_start :: acv where
  "acv_start = \<lparr>athreads = (\<lambda>_. Active), aqueue = (\<lambda>_. []), amutex = (\<lambda>_. None)\<rparr>"

section \<open>The abstraction\<close>

text \<open>
  A waiting thread is asleep as long as it is in the queue of its condition. A thread about to
  release the mutex of its wait counts as having released it.
\<close>

definition waiter :: "cthreads \<Rightarrow> nat \<Rightarrow> nat \<Rightarrow> nat \<Rightarrow> athread" where
  "waiter s t c m = (if t \<in> set (cqueue s c) then Asleep c m else Woken m)"

definition athread_of :: "cthreads \<Rightarrow> nat \<Rightarrow> athread" where
  "athread_of s t = (case cpc s t of
     Unlocking c m \<Rightarrow> waiter s t c m | Watching c m n \<Rightarrow> waiter s t c m
   | Receiving c m \<Rightarrow> waiter s t c m | Relocking m \<Rightarrow> Woken m | _ \<Rightarrow> Active)"

fun unlocking :: "cpoint \<Rightarrow> nat \<Rightarrow> bool" where
  "unlocking (Unlocking c m) m' \<longleftrightarrow> m = m'"
| "unlocking _ m' \<longleftrightarrow> False"

definition amutex_of :: "cthreads \<Rightarrow> nat \<Rightarrow> nat option" where
  "amutex_of s m = (case mutex s m of None \<Rightarrow> None | Some t \<Rightarrow> if unlocking (cpc s t) m then None else Some t)"

definition acv_of :: "cthreads \<Rightarrow> acv" where
  "acv_of s = \<lparr>athreads = athread_of s, aqueue = cqueue s, amutex = amutex_of s\<rparr>"

lemma acv_of_sel [simp]:
  "athreads (acv_of s) = athread_of s" "aqueue (acv_of s) = cqueue s" "amutex (acv_of s) = amutex_of s"
  by (simp_all add: acv_of_def)

lemma acv_of_eqI:
  assumes "\<And>t. athread_of s t = athreads a t" "\<And>c. cqueue s c = aqueue a c" "\<And>m. amutex_of s m = amutex a m"
  shows "acv_of s = a"
  using assms by (intro acv.equality ext) auto

text \<open>Steps that change neither queue nor mutex leave the abstract state of the other threads as it is.\<close>

lemma athread_of_other:
  "cpc s' t = cpc s t \<Longrightarrow> cqueue s' = cqueue s \<Longrightarrow> athread_of s' t = athread_of s t"
  by (simp add: athread_of_def waiter_def cong: cpoint.case_cong)

lemma acv_of_move:
  assumes "athread_of (at_point t pc s) t = athread_of s t" "\<And>m. unlocking pc m \<longleftrightarrow> unlocking (cpc s t) m"
  shows "acv_of (at_point t pc (s\<lparr>cstate := st, wait_port := port\<rparr>)) = acv_of s"
proof (rule acv_of_eqI)
  fix u
  show "athread_of (at_point t pc (s\<lparr>cstate := st, wait_port := port\<rparr>)) u = athreads (acv_of s) u"
    using assms(1) by (cases "u = t") (auto simp: athread_of_def waiter_def cong: cpoint.case_cong)
qed (use assms(2) in \<open>auto simp: amutex_of_def split: option.splits\<close>)

lemma acv_of_move_pc:
  assumes "athread_of (at_point t pc s) t = athread_of s t" "\<And>m. unlocking pc m \<longleftrightarrow> unlocking (cpc s t) m"
  shows "acv_of (at_point t pc s) = acv_of s"
    and "acv_of (at_point t pc (s\<lparr>cstate := st\<rparr>)) = acv_of s"
    and "acv_of (at_point t pc (s\<lparr>wait_port := port\<rparr>)) = acv_of s"
  using acv_of_move [OF assms, where st = "cstate s" and port = "wait_port s"]
    acv_of_move [OF assms, where st = st and port = "wait_port s"]
    acv_of_move [OF assms, where st = "cstate s" and port = port] by simp_all

section \<open>Steps without event\<close>

lemma wait_unlock_abs:
  assumes inv: "placed loc sn s" and pc: "cpc s t = Unlocking c m"
  shows "acv_of (wait_unlock t c m s) = acv_of s"
proof (rule acv_of_eqI)
  fix u show "athread_of (wait_unlock t c m s) u = athreads (acv_of s) u"
    using pc by (cases "u = t") (auto simp: wait_unlock_def athread_of_def waiter_def cong: cpoint.case_cong)
next
  fix n show "amutex_of (wait_unlock t c m s) n = amutex (acv_of s) n"
    using pc placedD(7) [OF inv pc] by (auto simp: wait_unlock_def amutex_of_def split: option.splits)
qed (simp add: wait_unlock_def)

text \<open>A waiting thread whose state is \<open>CPROC_RUNNING\<close> is no longer in the queue.\<close>

lemma running_not_queued:
  assumes inv: "placed loc sn s" and "cstate s t = CPROC_RUNNING"
  shows "t \<notin> set (cqueue s c)"
  using placedD(1) [OF inv, of t] placedD(2) [OF inv, of t c] assms(2) by (cases "cpc s t") (auto simp: spins_def)

lemma wait_watch_abs:
  assumes inv: "placed loc sn s" and pc: "cpc s t = Watching c m n"
  shows "acv_of (wait_watch t c m n s) = acv_of s"
  using pc running_not_queued [OF inv, of t]
  by (auto simp: wait_watch_def athread_of_def waiter_def intro!: acv_of_move_pc)

lemma wait_receive_abs:
  assumes inv: "placed loc sn s" and pc: "cpc s t = Receiving c m" and r: "wait_receive t c m s = Some s'"
  shows "acv_of s' = acv_of s"
proof -
  have "cstate s t = CPROC_RUNNING"
    using placedD(1) [OF inv, of t] pc r by (auto simp: wait_receive_def split: if_splits)
  then show ?thesis
    using pc r running_not_queued [OF inv, of t]
    by (auto simp: wait_receive_def athread_of_def waiter_def split: if_splits intro!: acv_of_move_pc)
qed

lemma condition_signal_abs:
  "cpc s t = Outside \<Longrightarrow> acv_of (condition_signal t c s) = acv_of s"
  "cpc s t = Outside \<Longrightarrow> acv_of (condition_broadcast t c s) = acv_of s"
  by (auto simp: condition_signal_def condition_broadcast_def athread_of_def intro!: acv_of_move_pc)

lemma continue_abs:
  "cpc s t = Continuing c [] \<Longrightarrow> acv_of (at_point t Outside s) = acv_of s"
  "cpc s t = Continuing c (p # ps) \<Longrightarrow> acv_of (cproc_continue t c p ps s) = acv_of s"
  "cpc s t = Sending c p ps \<Longrightarrow> acv_of (send_wakeup t c p ps s) = acv_of s"
  by (auto simp: cproc_continue_def send_wakeup_def Let_def athread_of_def intro!: acv_of_move_pc)

section \<open>Steps with an event\<close>

lemma mutex_lock_abs:
  assumes pc: "cpc s t = Outside" and l: "mutex_lock t m s = Some s'"
  shows "acv_do (Lock t m) (acv_of s) = Some (acv_of s')"
proof -
  have "acv_of s' = (acv_of s)\<lparr>amutex := (amutex_of s)(m := Some t)\<rparr>"
    using l pc by (intro acv_of_eqI)
      (auto simp: mutex_lock_def amutex_of_def athread_of_def waiter_def split: if_splits option.splits cong: cpoint.case_cong)
  then show ?thesis
    using l pc by (simp add: mutex_lock_def athread_of_def amutex_of_def split: if_splits)
qed

lemma wakeup_abs:
  assumes pc: "cpc s t = Relocking m" and l: "mutex_lock t m s = Some s'"
  shows "acv_do (Wakeup t m) (acv_of s) = Some (acv_of s')"
proof -
  have "acv_of s' = (acv_of s)\<lparr>athreads := (athread_of s)(t := Active), amutex := (amutex_of s)(m := Some t)\<rparr>"
    using l pc by (intro acv_of_eqI)
      (auto simp: mutex_lock_def amutex_of_def athread_of_def waiter_def split: if_splits option.splits cong: cpoint.case_cong)
  then show ?thesis
    using l pc by (simp add: mutex_lock_def athread_of_def amutex_of_def split: if_splits)
qed

lemma mutex_unlock_abs:
  assumes "cpc s t = Outside" "mutex s m = Some t"
  shows "acv_do (Unlock t m) (acv_of s) = Some (acv_of (mutex_unlock m s))"
proof -
  have "acv_of (mutex_unlock m s) = (acv_of s)\<lparr>amutex := (amutex_of s)(m := None)\<rparr>"
    by (intro acv_of_eqI)
      (auto simp: mutex_unlock_def amutex_of_def athread_of_def waiter_def split: option.splits cong: cpoint.case_cong)
  then show ?thesis
    using assms by (simp add: athread_of_def amutex_of_def)
qed

lemma condition_wait_abs:
  assumes inv: "placed loc sn s" and pc: "cpc s t = Outside" and own: "mutex s m = Some t"
  shows "acv_do (Wait t c m) (acv_of s) = Some (acv_of (condition_wait t c m s))"
proof -
  have "acv_of (condition_wait t c m s) =
    (acv_of s)\<lparr>athreads := (athread_of s)(t := Asleep c m), aqueue := (cqueue s)(c := cqueue s c @ [t]),
               amutex := (amutex_of s)(m := None)\<rparr>"
  proof (rule acv_of_eqI, goal_cases)
    case (1 u)
    then show ?case
      by (cases "u = t") (auto simp: condition_wait_def athread_of_def waiter_def split: cpoint.splits)
  next
    case (3 n)
    then show ?case
      using pc own by (auto simp: condition_wait_def amutex_of_def split: option.splits)
  qed (simp add: condition_wait_def)
  then show ?thesis
    using pc own by (simp add: athread_of_def amutex_of_def)
qed

text \<open>A thread in the queue of a condition waits for this condition.\<close>

lemma queued_asleep:
  assumes inv: "placed loc sn s" and q: "p \<in> set (cqueue s c)"
  obtains m where "athread_of s p = Asleep c m"
    "cpc s p \<in> {Unlocking c m, Receiving c m} \<or> (\<exists>n. cpc s p = Watching c m n)"
proof -
  have l: "loc p = Some (Queued c)" using placedD(2) [OF inv, of p c] q by simp
  show ?thesis
    using placedD(1) [OF inv, of p] l q that
    by (cases "cpc s p") (auto simp: spins_def athread_of_def waiter_def)
qed

lemma acv_of_dequeue:
  assumes inv: "placed loc sn s" and pc: "athread_of s t = Active" "\<And>m. \<not> unlocking (cpc s t) m"
    and q: "cqueue s c = ps @ rest" and new: "\<And>m. \<not> unlocking pc m" "\<And>s. cpc s t = pc \<Longrightarrow> athread_of s t = Active"
  shows "acv_of (at_point t pc (s\<lparr>cqueue := (cqueue s)(c := rest)\<rparr>)) =
    (acv_of s)\<lparr>athreads := wake_all ps (athread_of s), aqueue := (cqueue s)(c := rest)\<rparr>"
    (is "acv_of ?s = _")
proof (rule acv_of_eqI, goal_cases)
  case (1 u)
  have dist: "p \<in> set ps \<Longrightarrow> p \<notin> set rest" for p
    using placedD(5) [OF inv, of c] q by auto
  show ?case
  proof (cases "u \<in> set (cqueue s c)")
    case True
    then obtain m where m: "athread_of s u = Asleep c m"
      "cpc s u \<in> {Unlocking c m, Receiving c m} \<or> (\<exists>n. cpc s u = Watching c m n)"
      using queued_asleep [OF inv] by blast
    then have "u \<noteq> t" using pc by auto
    with True m dist q show ?thesis
      by (auto simp: wake_all_def athread_of_def waiter_def)
  next
    case False
    then have ps: "u \<notin> set ps" "u \<notin> set rest" using q by auto
    show ?thesis
    proof (cases "u = t")
      case True
      with pc ps new(2) [of ?s] show ?thesis by (simp add: wake_all_def)
    next
      case False
      with ps \<open>u \<notin> set (cqueue s c)\<close> show ?thesis
        by (auto simp: wake_all_def athread_of_def waiter_def split: cpoint.splits)
    qed
  qed
next
  case (3 m)
  then show ?case using pc(2) new(1) by (auto simp: amutex_of_def split: option.splits)
qed simp

lemma wake_all_Nil [simp]: "wake_all [] f = f"
  by (simp add: wake_all_def)

lemma cond_signal_abs:
  assumes inv: "placed loc sn s" and pc: "cpc s t = Signalling c"
  shows "acv_do (Signal c) (acv_of s) = Some (acv_of (cond_signal t c s))"
proof (cases "cqueue s c")
  case Nil
  then have "acv_of (cond_signal t c s) = acv_of s"
    using pc by (auto simp: cond_signal_def athread_of_def intro!: acv_of_move_pc)
  then show ?thesis
    using Nil by (auto simp: acv_of_def fun_upd_idem)
next
  case (Cons p ps)
  have "acv_of (cond_signal t c s) =
      (acv_of s)\<lparr>athreads := wake_all [p] (athread_of s), aqueue := (cqueue s)(c := ps)\<rparr>"
    using acv_of_dequeue [OF inv, of t c "[p]" ps "Continuing c [p]"] pc Cons
    by (simp add: cond_signal_def athread_of_def)
  then show ?thesis using Cons by simp
qed

lemma cond_broadcast_abs:
  assumes inv: "placed loc sn s" and pc: "cpc s t = Broadcasting c"
  shows "acv_do (Broadcast c) (acv_of s) = Some (acv_of (cond_broadcast t c s))"
  using acv_of_dequeue [OF inv, of t c "cqueue s c" "[]" "Continuing c (cqueue s c)"] pc
  by (simp add: cond_broadcast_def athread_of_def)

end
