(* ===== verification/Cprocs_Safe.thy ===== *)
theory Cprocs_Safe
  imports Cprocs_Spec
begin

text \<open>
  The threads implement the specification: every run is a run of the atomic machine. No wakeup is lost: a
  thread that is woken comes to the point where it takes the mutex again by its own steps and those of the
  thread that continues it. The library's assertions hold, and a send never finds the port full.
\<close>

lemma advance_abs:
  assumes inv: "cthreads_inv s" and a: "advance t s = Some s'"
  shows "case advance_event t s of None \<Rightarrow> acv_of s' = acv_of s | Some e \<Rightarrow> acv_do e (acv_of s) = Some (acv_of s')"
proof -
  from inv obtain loc sn where p: "placed loc sn s" by (auto simp: cthreads_inv_def)
  show ?thesis
  proof (cases "cpc s t")
    case (Continuing c ps)
    with a show ?thesis by (cases ps) (auto simp: advance_def advance_event_def continue_abs)
  next
    case (Receiving c m)
    with a wait_receive_abs [OF p, of t c m s'] show ?thesis by (simp add: advance_def advance_event_def)
  qed (use a in \<open>auto simp: advance_def advance_event_def continue_abs wait_unlock_abs [OF p] wait_watch_abs [OF p]
      wakeup_abs cond_signal_abs [OF p] cond_broadcast_abs [OF p] simp del: acv_do.simps\<close>)
qed

lemma cthread_step_abs:
  assumes "cthread_step e s s'" "cthreads_inv s"
  shows "case e of None \<Rightarrow> acv_of s' = acv_of s | Some e \<Rightarrow> acv_do e (acv_of s) = Some (acv_of s')"
  using assms
proof (induction rule: cthread_step.induct)
  case (c_advance t s s')
  then show ?case using advance_abs by blast
next
  case (c_wait s t m c)
  then show ?case using condition_wait_abs by (auto simp: cthreads_inv_def simp del: acv_do.simps)
next
  case (c_signal s t c)
  then show ?case
    using condition_signal_abs [of s t c] by (auto simp: if_empty_def acv_of_def fun_upd_idem)
next
  case (c_broadcast s t c)
  then show ?case
    using condition_signal_abs [of s t c] by (auto simp: if_empty_def acv_of_def fun_upd_idem)
next
  case (c_lock s t m s')
  then show ?case using mutex_lock_abs by (simp del: acv_do.simps)
next
  case (c_unlock s t m)
  then show ?case using mutex_unlock_abs by (simp del: acv_do.simps)
qed

interpretation cthread_machine: event_refinement cthread_step cthreads_start cthreads_inv acv_step acv_start acv_of
proof
  show "acv_of cthreads_start = acv_start"
    by (rule acv_of_eqI) (simp_all add: cthreads_start_def acv_start_def athread_of_def amutex_of_def)
next
  fix s t assume "cthreads_inv s" "cthread_step None s t"
  then show "acv_of t = acv_of s" using cthread_step_abs [of None s t] by simp
next
  fix s t e assume "cthreads_inv s" "cthread_step (Some e) s t"
  then show "acv_step (Some e) (acv_of s) (acv_of t)" using cthread_step_abs [of "Some e" s t] by (simp add: acv_step_def)
qed (auto intro: cthreads_start_inv cthread_step_inv)

text \<open>Runs of the specification, as a function.\<close>

fun acv_run :: "cevent list \<Rightarrow> acv \<Rightarrow> acv option" where
  "acv_run [] a = Some a"
| "acv_run (e # es) a = Option.bind (acv_do e a) (acv_run es)"

lemma acv_run_append: "acv_run (es @ fs) a = Option.bind (acv_run es a) (acv_run fs)"
  by (induction es arbitrary: a) (auto split: bind_splits)

lemma runs_acv_run: "runs acv_step a es b \<Longrightarrow> acv_run es a = Some b"
  by (induction rule: runs.induct) (auto simp: acv_step_def acv_run_append)

section \<open>A woken thread comes to the mutex\<close>

lemma hidden_advance:
  assumes "cthreads_inv s" "advance u s = Some s'" "advance_event u s = None"
  shows "cthreads_inv s'" "acv_of s' = acv_of s" "cthread_step None s s'"
  using assms advance_inv advance_abs [OF assms(1,2)] c_advance [OF assms(2)] by auto

definition proceeds :: "nat \<Rightarrow> nat \<Rightarrow> cthreads \<Rightarrow> bool" where
  "proceeds t m s \<longleftrightarrow> (\<exists>s'. runs cthread_step s [] s' \<and> cpc s' t = Relocking m)"

lemma proceeds_step: "cthread_step None s s' \<Longrightarrow> proceeds t m s' \<Longrightarrow> proceeds t m s"
  by (auto simp: proceeds_def intro: runs_hidden_Cons)

lemma proceeds_now: "cpc s t = Relocking m \<Longrightarrow> proceeds t m s"
  by (auto simp: proceeds_def intro: runs.intros)

lemma advance_proceeds:
  assumes "cthreads_inv s" "advance u s = Some s'" "advance_event u s = None"
    and "cthreads_inv s' \<Longrightarrow> acv_of s' = acv_of s \<Longrightarrow> proceeds t m s'"
  shows "proceeds t m s"
  using hidden_advance [OF assms(1-3)] assms(4) proceeds_step by blast

lemma receiving_proceeds:
  assumes inv: "cthreads_inv s" and pc: "cpc s t = Receiving c m" and port: "wait_port s t \<noteq> 0"
  shows "proceeds t m s"
  using pc port by (intro advance_proceeds [OF inv, of t])
    (auto simp: advance_def advance_event_def wait_receive_def intro!: proceeds_now)

lemma running_proceeds:
  assumes inv: "cthreads_inv s" and run: "cstate s t = CPROC_RUNNING" and w: "athread_of s t = Woken m"
  shows "proceeds t m s"
proof -
  from inv obtain loc sn where p: "placed loc sn s" by (auto simp: cthreads_inv_def)
  have watch: "proceeds t m s" if "cthreads_inv s" "cpc s t = Watching c m n" "cstate s t = CPROC_RUNNING" for s c n
    using that by (intro advance_proceeds [OF that(1), of t])
      (auto simp: advance_def advance_event_def wait_watch_def intro!: proceeds_now)
  consider c where "cpc s t = Unlocking c m" | c n where "cpc s t = Watching c m n" | c where "cpc s t = Receiving c m"
    | "cpc s t = Relocking m"
    using w by (auto simp: athread_of_def waiter_def split: cpoint.splits if_splits)
  then show ?thesis
  proof cases
    case 1
    then show ?thesis using run by (intro advance_proceeds [OF inv, of t])
      (auto simp: advance_def advance_event_def wait_unlock_def intro!: watch)
  next
    case 2
    then show ?thesis using run inv watch by blast
  next
    case (3 c)
    show ?thesis
    proof (cases "wait_port s t = 0")
      case True
      then obtain u where u: "sn t = Some u" using placedD(1) [OF p, of t] 3 run by auto
      then obtain d ps where "cpc s u = Sending d t ps"
        using placedD(4) [OF p, of u t] by (cases "cpc s u") auto
      with 3 True u show ?thesis
        by (intro advance_proceeds [OF inv, of u])
          (auto simp: advance_def advance_event_def send_wakeup_def PORT_QLIMIT_def intro!: receiving_proceeds)
    qed (use 3 inv receiving_proceeds in blast)
  qed (rule proceeds_now)
qed

lemma continuing_proceeds:
  assumes "cthreads_inv s" "cpc s u = Continuing c ps" "t \<in> set ps" "athread_of s t = Woken m"
  shows "proceeds t m s"
  using assms
proof (induction ps arbitrary: s)
  case (Cons p ps)
  have next_ok: "proceeds t m s'"
    if "cthreads_inv s'" "cpc s' u = Continuing c ps" "athread_of s' t = Woken m" "cstate s' p = CPROC_RUNNING" for s'
    using Cons.IH [OF that(1,2)] running_proceeds [OF that(1), of t m] that Cons.prems(3) by auto
  have send: "proceeds t m s'"
    if "cthreads_inv s'" "cpc s' u = Sending c p ps" "athread_of s' t = Woken m" "cstate s' p = CPROC_RUNNING" for s'
  proof (rule advance_proceeds [OF that(1), of u "send_wakeup u c p ps s'"])
    assume "cthreads_inv (send_wakeup u c p ps s')" "acv_of (send_wakeup u c p ps s') = acv_of s'"
    then show "proceeds t m (send_wakeup u c p ps s')"
      using that by (intro next_ok) (auto simp: send_wakeup_def dest: arg_cong [of _ _ athreads])
  qed (use that in \<open>simp_all add: advance_def advance_event_def\<close>)
  show ?case
  proof (rule advance_proceeds [OF Cons.prems(1), of u "cproc_continue u c p ps s"])
    assume *: "cthreads_inv (cproc_continue u c p ps s)" "acv_of (cproc_continue u c p ps s) = acv_of s"
    have w: "athread_of (cproc_continue u c p ps s) t = Woken m"
      using arg_cong [OF *(2), of athreads] Cons.prems(4) by simp
    show "proceeds t m (cproc_continue u c p ps s)"
      using next_ok [OF *(1)] send [OF *(1)] w by (cases "cstate s p = CPROC_BLOCKED") (auto simp: cproc_continue_def Let_def)
  qed (use Cons.prems in \<open>simp_all add: advance_def advance_event_def\<close>)
qed simp

lemma sending_proceeds:
  assumes inv: "cthreads_inv s" and "cpc s u = Sending c p ps" "t \<in> set ps" "athread_of s t = Woken m"
  shows "proceeds t m s"
proof (rule advance_proceeds [OF inv, of u "send_wakeup u c p ps s"])
  assume *: "cthreads_inv (send_wakeup u c p ps s)" "acv_of (send_wakeup u c p ps s) = acv_of s"
  show "proceeds t m (send_wakeup u c p ps s)"
    using assms arg_cong [OF *(2), of athreads]
    by (intro continuing_proceeds [OF *(1), of u c ps]) (auto simp: send_wakeup_def)
qed (use assms in \<open>simp_all add: advance_def advance_event_def\<close>)

lemma woken_proceeds_inv:
  assumes inv: "cthreads_inv s" and w: "athread_of s t = Woken m"
  shows "proceeds t m s"
proof -
  from inv obtain loc sn where p: "placed loc sn s" by (auto simp: cthreads_inv_def)
  show ?thesis
  proof (cases "loc t")
    case None
    then have "cstate s t = CPROC_RUNNING" using placedD(1) [OF p, of t] by (cases "cpc s t") (auto simp: spins_def)
    then show ?thesis using running_proceeds inv w by blast
  next
    case (Some l)
    show ?thesis
    proof (cases l)
      case (Queued c)
      then have "t \<in> set (cqueue s c)" using placedD(2) [OF p, of t c] Some by simp
      then show ?thesis using queued_asleep [OF p] w by force
    next
      case (Taken u)
      then have "t \<in> set (woken (cpc s u))" using placedD(3) [OF p, of t u] Some by simp
      then show ?thesis
        using continuing_proceeds [OF inv] sending_proceeds [OF inv] w by (cases "cpc s u") auto
    qed
  qed
qed

section \<open>Schedules\<close>

text \<open>
  A schedule says which thread moves next, and which call a thread outside makes. Playing a schedule
  gives a run; it gives none when a thread of the schedule cannot move.
\<close>

datatype move = Go nat | Call_wait nat nat nat | Call_signal nat nat | Call_lock nat nat

fun play_move :: "move \<Rightarrow> cthreads \<Rightarrow> (cevent option \<times> cthreads) option" where
  "play_move (Go t) s = map_option (Pair (advance_event t s)) (advance t s)"
| "play_move (Call_wait t c m) s =
     (if cpc s t = Outside \<and> mutex s m = Some t then Some (Some (Wait t c m), condition_wait t c m s) else None)"
| "play_move (Call_signal t c) s =
     (if cpc s t = Outside then Some (if_empty (cqueue s c) (Signal c), condition_signal t c s) else None)"
| "play_move (Call_lock t m) s =
     (if cpc s t = Outside then map_option (Pair (Some (Lock t m))) (mutex_lock t m s) else None)"

interpretation cthread_schedule: schedule cthread_step play_move
proof
  fix x s e s' assume "play_move x s = Some (e, s')"
  then show "cthread_step e s s'" by (cases x) (auto split: if_splits intro: cthread_step.intros)
qed

text \<open>Thread 1 waits until it blocks; thread 2 signals and sends the message; thread 1 returns from its wait.\<close>

definition block_one :: "move list" where
  "block_one = [Call_lock 1 0, Call_wait 1 5 0] @ replicate 9 (Go 1)"

definition signal_one :: "move list" where
  "signal_one = [Call_signal 2 5, Go 2, Go 2]"

definition finish_one :: "move list" where
  "finish_one = [Go 2, Go 2, Go 1, Go 1]"

lemmas play_defs = block_one_def signal_one_def finish_one_def played_def cthreads_start_def
  advance_def advance_event_def mutex_lock_def at_point_def condition_wait_def condition_signal_def if_empty_def
  wait_unlock_def wait_watch_def wait_receive_def cond_signal_def cproc_continue_def send_wakeup_def
  condition_spin_limit_def condition_yield_limit_def PORT_QLIMIT_def numeral_eq_Suc

section \<open>The properties\<close>

text \<open>
  C6. The condition variables are atomic: whatever the order in which threads run, the waits,
  signals, broadcasts and mutex operations have the effects, in the order of their events, that the
  specification gives: a wait releases the mutex and joins the queue at once, a signal wakes the thread that
  has waited longest, and a thread returns from its wait only when it was woken and the mutex is free.
\<close>

theorem cthreads_refine:
  assumes "runs cthread_step cthreads_start es s"
  shows "acv_run es acv_start = Some (acv_of s)"
  by (rule runs_acv_run [OF cthread_machine.runs_refine [OF assms]])

theorem cthreads_refine_witness:
  "acv_run [Lock 1 0, Wait 1 5 0, Signal 5, Wakeup 1 0] acv_start =
     Some (acv_of (played play_move cthreads_start (block_one @ signal_one @ finish_one)))"
  by (rule cthreads_refine [OF cthread_schedule.played_runs]) (simp add: play_defs)

text \<open>
  C13. No wakeup is lost: in every state the threads can reach, a thread that was woken comes to the point
  where it takes its mutex again by steps that need no further signal, even when it was about to
  block when it was taken from the queue.
\<close>

theorem woken_proceeds:
  assumes "runs cthread_step cthreads_start es s" "athreads (acv_of s) t = Woken m"
  shows "\<exists>s'. runs cthread_step s [] s' \<and> cpc s' t = Relocking m"
  using woken_proceeds_inv [OF cthread_machine.runs_inv [OF assms(1)], of t m] assms(2) by (simp add: proceeds_def)

theorem woken_proceeds_witness:
  "cpc (played play_move cthreads_start (block_one @ take 2 signal_one)) 1 = Receiving 5 0 \<and>
   (\<exists>s'. runs cthread_step (played play_move cthreads_start (block_one @ take 2 signal_one)) [] s' \<and> cpc s' 1 = Relocking 0)"
proof
  show "cpc (played play_move cthreads_start (block_one @ take 2 signal_one)) 1 = Receiving 5 0"
    by (simp add: play_defs)
  show "\<exists>s'. runs cthread_step (played play_move cthreads_start (block_one @ take 2 signal_one)) [] s' \<and> cpc s' 1 = Relocking 0"
    by (rule woken_proceeds [OF cthread_schedule.played_runs [of _ _ "[Lock 1 0, Wait 1 5 0, Signal 5]"]])
      (simp_all add: play_defs athread_of_def waiter_def)
qed

text \<open>
  C22. The assertion of \<open>condition_wait\<close> holds: a thread that is about to take its mutex again has the state
  \<open>CPROC_RUNNING\<close>. A message of \<open>cproc_continue\<close> goes to a thread in the receive whose port is empty, so that
  the send never times out.
\<close>

theorem cthreads_asserts:
  assumes "runs cthread_step cthreads_start es s"
  shows "(cpc s t = Relocking m \<longrightarrow> cstate s t = CPROC_RUNNING) \<and>
    (cpc s t = Sending c p ps \<longrightarrow> wait_port s p < PORT_QLIMIT \<and> (\<exists>d n. cpc s p = Receiving d n))"
proof -
  from cthread_machine.runs_inv [OF assms] obtain loc sn where p: "placed loc sn s"
    by (auto simp: cthreads_inv_def)
  show ?thesis
    using placedD(1) [OF p, of t] send_port_empty [OF p, of t c p ps] by (auto simp: PORT_QLIMIT_def)
qed

theorem cthreads_asserts_witness:
  "cpc (played play_move cthreads_start (block_one @ signal_one)) 2 = Sending 5 1 [] \<and>
   wait_port (played play_move cthreads_start (block_one @ signal_one)) 1 < PORT_QLIMIT"
proof -
  have "cpc (played play_move cthreads_start (block_one @ signal_one)) 2 = Sending 5 1 []"
    by (simp add: play_defs)
  moreover have "map_option fst (play play_move (block_one @ signal_one) ([], cthreads_start)) = Some [Lock 1 0, Wait 1 5 0, Signal 5]"
    by (simp add: play_defs)
  ultimately show ?thesis
    using cthreads_asserts [OF cthread_schedule.played_runs, of _ _ 2 0 5 1 "[]"] by blast
qed

end
