(* ===== verification/Cthread_Pool.thy ===== *)
theory Cthread_Pool
  imports State_Machine
begin

text \<open>
  Forking and joining threads, lib/threads/cthreads.c. A fork puts a request into a queue; kernel threads
  (cprocs), of which the library makes as many as there are requests up to a limit, take requests from
  the queue, run them, and hand the result to the thread that joins.

  A step is a section under one of the mutexes, or a signal. The mutexes and condition variables are those
  of the specification in Cprocs_Spec: a wait releases the mutex and joins the queue at once, and a
  signal takes the first thread from the queue, which goes on behind its wait when it has the mutex again.
  A cthread structure is an address; 0 is null. The memory allocator gives an address that it has not given
  before; when it has no memory, \<open>cthread_alloc\<close> writes through the null pointer, and the fork is not a step.
  The functions that run in the threads are their users' and do anything the rules allow.
\<close>

section \<open>The state\<close>

record cthread =
  t_main :: bool
  t_returned :: bool
  t_detached :: bool
  t_func :: nat
  t_arg :: nat
  t_result :: nat
  t_done :: "nat list"

definition initial_cthread :: cthread where
  "initial_cthread = \<lparr>t_main = False, t_returned = False, t_detached = False, t_func = 0, t_arg = 0, t_result = 0, t_done = []\<rparr>"

text \<open>
  Where a kernel thread is: not created; about to take a request, or asleep without one; in the function of a
  thread, there in \<open>cthread_fork\<close> before its signal or in the loop of \<open>cthread_join\<close>; behind the
  function, before the signal for the thread that joins, and before it goes for the next
  request; in the loop of \<open>cthread_exit\<close> of the main thread, and behind it.
\<close>

datatype bpoint = Absent | Looking | Asleep | Running nat | Notifying nat | Joining nat nat | Join_Asleep nat nat
  | Finishing nat | Signal_Done nat | Ending | Exiting nat | Exit_Asleep nat | Exited nat

record cthread_lib =
  ct :: "nat \<Rightarrow> cthread"
  cthreads :: "nat list"
  free_cthreads :: "nat list"
  malloced :: nat
  n_cprocs :: nat
  n_cthreads :: nat
  max_cprocs :: nat
  cthread_needed :: "nat list"
  cthread_idle :: "nat list"
  point :: "nat \<Rightarrow> bpoint"

definition go :: "nat \<Rightarrow> bpoint \<Rightarrow> cthread_lib \<Rightarrow> cthread_lib" where
  "go p b s = s\<lparr>point := (point s)(p := b)\<rparr>"

section \<open>Structures\<close>

definition cthread_alloc :: "nat \<Rightarrow> nat \<Rightarrow> cthread_lib \<Rightarrow> nat \<times> cthread_lib" where
  "cthread_alloc func arg s =
     (let (t, s) = (case free_cthreads s of
            t # ts \<Rightarrow> (t, s\<lparr>free_cthreads := ts\<rparr>)
          | [] \<Rightarrow> (malloced s + 1, s\<lparr>malloced := malloced s + 1\<rparr>))
      in (t, s\<lparr>ct := (ct s)(t := initial_cthread\<lparr>t_func := func, t_arg := arg\<rparr>)\<rparr>))"

definition cthread_free :: "nat \<Rightarrow> cthread_lib \<Rightarrow> cthread_lib" where
  "cthread_free t s = s\<lparr>free_cthreads := t # free_cthreads s\<rparr>"

definition cthread_init :: cthread_lib where
  "cthread_init =
     (let s = \<lparr>ct = (\<lambda>_. initial_cthread), cthreads = [], free_cthreads = [], malloced = 0, n_cprocs = 1, n_cthreads = 0,
              max_cprocs = 0, cthread_needed = [], cthread_idle = [], point = (\<lambda>_. Absent)\<rparr>;
          (t, s) = cthread_alloc 0 0 s
      in go 0 (Running t) (s\<lparr>n_cthreads := 1, ct := (ct s)(t := (ct s t)\<lparr>t_main := True\<rparr>)\<rparr>))"

section \<open>Kernel threads\<close>

definition signal_needed :: "cthread_lib \<Rightarrow> cthread_lib" where
  "signal_needed s = (case cthread_needed s of [] \<Rightarrow> s | q # qs \<Rightarrow> go q Looking (s\<lparr>cthread_needed := qs\<rparr>))"

fun woken_exit :: "bpoint \<Rightarrow> bpoint" where
  "woken_exit (Exit_Asleep t) = Exiting t"
| "woken_exit b = b"

definition signal_idle :: "cthread_lib \<Rightarrow> cthread_lib" where
  "signal_idle s = (case cthread_idle s of [] \<Rightarrow> s | q # qs \<Rightarrow> go q (woken_exit (point s q)) (s\<lparr>cthread_idle := qs\<rparr>))"

fun woken_join :: "bpoint \<Rightarrow> bpoint" where
  "woken_join (Join_Asleep t u) = Joining t u"
| "woken_join b = b"

definition signal_done :: "nat \<Rightarrow> cthread_lib \<Rightarrow> cthread_lib" where
  "signal_done t s = (case t_done (ct s t) of
       [] \<Rightarrow> s
     | q # qs \<Rightarrow> go q (woken_join (point s q)) (s\<lparr>ct := (ct s)(t := (ct s t)\<lparr>t_done := qs\<rparr>)\<rparr>))"

definition body_look :: "nat \<Rightarrow> cthread_lib \<Rightarrow> cthread_lib" where
  "body_look p s = (case cthreads s of
       t # ts \<Rightarrow> go p (Running t) (s\<lparr>cthreads := ts\<rparr>)
     | [] \<Rightarrow> (let s = signal_idle s in go p Asleep (s\<lparr>cthread_needed := cthread_needed s @ [p]\<rparr>)))"

definition body_return :: "nat \<Rightarrow> nat \<Rightarrow> nat \<Rightarrow> cthread_lib \<Rightarrow> cthread_lib" where
  "body_return p t r s = go p (Finishing t) (s\<lparr>ct := (ct s)(t := (ct s t)\<lparr>t_result := r\<rparr>)\<rparr>)"

definition body_finish :: "nat \<Rightarrow> nat \<Rightarrow> cthread_lib \<Rightarrow> cthread_lib" where
  "body_finish p t s =
     (if t_main (ct s t) then go p (Exiting t) s
      else if t_detached (ct s t) then go p Ending (cthread_free t s)
      else go p (Signal_Done t) (s\<lparr>ct := (ct s)(t := (ct s t)\<lparr>t_returned := True\<rparr>)\<rparr>))"

definition body_signal :: "nat \<Rightarrow> nat \<Rightarrow> cthread_lib \<Rightarrow> cthread_lib" where
  "body_signal p t s = go p Ending (signal_done t s)"

text \<open>
  The signal comes after the release of the thread's mutex. By then another thread may have joined and
  freed the structure, and \<open>cthread_alloc\<close> may have cleared the condition while the signal works on it. What the
  signal does to a condition in that case is not the one step of the specification: it may find nobody although somebody
  waits, or wake the thread that joins the new owner of the structure. The steps allow both: \<open>body_signal\<close> works on
  whatever condition it finds, and \<open>body_signal_lost\<close> has no effect on it.
\<close>

definition body_signal_lost :: "nat \<Rightarrow> nat \<Rightarrow> cthread_lib \<Rightarrow> cthread_lib" where
  "body_signal_lost p t s = go p Ending s"

definition body_end :: "nat \<Rightarrow> cthread_lib \<Rightarrow> cthread_lib" where
  "body_end p s = body_look p (s\<lparr>n_cthreads := n_cthreads s - 1\<rparr>)"

section \<open>Calls\<close>

definition cproc_create :: "cthread_lib \<Rightarrow> cthread_lib" where
  "cproc_create s = go (n_cprocs s) Looking (s\<lparr>n_cprocs := n_cprocs s + 1\<rparr>)"

definition cthread_fork :: "nat \<Rightarrow> nat \<Rightarrow> nat \<Rightarrow> nat \<Rightarrow> cthread_lib \<Rightarrow> nat \<times> cthread_lib" where
  "cthread_fork p self func arg s =
     (let (t, s) = cthread_alloc func arg s;
          s = s\<lparr>cthreads := cthreads s @ [t], n_cthreads := n_cthreads s + 1\<rparr>;
          s = (if n_cthreads s > n_cprocs s \<and> (max_cprocs s = 0 \<or> n_cprocs s < max_cprocs s) then cproc_create s else s)
      in (t, go p (Notifying self) s))"

definition fork_notify :: "nat \<Rightarrow> nat \<Rightarrow> cthread_lib \<Rightarrow> cthread_lib" where
  "fork_notify p self s = go p (Running self) (signal_needed s)"

definition cthread_detach :: "nat \<Rightarrow> cthread_lib \<Rightarrow> cthread_lib" where
  "cthread_detach t s =
     (if t_returned (ct s t) then cthread_free t s
      else s\<lparr>ct := (ct s)(t := (ct s t)\<lparr>t_detached := True\<rparr>)\<rparr>)"

definition cthread_join :: "nat \<Rightarrow> nat \<Rightarrow> nat \<Rightarrow> cthread_lib \<Rightarrow> cthread_lib" where
  "cthread_join p self t s =
     (if \<not> t_returned (ct s t) then go p (Join_Asleep self t) (s\<lparr>ct := (ct s)(t := (ct s t)\<lparr>t_done := t_done (ct s t) @ [p]\<rparr>)\<rparr>)
      else go p (Running self) (cthread_free t s))"

definition cthread_exit :: "nat \<Rightarrow> nat \<Rightarrow> nat \<Rightarrow> cthread_lib \<Rightarrow> cthread_lib" where
  "cthread_exit p self r s =
     (let s = s\<lparr>ct := (ct s)(self := (ct s self)\<lparr>t_result := r\<rparr>)\<rparr> in
      if t_main (ct s self) then go p (Exiting self) s else go p (Finishing self) s)"

definition cthread_set_limit :: "nat \<Rightarrow> cthread_lib \<Rightarrow> cthread_lib" where
  "cthread_set_limit n s = s\<lparr>max_cprocs := n\<rparr>"

definition exit_wait :: "nat \<Rightarrow> nat \<Rightarrow> cthread_lib \<Rightarrow> cthread_lib" where
  "exit_wait p self s =
     (if n_cthreads s > 1 then go p (Exit_Asleep self) (s\<lparr>cthread_idle := cthread_idle s @ [p]\<rparr>)
      else go p (Exited self) s)"

section \<open>Steps\<close>

definition pool_advance :: "nat \<Rightarrow> cthread_lib \<Rightarrow> cthread_lib option" where
  "pool_advance p s = (case point s p of
     Looking \<Rightarrow> Some (body_look p s)
   | Notifying t \<Rightarrow> Some (fork_notify p t s)
   | Joining t u \<Rightarrow> Some (cthread_join p t u s)
   | Finishing t \<Rightarrow> Some (body_finish p t s)
   | Signal_Done t \<Rightarrow> Some (body_signal p t s)
   | Ending \<Rightarrow> Some (body_end p s)
   | Exiting t \<Rightarrow> Some (exit_wait p t s)
   | _ \<Rightarrow> None)"

text \<open>
  What users see: threads are forked, finish with a result, and are joined or detached; the main
  thread ends the program. A user may join or detach a thread that was forked, once: it gives up its
  handle of the thread. The main thread has none.
\<close>

datatype handle = Closed | Open | Claimed

datatype pool_event = Forked nat | Finished nat nat | Joined nat nat | Detached nat | Exit

record pool =
  lib :: cthread_lib
  handle :: "nat \<Rightarrow> handle"

definition event_at :: "nat \<Rightarrow> cthread_lib \<Rightarrow> pool_event option" where
  "event_at p s = (case point s p of
     Joining t u \<Rightarrow> if t_returned (ct s u) then Some (Joined u (t_result (ct s u))) else None
   | Finishing t \<Rightarrow> if t_main (ct s t) then None else Some (Finished t (t_result (ct s t)))
   | Exiting t \<Rightarrow> if n_cthreads s > 1 then None else Some Exit
   | _ \<Rightarrow> None)"

definition handle_after :: "pool_event option \<Rightarrow> (nat \<Rightarrow> handle) \<Rightarrow> nat \<Rightarrow> handle" where
  "handle_after e h = (case e of Some (Joined u r) \<Rightarrow> h(u := Closed) | _ \<Rightarrow> h)"

inductive pool_step :: "pool_event option \<Rightarrow> pool \<Rightarrow> pool \<Rightarrow> bool" where
  p_advance: "pool_advance p (lib s) = Some l \<Longrightarrow> e = event_at p (lib s) \<Longrightarrow>
    pool_step e s \<lparr>lib = l, handle = handle_after e (handle s)\<rparr>"
| p_lost: "point (lib s) p = Signal_Done t \<Longrightarrow> pool_step None s \<lparr>lib = body_signal_lost p t (lib s), handle = handle s\<rparr>"
| p_fork: "point (lib s) p = Running t \<Longrightarrow> cthread_fork p t func arg (lib s) = (u, l) \<Longrightarrow>
    pool_step (Some (Forked u)) s \<lparr>lib = l, handle = (handle s)(u := Open)\<rparr>"
| p_join: "point (lib s) p = Running t \<Longrightarrow> handle s u = Open \<Longrightarrow>
    pool_step None s \<lparr>lib = go p (Joining t u) (lib s), handle = (handle s)(u := Claimed)\<rparr>"
| p_detach: "point (lib s) p = Running t \<Longrightarrow> handle s u = Open \<Longrightarrow>
    pool_step (Some (Detached u)) s \<lparr>lib = cthread_detach u (lib s), handle = (handle s)(u := Closed)\<rparr>"
| p_return: "point (lib s) p = Running t \<Longrightarrow> p \<noteq> 0 \<Longrightarrow> pool_step None s \<lparr>lib = body_return p t r (lib s), handle = handle s\<rparr>"
| p_exit: "point (lib s) p = Running t \<Longrightarrow> pool_step None s \<lparr>lib = cthread_exit p t r (lib s), handle = handle s\<rparr>"

text \<open>The limit is set once, at the start.\<close>

definition pool_start :: "nat \<Rightarrow> pool" where
  "pool_start limit = \<lparr>lib = cthread_set_limit limit cthread_init, handle = (\<lambda>_. Closed)\<rparr>"

end
