(* ===== verification/Cthread_Pool_Inv.thy ===== *)
theory Cthread_Pool_Inv
  imports Cthread_Pool
begin

text \<open>
  How many kernel threads there are for the requests: the invariant of the counters and of the two
  conditions for idle and needed kernel threads.
\<close>

section \<open>Counting\<close>

definition count_points :: "(bpoint \<Rightarrow> bool) \<Rightarrow> (nat \<Rightarrow> bpoint) \<Rightarrow> nat" where
  "count_points P f = card {p. P (f p)}"

lemma count_upd:
  assumes "finite {p. P (f p)}"
  shows "count_points P (f(p := b)) + (if P (f p) then 1 else 0) = count_points P f + (if P b then 1 else 0)"
    and "finite {q. P ((f(p := b)) q)}"
proof -
  have eq: "{q. P ((f(p := b)) q)} = (if P b then insert p {q. P (f q)} else {q. P (f q)} - {p})"
    by auto
  show "finite {q. P ((f(p := b)) q)}" using assms eq by (metis finite_Diff finite_insert)
  show "count_points P (f(p := b)) + (if P (f p) then 1 else 0) = count_points P f + (if P b then 1 else 0)"
    using assms card_Suc_Diff1 [of "{q. P (f q)}" p] unfolding count_points_def eq
    by (auto simp: insert_absorb)
qed

lemma count_pos: "finite {p. P (f p)} \<Longrightarrow> P (f p) \<Longrightarrow> 0 < count_points P f"
  by (auto simp: count_points_def card_gt_0_iff)

fun busy :: "bpoint \<Rightarrow> bool" where
  "busy Absent = False"
| "busy Looking = False"
| "busy Asleep = False"
| "busy _ = True"

fun coming :: "bpoint \<Rightarrow> bool" where
  "coming Looking = True"
| "coming (Notifying t) = True"
| "coming _ = False"

section \<open>The invariant of the counters\<close>

definition sleepers_ok :: "cthread_lib \<Rightarrow> bool" where
  "sleepers_ok s \<longleftrightarrow> (\<forall>p. point s p = Absent \<longleftrightarrow> n_cprocs s \<le> p) \<and>
     distinct (cthread_needed s) \<and> (\<forall>p. p \<in> set (cthread_needed s) \<longleftrightarrow> point s p = Asleep) \<and>
     distinct (cthread_idle s) \<and> (\<forall>p. p \<in> set (cthread_idle s) \<longleftrightarrow> (\<exists>t. point s p = Exit_Asleep t))"

definition counters_ok :: "cthread_lib \<Rightarrow> bool" where
  "counters_ok s \<longleftrightarrow> n_cthreads s = length (cthreads s) + count_points busy (point s) \<and>
     (n_cthreads s \<le> n_cprocs s \<or> max_cprocs s \<noteq> 0 \<and> max_cprocs s \<le> n_cprocs s) \<and>
     (cthread_needed s \<noteq> [] \<longrightarrow> length (cthreads s) \<le> count_points coming (point s)) \<and>
     (cthread_idle s \<noteq> [] \<longrightarrow> 1 < n_cthreads s)"

definition pool_counts :: "cthread_lib \<Rightarrow> bool" where
  "pool_counts s \<longleftrightarrow> sleepers_ok s \<and> counters_ok s"

lemma go_sel [simp]:
  "point (go p b s) = (point s)(p := b)" "ct (go p b s) = ct s" "cthreads (go p b s) = cthreads s"
  "free_cthreads (go p b s) = free_cthreads s" "malloced (go p b s) = malloced s" "n_cprocs (go p b s) = n_cprocs s"
  "n_cthreads (go p b s) = n_cthreads s" "max_cprocs (go p b s) = max_cprocs s"
  "cthread_needed (go p b s) = cthread_needed s" "cthread_idle (go p b s) = cthread_idle s"
  by (simp_all add: go_def)

lemma sleepers_okD:
  assumes "sleepers_ok s"
  shows "n_cprocs s \<le> p \<Longrightarrow> point s p = Absent" "point s p = Absent \<Longrightarrow> n_cprocs s \<le> p"
    "p \<in> set (cthread_needed s) \<longleftrightarrow> point s p = Asleep" "p \<in> set (cthread_idle s) \<longleftrightarrow> (\<exists>t. point s p = Exit_Asleep t)"
    "distinct (cthread_needed s)" "distinct (cthread_idle s)"
  using assms by (auto simp: sleepers_ok_def)

lemma sleepers_present: "sleepers_ok s \<Longrightarrow> point s p \<noteq> Absent \<Longrightarrow> p < n_cprocs s"
  using sleepers_okD(1) [of s p] by (cases "n_cprocs s \<le> p") auto

lemma points_finite:
  assumes "sleepers_ok s" "\<not> P Absent" shows "finite {p. P (point s p)}"
proof (rule finite_subset)
  have "p < n_cprocs s" if "P (point s p)" for p
    using sleepers_okD(1) [OF assms(1), of p] assms(2) that by (cases "n_cprocs s \<le> p") auto
  then show "{p. P (point s p)} \<subseteq> {..<n_cprocs s}" by auto
qed simp

lemma busy_upd:
  assumes "sleepers_ok s"
  shows "count_points busy ((point s)(p := b)) + (if busy (point s p) then 1 else 0) = count_points busy (point s) + (if busy b then 1 else 0)"
  by (rule count_upd) (simp add: points_finite [OF assms])

lemma coming_upd:
  assumes "sleepers_ok s"
  shows "count_points coming ((point s)(p := b)) + (if coming (point s p) then 1 else 0) = count_points coming (point s) + (if coming b then 1 else 0)"
  by (rule count_upd) (simp add: points_finite [OF assms])

lemma busy_pos: "sleepers_ok s \<Longrightarrow> busy (point s p) \<Longrightarrow> 0 < count_points busy (point s)"
  by (rule count_pos) (auto simp: points_finite)

text \<open>A kernel thread that stays busy, or moves between points where it does not sleep.\<close>

fun awake :: "bpoint \<Rightarrow> bool" where
  "awake Absent = False"
| "awake Asleep = False"
| "awake (Exit_Asleep t) = False"
| "awake _ = True"

lemma sleepers_go:
  assumes s: "sleepers_ok s" and "awake (point s p)" "awake b"
  shows "sleepers_ok (go p b s)"
proof -
  have "point s p \<noteq> Absent" "point s p \<noteq> Asleep" "\<forall>t. point s p \<noteq> Exit_Asleep t"
      "b \<noteq> Absent" "b \<noteq> Asleep" "\<forall>t. b \<noteq> Exit_Asleep t"
    using assms by auto
  moreover have "p < n_cprocs s" using calculation(1) s by (cases "n_cprocs s \<le> p") (auto simp: sleepers_ok_def)
  ultimately show ?thesis using s by (auto simp: sleepers_ok_def)
qed

lemma counts_go:
  assumes s: "pool_counts s" and "awake (point s p)" "awake b" "busy b = busy (point s p)" "coming (point s p) \<longrightarrow> coming b \<or> cthread_needed s = []"
  shows "pool_counts (go p b s)"
  using assms sleepers_go [of s p b] busy_upd [of s p b] coming_upd [of s p b]
  by (auto simp: pool_counts_def counters_ok_def split: if_splits)

text \<open>Signals: a sleeper becomes a kernel thread that comes for a request, or the main thread looks again.\<close>

lemma signal_needed_counts:
  assumes s: "pool_counts s" and p: "point s p = Notifying t"
  shows "pool_counts (go p (Running t) (signal_needed s))"
proof (cases "cthread_needed s")
  case Nil
  then show ?thesis using s p by (auto simp: signal_needed_def intro!: counts_go)
next
  case (Cons q qs)
  let ?s = "go q Looking (s\<lparr>cthread_needed := qs\<rparr>)"
  have sl: "sleepers_ok s" using s by (simp add: pool_counts_def)
  note D = sleepers_okD [OF sl]
  have q: "point s q = Asleep" "q \<noteq> p" using D(3) [of q] Cons p by auto
  have sl': "sleepers_ok ?s"
    using sl q Cons D(5) sleepers_present [OF sl, of q] by (auto simp: sleepers_ok_def)
  have "sleepers_ok (go p (Running t) ?s)" by (rule sleepers_go [OF sl']) (use q p in auto)
  moreover have "counters_ok (go p (Running t) ?s)"
    using s q p Cons busy_upd [OF sl, of q Looking] coming_upd [OF sl, of q Looking] busy_upd [OF sl', of p "Running t"]
      coming_upd [OF sl', of p "Running t"]
    by (auto simp: pool_counts_def counters_ok_def)
  ultimately show ?thesis using Cons by (simp add: pool_counts_def signal_needed_def)
qed

lemma idle_busy:
  assumes sl: "sleepers_ok s" shows "length (cthread_idle s) \<le> count_points busy (point s)"
proof -
  have "set (cthread_idle s) \<subseteq> {p. busy (point s p)}" using sleepers_okD(4) [OF sl] by auto
  then have "card (set (cthread_idle s)) \<le> count_points busy (point s)"
    using points_finite [OF sl, of busy] by (auto simp: count_points_def intro: card_mono)
  then show ?thesis using sleepers_okD(6) [OF sl] by (simp add: distinct_card)
qed

lemma signal_idle_ok:
  assumes sl: "sleepers_ok s"
  shows "sleepers_ok (signal_idle s)" "count_points busy (point (signal_idle s)) = count_points busy (point s)"
    "count_points coming (point (signal_idle s)) = count_points coming (point s)" "cthread_idle (signal_idle s) = tl (cthread_idle s)"
    "\<And>p. awake (point s p) \<Longrightarrow> point (signal_idle s) p = point s p"
proof -
  show "cthread_idle (signal_idle s) = tl (cthread_idle s)" by (cases "cthread_idle s") (simp_all add: signal_idle_def)
  have "sleepers_ok (signal_idle s) \<and> count_points busy (point (signal_idle s)) = count_points busy (point s) \<and>
    count_points coming (point (signal_idle s)) = count_points coming (point s) \<and>
    (\<forall>p. awake (point s p) \<longrightarrow> point (signal_idle s) p = point s p)"
  proof (cases "cthread_idle s")
    case (Cons q qs)
    then obtain t where q: "point s q = Exit_Asleep t" using sleepers_okD(4) [OF sl, of q] by auto
    have "sleepers_ok (signal_idle s)"
      using sl q Cons sleepers_okD(6) [OF sl] sleepers_present [OF sl, of q] by (auto simp: sleepers_ok_def signal_idle_def)
    then show ?thesis using busy_upd [OF sl, of q "Exiting t"] coming_upd [OF sl, of q "Exiting t"] q Cons
      by (auto simp: signal_idle_def)
  qed (use sl in \<open>simp add: signal_idle_def\<close>)
  then show "sleepers_ok (signal_idle s)" "count_points busy (point (signal_idle s)) = count_points busy (point s)"
    "count_points coming (point (signal_idle s)) = count_points coming (point s)"
    "\<And>p. awake (point s p) \<Longrightarrow> point (signal_idle s) p = point s p" by auto
qed

lemma signal_idle_sel [simp]:
  "cthreads (signal_idle s) = cthreads s" "n_cprocs (signal_idle s) = n_cprocs s" "n_cthreads (signal_idle s) = n_cthreads s"
  "max_cprocs (signal_idle s) = max_cprocs s" "cthread_needed (signal_idle s) = cthread_needed s" "ct (signal_idle s) = ct s"
  "free_cthreads (signal_idle s) = free_cthreads s" "malloced (signal_idle s) = malloced s"
  by (simp_all add: signal_idle_def split: list.splits)

lemma body_look_counts:
  assumes sl: "sleepers_ok s" and p: "point s p = Looking"
    and n: "n_cthreads s = length (cthreads s) + count_points busy (point s)"
    and lim: "n_cthreads s \<le> n_cprocs s \<or> max_cprocs s \<noteq> 0 \<and> max_cprocs s \<le> n_cprocs s"
    and need: "cthread_needed s \<noteq> [] \<longrightarrow> length (cthreads s) \<le> count_points coming (point s)"
  shows "pool_counts (body_look p s)"
proof (cases "cthreads s")
  case Nil
  let ?s = "signal_idle s"
  note i = signal_idle_ok [OF sl]
  have p': "point ?s p = Looking" using i(5) [of p] p by simp
  have "sleepers_ok (go p Asleep (?s\<lparr>cthread_needed := cthread_needed s @ [p]\<rparr>))"
    using i(1) p' sleepers_present [OF i(1), of p] by (auto simp: sleepers_ok_def)
  moreover have "cthread_idle ?s \<noteq> [] \<longrightarrow> 1 < n_cthreads s"
    using idle_busy [OF sl] n i(4) by (cases "cthread_idle s") (auto simp: Suc_le_eq neq_Nil_conv)
  ultimately show ?thesis
    using n lim Nil i(2) busy_upd [OF i(1), of p Asleep] p' by (simp add: pool_counts_def counters_ok_def body_look_def Let_def)
next
  case (Cons t ts)
  have "sleepers_ok (go p (Running t) s)" using sl p by (intro sleepers_go) auto
  then have "sleepers_ok (go p (Running t) (s\<lparr>cthreads := ts\<rparr>))" by (simp add: sleepers_ok_def)
  moreover have "cthread_idle s \<noteq> [] \<longrightarrow> 1 < n_cthreads s"
    using idle_busy [OF sl] n Cons by (cases "cthread_idle s") auto
  ultimately show ?thesis
    using n lim need Cons busy_upd [OF sl, of p "Running t"] coming_upd [OF sl, of p "Running t"] p
    by (auto simp: pool_counts_def counters_ok_def body_look_def)
qed

lemma body_look_go:
  assumes "sleepers_ok s" "awake (point s p)"
  shows "body_look p (go p b s) = body_look p s"
proof (cases "cthreads s")
  case Nil
  have "q \<noteq> p" if "cthread_idle s = q # qs" for q qs
    using sleepers_okD(4) [OF assms(1), of q] that assms(2) by auto
  then show ?thesis using Nil
    by (auto simp: body_look_def signal_idle_def go_def Let_def fun_upd_twist split: list.splits)
qed (simp add: body_look_def go_def)

section \<open>The steps keep the counters\<close>

lemma body_end_counts:
  assumes s: "pool_counts s" and p: "point s p = Ending"
  shows "pool_counts (body_end p s)"
proof -
  let ?s = "s\<lparr>n_cthreads := n_cthreads s - 1\<rparr>"
  have sl: "sleepers_ok s" "sleepers_ok ?s" using s by (simp_all add: pool_counts_def sleepers_ok_def)
  have "pool_counts (body_look p (go p Looking ?s))"
  proof (rule body_look_counts)
    show "sleepers_ok (go p Looking ?s)" using sl(2) p by (intro sleepers_go) auto
  qed (use s p busy_upd [OF sl(1), of p Looking] coming_upd [OF sl(1), of p Looking] busy_pos [OF sl(1), of p] in
      \<open>auto simp: pool_counts_def counters_ok_def\<close>)
  then show ?thesis using body_look_go [OF sl(2), of p Looking] p by (simp add: body_end_def)
qed

text \<open>The structures of threads do not matter.\<close>

lemma counts_ct:
  "pool_counts (s\<lparr>ct := c\<rparr>) = pool_counts s" "pool_counts (cthread_free t s) = pool_counts s"
  "pool_counts (s\<lparr>free_cthreads := ts\<rparr>) = pool_counts s" "pool_counts (s\<lparr>malloced := n\<rparr>) = pool_counts s"
  by (simp_all add: pool_counts_def sleepers_ok_def counters_ok_def cthread_free_def)

lemma alloc_sel:
  assumes "cthread_alloc func arg s = (t, s')"
  shows "pool_counts s' = pool_counts s" "point s' = point s" "cthreads s' = cthreads s" "n_cprocs s' = n_cprocs s"
    "n_cthreads s' = n_cthreads s" "max_cprocs s' = max_cprocs s" "cthread_needed s' = cthread_needed s" "cthread_idle s' = cthread_idle s"
  using assms by (auto simp: cthread_alloc_def counts_ct split: list.splits)

lemma sleepers_create:
  assumes sl: "sleepers_ok s" and n: "n_cprocs s = n"
  shows "sleepers_ok (go n Looking (s\<lparr>n_cprocs := n + 1\<rparr>))"
proof -
  have "point s n = Absent" using sleepers_okD(1) [OF sl] n by simp
  then have "point s n \<noteq> Asleep" "\<forall>t. point s n \<noteq> Exit_Asleep t" by simp_all
  then show ?thesis using sl n by (auto simp: sleepers_ok_def)
qed

lemma fork_counts:
  assumes s: "pool_counts s" and p: "point s p = Running t"
  shows "pool_counts (snd (cthread_fork p t func arg s))"
proof -
  obtain u a where a: "cthread_alloc func arg s = (u, a)" by fastforce
  note sel = alloc_sel [OF a]
  let ?b = "go p (Notifying t) (a\<lparr>cthreads := cthreads s @ [u], n_cthreads := n_cthreads s + 1\<rparr>)"
  define full where "full \<longleftrightarrow> n_cthreads s + 1 > n_cprocs s \<and> (max_cprocs s = 0 \<or> n_cprocs s < max_cprocs s)"
  have sl: "sleepers_ok s" and c: "counters_ok s" using s by (simp_all add: pool_counts_def)
  have pn: "p < n_cprocs s" using sleepers_present [OF sl, of p] p by simp
  have "sleepers_ok (go p (Notifying t) s)" by (rule sleepers_go [OF sl]) (use p in auto)
  then have slb: "sleepers_ok ?b" by (simp add: sleepers_ok_def sel)
  have "snd (cthread_fork p t func arg s) = go p (Notifying t)
      (if full then cproc_create (a\<lparr>cthreads := cthreads s @ [u], n_cthreads := n_cthreads s + 1\<rparr>)
       else a\<lparr>cthreads := cthreads s @ [u], n_cthreads := n_cthreads s + 1\<rparr>)"
    by (auto simp: cthread_fork_def a sel full_def Let_def)
  then have fork: "snd (cthread_fork p t func arg s) =
      (if full then go (n_cprocs s) Looking (?b\<lparr>n_cprocs := n_cprocs s + 1\<rparr>) else ?b)"
    using pn fun_upd_twist [of "n_cprocs s" p "point s"] by (simp add: cproc_create_def go_def sel)
  have b: "count_points busy (point ?b) = count_points busy (point s)" "count_points coming (point ?b) = count_points coming (point s) + 1"
    using busy_upd [OF sl, of p "Notifying t"] coming_upd [OF sl, of p "Notifying t"] p sel(2) by simp_all
  show ?thesis
  proof (cases full)
    case False
    then show ?thesis using c b slb fork by (auto simp: pool_counts_def counters_ok_def sel full_def)
  next
    case True
    have absent: "point ?b (n_cprocs s) = Absent" using sleepers_okD(1) [OF slb, of "n_cprocs s"] sel by simp
    have "sleepers_ok (go (n_cprocs s) Looking (?b\<lparr>n_cprocs := n_cprocs s + 1\<rparr>))"
      using sleepers_create [OF slb] sel by simp
    moreover have "counters_ok (go (n_cprocs s) Looking (?b\<lparr>n_cprocs := n_cprocs s + 1\<rparr>))"
      using c b absent True busy_upd [OF slb, of "n_cprocs s" Looking] coming_upd [OF slb, of "n_cprocs s" Looking]
      by (auto simp: counters_ok_def sel full_def)
    ultimately show ?thesis using True fork by (simp add: pool_counts_def)
  qed
qed

lemma exit_wait_counts:
  assumes s: "pool_counts s" and p: "point s p = Exiting t"
  shows "pool_counts (exit_wait p t s)"
proof -
  have sl: "sleepers_ok s" and c: "counters_ok s" using s by (simp_all add: pool_counts_def)
  have "sleepers_ok (go p (Exit_Asleep t) (s\<lparr>cthread_idle := cthread_idle s @ [p]\<rparr>))"
    using sl p sleepers_present [OF sl, of p] by (auto simp: sleepers_ok_def)
  moreover have "pool_counts (go p (Exited t) s)" using s p by (auto intro!: counts_go)
  ultimately show ?thesis
    using c p busy_upd [OF sl, of p "Exit_Asleep t"] coming_upd [OF sl, of p "Exit_Asleep t"]
    by (auto simp: exit_wait_def pool_counts_def counters_ok_def)
qed

lemma woken_join_id: "(\<And>t u. b \<noteq> Join_Asleep t u) \<Longrightarrow> woken_join b = b"
  by (cases b) auto

lemma woken_join_counts:
  assumes s: "pool_counts s" shows "pool_counts (go q (woken_join (point s q)) s)"
proof (cases "\<exists>t u. point s q = Join_Asleep t u")
  case True
  then show ?thesis using s by (auto intro!: counts_go)
next
  case False
  then show ?thesis using s woken_join_id [of "point s q"] by (simp add: go_def)
qed

lemma signal_done_counts:
  assumes s: "pool_counts s" shows "pool_counts (signal_done t s)"
  using s woken_join_counts [of "s\<lparr>ct := c\<rparr>" for c] by (simp add: signal_done_def counts_ct split: list.splits)

lemma signal_done_point:
  "point (signal_done t s) p = (case t_done (ct s t) of [] \<Rightarrow> point s p | q # qs \<Rightarrow> if p = q then woken_join (point s p) else point s p)"
  by (simp add: signal_done_def split: list.splits)

lemma pool_advance_counts:
  assumes s: "pool_counts s" and a: "pool_advance p s = Some s'"
  shows "pool_counts s'"
proof (cases "point s p")
  case Looking
  have "counters_ok s" "sleepers_ok s" using s by (simp_all add: pool_counts_def)
  then have "pool_counts (body_look p s)"
    using Looking unfolding counters_ok_def by (intro body_look_counts) blast+
  then show ?thesis using a Looking by (simp add: pool_advance_def)
next
  case (Notifying t)
  then show ?thesis using a signal_needed_counts [OF s Notifying] by (simp add: pool_advance_def fork_notify_def)
next
  case (Joining t u)
  then show ?thesis using a s by (auto simp: pool_advance_def cthread_join_def counts_ct cthread_free_def intro!: counts_go)
next
  case (Finishing t)
  then show ?thesis using a s by (auto simp: pool_advance_def body_finish_def counts_ct cthread_free_def intro!: counts_go)
next
  case (Signal_Done t)
  have "point (signal_done t s) p = Signal_Done t" using Signal_Done by (simp add: signal_done_point split: list.splits)
  then show ?thesis using a Signal_Done signal_done_counts [OF s] by (auto simp: pool_advance_def body_signal_def intro!: counts_go)
next
  case Ending
  then show ?thesis using a body_end_counts [OF s Ending] by (simp add: pool_advance_def)
next
  case (Exiting t)
  then show ?thesis using a exit_wait_counts [OF s Exiting] by (simp add: pool_advance_def)
qed (use a in \<open>simp_all add: pool_advance_def\<close>)

lemma pool_step_counts:
  assumes "pool_step e s s'" "pool_counts (lib s)"
  shows "pool_counts (lib s')"
  using assms
proof (induction rule: pool_step.induct)
  case (p_advance p s l e)
  then show ?case using pool_advance_counts by simp
next
  case (p_lost s p t)
  then show ?case by (auto simp: body_signal_lost_def intro!: counts_go)
next
  case (p_fork s p t func arg u l)
  then show ?case using fork_counts [of "lib s" p t func arg] by simp
next
  case (p_join s p t u)
  then show ?case by (auto intro!: counts_go)
next
  case (p_detach s p t u)
  then show ?case by (simp add: cthread_detach_def counts_ct)
next
  case (p_return s p t r)
  then show ?case by (auto simp: body_return_def counts_ct intro!: counts_go)
next
  case (p_exit s p t r)
  then show ?case by (auto simp: cthread_exit_def counts_ct Let_def intro!: counts_go)
qed

lemma pool_start_counts: "pool_counts (lib (pool_start n))"
proof -
  have "{p. busy (if p = 0 then Running (Suc 0) else Absent)} = {0}" by auto
  then show ?thesis
    by (simp add: pool_counts_def sleepers_ok_def counters_ok_def pool_start_def cthread_init_def cthread_set_limit_def cthread_alloc_def
        Let_def count_points_def Suc_le_eq)
qed

interpretation pool_counters: state_machine "\<lambda>s t. \<exists>e. pool_step e s t" "pool_start n" "\<lambda>s. pool_counts (lib s)"
  by unfold_locales (auto intro: pool_start_counts pool_step_counts)

end
