(* ===== verification/Cthread_Pool_Spec.thy ===== *)
theory Cthread_Pool_Spec
  imports Cthread_Pool_Inv
begin

text \<open>
  The structures of threads: each is free, requested, run by one kernel thread, or finished and not yet
  joined; its bits say which. The table of threads that users see, and the proof that the library
  implements it.
\<close>

section \<open>The invariant of the structures\<close>

datatype role = Unused | Free | Queued | On nat | Over

fun thread_at :: "bpoint \<Rightarrow> nat option" where
  "thread_at (Running t) = Some t"
| "thread_at (Notifying t) = Some t"
| "thread_at (Joining t u) = Some t"
| "thread_at (Join_Asleep t u) = Some t"
| "thread_at (Finishing t) = Some t"
| "thread_at (Exiting t) = Some t"
| "thread_at (Exit_Asleep t) = Some t"
| "thread_at (Exited t) = Some t"
| "thread_at _ = None"

fun joins :: "bpoint \<Rightarrow> nat option" where
  "joins (Joining t u) = Some u"
| "joins (Join_Asleep t u) = Some u"
| "joins _ = None"

fun waits_for :: "bpoint \<Rightarrow> nat option" where
  "waits_for (Join_Asleep t u) = Some u"
| "waits_for _ = None"

text \<open>Between the thread's bits, its role and its handle. Kernel thread 0 runs the main thread, which has no handle.\<close>

fun struct_ok :: "role \<Rightarrow> cthread \<Rightarrow> handle \<Rightarrow> bool" where
  "struct_ok Unused c h \<longleftrightarrow> h = Closed"
| "struct_ok Free c h \<longleftrightarrow> h = Closed"
| "struct_ok Queued c h \<longleftrightarrow> \<not> t_returned c \<and> \<not> t_main c \<and> (t_detached c \<longleftrightarrow> h = Closed)"
| "struct_ok (On p) c h \<longleftrightarrow> \<not> t_returned c \<and> (t_main c \<longleftrightarrow> p = 0) \<and>
     (if p = 0 then h = Closed \<and> \<not> t_detached c else t_detached c \<longleftrightarrow> h = Closed)"
| "struct_ok Over c h \<longleftrightarrow> t_returned c \<and> \<not> t_detached c \<and> h \<noteq> Closed"

fun exits :: "bpoint \<Rightarrow> bool" where
  "exits (Exiting t) = True"
| "exits (Exit_Asleep t) = True"
| "exits (Exited t) = True"
| "exits _ = False"

definition roles_ok :: "(nat \<Rightarrow> role) \<Rightarrow> cthread_lib \<Rightarrow> bool" where
  "roles_ok role l \<longleftrightarrow> distinct (free_cthreads l) \<and> distinct (cthreads l) \<and>
     (\<forall>t. t \<in> set (free_cthreads l) \<longleftrightarrow> role t = Free) \<and> (\<forall>t. t \<in> set (cthreads l) \<longleftrightarrow> role t = Queued) \<and>
     (\<forall>t p. thread_at (point l p) = Some t \<longleftrightarrow> role t = On p) \<and> (\<forall>t. role t = Unused \<longleftrightarrow> t = 0 \<or> malloced l < t) \<and>
     thread_at (point l 0) = Some 1 \<and> (\<forall>t. point l 0 \<noteq> Finishing t) \<and> (\<forall>p. exits (point l p) \<longrightarrow> p = 0)"

definition claims_ok :: "(nat \<Rightarrow> nat option) \<Rightarrow> (nat \<Rightarrow> bpoint) \<Rightarrow> (nat \<Rightarrow> handle) \<Rightarrow> bool" where
  "claims_ok claimer pt h \<longleftrightarrow> (\<forall>p u. joins (pt p) = Some u \<longleftrightarrow> claimer u = Some p) \<and> (\<forall>u. h u = Claimed \<longleftrightarrow> claimer u \<noteq> None)"

definition done_ok :: "(nat \<Rightarrow> bpoint) \<Rightarrow> (nat \<Rightarrow> cthread) \<Rightarrow> bool" where
  "done_ok pt c \<longleftrightarrow> (\<forall>u. distinct (t_done (c u))) \<and> (\<forall>u p. p \<in> set (t_done (c u)) \<longleftrightarrow> waits_for (pt p) = Some u)"

definition joins_ok :: "(nat \<Rightarrow> nat option) \<Rightarrow> cthread_lib \<Rightarrow> (nat \<Rightarrow> handle) \<Rightarrow> bool" where
  "joins_ok claimer l h \<longleftrightarrow> claims_ok claimer (point l) h \<and> done_ok (point l) (ct l)"

definition structs_ok :: "(nat \<Rightarrow> role) \<Rightarrow> (nat \<Rightarrow> nat option) \<Rightarrow> cthread_lib \<Rightarrow> (nat \<Rightarrow> handle) \<Rightarrow> bool" where
  "structs_ok role claimer l h \<longleftrightarrow> roles_ok role l \<and> joins_ok claimer l h \<and> (\<forall>t. struct_ok (role t) (ct l t) (h t))"

lemma structs_okD:
  assumes "structs_ok role claimer l h"
  shows "roles_ok role l" "joins_ok claimer l h" "struct_ok (role t) (ct l t) (h t)"
    "thread_at (point l p) = Some t \<longleftrightarrow> role t = On p" "t \<in> set (cthreads l) \<longleftrightarrow> role t = Queued"
    "t \<in> set (free_cthreads l) \<longleftrightarrow> role t = Free" "joins (point l p) = Some u \<longleftrightarrow> claimer u = Some p"
    "h u = Claimed \<longleftrightarrow> claimer u \<noteq> None" "p \<in> set (t_done (ct l u)) \<longleftrightarrow> waits_for (point l p) = Some u"
    "thread_at (point l 0) \<noteq> None" "point l 0 \<noteq> Finishing t"
  using assms by (auto simp: structs_ok_def roles_ok_def joins_ok_def claims_ok_def done_ok_def)

lemma waits_joins: "waits_for b = Some u \<Longrightarrow> joins b = Some u"
  by (cases b) auto

text \<open>Only the kernel thread that joins a thread can be in its queue.\<close>

lemma done_list:
  assumes s: "structs_ok role claimer l h"
  shows "t_done (ct l u) = [] \<or> (\<exists>q. t_done (ct l u) = [q] \<and> claimer u = Some q \<and> waits_for (point l q) = Some u)"
proof -
  have one: "claimer u = Some q" if "q \<in> set (t_done (ct l u))" for q
    using that structs_okD(7,9) [OF s] waits_joins by metis
  have d: "distinct (t_done (ct l u))" using s by (simp add: structs_ok_def joins_ok_def done_ok_def)
  show ?thesis
  proof (cases "t_done (ct l u)")
    case (Cons q qs)
    have "qs = []" using one [of q] one [of "hd qs"] d Cons by (cases qs) auto
    then show ?thesis using Cons one [of q] structs_okD(9) [OF s, of q u] by simp
  qed simp
qed

section \<open>Moves\<close>

lemma roles_go:
  assumes "roles_ok role l" "thread_at b = thread_at (point l p)" "\<And>t. b \<noteq> Finishing t \<or> p \<noteq> 0"
    "exits b \<longrightarrow> p = 0 \<or> exits (point l p)"
  shows "roles_ok role (go p b l)"
proof -
  have at: "thread_at (((point l)(p := b)) q) = thread_at (point l q)" for q using assms(2) by simp
  have "((point l)(p := b)) 0 \<noteq> Finishing t" for t using assms(1,3) by (auto simp: roles_ok_def)
  moreover have "q = 0" if "exits (((point l)(p := b)) q)" for q
    using assms(1,4) that by (cases "q = p") (auto simp: roles_ok_def)
  ultimately show ?thesis using assms(1) by (simp add: roles_ok_def at del: fun_upd_apply)
qed

lemma joins_go:
  assumes "joins_ok claimer l h" "joins b = joins (point l p)" "waits_for b = waits_for (point l p)"
  shows "joins_ok claimer (go p b l) h"
  using assms by (auto simp: joins_ok_def claims_ok_def done_ok_def)

lemma roles_frame [simp]: "roles_ok role (l\<lparr>ct := c\<rparr>) = roles_ok role l"
  by (simp add: roles_ok_def)

lemma joins_frame [simp]:
  "joins_ok claimer (l\<lparr>cthreads := x\<rparr>) h = joins_ok claimer l h" "joins_ok claimer (l\<lparr>free_cthreads := x\<rparr>) h = joins_ok claimer l h"
  "joins_ok claimer (l\<lparr>malloced := n\<rparr>) h = joins_ok claimer l h"
  by (simp_all add: joins_ok_def)

lemma structs_go:
  assumes s: "structs_ok role claimer l h" and "thread_at b = thread_at (point l p)" "\<And>t. b \<noteq> Finishing t \<or> p \<noteq> 0"
    "joins b = joins (point l p)" "waits_for b = waits_for (point l p)" "exits b \<longrightarrow> p = 0 \<or> exits (point l p)"
  shows "structs_ok role claimer (go p b l) h"
  using assms roles_go [of role l b p] joins_go [of claimer l h b p] by (simp add: structs_ok_def)

text \<open>What the counters and conditions are does not matter.\<close>

lemma structs_frame [simp]:
  "structs_ok role claimer (l\<lparr>cthread_needed := x\<rparr>) h = structs_ok role claimer l h"
  "structs_ok role claimer (l\<lparr>cthread_idle := x\<rparr>) h = structs_ok role claimer l h"
  "structs_ok role claimer (l\<lparr>n_cthreads := n\<rparr>) h = structs_ok role claimer l h"
  "structs_ok role claimer (l\<lparr>n_cprocs := n\<rparr>) h = structs_ok role claimer l h"
  by (simp_all add: structs_ok_def roles_ok_def joins_ok_def)

section \<open>The steps keep the structures\<close>

lemma roles_used: "roles_ok role l \<Longrightarrow> role t \<noteq> Unused \<Longrightarrow> t \<noteq> 0 \<and> \<not> malloced l < t"
  unfolding roles_ok_def by metis

lemma roles_single: "roles_ok role l \<Longrightarrow> role t = On p \<Longrightarrow> u \<noteq> t \<Longrightarrow> role u \<noteq> On p"
  unfolding roles_ok_def by (metis option.inject)

lemma woken_exit_structs:
  assumes s: "structs_ok role claimer l h" shows "structs_ok role claimer (go q (woken_exit (point l q)) l) h"
proof (cases "\<exists>t. point l q = Exit_Asleep t")
  case True
  then show ?thesis by (intro structs_go [OF s]) auto
next
  case False
  then have "woken_exit (point l q) = point l q" by (cases "point l q") auto
  then show ?thesis using s by (simp add: go_def)
qed

lemma signal_idle_structs:
  assumes s: "structs_ok role claimer l h" shows "structs_ok role claimer (signal_idle l) h"
  using s woken_exit_structs [of role claimer "l\<lparr>cthread_idle := qs\<rparr>" for qs] by (simp add: signal_idle_def split: list.splits)

lemma signal_needed_structs:
  assumes s: "structs_ok role claimer l h" and c: "pool_counts l"
  shows "structs_ok role claimer (signal_needed l) h"
proof (cases "cthread_needed l")
  case (Cons q qs)
  have "point l q = Asleep" using sleepers_okD(3) [of l q] c Cons by (simp add: pool_counts_def)
  then have "structs_ok role claimer (go q Looking (l\<lparr>cthread_needed := qs\<rparr>)) h" using s by (intro structs_go) auto
  then show ?thesis using Cons by (simp add: signal_needed_def)
qed (use s in \<open>simp add: signal_needed_def\<close>)

lemma body_look_structs:
  assumes s: "structs_ok role claimer l h" and c: "sleepers_ok l" and p: "point l p = Looking \<or> point l p = Ending"
  shows "\<exists>role. structs_ok role claimer (body_look p l) h"
proof (cases "cthreads l")
  case Nil
  let ?l = "signal_idle l"
  have "point ?l p = point l p" using signal_idle_ok(5) [OF c, of p] p by auto
  then have "structs_ok role claimer (go p Asleep (?l\<lparr>cthread_needed := x\<rparr>)) h" for x
    using p signal_idle_structs [OF s] by (intro structs_go) auto
  then show ?thesis using Nil by (auto simp: body_look_def Let_def)
next
  case (Cons t ts)
  note D = structs_okD [OF s]
  let ?role = "role(t := On p)"
  have t: "role t = Queued" "t \<notin> set ts" "distinct ts" using D(1) D(5) [of t] Cons by (auto simp: roles_ok_def)
  have ts: "role u = Queued \<longleftrightarrow> u \<in> set ts" if "u \<noteq> t" for u using D(5) [of u] Cons that by auto
  have p': "role u \<noteq> On p" "p \<noteq> 0" for u
    using D(4) [of p u] D(10) p by (auto, (cases "p = 0", auto)+)
  have "roles_ok ?role (go p (Running t) (l\<lparr>cthreads := ts\<rparr>))"
    using D(1) t ts p' roles_used [OF D(1), of t] by (auto simp: roles_ok_def)
  moreover have "joins_ok claimer (go p (Running t) (l\<lparr>cthreads := ts\<rparr>)) h" using D(2) p by (intro joins_go) auto
  moreover have "struct_ok (?role u) (ct l u) (h u)" for u using D(3) [of u] D(3) [of t] t p' by auto
  ultimately have "structs_ok ?role claimer (go p (Running t) (l\<lparr>cthreads := ts\<rparr>)) h" by (simp add: structs_ok_def)
  then show ?thesis using Cons by (auto simp: body_look_def)
qed

text \<open>A thread is over, and its structure goes to the free list.\<close>

lemma free_over:
  assumes r: "roles_ok role l" and t: "role t = Over"
  shows "roles_ok (role(t := Free)) (cthread_free t l)"
  using r t roles_used [OF r, of t] by (auto simp: roles_ok_def cthread_free_def)

lemma leave_roles:
  assumes r: "roles_ok role l" and t: "role t = On p" "p \<noteq> 0" and b: "thread_at b = None"
  shows "roles_ok (role(t := Over)) (go p b l)"
proof -
  have "\<not> exits b" using b by (cases b) auto
  then show ?thesis using r t b roles_used [OF r, of t] roles_single [OF r t(1)] by (auto simp: roles_ok_def)
qed

lemma free_frame:
  "joins_ok claimer (cthread_free t l) h = joins_ok claimer l h" "point (cthread_free t l) = point l" "ct (cthread_free t l) = ct l"
  by (simp_all add: joins_ok_def cthread_free_def)

lemma join_structs:
  assumes s: "structs_ok role claimer l h" and p: "point l p = Joining t u"
  shows "\<exists>role claimer. structs_ok role claimer (cthread_join p t u l) (handle_after (event_at p l) h)"
proof -
  note D = structs_okD [OF s]
  have c: "claimer u = Some p" "h u = Claimed" using D(7) [of p u] D(8) [of u] p by auto
  have mine: "claimer v = Some p \<longleftrightarrow> v = u" for v using D(7) [of p v] p by auto
  show ?thesis
  proof (cases "t_returned (ct l u)")
    case False
    let ?l = "go p (Join_Asleep t u) (l\<lparr>ct := (ct l)(u := (ct l u)\<lparr>t_done := t_done (ct l u) @ [p]\<rparr>)\<rparr>)"
    have "p \<notin> set (t_done (ct l v))" for v using D(9) [of p v] p by simp
    then have "done_ok (point ?l) (ct ?l)" using D(2) p by (auto simp: joins_ok_def done_ok_def)
    moreover have "claims_ok claimer (point ?l) h" using D(2) p mine by (auto simp: joins_ok_def claims_ok_def)
    ultimately have "joins_ok claimer ?l h" by (simp add: joins_ok_def)
    moreover have "roles_ok role (go p (Join_Asleep t u) l)" using D(1) p by (intro roles_go) auto
    then have "roles_ok role ?l" by (simp add: roles_ok_def)
    moreover have "struct_ok (role v) (c\<lparr>t_done := x\<rparr>) k = struct_ok (role v) c k" for v c x k by (cases "role v") auto
    then have "struct_ok (role v) (ct ?l v) (h v)" for v using D(3) [of v] by (cases "v = u") simp_all
    ultimately have "structs_ok role claimer ?l h" by (simp add: structs_ok_def)
    then show ?thesis using False p by (auto simp: cthread_join_def handle_after_def event_at_def)
  next
    case True
    have over: "role u = Over" using D(3) [of u] c True by (cases "role u") auto
    let ?role = "role(u := Free)" and ?h = "h(u := Closed)" and ?cl = "claimer(u := None)"
    let ?l = "go p (Running t) (cthread_free u l)"
    have "roles_ok ?role ?l" using free_over [OF D(1) over] p by (intro roles_go) (auto simp: free_frame)
    moreover have nd: "waits_for (point l q) \<noteq> Some u" for q using D(7) [of q u] c waits_joins p by fastforce
    have other: "claimer v \<noteq> Some p" if "v \<noteq> u" for v using mine that by simp
    have "joins_ok ?cl ?l ?h"
      using D(2) p c nd other by (auto simp: joins_ok_def free_frame claims_ok_def done_ok_def)
    moreover have "struct_ok (?role v) (ct ?l v) (?h v)" for v using D(3) [of v] by (simp add: free_frame)
    ultimately have "structs_ok ?role ?cl ?l ?h" by (simp add: structs_ok_def)
    then show ?thesis using True p by (auto simp: cthread_join_def handle_after_def event_at_def)
  qed
qed

lemma finish_structs:
  assumes s: "structs_ok role claimer l h" and p: "point l p = Finishing t"
  shows "\<exists>role. structs_ok role claimer (body_finish p t l) h"
proof -
  note D = structs_okD [OF s]
  have p0: "p \<noteq> 0" using D(11) p by (cases "p = 0") auto
  have t: "role t = On p" using D(4) [of p t] p by simp
  have st: "\<not> t_returned (ct l t)" "\<not> t_main (ct l t)" "t_detached (ct l t) \<longleftrightarrow> h t = Closed" using D(3) [of t] t p0 by auto
  show ?thesis
  proof (cases "t_detached (ct l t)")
    case True
    let ?l = "go p Ending (cthread_free t l)" and ?role = "role(t := Free)"
    have "roles_ok (role(t := Over)) (go p Ending l)" by (rule leave_roles [OF D(1) t p0]) simp
    then have "roles_ok ?role (cthread_free t (go p Ending l))" using free_over [of "role(t := Over)" _ t] by simp
    moreover have "cthread_free t (go p Ending l) = ?l" by (simp add: cthread_free_def go_def)
    moreover have "joins_ok claimer (cthread_free t l) h" using D(2) by (simp add: free_frame)
    then have "joins_ok claimer ?l h" using p by (intro joins_go) (auto simp: free_frame)
    moreover have "struct_ok (?role v) (ct ?l v) (h v)" for v using D(3) [of v] True st by (simp add: free_frame)
    ultimately have "structs_ok ?role claimer ?l h" by (simp add: structs_ok_def)
    then show ?thesis using True st by (auto simp: body_finish_def)
  next
    case False
    let ?c = "(ct l)(t := (ct l t)\<lparr>t_returned := True\<rparr>)" and ?role = "role(t := Over)"
    let ?l = "go p (Signal_Done t) (l\<lparr>ct := ?c\<rparr>)"
    have "roles_ok ?role (go p (Signal_Done t) l)" by (rule leave_roles [OF D(1) t p0]) simp
    then have roles: "roles_ok ?role ?l" by (simp add: roles_ok_def)
    have "claimer u \<noteq> Some p" for u using D(7) [of p u] p by simp
    then have "joins_ok claimer ?l h" using D(2) p by (auto simp: joins_ok_def claims_ok_def done_ok_def)
    moreover have "struct_ok (?role v) (ct ?l v) (h v)" for v using D(3) [of v] False st by simp
    ultimately have "structs_ok ?role claimer ?l h" using roles by (simp add: structs_ok_def)
    then show ?thesis using False st by (auto simp: body_finish_def)
  qed
qed

lemma signal_structs:
  assumes s: "structs_ok role claimer l h" and p: "point l p = Signal_Done t"
  shows "structs_ok role claimer (body_signal p t l) h"
proof -
  note D = structs_okD [OF s]
  let ?l = "body_signal p t l"
  have ct: "ct ?l u = (if u = t then (ct l t)\<lparr>t_done := []\<rparr> else ct l u)" for u
    using done_list [OF s, of t] by (auto simp: body_signal_def signal_done_def)
  have pt: "point ?l q = (if q = p then Ending else if waits_for (point l q) = Some t then woken_join (point l q) else point l q)" for q
  proof (cases "t_done (ct l t)")
    case Nil
    then show ?thesis using D(9) [of q t] by (simp add: body_signal_def signal_done_def)
  next
    case (Cons a as)
    then have "t_done (ct l t) = [a]" using done_list [OF s, of t] by auto
    then show ?thesis using D(9) [of q t] by (auto simp: body_signal_def signal_done_point)
  qed
  have same: "thread_at (woken_join b) = thread_at b" "joins (woken_join b) = joins b" "waits_for (woken_join b) = None"
    "woken_join b = Finishing u \<longleftrightarrow> b = Finishing u" "woken_join b = Signal_Done u \<longleftrightarrow> b = Signal_Done u"
    "exits (woken_join b) = exits b" for b u by (cases b; simp)+
  have lists: "free_cthreads ?l = free_cthreads l" "cthreads ?l = cthreads l" "malloced ?l = malloced l"
    by (simp_all add: body_signal_def signal_done_def split: list.splits)
  have at: "thread_at (point ?l q) = thread_at (point l q)" "joins (point ?l q) = joins (point l q)" for q using pt [of q] same p by auto
  have fin: "point ?l 0 \<noteq> Finishing u" for u using pt [of 0] same D(11) [of u] by auto
  have "exits (point ?l q) \<Longrightarrow> exits (point l q)" for q using pt [of q] same by (auto split: if_splits)
  then have "roles_ok role ?l" using D(1) fin by (auto simp: roles_ok_def lists at)
  moreover have "claims_ok claimer (point ?l) h" using D(2) by (simp add: joins_ok_def claims_ok_def at)
  moreover have waits: "waits_for (point ?l q) = Some u \<longleftrightarrow> waits_for (point l q) = Some u \<and> u \<noteq> t" for q u
    using pt [of q] same p by auto
  then have "done_ok (point ?l) (ct ?l)" using D(2) by (auto simp: joins_ok_def done_ok_def ct)
  moreover have "struct_ok (role v) (ct ?l v) (h v)" for v using D(3) [of v] by (cases "role v") (auto simp: ct)
  ultimately show ?thesis by (simp add: structs_ok_def joins_ok_def)
qed

lemma lost_structs:
  assumes "structs_ok role claimer l h" "point l p = Signal_Done t"
  shows "structs_ok role claimer (body_signal_lost p t l) h"
  using assms by (auto simp: body_signal_lost_def intro!: structs_go)

lemma alloc_structs:
  assumes s: "structs_ok role claimer l h" and a: "cthread_alloc func arg l = (t, l')"
  shows "structs_ok (role(t := Queued)) claimer (l'\<lparr>cthreads := cthreads l @ [t]\<rparr>) (h(t := Open)) \<and>
    role t \<in> {Free, Unused} \<and> point l' = point l"
proof -
  note D = structs_okD [OF s]
  let ?l = "l'\<lparr>cthreads := cthreads l @ [t]\<rparr>" and ?c = "(ct l)(t := initial_cthread\<lparr>t_func := func, t_arg := arg\<rparr>)"
  have pt: "point l' = point l" "ct l' = ?c" using a by (auto simp: cthread_alloc_def split: list.splits)
  have t: "role t \<in> {Free, Unused}" "t \<noteq> 0" "\<not> malloced l' < t"
    and free: "distinct (free_cthreads l')" "\<And>u. u \<in> set (free_cthreads l') \<longleftrightarrow> role u = Free \<and> u \<noteq> t"
    and mal: "\<And>u. u \<noteq> t \<Longrightarrow> malloced l' < u \<longleftrightarrow> malloced l < u"
  proof -
    have u: "role t \<noteq> Unused \<Longrightarrow> t \<noteq> 0 \<and> \<not> malloced l < t" using roles_used [OF D(1)] by blast
    have "role t \<in> {Free, Unused} \<and> t \<noteq> 0 \<and> \<not> malloced l' < t \<and> distinct (free_cthreads l') \<and>
      (\<forall>u. u \<in> set (free_cthreads l') \<longleftrightarrow> role u = Free \<and> u \<noteq> t) \<and> (\<forall>u. u \<noteq> t \<longrightarrow> malloced l' < u \<longleftrightarrow> malloced l < u)"
    proof (cases "free_cthreads l")
      case Nil
      then have "t = malloced l + 1" "malloced l' = malloced l + 1" "free_cthreads l' = []" using a by (auto simp: cthread_alloc_def)
      then show ?thesis using D(1) Nil by (auto simp: roles_ok_def)
    next
      case (Cons x xs)
      then have x: "t = x" "malloced l' = malloced l" "free_cthreads l' = xs" using a by (auto simp: cthread_alloc_def)
      have "distinct (x # xs)" "\<And>v. v \<in> set (x # xs) \<longleftrightarrow> role v = Free" using D(1) Cons by (auto simp: roles_ok_def)
      then have "role x = Free" "distinct xs" "\<And>v. v \<in> set xs \<longleftrightarrow> role v = Free \<and> v \<noteq> x" by auto
      then show ?thesis using x u by auto
    qed
    then show "role t \<in> {Free, Unused}" "t \<noteq> 0" "\<not> malloced l' < t" "distinct (free_cthreads l')"
      "\<And>u. u \<in> set (free_cthreads l') \<longleftrightarrow> role u = Free \<and> u \<noteq> t" "\<And>u. u \<noteq> t \<Longrightarrow> malloced l' < u \<longleftrightarrow> malloced l < u" by auto
  qed
  have h: "h t = Closed" "claimer t = None" using D(3) [of t] D(8) [of t] t(1) by auto
  have none: "role t \<noteq> On q" "role t \<noteq> Queued" for q using t(1) by auto
  have "roles_ok (role(t := Queued)) ?l"
    using D(1) t(2,3) free mal none pt by (auto simp: roles_ok_def)
  moreover have w: "waits_for (point l q) \<noteq> Some t" for q using D(7) [of q t] h(2) waits_joins by fastforce
  have "joins_ok claimer ?l (h(t := Open))"
    using D(2) w h by (auto simp: joins_ok_def claims_ok_def done_ok_def pt initial_cthread_def)
  moreover have "struct_ok ((role(t := Queued)) v) (ct ?l v) ((h(t := Open)) v)" for v
    using D(3) [of v] by (auto simp: pt initial_cthread_def)
  ultimately show ?thesis using pt t(1) by (simp add: structs_ok_def)
qed

lemma fork_structs:
  assumes s: "structs_ok role claimer l h" and c: "pool_counts l" and p: "point l p = Running t"
    and f: "cthread_fork p t func arg l = (u, l')"
  shows "\<exists>role. structs_ok role claimer l' (h(u := Open))"
proof -
  obtain v a where a: "cthread_alloc func arg l = (v, a)" by fastforce
  let ?b = "a\<lparr>cthreads := cthreads a @ [v], n_cthreads := n_cthreads a + 1\<rparr>"
  note sel = alloc_sel [OF a]
  have v: "v = u" using f a by (simp add: cthread_fork_def Let_def)
  note i = alloc_structs [OF s a]
  have b: "structs_ok (role(u := Queued)) claimer ?b (h(u := Open))"
  proof -
    have "structs_ok (role(u := Queued)) claimer ((a\<lparr>cthreads := cthreads a @ [v]\<rparr>)\<lparr>n_cthreads := n_cthreads a + 1\<rparr>) (h(u := Open))"
      using i v sel(3) unfolding structs_frame(3) by simp
    then show ?thesis by simp
  qed
  have absent: "point l (n_cprocs l) = Absent" using c sleepers_okD(1) [of l "n_cprocs l"] by (simp add: pool_counts_def)
  have create: "structs_ok (role(u := Queued)) claimer (cproc_create ?b) (h(u := Open))"
    using b absent sel by (auto simp: cproc_create_def intro!: structs_go)
  have "point (cproc_create ?b) p = Running t" using p absent sel by (auto simp: cproc_create_def)
  then have "structs_ok (role(u := Queued)) claimer (go p (Notifying t) (cproc_create ?b)) (h(u := Open))"
    using create by (intro structs_go) auto
  moreover have "structs_ok (role(u := Queued)) claimer (go p (Notifying t) ?b) (h(u := Open))"
    using b p sel by (intro structs_go) auto
  ultimately show ?thesis using f a v by (auto simp: cthread_fork_def Let_def split: if_splits)
qed

lemma claim_structs:
  assumes s: "structs_ok role claimer l h" and p: "point l p = Running t" and u: "h u = Open"
  shows "structs_ok role (claimer(u := Some p)) (go p (Joining t u) l) (h(u := Claimed))"
proof -
  note D = structs_okD [OF s]
  have "claimer u = None" "\<And>v. claimer v \<noteq> Some p" using D(8) [of u] D(7) [of p] u p by auto
  then have "claims_ok (claimer(u := Some p)) ((point l)(p := Joining t u)) (h(u := Claimed))"
    using D(2) by (auto simp: joins_ok_def claims_ok_def)
  moreover have "done_ok ((point l)(p := Joining t u)) (ct l)" using D(2) p by (auto simp: joins_ok_def done_ok_def)
  moreover have "roles_ok role (go p (Joining t u) l)" using D(1) p by (intro roles_go) auto
  moreover have "struct_ok (role v) (ct l v) ((h(u := Claimed)) v)" for v using D(3) [of v] u by (cases "role v") auto
  ultimately show ?thesis by (simp add: structs_ok_def joins_ok_def)
qed

lemma detach_structs:
  assumes s: "structs_ok role claimer l h" and u: "h u = Open"
  shows "\<exists>role. structs_ok role claimer (cthread_detach u l) (h(u := Closed))"
proof -
  note D = structs_okD [OF s]
  have c: "claims_ok claimer (point l) (h(u := Closed))" using D(2) D(8) [of u] u by (auto simp: joins_ok_def claims_ok_def)
  show ?thesis
  proof (cases "t_returned (ct l u)")
    case True
    then have over: "role u = Over" using D(3) [of u] u by (cases "role u") auto
    have "structs_ok (role(u := Free)) claimer (cthread_free u l) (h(u := Closed))"
      using free_over [OF D(1) over] c D(2,3) by (simp add: structs_ok_def joins_ok_def free_frame)
    then show ?thesis using True by (auto simp: cthread_detach_def)
  next
    case False
    let ?c = "(ct l)(u := (ct l u)\<lparr>t_detached := True\<rparr>)"
    have "struct_ok (role v) (?c v) ((h(u := Closed)) v)" for v using D(3) [of v] False u by (cases "role v") (auto split: if_splits)
    moreover have "done_ok (point l) ?c" using D(2) by (auto simp: joins_ok_def done_ok_def)
    ultimately have "structs_ok role claimer (l\<lparr>ct := ?c\<rparr>) (h(u := Closed))"
      using D(1) c by (simp add: structs_ok_def joins_ok_def)
    then show ?thesis using False by (auto simp: cthread_detach_def)
  qed
qed

lemma result_structs:
  assumes s: "structs_ok role claimer l h" shows "structs_ok role claimer (l\<lparr>ct := (ct l)(t := (ct l t)\<lparr>t_result := r\<rparr>)\<rparr>) h"
proof -
  note D = structs_okD [OF s]
  let ?c = "(ct l)(t := (ct l t)\<lparr>t_result := r\<rparr>)"
  have "struct_ok (role v) (?c v) (h v)" for v using D(3) [of v] by (cases "role v") auto
  moreover have "done_ok (point l) ?c" using D(2) by (auto simp: joins_ok_def done_ok_def)
  ultimately show ?thesis using D(1,2) by (simp add: structs_ok_def joins_ok_def)
qed

lemma exit_structs:
  assumes s: "structs_ok role claimer l h" and p: "point l p = Running t"
  shows "structs_ok role claimer (cthread_exit p t r l) h"
proof -
  have "role t = On p" using structs_okD(4) [OF s, of p t] p by simp
  then have "t_main (ct l t) \<longleftrightarrow> p = 0" using structs_okD(3) [OF s, of t] by simp
  then show ?thesis using result_structs [OF s] p by (auto simp: cthread_exit_def Let_def intro!: structs_go)
qed

section \<open>All steps\<close>

definition pool_inv :: "pool \<Rightarrow> bool" where
  "pool_inv s \<longleftrightarrow> pool_counts (lib s) \<and> (\<exists>role claimer. structs_ok role claimer (lib s) (handle s))"

lemma pool_advance_structs:
  assumes s: "structs_ok role claimer l h" and c: "pool_counts l" and a: "pool_advance p l = Some l'"
  shows "\<exists>role claimer. structs_ok role claimer l' (handle_after (event_at p l) h)"
proof -
  have sl: "sleepers_ok l" using c by (simp add: pool_counts_def)
  show ?thesis
  proof (cases "point l p")
    case Looking
    then show ?thesis using a body_look_structs [OF s sl, of p] by (auto simp: pool_advance_def event_at_def handle_after_def)
  next
    case (Notifying t)
    have "point (signal_needed l) p = Notifying t"
      using Notifying sleepers_okD(3) [OF sl, of p] by (auto simp: signal_needed_def split: list.splits)
    then have "structs_ok role claimer (fork_notify p t l) h"
      using signal_needed_structs [OF s c] by (auto simp: fork_notify_def intro!: structs_go)
    then show ?thesis using a Notifying by (auto simp: pool_advance_def event_at_def handle_after_def)
  next
    case (Joining t u)
    then show ?thesis using a join_structs [OF s Joining] by (auto simp: pool_advance_def)
  next
    case (Finishing t)
    then show ?thesis using a finish_structs [OF s Finishing] by (auto simp: pool_advance_def event_at_def handle_after_def)
  next
    case (Signal_Done t)
    then show ?thesis using a signal_structs [OF s Signal_Done] by (auto simp: pool_advance_def event_at_def handle_after_def)
  next
    case Ending
    have "sleepers_ok (l\<lparr>n_cthreads := n_cthreads l - 1\<rparr>)" using sl by (simp add: sleepers_ok_def)
    then have "\<exists>role. structs_ok role claimer (body_end p l) h"
      using s Ending unfolding body_end_def by (intro body_look_structs) auto
    then show ?thesis using a Ending by (auto simp: pool_advance_def event_at_def handle_after_def)
  next
    case (Exiting t)
    then have "structs_ok role claimer (exit_wait p t l) h"
      using s by (auto simp: exit_wait_def intro!: structs_go)
    then show ?thesis using a Exiting by (auto simp: pool_advance_def event_at_def handle_after_def)
  qed (use a in \<open>simp_all add: pool_advance_def\<close>)
qed

lemma pool_step_inv:
  assumes step: "pool_step e s s'" and inv: "pool_inv s"
  shows "pool_inv s'"
proof -
  have c: "pool_counts (lib s)" using inv by (simp add: pool_inv_def)
  from inv obtain role claimer where s: "structs_ok role claimer (lib s) (handle s)" by (auto simp: pool_inv_def)
  from step have "\<exists>role claimer. structs_ok role claimer (lib s') (handle s')"
  proof cases
    case (p_advance p l)
    then show ?thesis using pool_advance_structs [OF s c] by simp
  next
    case (p_lost p t)
    then show ?thesis using lost_structs [OF s p_lost(3)] by auto
  next
    case (p_fork p t func arg u l)
    then show ?thesis using fork_structs [OF s c] by simp blast
  next
    case (p_join p t u)
    then show ?thesis using claim_structs [OF s p_join(3,4)] by auto
  next
    case (p_detach p t u)
    then show ?thesis using detach_structs [OF s, of u] by auto
  next
    case (p_return p t r)
    then have "structs_ok role claimer (body_return p t r (lib s)) (handle s)"
      using result_structs [OF s] by (auto simp: body_return_def intro!: structs_go)
    then show ?thesis using p_return by auto
  next
    case (p_exit p t r)
    then show ?thesis using exit_structs [OF s p_exit(3), of r] by auto
  qed
  then show ?thesis using pool_step_counts [OF step c] by (simp add: pool_inv_def)
qed

lemma pool_start_inv: "pool_inv (pool_start n)"
proof -
  have "structs_ok ((\<lambda>_. Unused)(1 := On 0)) (\<lambda>_. None) (lib (pool_start n)) (handle (pool_start n))"
    by (auto simp: structs_ok_def roles_ok_def joins_ok_def claims_ok_def done_ok_def pool_start_def
        cthread_init_def cthread_set_limit_def cthread_alloc_def initial_cthread_def Let_def)
  then show ?thesis using pool_start_counts by (auto simp: pool_inv_def)
qed

end
