(* ===== verification/Cthread_Pool_Safe.thy ===== *)
theory Cthread_Pool_Safe
  imports Cthread_Pool_Spec
begin

text \<open>
  What forking and joining promise: the library implements a table of threads with their results. A
  request waits only as long as all kernel threads the limit allows are busy, and the main thread, which
  sleeps in its exit while other threads run, is woken for the last of them. That every joiner is woken is
  not promised, and not true: the signal of a finished thread may be lost.
\<close>

section \<open>The table of threads\<close>

record table =
  alive :: "nat set"
  results :: "nat \<Rightarrow> nat option option"

text \<open>
  The threads that have not finished, and for each handle a user has, the result once there is one. The
  program ends only when nobody but the main thread, 1, is left.
\<close>

fun table_do :: "pool_event \<Rightarrow> table \<Rightarrow> table option" where
  "table_do (Forked t) a =
     (if t \<notin> alive a \<and> results a t = None
      then Some (a\<lparr>alive := insert t (alive a), results := (results a)(t := Some None)\<rparr>) else None)"
| "table_do (Finished t r) a =
     (if t \<in> alive a
      then Some (a\<lparr>alive := alive a - {t},
                   results := (if results a t = None then results a else (results a)(t := Some (Some r)))\<rparr>) else None)"
| "table_do (Joined t r) a =
     (if results a t = Some (Some r) then Some (a\<lparr>results := (results a)(t := None)\<rparr>) else None)"
| "table_do (Detached t) a =
     (if results a t \<noteq> None then Some (a\<lparr>results := (results a)(t := None)\<rparr>) else None)"
| "table_do Exit a = (if alive a = {1} then Some a else None)"

definition table_step :: "pool_event option \<Rightarrow> table \<Rightarrow> table \<Rightarrow> bool" where
  "table_step e a b \<longleftrightarrow> (case e of None \<Rightarrow> a = b | Some e \<Rightarrow> table_do e a = Some b)"

definition table_start :: table where
  "table_start = \<lparr>alive = {1}, results = (\<lambda>_. None)\<rparr>"

section \<open>The abstraction\<close>

definition alive_in :: "cthread_lib \<Rightarrow> nat set" where
  "alive_in l = set (cthreads l) \<union> {t. \<exists>p. thread_at (point l p) = Some t}"

definition result_in :: "cthread \<Rightarrow> handle \<Rightarrow> nat option option" where
  "result_in c h = (if h = Closed then None else Some (if t_returned c then Some (t_result c) else None))"

definition table_of :: "cthread_lib \<Rightarrow> (nat \<Rightarrow> handle) \<Rightarrow> table" where
  "table_of l h = \<lparr>alive = alive_in l, results = (\<lambda>t. result_in (ct l t) (h t))\<rparr>"

lemma alive_iff:
  assumes "structs_ok role claimer l h"
  shows "t \<in> alive_in l \<longleftrightarrow> role t = Queued \<or> (\<exists>p. role t = On p)"
  using structs_okD(4,5) [OF assms] by (auto simp: alive_in_def)

lemma table_of_eqI:
  assumes "\<And>t. t \<in> alive_in l \<longleftrightarrow> t \<in> alive a" "\<And>t. result_in (ct l t) (h t) = results a t"
  shows "table_of l h = a"
  using assms by (intro table.equality) (auto simp: table_of_def)

lemma alive_go:
  assumes "thread_at b = thread_at (point l p)" shows "alive_in (go p b l) = alive_in l"
proof -
  have "thread_at (((point l)(p := b)) q) = thread_at (point l q)" for q using assms by simp
  then show ?thesis by (simp add: alive_in_def del: fun_upd_apply)
qed

lemma enters:
  assumes "thread_at (pt p) = None" "thread_at b = Some t"
  shows "(\<exists>q. thread_at ((pt(p := b)) q) = Some u) \<longleftrightarrow> u = t \<or> (\<exists>q. thread_at (pt q) = Some u)"
proof
  assume "\<exists>q. thread_at ((pt(p := b)) q) = Some u"
  then obtain q where "thread_at ((pt(p := b)) q) = Some u" ..
  then show "u = t \<or> (\<exists>q. thread_at (pt q) = Some u)" using assms by (cases "q = p") auto
next
  assume "u = t \<or> (\<exists>q. thread_at (pt q) = Some u)"
  then show "\<exists>q. thread_at ((pt(p := b)) q) = Some u"
  proof
    assume "u = t"
    then show ?thesis using assms by (intro exI [of _ p]) simp
  next
    assume "\<exists>q. thread_at (pt q) = Some u"
    then obtain q where "thread_at (pt q) = Some u" ..
    then show ?thesis using assms by (intro exI [of _ q]) auto
  qed
qed

lemma leaves:
  assumes "\<And>q. thread_at (pt q) = Some t \<longleftrightarrow> q = p" "thread_at b = None"
  shows "(\<exists>q. thread_at ((pt(p := b)) q) = Some u) \<longleftrightarrow> u \<noteq> t \<and> (\<exists>q. thread_at (pt q) = Some u)"
proof
  assume "\<exists>q. thread_at ((pt(p := b)) q) = Some u"
  then obtain q where q: "thread_at ((pt(p := b)) q) = Some u" ..
  then have "q \<noteq> p" using assms(2) by (cases "q = p") auto
  then show "u \<noteq> t \<and> (\<exists>q. thread_at (pt q) = Some u)" using q assms(1) [of q] by auto
next
  assume "u \<noteq> t \<and> (\<exists>q. thread_at (pt q) = Some u)"
  then obtain q where q: "thread_at (pt q) = Some u" "u \<noteq> t" by blast
  then have "q \<noteq> p" using assms(1) [of q] by auto
  then show "\<exists>q. thread_at ((pt(p := b)) q) = Some u" using q by (intro exI [of _ q]) simp
qed

lemma alive_frame [simp]:
  "alive_in (l\<lparr>ct := c\<rparr>) = alive_in l" "alive_in (cthread_free t l) = alive_in l" "alive_in (l\<lparr>cthread_idle := x\<rparr>) = alive_in l"
  "alive_in (l\<lparr>cthread_needed := x\<rparr>) = alive_in l" "alive_in (l\<lparr>n_cthreads := n\<rparr>) = alive_in l" "alive_in (l\<lparr>n_cprocs := n\<rparr>) = alive_in l"
  by (simp_all add: alive_in_def cthread_free_def)

lemma result_frame [simp]:
  "result_in (c\<lparr>t_done := x\<rparr>) h = result_in c h"
  by (simp add: result_in_def)

section \<open>Steps without event\<close>

lemma alive_woken: "alive_in (go q (woken_exit (point l q)) l') = alive_in l'" if "point l' = point l" for l l'
proof (rule alive_go)
  show "thread_at (woken_exit (point l q)) = thread_at (point l' q)" using that by (cases "point l q") auto
qed

lemma alive_signal_idle: "alive_in (signal_idle l) = alive_in l"
  using alive_woken [of "l\<lparr>cthread_idle := qs\<rparr>" l for qs] by (simp add: signal_idle_def split: list.splits)

lemma alive_signal_done: "alive_in (signal_done t l) = alive_in l"
proof -
  have "thread_at (woken_join b) = thread_at b" for b by (cases b) auto
  then have "alive_in (go q (woken_join (point l q)) (l\<lparr>ct := c\<rparr>)) = alive_in (l\<lparr>ct := c\<rparr>)" for q c by (intro alive_go) simp
  then show ?thesis by (simp add: signal_done_def split: list.splits)
qed

lemma alive_signal_needed:
  assumes "pool_counts l" shows "alive_in (signal_needed l) = alive_in l"
proof (cases "cthread_needed l")
  case (Cons q qs)
  then have "point l q = Asleep" using sleepers_okD(3) [of l q] assms by (simp add: pool_counts_def)
  then have "alive_in (go q Looking (l\<lparr>cthread_needed := qs\<rparr>)) = alive_in (l\<lparr>cthread_needed := qs\<rparr>)" by (intro alive_go) simp
  then show ?thesis using Cons by (simp add: signal_needed_def)
qed (simp add: signal_needed_def)

lemma body_look_table:
  assumes sl: "sleepers_ok l" and p: "point l p = Looking \<or> point l p = Ending"
  shows "table_of (body_look p l) h = table_of l h"
proof (cases "cthreads l")
  case Nil
  have "point (signal_idle l) p = point l p" using signal_idle_ok(5) [OF sl, of p] p by auto
  then have "alive_in (go p Asleep (signal_idle l\<lparr>cthread_needed := x\<rparr>)) = alive_in (signal_idle l\<lparr>cthread_needed := x\<rparr>)" for x
    using p by (intro alive_go) auto
  then show ?thesis using Nil by (simp add: table_of_def body_look_def Let_def alive_signal_idle)
next
  case (Cons t ts)
  have "(\<exists>q. thread_at (((point l)(p := Running t)) q) = Some u) \<longleftrightarrow> u = t \<or> (\<exists>q. thread_at (point l q) = Some u)" for u
    using p by (intro enters) auto
  then have "alive_in (go p (Running t) (l\<lparr>cthreads := ts\<rparr>)) = alive_in l"
    using Cons by (simp add: alive_in_def set_eq_iff del: fun_upd_apply) blast
  then show ?thesis using Cons by (simp add: table_of_def body_look_def)
qed

lemma running_result:
  assumes s: "structs_ok role claimer l h" and p: "thread_at (point l p) = Some t"
  shows "result_in ((ct l t)\<lparr>t_result := r\<rparr>) (h t) = result_in (ct l t) (h t)"
proof -
  have "\<not> t_returned (ct l t)" using structs_okD(3) [OF s, of t] structs_okD(4) [OF s, of p t] p by auto
  then show ?thesis by (simp add: result_in_def)
qed

lemma fork_notify_table:
  assumes c: "pool_counts l" and p: "point l p = Notifying t"
  shows "table_of (fork_notify p t l) h = table_of l h"
proof -
  have "sleepers_ok l" using c by (simp add: pool_counts_def)
  then have "point (signal_needed l) p = Notifying t" "ct (signal_needed l) = ct l"
    using p sleepers_okD(3) [of l p] by (auto simp: signal_needed_def split: list.splits)
  then show ?thesis using alive_signal_needed [OF c] by (simp add: fork_notify_def table_of_def alive_go)
qed

lemma body_signal_table:
  assumes p: "point l p = Signal_Done t" shows "table_of (body_signal p t l) h = table_of l h"
proof -
  have "point (signal_done t l) p = Signal_Done t" using p by (simp add: signal_done_point split: list.splits)
  moreover have "result_in (ct (signal_done t l) v) k = result_in (ct l v) k" for v k
    by (simp add: signal_done_def split: list.splits)
  ultimately show ?thesis by (simp add: body_signal_def table_of_def alive_go alive_signal_done)
qed

lemma body_end_table:
  assumes sl: "sleepers_ok l" and p: "point l p = Ending" shows "table_of (body_end p l) h = table_of l h"
proof -
  let ?l = "l\<lparr>n_cthreads := n_cthreads l - 1\<rparr>"
  have "sleepers_ok ?l" using sl by (simp add: sleepers_ok_def)
  then have "table_of (body_look p ?l) h = table_of ?l h" using p by (intro body_look_table) auto
  then show ?thesis by (simp add: body_end_def table_of_def)
qed

lemma waiting_table:
  "point l p = Joining t u \<Longrightarrow> \<not> t_returned (ct l u) \<Longrightarrow> table_of (cthread_join p t u l) h = table_of l h"
  "point l p = Finishing t \<Longrightarrow> t_main (ct l t) \<Longrightarrow> table_of (body_finish p t l) h = table_of l h"
  "point l p = Exiting t \<Longrightarrow> n_cthreads l > 1 \<Longrightarrow> table_of (exit_wait p t l) h = table_of l h"
  by (auto simp: cthread_join_def body_finish_def exit_wait_def table_of_def alive_go)

lemma hidden_advance_table:
  assumes c: "pool_counts l" and a: "pool_advance p l = Some l'" and e: "event_at p l = None"
  shows "table_of l' h = table_of l h"
proof -
  have sl: "sleepers_ok l" using c by (simp add: pool_counts_def)
  show ?thesis
    using a e body_look_table [OF sl, of p h] fork_notify_table [OF c, of p _ h] body_signal_table [of l p _ h]
      body_end_table [OF sl, of p h] waiting_table [of l p]
    by (cases "point l p") (auto simp: pool_advance_def event_at_def split: if_splits)
qed

section \<open>Steps with an event\<close>

lemma finished_table:
  assumes s: "structs_ok role claimer l h" and p: "point l p = Finishing t"
  shows "table_do (Finished t (t_result (ct l t))) (table_of l h) = Some (table_of (body_finish p t l) h)"
proof -
  note D = structs_okD [OF s]
  have p0: "p \<noteq> 0" using D(11) p by (cases "p = 0") auto
  have t: "role t = On p" using D(4) [of p t] p by simp
  have st: "\<not> t_main (ct l t)" "t_detached (ct l t) \<longleftrightarrow> h t = Closed" using D(3) [of t] t p0 by auto
  have only: "thread_at (point l q) = Some t \<longleftrightarrow> q = p" for q using D(4) [of q t] t by auto
  have "t \<notin> set (cthreads l)" using D(5) [of t] t by simp
  then have "alive_in (go p b l) = alive_in l - {t}" if "thread_at b = None" for b
    using leaves [OF only that] by (simp add: alive_in_def set_eq_iff del: fun_upd_apply) blast
  moreover have "alive_in (go p b (cthread_free t l)) = alive_in (go p b l)" "alive_in (go p b (l\<lparr>ct := x\<rparr>)) = alive_in (go p b l)" for b x
    by (simp_all add: alive_in_def cthread_free_def)
  moreover have "t \<in> alive_in l" using alive_iff [OF s] t by auto
  ultimately show ?thesis
    using st by (auto simp: table_of_def body_finish_def free_frame result_in_def fun_eq_iff)
qed

lemma joined_table:
  assumes s: "structs_ok role claimer l h" and p: "point l p = Joining t u" and r: "t_returned (ct l u)"
  shows "table_do (Joined u (t_result (ct l u))) (table_of l h) = Some (table_of (cthread_join p t u l) (h(u := Closed)))"
proof -
  have "h u = Claimed" using structs_okD(7,8) [OF s] p by (metis joins.simps(1) option.distinct(1))
  moreover have "alive_in (go p (Running t) (cthread_free u l)) = alive_in l"
    using p by (simp add: alive_go free_frame)
  ultimately show ?thesis using r by (auto simp: table_of_def cthread_join_def result_in_def free_frame fun_eq_iff)
qed

lemma detached_table:
  assumes "h u = Open"
  shows "table_do (Detached u) (table_of l h) = Some (table_of (cthread_detach u l) (h(u := Closed)))"
  using assms by (auto simp: table_of_def cthread_detach_def result_in_def free_frame fun_eq_iff)

lemma exit_table:
  assumes s: "structs_ok role claimer l h" and c: "pool_counts l" and p: "point l p = Exiting t" and n: "n_cthreads l \<le> 1"
  shows "table_do Exit (table_of l h) = Some (table_of (exit_wait p t l) h)"
proof -
  have sl: "sleepers_ok l" and nn: "n_cthreads l = length (cthreads l) + count_points busy (point l)"
    using c by (simp_all add: pool_counts_def counters_ok_def)
  have "0 < count_points busy (point l)" by (rule busy_pos [OF sl, of p]) (simp add: p)
  then have "length (cthreads l) = 0" and one: "card {q. busy (point l q)} \<le> 1"
    using nn n unfolding count_points_def by linarith+
  then have q: "cthreads l = []" by simp
  have main: "thread_at (point l 0) = Some 1" using structs_okD(1) [OF s] by (simp add: roles_ok_def)
  have busy: "busy (point l q)" if "thread_at (point l q) = Some u" for q u using that by (cases "point l q") auto
  have fin: "finite {q. busy (point l q)}" using points_finite [OF sl, of busy] by simp
  have "q = 0" if "busy (point l q)" for q
    using card_le_Suc0_iff_eq [OF fin] one that busy [OF main] by auto
  then have "alive_in l = {1}" using main busy q by (force simp: alive_in_def)
  then show ?thesis using n p by (simp add: table_of_def exit_wait_def alive_go)
qed

lemma forked_table:
  assumes s: "structs_ok role claimer l h" and c: "pool_counts l" and p: "point l p = Running t"
    and f: "cthread_fork p t func arg l = (u, l')"
  shows "table_do (Forked u) (table_of l h) = Some (table_of l' (h(u := Open)))"
proof -
  obtain v a where a: "cthread_alloc func arg l = (v, a)" by fastforce
  note sel = alloc_sel [OF a] and i = alloc_structs [OF s a]
  have v: "v = u" using f a by (simp add: cthread_fork_def Let_def)
  have role: "role u \<in> {Free, Unused}" using i v by simp
  have "h u = Closed" using structs_okD(3) [OF s, of u] role by auto
  moreover have "u \<notin> alive_in l" using alive_iff [OF s, of u] role by auto
  moreover have ct: "ct a = (ct l)(u := initial_cthread\<lparr>t_func := func, t_arg := arg\<rparr>)"
    using a v by (auto simp: cthread_alloc_def split: list.splits)
  have absent: "point l (n_cprocs l) = Absent" using c sleepers_okD(1) [of l "n_cprocs l"] by (simp add: pool_counts_def)
  let ?b = "a\<lparr>cthreads := cthreads a @ [u], n_cthreads := n_cthreads a + 1\<rparr>"
  have b: "alive_in ?b = insert u (alive_in l)" by (auto simp: alive_in_def sel)
  have b': "point ?b = point l" "ct ?b = ct a" using sel by simp_all
  have "alive_in (cproc_create ?b) = alive_in ?b" using absent sel by (simp add: cproc_create_def alive_go)
  moreover have "point (cproc_create ?b) p = Running t" using p absent sel by (auto simp: cproc_create_def)
  ultimately have "alive_in (go p (Notifying t) (cproc_create ?b)) = insert u (alive_in l)" "alive_in (go p (Notifying t) ?b) = insert u (alive_in l)"
    using b p b' by (simp_all add: alive_go)
  moreover have "l' = go p (Notifying t) (cproc_create ?b) \<or> l' = go p (Notifying t) ?b"
    using f a v by (auto simp: cthread_fork_def Let_def split: if_splits)
  moreover have "ct (cproc_create ?b) = ct a" by (simp add: cproc_create_def)
  ultimately have l': "alive_in l' = insert u (alive_in l)" "ct l' = ct a" by auto
  have "table_of l' (h(u := Open)) = (table_of l h)\<lparr>alive := insert u (alive_in l), results := (results (table_of l h))(u := Some None)\<rparr>"
    by (rule table_of_eqI) (simp_all add: l' ct table_of_def result_in_def initial_cthread_def)
  then show ?thesis using \<open>h u = Closed\<close> \<open>u \<notin> alive_in l\<close> by (simp add: table_of_def result_in_def)
qed

section \<open>The library implements the table\<close>

lemma event_advance_table:
  assumes s: "structs_ok role claimer l h" and c: "pool_counts l" and a: "pool_advance p l = Some l'" and e: "event_at p l = Some e"
  shows "table_do e (table_of l h) = Some (table_of l' (handle_after (Some e) h))"
proof (cases "point l p")
  case (Joining t u)
  then have "t_returned (ct l u)" "e = Joined u (t_result (ct l u))" using e by (auto simp: event_at_def split: if_splits)
  moreover have "l' = cthread_join p t u l" using a Joining by (simp add: pool_advance_def)
  ultimately show ?thesis using joined_table [OF s Joining] by (simp add: handle_after_def del: table_do.simps)
next
  case (Finishing t)
  then have "e = Finished t (t_result (ct l t))" using e by (auto simp: event_at_def split: if_splits)
  moreover have "l' = body_finish p t l" using a Finishing by (simp add: pool_advance_def)
  ultimately show ?thesis using finished_table [OF s Finishing] by (simp add: handle_after_def del: table_do.simps)
next
  case (Exiting t)
  then have "n_cthreads l \<le> 1" "e = Exit" using e by (auto simp: event_at_def split: if_splits)
  moreover have "l' = exit_wait p t l" using a Exiting by (simp add: pool_advance_def)
  ultimately show ?thesis using exit_table [OF s c Exiting] by (simp add: handle_after_def del: table_do.simps)
qed (use e in \<open>simp_all add: event_at_def\<close>)

lemma pool_step_table:
  assumes step: "pool_step e s s'" and inv: "pool_inv s"
  shows "case e of None \<Rightarrow> table_of (lib s') (handle s') = table_of (lib s) (handle s)
    | Some e \<Rightarrow> table_do e (table_of (lib s) (handle s)) = Some (table_of (lib s') (handle s'))"
proof -
  have c: "pool_counts (lib s)" using inv by (simp add: pool_inv_def)
  from inv obtain role claimer where s: "structs_ok role claimer (lib s) (handle s)" by (auto simp: pool_inv_def)
  from step show ?thesis
  proof cases
    case (p_advance p l)
    have s': "lib s' = l" "handle s' = handle_after e (handle s)" using p_advance(1) by simp_all
    show ?thesis
    proof (cases e)
      case None
      have "event_at p (lib s) = None" using p_advance(3) None by metis
      then show ?thesis using None hidden_advance_table [OF c p_advance(2), of "handle s"] unfolding s' None by (simp add: handle_after_def)
    next
      case (Some f)
      have "event_at p (lib s) = Some f" using p_advance(3) Some by metis
      then show ?thesis using event_advance_table [OF s c p_advance(2)] unfolding s' Some by (simp del: table_do.simps)
    qed
  next
    case (p_fork p t func arg u l)
    then show ?thesis using forked_table [OF s c p_fork(3,4)] by (simp del: table_do.simps)
  next
    case (p_join p t u)
    then show ?thesis by (auto simp: table_of_def alive_go result_in_def)
  next
    case (p_detach p t u)
    then show ?thesis using detached_table [of "handle s" u] by (simp del: table_do.simps)
  next
    case (p_return p t r)
    then show ?thesis using running_result [OF s, of p t r] by (auto simp: body_return_def table_of_def alive_go)
  next
    case (p_exit p t r)
    then show ?thesis using running_result [OF s, of p t r] by (auto simp: cthread_exit_def Let_def table_of_def alive_go)
  next
    case (p_lost p t)
    then show ?thesis by (simp add: body_signal_lost_def table_of_def alive_go)
  qed
qed

interpretation thread_pool: event_refinement pool_step "pool_start n" pool_inv table_step table_start "\<lambda>s. table_of (lib s) (handle s)"
proof
  have "alive_in (cthread_set_limit n cthread_init) = {1}"
    by (auto simp: alive_in_def cthread_init_def cthread_set_limit_def cthread_alloc_def Let_def split: if_splits intro: exI [of _ 0])
  then show "table_of (lib (pool_start n)) (handle (pool_start n)) = table_start"
    by (simp add: table_of_def table_start_def pool_start_def result_in_def)
next
  fix s t assume "pool_inv s" "pool_step None s t"
  then show "table_of (lib t) (handle t) = table_of (lib s) (handle s)" using pool_step_table [of None s t] by simp
next
  fix s t e assume "pool_inv s" "pool_step (Some e) s t"
  then show "table_step (Some e) (table_of (lib s) (handle s)) (table_of (lib t) (handle t))"
    using pool_step_table [of "Some e" s t] by (simp add: table_step_def)
qed (auto intro: pool_start_inv pool_step_inv)

fun table_run :: "pool_event list \<Rightarrow> table \<Rightarrow> table option" where
  "table_run [] a = Some a"
| "table_run (e # es) a = Option.bind (table_do e a) (table_run es)"

lemma table_run_append: "table_run (es @ fs) a = Option.bind (table_run es a) (table_run fs)"
  by (induction es arbitrary: a) (auto split: bind_splits)

lemma runs_table_run: "runs table_step a es b \<Longrightarrow> table_run es a = Some b"
  by (induction rule: runs.induct) (auto simp: table_step_def table_run_append)

section \<open>Requests are served\<close>

lemma requests_inv:
  assumes c: "pool_counts l" and q: "cthreads l \<noteq> []" and none: "\<forall>p. \<not> coming (point l p)"
  shows "max_cprocs l \<noteq> 0 \<and> max_cprocs l \<le> n_cprocs l \<and> (\<forall>p < n_cprocs l. busy (point l p))"
proof -
  have sl: "sleepers_ok l" and co: "counters_ok l" using c by (simp_all add: pool_counts_def)
  have "count_points coming (point l) = 0" using none by (simp add: count_points_def)
  then have empty: "cthread_needed l = []" using co q by (auto simp: counters_ok_def)
  have b: "busy (point l p)" if "p < n_cprocs l" for p
  proof -
    have "point l p \<noteq> Asleep" using sleepers_okD(3) [OF sl, of p] empty by simp
    moreover have "point l p \<noteq> Absent" using sleepers_okD(2) [OF sl, of p] that by auto
    moreover have "point l p \<noteq> Looking" using none by (metis coming.simps(1))
    ultimately show ?thesis by (cases "point l p") auto
  qed
  have "{..<n_cprocs l} \<subseteq> {p. busy (point l p)}" using b by auto
  from card_mono [OF points_finite [OF sl, of busy] this] have "n_cprocs l \<le> count_points busy (point l)"
    by (simp add: count_points_def)
  then have "n_cprocs l < n_cthreads l" using co q by (cases "cthreads l") (auto simp: counters_ok_def)
  then show ?thesis using co b by (auto simp: counters_ok_def)
qed

text \<open>
  The main thread in its exit. Only cproc 0 exits, so that the queue of the condition has no other sleeper; it sleeps
  while more than one thread is counted, and the counted threads are those that wait for a kernel thread and the busy
  kernel threads.
\<close>

lemma idle_main:
  assumes s: "structs_ok role claimer l h" and sl: "sleepers_ok l" and p: "point l p = Exit_Asleep t"
  shows "cthread_idle l = [p]"
proof -
  have zero: "q = 0" if "exits (point l q)" for q using structs_okD(1) [OF s] that by (simp add: roles_ok_def)
  have "q = p" if "q \<in> set (cthread_idle l)" for q
    using that sleepers_okD(4) [OF sl, of q] zero [of q] zero [of p] p by auto
  moreover have "p \<in> set (cthread_idle l)" using sleepers_okD(4) [OF sl, of p] p by auto
  ultimately have only: "set (cthread_idle l) = {p}" by blast
  then have "length (cthread_idle l) = Suc 0" using distinct_card [OF sleepers_okD(6) [OF sl]] by simp
  then obtain x where "cthread_idle l = [x]" by (auto simp: length_Suc_conv)
  then show ?thesis using only by simp
qed

lemma exit_has_others:
  assumes c: "pool_counts l" and p: "point l p = Exit_Asleep t"
  shows "cthreads l \<noteq> [] \<or> (\<exists>q. q \<noteq> p \<and> busy (point l q))"
proof (rule ccontr)
  assume "\<not> ?thesis"
  then have "cthreads l = []" and only: "\<And>q. busy (point l q) \<Longrightarrow> q = p" by auto
  moreover have "{q. busy (point l q)} \<subseteq> {p}" using only by auto
  then have "count_points busy (point l) \<le> 1" using card_mono [of "{p}"] by (auto simp: count_points_def)
  moreover have "cthread_idle l \<noteq> []" using c p sleepers_okD(4) [of l p] by (auto simp: pool_counts_def)
  ultimately show False using c by (auto simp: pool_counts_def counters_ok_def)
qed

lemma last_end_wakes:
  assumes s: "structs_ok role claimer l h" and c: "pool_counts l" and p: "point l p = Exit_Asleep t"
    and q: "point l q = Ending" "cthreads l = []"
  shows "point (body_end q l) p = Exiting t" "n_cthreads (body_end q l) = count_points busy (point l) - 1"
proof -
  have "cthread_idle l = [p]" using idle_main [OF s _ p] c by (simp add: pool_counts_def)
  then show "point (body_end q l) p = Exiting t"
    using p q by (auto simp: body_end_def body_look_def signal_idle_def Let_def)
  show "n_cthreads (body_end q l) = count_points busy (point l) - 1"
    using c q by (simp add: body_end_def body_look_def Let_def pool_counts_def counters_ok_def)
qed

lemma two_busy:
  assumes "\<And>r. busy (pt r) \<Longrightarrow> r = p \<or> r = q" shows "count_points busy pt \<le> 2"
proof -
  have "{r. busy (pt r)} \<subseteq> {p, q}" using assms by auto
  then have "card {r. busy (pt r)} \<le> card {p, q}" by (intro card_mono) auto
  also have "\<dots> \<le> 2" by (simp add: card_insert_if)
  finally show ?thesis by (simp add: count_points_def)
qed

section \<open>Schedules\<close>

datatype pool_move = Go nat | Fork nat nat nat | Join nat nat | Return nat nat | Exit_With nat nat

fun pool_play :: "pool_move \<Rightarrow> pool \<Rightarrow> (pool_event option \<times> pool) option" where
  "pool_play (Go p) s = map_option (\<lambda>l. (event_at p (lib s), \<lparr>lib = l, handle = handle_after (event_at p (lib s)) (handle s)\<rparr>)) (pool_advance p (lib s))"
| "pool_play (Fork p func arg) s = (case point (lib s) p of
     Running t \<Rightarrow> (let (u, l) = cthread_fork p t func arg (lib s) in Some (Some (Forked u), \<lparr>lib = l, handle = (handle s)(u := Open)\<rparr>))
   | _ \<Rightarrow> None)"
| "pool_play (Join p u) s = (case point (lib s) p of
     Running t \<Rightarrow> if handle s u = Open then Some (None, \<lparr>lib = go p (Joining t u) (lib s), handle = (handle s)(u := Claimed)\<rparr>) else None
   | _ \<Rightarrow> None)"
| "pool_play (Return p r) s = (case point (lib s) p of
     Running t \<Rightarrow> if p \<noteq> 0 then Some (None, \<lparr>lib = body_return p t r (lib s), handle = handle s\<rparr>) else None
   | _ \<Rightarrow> None)"
| "pool_play (Exit_With p r) s = (case point (lib s) p of
     Running t \<Rightarrow> Some (None, \<lparr>lib = cthread_exit p t r (lib s), handle = handle s\<rparr>)
   | _ \<Rightarrow> None)"

interpretation pool_schedule: schedule pool_step pool_play
proof
  fix x s e s' assume "pool_play x s = Some (e, s')"
  then show "pool_step e s s'"
    by (cases x) (auto split: if_splits bpoint.splits prod.splits intro: pool_step.intros)
qed

text \<open>
  The main thread forks a thread and joins it before it has finished; the thread returns 7. Or the main thread
  leaves while the thread runs; with a limit of one kernel thread the thread it leaves never runs.
\<close>

definition forked :: "pool_move list" where
  "forked = [Fork 0 5 6]"

definition sleeping :: "pool_move list" where
  "sleeping = forked @ [Go 0, Go 1, Join 0 2, Go 0]"

definition joined :: "pool_move list" where
  "joined = sleeping @ [Return 1 7, Go 1, Go 1, Go 0]"

definition leaving :: "pool_move list" where
  "leaving = forked @ [Go 0, Exit_With 0 3, Go 0, Go 1, Return 1 7, Go 1, Go 1]"

definition left_alone :: "pool_move list" where
  "left_alone = forked @ [Go 0, Exit_With 0 3, Go 0]"

lemmas pool_play_defs = played_def forked_def sleeping_def joined_def leaving_def left_alone_def pool_start_def cthread_init_def cthread_set_limit_def cthread_alloc_def
  initial_cthread_def go_def cthread_fork_def cproc_create_def pool_advance_def event_at_def handle_after_def fork_notify_def
  signal_needed_def body_look_def cthread_join_def body_return_def body_finish_def body_signal_def signal_done_def cthread_free_def
  cthread_exit_def exit_wait_def Let_def

section \<open>The properties\<close>

text \<open>
  C5. Forking and joining. However the threads run, and however structures are used again, the library keeps the
  table of its users: a fork gives a thread that is neither running nor in the hands of a user,
  every thread finishes at most once, a join returns exactly the result of the thread that was
  forked under this handle, and the main thread ends the program only when all threads have finished.
\<close>

theorem pool_refines_table:
  assumes "runs pool_step (pool_start n) es s"
  shows "table_run es table_start = Some (table_of (lib s) (handle s))"
  by (rule runs_table_run [OF thread_pool.runs_refine [OF assms]])

theorem pool_refines_table_witness:
  "\<exists>s. runs pool_step (pool_start 0) [Forked 2, Finished 2 7, Joined 2 7] s \<and>
     table_run [Forked 2, Finished 2 7, Joined 2 7] table_start = Some (table_of (lib s) (handle s))"
proof -
  have r: "runs pool_step (pool_start 0) [Forked 2, Finished 2 7, Joined 2 7] (played pool_play (pool_start 0) joined)"
    by (rule pool_schedule.played_runs) (simp add: pool_play_defs)
  then show ?thesis using pool_refines_table [OF r] by blast
qed

text \<open>
  C17. Requests are served. Whenever a request waits, a kernel thread is on its way to take one, or a fork is about to signal; or
  else the limit is reached and every kernel thread is busy. No request waits while a kernel thread sleeps without a
  signal due.
\<close>

theorem requests_served:
  assumes "runs pool_step (pool_start n) es s" "cthreads (lib s) \<noteq> []"
  shows "(\<exists>p. point (lib s) p = Looking \<or> (\<exists>t. point (lib s) p = Notifying t)) \<or>
    max_cprocs (lib s) \<noteq> 0 \<and> max_cprocs (lib s) \<le> n_cprocs (lib s) \<and> (\<forall>p < n_cprocs (lib s). busy (point (lib s) p))"
proof -
  have c: "pool_counts (lib s)" using thread_pool.runs_inv [OF assms(1)] by (simp add: pool_inv_def)
  have "coming b \<longleftrightarrow> b = Looking \<or> (\<exists>t. b = Notifying t)" for b by (cases b) auto
  then show ?thesis using requests_inv [OF c assms(2)] by blast
qed

theorem requests_served_witness:
  "cthreads (lib (played pool_play (pool_start 0) forked)) = [2] \<and>
   (\<exists>p. point (lib (played pool_play (pool_start 0) forked)) p = Looking \<or> (\<exists>t. point (lib (played pool_play (pool_start 0) forked)) p = Notifying t))"
proof -
  let ?s = "played pool_play (pool_start 0) forked"
  have r: "runs pool_step (pool_start 0) [Forked 2] ?s" by (rule pool_schedule.played_runs) (simp add: pool_play_defs)
  have q: "cthreads (lib ?s) = [2]" "max_cprocs (lib ?s) = 0" by (simp_all add: pool_play_defs)
  then show ?thesis using requests_served [OF r] by simp
qed

text \<open>
  C21. The main thread leaves. While the main thread sleeps in its exit, another thread waits for a kernel thread or has
  one. A kernel thread that ends its thread and finds no other request wakes it; and if no other kernel thread is busy
  then, the main thread, awake, ends the program.
\<close>

theorem main_exit_woken:
  assumes "runs pool_step (pool_start n) es s" "point (lib s) p = Exit_Asleep t"
  shows "(cthreads (lib s) \<noteq> [] \<or> (\<exists>q. q \<noteq> p \<and> busy (point (lib s) q))) \<and>
    (\<forall>q. point (lib s) q = Ending \<and> cthreads (lib s) = [] \<longrightarrow> point (body_end q (lib s)) p = Exiting t \<and>
      ((\<forall>r. busy (point (lib s) r) \<longrightarrow> r = p \<or> r = q) \<longrightarrow> point (exit_wait p t (body_end q (lib s))) p = Exited t))"
proof -
  note inv = thread_pool.runs_inv [OF assms(1)]
  obtain role claimer where s: "structs_ok role claimer (lib s) (handle s)" using inv by (auto simp: pool_inv_def)
  have c: "pool_counts (lib s)" using inv by (simp add: pool_inv_def)
  have "point (exit_wait p t (body_end q (lib s))) p = Exited t"
    if "point (lib s) q = Ending" "cthreads (lib s) = []" "\<forall>r. busy (point (lib s) r) \<longrightarrow> r = p \<or> r = q" for q
    using last_end_wakes(2) [OF s c assms(2) that(1,2)] two_busy [of "point (lib s)" p q] that(3) by (simp add: exit_wait_def)
  then show ?thesis using exit_has_others [OF c assms(2)] last_end_wakes(1) [OF s c assms(2)] by blast
qed

theorem main_exit_woken_witness:
  "point (lib (played pool_play (pool_start 0) leaving)) 0 = Exit_Asleep 1 \<and>
   point (lib (played pool_play (pool_start 0) leaving)) 1 = Ending \<and>
   point (exit_wait 0 1 (body_end 1 (lib (played pool_play (pool_start 0) leaving)))) 0 = Exited 1"
proof -
  let ?s = "played pool_play (pool_start 0) leaving"
  have r: "runs pool_step (pool_start 0) [Forked 2, Finished 2 7] ?s"
    by (rule pool_schedule.played_runs) (simp add: pool_play_defs)
  have pt: "point (lib ?s) r = (if r = 0 then Exit_Asleep 1 else if r = 1 then Ending else Absent)" for r
    by (simp add: pool_play_defs)
  have "cthreads (lib ?s) = []" by (simp add: pool_play_defs)
  moreover have "r = 0 \<or> r = 1" if "busy (point (lib ?s) r)" for r using that by (simp add: pt split: if_splits)
  ultimately have "point (exit_wait 0 1 (body_end 1 (lib ?s))) 0 = Exited 1"
    using main_exit_woken [OF r, of 0 1] by (simp add: pt)
  then show ?thesis by (simp add: pt)
qed

text \<open>
  With a limit of one kernel thread a program that forks and leaves never ends: the request waits for a kernel
  thread, and the main thread, which has the only one, for the request.
\<close>

lemma limit_one_stuck:
  "runs pool_step (pool_start 1) [Forked 2] (played pool_play (pool_start 1) left_alone) \<and>
   cthreads (lib (played pool_play (pool_start 1) left_alone)) = [2] \<and>
   (\<forall>p. pool_advance p (lib (played pool_play (pool_start 1) left_alone)) = None)"
proof (intro conjI)
  show "runs pool_step (pool_start 1) [Forked 2] (played pool_play (pool_start 1) left_alone)"
    by (rule pool_schedule.played_runs) (simp add: pool_play_defs)
qed (simp_all add: pool_play_defs)

end
