(* ===== verification/Ufs_Lock.thy ===== *)
theory Ufs_Lock
  imports State_Machine
begin

text \<open>
  The locks of the UNIX file server, server/ufs/lock.c: many readers or one writer, upgrades from
  reading to writing, and recursion.

  A function runs with the interlock held, from its start to its return or to a
  \<open>condition_wait\<close>, and from the return of that to the next: what it does in between is one step.
  A wait puts the thread into the queue of the condition and ends the step; the outcome tells
  in which loop the thread sleeps. A broadcast empties the queue: the threads it wakes go on
  when they get the interlock. Threads are numbers, 0 is none.
\<close>

section \<open>The lock\<close>

record lock =
  want_write :: bool
  want_upgrade :: bool
  waiting :: bool
  read_count :: u32
  thread :: nat
  recursion_depth :: u32
  lock_wakeup :: "nat list"

datatype lock_loop = Write_Bit | Write_Readers | Read_Bits | Upgrade_Readers | Try_Upgrade_Readers

datatype lock_outcome = Returned | Answered bool | Sleeping lock_loop | Panicked

definition lock_init :: lock where
  "lock_init = \<lparr>want_write = False, want_upgrade = False, waiting = False, read_count = 0, thread = 0, recursion_depth = 0, lock_wakeup = []\<rparr>"

definition sleep_on :: "lock_loop \<Rightarrow> nat \<Rightarrow> lock \<Rightarrow> lock_outcome \<times> lock" where
  "sleep_on p t l = (Sleeping p, l\<lparr>waiting := True, lock_wakeup := lock_wakeup l @ [t]\<rparr>)"

definition wake_up :: "lock \<Rightarrow> lock" where
  "wake_up l = (if waiting l then l\<lparr>waiting := False, lock_wakeup := []\<rparr> else l)"

section \<open>Writing\<close>

definition wait_readers :: "nat \<Rightarrow> lock \<Rightarrow> lock_outcome \<times> lock" where
  "wait_readers t l = (if read_count l \<noteq> 0 \<or> want_upgrade l then sleep_on Write_Readers t l else (Returned, l))"

definition wait_write_bit :: "nat \<Rightarrow> lock \<Rightarrow> lock_outcome \<times> lock" where
  "wait_write_bit t l = (if want_write l then sleep_on Write_Bit t l else wait_readers t (l\<lparr>want_write := True\<rparr>))"

definition lock_write :: "nat \<Rightarrow> lock \<Rightarrow> lock_outcome \<times> lock" where
  "lock_write t l =
     (if thread l = t then (Returned, l\<lparr>recursion_depth := recursion_depth l + 1\<rparr>)
      else wait_write_bit t l)"

definition lock_done :: "lock \<Rightarrow> lock_outcome \<times> lock" where
  "lock_done l = (Returned, wake_up
     (if read_count l \<noteq> 0 then l\<lparr>read_count := read_count l - 1\<rparr>
      else if recursion_depth l \<noteq> 0 then l\<lparr>recursion_depth := recursion_depth l - 1\<rparr>
      else if want_upgrade l then l\<lparr>want_upgrade := False\<rparr>
      else l\<lparr>want_write := False\<rparr>))"

section \<open>Reading\<close>

definition wait_bits :: "nat \<Rightarrow> lock \<Rightarrow> lock_outcome \<times> lock" where
  "wait_bits t l =
     (if want_write l \<or> want_upgrade l then sleep_on Read_Bits t l
      else (Returned, l\<lparr>read_count := read_count l + 1\<rparr>))"

definition lock_read :: "nat \<Rightarrow> lock \<Rightarrow> lock_outcome \<times> lock" where
  "lock_read t l =
     (if thread l = t then (Returned, l\<lparr>read_count := read_count l + 1\<rparr>)
      else wait_bits t l)"

section \<open>Upgrades\<close>

definition wait_upgrade :: "nat \<Rightarrow> lock \<Rightarrow> lock_outcome \<times> lock" where
  "wait_upgrade t l = (if read_count l \<noteq> 0 then sleep_on Upgrade_Readers t l else (Answered False, l))"

definition lock_read_to_write :: "nat \<Rightarrow> lock \<Rightarrow> lock_outcome \<times> lock" where
  "lock_read_to_write t l =
     (let l = l\<lparr>read_count := read_count l - 1\<rparr> in
      if thread l = t then (Answered False, l\<lparr>recursion_depth := recursion_depth l + 1\<rparr>)
      else if want_upgrade l then (Answered True, wake_up l)
      else wait_upgrade t (l\<lparr>want_upgrade := True\<rparr>))"

definition lock_write_to_read :: "lock \<Rightarrow> lock_outcome \<times> lock" where
  "lock_write_to_read l =
     (let l = l\<lparr>read_count := read_count l + 1\<rparr> in
      (Returned, wake_up
        (if recursion_depth l \<noteq> 0 then l\<lparr>recursion_depth := recursion_depth l - 1\<rparr>
         else if want_upgrade l then l\<lparr>want_upgrade := False\<rparr>
         else l\<lparr>want_write := False\<rparr>)))"

section \<open>Attempts\<close>

definition lock_try_write :: "nat \<Rightarrow> lock \<Rightarrow> lock_outcome \<times> lock" where
  "lock_try_write t l =
     (if thread l = t then (Answered True, l\<lparr>recursion_depth := recursion_depth l + 1\<rparr>)
      else if want_write l \<or> want_upgrade l \<or> read_count l \<noteq> 0 then (Answered False, l)
      else (Answered True, l\<lparr>want_write := True\<rparr>))"

definition lock_try_read :: "nat \<Rightarrow> lock \<Rightarrow> lock_outcome \<times> lock" where
  "lock_try_read t l =
     (if thread l = t then (Answered True, l\<lparr>read_count := read_count l + 1\<rparr>)
      else if want_write l \<or> want_upgrade l then (Answered False, l)
      else (Answered True, l\<lparr>read_count := read_count l + 1\<rparr>))"

definition wait_try_upgrade :: "nat \<Rightarrow> lock \<Rightarrow> lock_outcome \<times> lock" where
  "wait_try_upgrade t l = (if read_count l \<noteq> 0 then sleep_on Try_Upgrade_Readers t l else (Answered True, l))"

definition lock_try_read_to_write :: "nat \<Rightarrow> lock \<Rightarrow> lock_outcome \<times> lock" where
  "lock_try_read_to_write t l =
     (if thread l = t then (Answered True, l\<lparr>read_count := read_count l - 1, recursion_depth := recursion_depth l + 1\<rparr>)
      else if want_upgrade l then (Answered False, l)
      else wait_try_upgrade t (l\<lparr>want_upgrade := True, read_count := read_count l - 1\<rparr>))"

section \<open>Recursion\<close>

definition lock_set_recursive :: "nat \<Rightarrow> lock \<Rightarrow> lock_outcome \<times> lock" where
  "lock_set_recursive t l = (if \<not> want_write l then (Panicked, l) else (Returned, l\<lparr>thread := t\<rparr>))"

definition lock_clear_recursive :: "nat \<Rightarrow> lock \<Rightarrow> lock_outcome \<times> lock" where
  "lock_clear_recursive t l =
     (if thread l \<noteq> t then (Panicked, l)
      else (Returned, if recursion_depth l = 0 then l\<lparr>thread := 0\<rparr> else l))"

section \<open>Threads\<close>

datatype lock_call = Write | Read | Done | Read_To_Write | Write_To_Read | Try_Write | Try_Read
  | Try_Read_To_Write | Set_Recursive | Clear_Recursive

fun lock_run :: "lock_call \<Rightarrow> nat \<Rightarrow> lock \<Rightarrow> lock_outcome \<times> lock" where
  "lock_run Write t l = lock_write t l"
| "lock_run Read t l = lock_read t l"
| "lock_run Done t l = lock_done l"
| "lock_run Read_To_Write t l = lock_read_to_write t l"
| "lock_run Write_To_Read t l = lock_write_to_read l"
| "lock_run Try_Write t l = lock_try_write t l"
| "lock_run Try_Read t l = lock_try_read t l"
| "lock_run Try_Read_To_Write t l = lock_try_read_to_write t l"
| "lock_run Set_Recursive t l = lock_set_recursive t l"
| "lock_run Clear_Recursive t l = lock_clear_recursive t l"

text \<open>A thread that was woken goes on in its loop.\<close>

fun lock_resume :: "lock_loop \<Rightarrow> nat \<Rightarrow> lock \<Rightarrow> lock_outcome \<times> lock" where
  "lock_resume Write_Bit t l = wait_write_bit t l"
| "lock_resume Write_Readers t l = wait_readers t l"
| "lock_resume Read_Bits t l = wait_bits t l"
| "lock_resume Upgrade_Readers t l = wait_upgrade t l"
| "lock_resume Try_Upgrade_Readers t l = wait_try_upgrade t l"

text \<open>
  What a thread has of the lock. A writer has it by the write bit or by an upgrade; in recursion it has
  read locks and further write locks on top.
\<close>

datatype lock_status = Out | Reader | Writer bool nat nat | Looping lock_loop

fun status_after :: "lock_call \<Rightarrow> lock_status \<Rightarrow> lock_outcome \<Rightarrow> lock_status" where
  "status_after c st (Sleeping p) = Looping p"
| "status_after Write (Writer b r d) out = Writer b r (d + 1)"
| "status_after Write st out = Writer False 0 0"
| "status_after Try_Write (Writer b r d) out = Writer b r (d + 1)"
| "status_after Try_Write st out = (if out = Answered True then Writer False 0 0 else st)"
| "status_after Read (Writer b r d) out = Writer b (r + 1) d"
| "status_after Read st out = Reader"
| "status_after Try_Read (Writer b r d) out = Writer b (r + 1) d"
| "status_after Try_Read st out = (if out = Answered True then Reader else st)"
| "status_after Done (Writer b r d) out = (if r \<noteq> 0 then Writer b (r - 1) d else if d \<noteq> 0 then Writer b r (d - 1) else Out)"
| "status_after Done st out = Out"
| "status_after Read_To_Write (Writer b r d) out = Writer b (r - 1) (d + 1)"
| "status_after Read_To_Write st out = (if out = Answered False then Writer True 0 0 else Out)"
| "status_after Try_Read_To_Write (Writer b r d) out = Writer b (r - 1) (d + 1)"
| "status_after Try_Read_To_Write st out = (if out = Answered True then Writer True 0 0 else st)"
| "status_after Write_To_Read (Writer b r d) out = (if d \<noteq> 0 then Writer b (r + 1) (d - 1) else Reader)"
| "status_after c st out = st"

fun status_resumed :: "lock_loop \<Rightarrow> lock_outcome \<Rightarrow> lock_status" where
  "status_resumed p (Sleeping q) = Looping q"
| "status_resumed Write_Bit out = Writer False 0 0"
| "status_resumed Write_Readers out = Writer False 0 0"
| "status_resumed Read_Bits out = Reader"
| "status_resumed Upgrade_Readers out = Writer True 0 0"
| "status_resumed Try_Upgrade_Readers out = Writer True 0 0"

text \<open>
  The rules for the callers: to ask for the lock without having it, or, in recursion, as its
  recursive writer; to release what one has, and to end the recursion before the last release.
\<close>

fun call_allowed :: "lock_call \<Rightarrow> bool \<Rightarrow> lock_status \<Rightarrow> bool" where
  "call_allowed c own (Looping p) = False"
| "call_allowed c own Out = (c \<in> {Write, Read, Try_Write, Try_Read})"
| "call_allowed c own Reader = (c \<in> {Done, Read_To_Write, Try_Read_To_Write})"
| "call_allowed Done own (Writer b r d) = (own \<longrightarrow> r + d \<noteq> 0)"
| "call_allowed Read_To_Write own (Writer b r d) = (own \<and> r \<noteq> 0)"
| "call_allowed Try_Read_To_Write own (Writer b r d) = (own \<and> r \<noteq> 0)"
| "call_allowed Write_To_Read own (Writer b r d) = (if own then d \<noteq> 0 else r = 0)"
| "call_allowed Set_Recursive own (Writer b r d) = True"
| "call_allowed c own (Writer b r d) = own"

record lock_system =
  lk :: lock
  status :: "nat \<Rightarrow> lock_status"

text \<open>
  The counters are signed: when one goes up there are fewer than \<open>2 ^ 31 - 1\<close> readers and levels of
  recursion.
\<close>

definition counters_fit :: "lock \<Rightarrow> bool" where
  "counters_fit l \<longleftrightarrow> unat (read_count l) < 2 ^ 31 - 1 \<and> unat (recursion_depth l) < 2 ^ 31 - 1"

text \<open>The steps of threads that make only calls of a set \<open>C\<close>.\<close>

inductive lock_step :: "lock_call set \<Rightarrow> lock_system \<Rightarrow> lock_system \<Rightarrow> bool" for C where
  lock_call: "c \<in> C \<Longrightarrow> 0 < t \<Longrightarrow> call_allowed c (thread (lk s) = t) (status s t) \<Longrightarrow>
    c \<in> {Done, Set_Recursive, Clear_Recursive} \<or> counters_fit (lk s) \<Longrightarrow> lock_run c t (lk s) = (out, l) \<Longrightarrow> out \<noteq> Panicked \<Longrightarrow>
    lock_step C s \<lparr>lk = l, status = (status s)(t := status_after c (status s t) out)\<rparr>"
| lock_go_on: "status s t = Looping p \<Longrightarrow> t \<notin> set (lock_wakeup (lk s)) \<Longrightarrow> counters_fit (lk s) \<Longrightarrow>
    lock_resume p t (lk s) = (out, l) \<Longrightarrow>
    lock_step C s \<lparr>lk = l, status = (status s)(t := status_resumed p out)\<rparr>"

definition lock_start :: lock_system where
  "lock_start = \<lparr>lk = lock_init, status = (\<lambda>_. Out)\<rparr>"

end
