(* ===== verification/Ufs_Lock_Inv.thy ===== *)
theory Ufs_Lock_Inv
  imports Ufs_Lock
begin

text \<open>
  The invariant of the reader/writer locks over every interleaving of their callers, in three
  parts: whom the two bits stand for, what the counters count, and why the sleepers sleep.
\<close>

section \<open>Bits\<close>

text \<open>A bit of the lock is set exactly when one thread, and no other, has it.\<close>

definition token :: "(lock_status \<Rightarrow> bool) \<Rightarrow> (nat \<Rightarrow> lock_status) \<Rightarrow> bool \<Rightarrow> bool" where
  "token P f flag \<longleftrightarrow> (flag \<longleftrightarrow> (\<exists>t. P (f t))) \<and> (\<forall>t u. P (f t) \<longrightarrow> P (f u) \<longrightarrow> t = u)"

lemma token_kept: "token P f flag \<Longrightarrow> P st = P (f t) \<Longrightarrow> token P (f(t := st)) flag"
  unfolding token_def by (metis fun_upd_apply)

lemma token_taken: "token P f False \<Longrightarrow> P st \<Longrightarrow> token P (f(t := st)) True"
  unfolding token_def by (metis fun_upd_apply)

lemma token_given: "token P f flag \<Longrightarrow> P (f t) \<Longrightarrow> \<not> P st \<Longrightarrow> token P (f(t := st)) False"
  unfolding token_def by (metis fun_upd_apply)

lemma tokenD: "token P f flag \<Longrightarrow> P (f t) \<Longrightarrow> flag"
  by (auto simp: token_def)

fun bit_owner :: "lock_status \<Rightarrow> bool" where
  "bit_owner (Writer b r d) = (\<not> b)"
| "bit_owner (Looping p) = (p = Write_Readers)"
| "bit_owner st = False"

fun upgrade_owner :: "lock_status \<Rightarrow> bool" where
  "upgrade_owner (Writer b r d) = b"
| "upgrade_owner (Looping p) = (p = Upgrade_Readers \<or> p = Try_Upgrade_Readers)"
| "upgrade_owner st = False"

fun is_writer :: "lock_status \<Rightarrow> bool" where
  "is_writer (Writer b r d) = True"
| "is_writer st = False"

section \<open>Counters\<close>

definition counts :: "u32 \<Rightarrow> nat \<Rightarrow> bool" where
  "counts w n \<longleftrightarrow> n < 2 ^ 31 \<and> w = of_nat n"

lemma counts_unat: "counts w n \<Longrightarrow> unat w = n"
  by (auto simp: counts_def unat_of_nat)

lemma counts_zero [simp]: "counts 0 0"
  by (simp add: counts_def)

lemma counts_eq_0: "counts w n \<Longrightarrow> w = 0 \<longleftrightarrow> n = 0"
  using counts_unat [of w n] by (auto simp: counts_def)

lemma counts_up: "counts w n \<Longrightarrow> unat w < 2 ^ 31 - 1 \<Longrightarrow> counts (w + 1) (n + 1)"
  using counts_unat [of w n] by (simp add: counts_def add.commute)

lemma counts_down: "counts w n \<Longrightarrow> 0 < n \<Longrightarrow> counts (w - 1) (n - 1)"
  by (auto simp: counts_def of_nat_diff)

definition reader_set :: "(nat \<Rightarrow> lock_status) \<Rightarrow> nat set" where
  "reader_set f = {t. f t = Reader}"

text \<open>
  A writer has the lock for itself, and the counters are about its recursion; without a
  writer they count the readers.
\<close>

definition held_by :: "lock \<Rightarrow> (nat \<Rightarrow> lock_status) \<Rightarrow> bool" where
  "held_by l f \<longleftrightarrow> f 0 = Out \<and> finite (reader_set f) \<and>
     (\<forall>t b r d. f t = Writer b r d \<longrightarrow> reader_set f = {} \<and> counts (read_count l) r \<and> counts (recursion_depth l) d \<and>
       (thread l = t \<or> thread l = 0 \<and> d = 0) \<and> (b \<or> \<not> want_upgrade l)) \<and>
     ((\<forall>t. \<not> is_writer (f t)) \<longrightarrow> counts (read_count l) (card (reader_set f)) \<and> recursion_depth l = 0 \<and> thread l = 0)"

section \<open>Sleepers\<close>

fun loop_guard :: "lock_loop \<Rightarrow> lock \<Rightarrow> bool" where
  "loop_guard Write_Bit l = want_write l"
| "loop_guard Write_Readers l = (read_count l \<noteq> 0 \<or> want_upgrade l)"
| "loop_guard Read_Bits l = (want_write l \<or> want_upgrade l)"
| "loop_guard Upgrade_Readers l = (read_count l \<noteq> 0)"
| "loop_guard Try_Upgrade_Readers l = (read_count l \<noteq> 0)"

definition sleepers_ok :: "lock \<Rightarrow> (nat \<Rightarrow> lock_status) \<Rightarrow> bool" where
  "sleepers_ok l f \<longleftrightarrow> (\<forall>t \<in> set (lock_wakeup l). waiting l \<and> (\<exists>p. f t = Looping p \<and> loop_guard p l))"

definition lock_inv :: "lock_system \<Rightarrow> bool" where
  "lock_inv s \<longleftrightarrow> token bit_owner (status s) (want_write (lk s)) \<and> token upgrade_owner (status s) (want_upgrade (lk s)) \<and>
     held_by (lk s) (status s) \<and> sleepers_ok (lk s) (status s)"

lemma lock_inv_start: "lock_inv lock_start"
  by (simp add: lock_inv_def lock_start_def lock_init_def token_def held_by_def sleepers_ok_def reader_set_def)

section \<open>Changes of the holders\<close>

lemma reader_set_upd:
  "reader_set (f(t := st)) = (if st = Reader then insert t (reader_set f) else reader_set f - {t})"
  by (auto simp: reader_set_def)

lemma no_writer_upd: "\<forall>u. \<not> is_writer (f u) \<Longrightarrow> \<not> is_writer st \<Longrightarrow> \<forall>u. \<not> is_writer ((f(t := st)) u)"
  by simp

lemma held_writerI:
  assumes "f t = Writer b r d" "\<forall>k. is_writer (f k) \<longrightarrow> k = t" "f 0 = Out" "reader_set f = {}"
    and "counts (read_count l) r" "counts (recursion_depth l) d" "thread l = t \<or> thread l = 0 \<and> d = 0" "b \<or> \<not> want_upgrade l"
  shows "held_by l f"
proof -
  have "k = t \<and> c = b \<and> x = r \<and> y = d" if "f k = Writer c x y" for k c x y
  proof -
    have "k = t" using assms(2) that by simp
    then show ?thesis using assms(1) that by simp
  qed
  then show ?thesis using assms unfolding held_by_def by (metis finite.emptyI is_writer.simps(1))
qed

lemma held_readersI:
  assumes "\<forall>k. \<not> is_writer (f k)" "f 0 = Out" "finite (reader_set f)"
    and "counts (read_count l) (card (reader_set f))" "recursion_depth l = 0" "thread l = 0"
  shows "held_by l f"
  using assms unfolding held_by_def by (metis is_writer.simps(1))

lemma held_readersD:
  assumes "held_by l f" "\<forall>k. \<not> is_writer (f k)"
  shows "counts (read_count l) (card (reader_set f))" "recursion_depth l = 0" "thread l = 0"
  using assms by (simp_all add: held_by_def)

lemma held_writerD:
  assumes "held_by l f" "f t = Writer b r d"
  shows "reader_set f = {}" "counts (read_count l) r" "counts (recursion_depth l) d" "thread l = t \<or> thread l = 0 \<and> d = 0" "b \<or> \<not> want_upgrade l" "0 < t"
proof -
  show "0 < t" using assms by (cases "t = 0") (simp_all add: held_by_def)
qed (use assms in \<open>unfold held_by_def, blast+\<close>)

lemma held_byD:
  assumes "held_by l f"
  shows "f 0 = Out" "finite (reader_set f)"
  using assms unfolding held_by_def by blast+

text \<open>A thread that is not a writer and does not become one.\<close>

lemma held_readers:
  assumes "held_by l f" "\<forall>u. \<not> is_writer (f u)" "\<not> is_writer st" "0 < t"
    and "counts (read_count l') (card (reader_set (f(t := st))))" "recursion_depth l' = recursion_depth l" "thread l' = thread l"
  shows "held_by l' (f(t := st))"
  using held_readersD [OF assms(1,2)] held_byD [OF assms(1)] assms
  by (intro held_readersI) (auto simp: reader_set_upd)

text \<open>A thread becomes the writer when there are no other readers.\<close>

lemma held_new_writer:
  assumes "held_by l f" "\<forall>u. \<not> is_writer (f u)" "0 < t" "reader_set f \<subseteq> {t}" "read_count l' = 0"
    and "recursion_depth l' = recursion_depth l" "thread l' = thread l" "b \<or> \<not> want_upgrade l'"
  shows "held_by l' (f(t := Writer b 0 0))"
  using held_readersD [OF assms(1,2)] held_byD [OF assms(1)] assms
  by (intro held_writerI [where t = t]) (auto simp: reader_set_upd)

text \<open>Another thread sees no writer but the one there is.\<close>

lemma only_writer:
  assumes "token bit_owner f w" "token upgrade_owner f u" "held_by l f" "want_upgrade l = u" "f t = Writer b r d" "is_writer (f k)"
  shows "k = t"
proof -
  obtain b' r' d' where k: "f k = Writer b' r' d'" using assms(6) by (cases "f k") auto
  show ?thesis
  proof (cases "b = b'")
    case True
    then show ?thesis using assms(1,2,5) k unfolding token_def by (cases b) (metis bit_owner.simps(1) upgrade_owner.simps(1))+
  next
    case False
    then have "\<not> u" using assms(3,4,5) k unfolding held_by_def by (cases b) auto
    moreover have "upgrade_owner (f t) \<or> upgrade_owner (f k)" using False assms(5) k by auto
    ultimately show ?thesis using assms(2) tokenD by metis
  qed
qed

text \<open>The writer changes its recursion, or leaves.\<close>

lemma held_same_writer:
  assumes "held_by l f" "f t = Writer b r d" "\<forall>k. is_writer (f k) \<longrightarrow> k = t" "counts (read_count l') r'" "counts (recursion_depth l') d'"
    and "thread l' = t \<or> thread l' = 0 \<and> d' = 0" "want_upgrade l' = want_upgrade l"
  shows "held_by l' (f(t := Writer b r' d'))"
  using held_writerD [OF assms(1,2)] held_byD [OF assms(1)] assms
  by (intro held_writerI [where t = t]) (auto simp: reader_set_upd)

lemma held_writer_leaves:
  assumes "held_by l f" "f t = Writer b r d" "\<forall>k. is_writer (f k) \<longrightarrow> k = t" "\<not> is_writer st"
    and "counts (read_count l') (if st = Reader then 1 else 0)" "recursion_depth l' = 0" "thread l' = 0"
  shows "held_by l' (f(t := st))"
  using held_writerD [OF assms(1,2)] held_byD [OF assms(1)] assms
  by (intro held_readersI) (auto simp: reader_set_upd split: if_splits)

section \<open>Changes of the sleepers\<close>

lemma awake_not_queued: "sleepers_ok l f \<Longrightarrow> (\<And>p. f t \<noteq> Looping p) \<Longrightarrow> t \<notin> set (lock_wakeup l)"
  by (auto simp: sleepers_ok_def)

lemma sleepers_kept:
  assumes "sleepers_ok l f" "t \<notin> set (lock_wakeup l)" "lock_wakeup l' = lock_wakeup l" "waiting l' = waiting l"
    and "\<And>u p. f u = Looping p \<Longrightarrow> loop_guard p l \<Longrightarrow> loop_guard p l'"
  shows "sleepers_ok l' (f(t := st))"
  using assms by (fastforce simp: sleepers_ok_def)

lemma sleepers_more:
  assumes "sleepers_ok l f" "t \<notin> set (lock_wakeup l)" "loop_guard p l"
  shows "sleepers_ok (snd (sleep_on p t l)) (f(t := Looping p))"
proof -
  have "loop_guard q (l\<lparr>waiting := True, lock_wakeup := ts\<rparr>) = loop_guard q l" for q ts by (cases q) simp_all
  then show ?thesis using assms by (auto simp: sleepers_ok_def sleep_on_def)
qed

lemma wake_up_fields [simp]:
  "want_write (wake_up l) = want_write l" "want_upgrade (wake_up l) = want_upgrade l" "read_count (wake_up l) = read_count l"
  "thread (wake_up l) = thread l" "recursion_depth (wake_up l) = recursion_depth l"
  by (simp_all add: wake_up_def)

lemma sleepers_woken:
  assumes "sleepers_ok l f" "lock_wakeup l' = lock_wakeup l" "waiting l' = waiting l"
  shows "sleepers_ok (wake_up l') g"
  using assms by (auto simp: sleepers_ok_def wake_up_def)

lemma held_by_fields:
  assumes "held_by l f" "want_upgrade l' = want_upgrade l" "read_count l' = read_count l" "thread l' = thread l" "recursion_depth l' = recursion_depth l"
  shows "held_by l' f"
  using assms by (simp add: held_by_def)

section \<open>Steps of threads without recursion\<close>

abbreviation inv_of :: "lock \<Rightarrow> (nat \<Rightarrow> lock_status) \<Rightarrow> bool" where
  "inv_of l f \<equiv> lock_inv \<lparr>lk = l, status = f\<rparr>"

lemma inv_ofI:
  assumes "token bit_owner f (want_write l)" "token upgrade_owner f (want_upgrade l)" "held_by l f" "sleepers_ok l f"
  shows "inv_of l f"
  using assms by (simp add: lock_inv_def)

lemma inv_ofD:
  assumes "inv_of l f"
  shows "token bit_owner f (want_write l)" "token upgrade_owner f (want_upgrade l)" "held_by l f" "sleepers_ok l f"
  using assms by (simp_all add: lock_inv_def)

lemma no_writer:
  assumes "inv_of l f" "f t = Reader \<or> \<not> want_write l \<and> \<not> want_upgrade l \<or> f t = Looping Write_Readers \<and> \<not> want_upgrade l"
  shows "\<forall>k. \<not> is_writer (f k)"
proof (intro allI notI)
  fix k assume "is_writer (f k)"
  then obtain b r d where k: "f k = Writer b r d" by (cases "f k") auto
  have "f t \<noteq> Reader" using held_writerD(1) [OF inv_ofD(3) [OF assms(1)] k] by (auto simp: reader_set_def)
  moreover have "(if b then want_upgrade l else want_write l)" using inv_ofD(1,2) [OF assms(1)] k tokenD [of _ f _ k] by (cases b) fastforce+
  ultimately have "f t = Looping Write_Readers" "\<not> b" using assms(2) by (auto split: if_splits)
  then have "t = k" using inv_ofD(1) [OF assms(1)] k unfolding token_def by (metis bit_owner.simps(1,2))
  then show False using k \<open>f t = Looping Write_Readers\<close> by simp
qed

text \<open>To fall asleep, or asleep again.\<close>

lemma sleep_inv:
  assumes "inv_of l f" "t \<notin> set (lock_wakeup l)" "loop_guard p l" "0 < t" "\<not> is_writer (f t)" "f t \<noteq> Reader"
    and "bit_owner (f t) = bit_owner (Looping p)" "upgrade_owner (f t) = upgrade_owner (Looping p)" "sleep_on p t l = (out, l')"
  shows "out = Sleeping p" "inv_of l' (f(t := Looping p))"
proof -
  have l': "l' = l\<lparr>waiting := True, lock_wakeup := lock_wakeup l @ [t]\<rparr>" and "out = Sleeping p" using assms(9) by (simp_all add: sleep_on_def)
  then show "out = Sleeping p" by simp
  note i = inv_ofD [OF assms(1)]
  show "inv_of l' (f(t := Looping p))"
  proof (rule inv_ofI)
    show "token bit_owner (f(t := Looping p)) (want_write l')" using token_kept [OF i(1)] assms(7) l' by simp
    show "token upgrade_owner (f(t := Looping p)) (want_upgrade l')" using token_kept [OF i(2)] assms(8) l' by simp
    show "sleepers_ok l' (f(t := Looping p))" using sleepers_more [OF i(4) assms(2,3)] assms(9) by simp
    have "reader_set (f(t := Looping p)) = reader_set f" using assms(6) by (auto simp: reader_set_def)
    moreover have "is_writer ((f(t := Looping p)) k) = is_writer (f k)" for k using assms(5) by simp
    moreover have "(f(t := Looping p)) k = Writer b r d \<longleftrightarrow> f k = Writer b r d" for k b r d using assms(5) by auto
    ultimately show "held_by l' (f(t := Looping p))" using i(3) assms(4) l' unfolding held_by_def by simp
  qed
qed

lemma wait_bits_inv:
  assumes "inv_of l f" "f t = Out \<or> f t = Looping Read_Bits" "t \<notin> set (lock_wakeup l)" "0 < t" "counters_fit l" "wait_bits t l = (out, l')"
  shows "inv_of l' (f(t := status_resumed Read_Bits out))"
proof (cases "want_write l \<or> want_upgrade l")
  case True
  then have "sleep_on Read_Bits t l = (out, l')" using assms(6) by (simp add: wait_bits_def)
  from sleep_inv [OF assms(1,3) _ assms(4) _ _ _ _ this] show ?thesis using True assms(2) by (auto simp del: fun_upd_apply)
next
  case False
  then have out: "out = Returned" "l' = l\<lparr>read_count := read_count l + 1\<rparr>" using assms(6) by (simp_all add: wait_bits_def)
  note i = inv_ofD [OF assms(1)]
  have none: "\<forall>k. \<not> is_writer (f k)" using no_writer [OF assms(1)] False by blast
  have "card (insert t (reader_set f)) = card (reader_set f) + 1" using held_byD(2) [OF i(3)] assms(2) by (auto simp: reader_set_def)
  then have "counts (read_count l') (card (reader_set (f(t := Reader))))"
    using counts_up [OF held_readersD(1) [OF i(3) none]] assms(5) by (simp add: out reader_set_upd counters_fit_def)
  then have "held_by l' (f(t := Reader))" using held_readers [OF i(3) none _ assms(4)] out(2) by simp
  moreover have "sleepers_ok l' (f(t := Reader))"
  proof (rule sleepers_kept [OF i(4) assms(3)])
    fix u p assume "f u = Looping p" "loop_guard p l"
    moreover have "read_count l + 1 \<noteq> 0" using counts_eq_0 [OF counts_up [OF held_readersD(1) [OF i(3) none]]] assms(5) by (simp add: counters_fit_def)
    ultimately show "loop_guard p l'" by (cases p) (simp_all add: out)
  qed (simp_all add: out)
  ultimately show ?thesis
    using token_kept [OF i(1), of Reader t] token_kept [OF i(2), of Reader t] assms(2) out by (intro inv_ofI) (auto simp del: fun_upd_apply)
qed

text \<open>A thread enters as the writer when nobody reads.\<close>

lemma enter_inv:
  assumes "inv_of l f" "\<forall>k. \<not> is_writer (f k)" "t \<notin> set (lock_wakeup l)" "0 < t" "read_count l = 0" "f t \<noteq> Reader" "b \<or> \<not> want_upgrade l"
    and "bit_owner (f t) = (\<not> b)" "upgrade_owner (f t) = b"
  shows "inv_of l (f(t := Writer b 0 0))"
proof -
  note i = inv_ofD [OF assms(1)]
  have "reader_set f = {}"
    using held_readersD(1) [OF i(3) assms(2)] assms(5) counts_eq_0 held_byD(2) [OF i(3)] by (metis card_0_eq)
  then have "held_by l (f(t := Writer b 0 0))" using held_new_writer [OF i(3) assms(2,4)] assms(5,7) by simp
  moreover have "sleepers_ok l (f(t := Writer b 0 0))" by (rule sleepers_kept [OF i(4) assms(3)]) simp_all
  ultimately show ?thesis
    using token_kept [OF i(1), of "Writer b 0 0" t] token_kept [OF i(2), of "Writer b 0 0" t] assms(8,9) by (intro inv_ofI) (simp_all del: fun_upd_apply)
qed

lemma wait_readers_inv:
  assumes "inv_of l f" "f t = Looping Write_Readers" "t \<notin> set (lock_wakeup l)" "0 < t" "wait_readers t l = (out, l')"
  shows "inv_of l' (f(t := status_resumed Write_Readers out))"
proof (cases "read_count l \<noteq> 0 \<or> want_upgrade l")
  case True
  then have "sleep_on Write_Readers t l = (out, l')" using assms(5) by (simp add: wait_readers_def)
  from sleep_inv [OF assms(1,3) _ assms(4) _ _ _ _ this] show ?thesis using True assms(2) by (auto simp del: fun_upd_apply)
next
  case False
  then have "out = Returned" "l' = l" "\<forall>k. \<not> is_writer (f k)" using assms(5) no_writer [OF assms(1), of t] assms(2) by (simp_all add: wait_readers_def)
  then show ?thesis using enter_inv [OF assms(1) _ assms(3,4), of False] False assms(2) by (simp del: fun_upd_apply)
qed

lemma wait_upgrade_inv:
  assumes "inv_of l f" "f t = Looping p" "p = Upgrade_Readers \<or> p = Try_Upgrade_Readers" "t \<notin> set (lock_wakeup l)" "0 < t"
    and "(if read_count l \<noteq> 0 then sleep_on p t l else (Answered a, l)) = (out, l')"
  shows "inv_of l' (f(t := status_resumed p out))"
proof (cases "read_count l = 0")
  case False
  then have "sleep_on p t l = (out, l')" using assms(6) by simp
  from sleep_inv [OF assms(1,4) _ assms(5) _ _ _ _ this] show ?thesis using False assms(2,3) by (auto simp del: fun_upd_apply)
next
  case True
  then have out: "out = Answered a" "l' = l" using assms(6) by simp_all
  have "want_upgrade l" using tokenD [OF inv_ofD(2) [OF assms(1)], of t] assms(2,3) by auto
  have "\<forall>k. \<not> is_writer (f k)"
  proof (intro allI notI)
    fix k assume "is_writer (f k)"
    then obtain b r d where k: "f k = Writer b r d" by (cases "f k") auto
    then have "b" using held_writerD(5) [OF inv_ofD(3) [OF assms(1)] k] \<open>want_upgrade l\<close> by simp
    then have "k = t" using inv_ofD(2) [OF assms(1)] k assms(2,3) unfolding token_def by (metis upgrade_owner.simps(1,2))
    then show False using k assms(2) by simp
  qed
  then show ?thesis using enter_inv [OF assms(1) _ assms(4,5) True, of True] assms(2,3) out by (auto simp del: fun_upd_apply)
qed

text \<open>To take the write bit.\<close>

lemma take_bit_inv:
  assumes "inv_of l f" "f t = Out \<or> f t = Looping Write_Bit" "t \<notin> set (lock_wakeup l)" "0 < t" "\<not> want_write l"
  shows "inv_of (l\<lparr>want_write := True\<rparr>) (f(t := Looping Write_Readers))"
proof -
  note i = inv_ofD [OF assms(1)]
  let ?f = "f(t := Looping Write_Readers)"
  have "token bit_owner ?f True" using token_taken i(1) assms(5) by auto
  moreover have "token upgrade_owner ?f (want_upgrade l)" using token_kept [OF i(2)] assms(2) by auto
  moreover have "held_by (l\<lparr>want_write := True\<rparr>) ?f"
  proof -
    have "reader_set ?f = reader_set f" using assms(2) by (auto simp: reader_set_def)
    moreover have "is_writer (?f k) = is_writer (f k)" "?f k = Writer b r d \<longleftrightarrow> f k = Writer b r d" for k b r d using assms(2) by auto
    ultimately show ?thesis using i(3) assms(4) unfolding held_by_def by simp
  qed
  moreover have "loop_guard p (l\<lparr>want_write := True\<rparr>)" if "loop_guard p l" for p using that by (cases p) simp_all
  then have "sleepers_ok (l\<lparr>want_write := True\<rparr>) ?f" by (intro sleepers_kept [OF i(4) assms(3)]) simp_all
  ultimately show ?thesis by (intro inv_ofI) simp_all
qed

lemma wait_write_bit_inv:
  assumes "inv_of l f" "f t = Out \<or> f t = Looping Write_Bit" "t \<notin> set (lock_wakeup l)" "0 < t" "wait_write_bit t l = (out, l')"
  shows "inv_of l' (f(t := status_resumed Write_Bit out))"
proof (cases "want_write l")
  case True
  then have "sleep_on Write_Bit t l = (out, l')" using assms(5) by (simp add: wait_write_bit_def)
  from sleep_inv [OF assms(1,3) _ assms(4) _ _ _ _ this] show ?thesis using True assms(2) by (auto simp del: fun_upd_apply)
next
  case False
  then have w: "wait_readers t (l\<lparr>want_write := True\<rparr>) = (out, l')" using assms(5) by (simp add: wait_write_bit_def)
  have "inv_of l' ((f(t := Looping Write_Readers))(t := status_resumed Write_Readers out))"
    using wait_readers_inv [OF take_bit_inv [OF assms(1-4) False] _ _ assms(4) w] assms(3) by simp
  moreover have "status_resumed Write_Readers out = status_resumed Write_Bit out" by (cases out) simp_all
  ultimately show ?thesis by simp
qed

text \<open>A reader leaves, or leaves and takes the upgrade bit.\<close>

lemma reader_leaves:
  assumes "inv_of l f" "f t = Reader" "st = Out \<or> st = Looping p" "read_count l' = read_count l - 1" "recursion_depth l' = recursion_depth l" "thread l' = thread l"
  shows "held_by l' (f(t := st))" "0 < t"
proof -
  note i = inv_ofD [OF assms(1)]
  have none: "\<forall>k. \<not> is_writer (f k)" using no_writer [OF assms(1)] assms(2) by blast
  have t: "t \<in> reader_set f" "finite (reader_set f)" using held_byD(2) [OF i(3)] assms(2) by (auto simp: reader_set_def)
  then have "0 < card (reader_set f)" by (auto simp: card_gt_0_iff)
  then have "counts (read_count l') (card (reader_set (f(t := st))))"
    using counts_down [OF held_readersD(1) [OF i(3) none]] assms(3,4) t by (auto simp: reader_set_upd)
  moreover show "0 < t" using held_byD(1) [OF i(3)] assms(2) by (cases "t = 0") simp_all
  ultimately show "held_by l' (f(t := st))" using held_readers [OF i(3) none, of st t l'] assms(3,5,6) by auto
qed

lemma upgrade_inv:
  assumes "inv_of l f" "f t = Reader" "\<not> want_upgrade l" "p = Upgrade_Readers \<or> p = Try_Upgrade_Readers"
  defines "l' \<equiv> l\<lparr>read_count := read_count l - 1, want_upgrade := True\<rparr>"
  shows "inv_of l' (f(t := Looping p))"
proof -
  note i = inv_ofD [OF assms(1)]
  have "held_by l' (f(t := Looping p))" using reader_leaves(1) [OF assms(1,2)] by (simp add: l'_def)
  moreover have "sleepers_ok l' (f(t := Looping p))"
  proof (rule sleepers_kept [OF i(4)])
    show "t \<notin> set (lock_wakeup l)" using awake_not_queued [OF i(4)] assms(2) by simp
    fix u q assume u: "f u = Looping q" "loop_guard q l"
    have "\<not> upgrade_owner (f u)" using tokenD [OF i(2)] assms(3) by blast
    then show "loop_guard q l'" using u by (cases q) (simp_all add: l'_def)
  qed (simp_all add: l'_def)
  moreover have "token upgrade_owner (f(t := Looping p)) True" using token_taken i(2) assms(3,4) by auto
  ultimately show ?thesis using token_kept [OF i(1), of "Looping p" t] assms(2,4) by (intro inv_ofI) (auto simp: l'_def)
qed

lemma reader_out_inv:
  assumes "inv_of l f" "f t = Reader"
  shows "inv_of (wake_up (l\<lparr>read_count := read_count l - 1\<rparr>)) (f(t := Out))"
proof -
  note i = inv_ofD [OF assms(1)]
  have "held_by (wake_up (l\<lparr>read_count := read_count l - 1\<rparr>)) (f(t := Out))" using reader_leaves(1) [OF assms] by simp
  moreover have "sleepers_ok (wake_up (l\<lparr>read_count := read_count l - 1\<rparr>)) (f(t := Out))" by (rule sleepers_woken [OF i(4)]) simp_all
  ultimately show ?thesis using token_kept [OF i(1), of Out t] token_kept [OF i(2), of Out t] assms(2) by (intro inv_ofI) simp_all
qed

section \<open>Steps of the writer\<close>

lemma sole_writer: "inv_of l f \<Longrightarrow> f t = Writer b r d \<Longrightarrow> \<forall>k. is_writer (f k) \<longrightarrow> k = t"
  using only_writer [OF inv_ofD(1) inv_ofD(2) inv_ofD(3) refl] by blast

text \<open>Behind a writer nobody waits for readers alone.\<close>

lemma writer_guards:
  assumes "inv_of l f" "f t = Writer b r d" "f u = Looping p" "loop_guard p l" "want_write l' = want_write l" "want_upgrade l' = want_upgrade l"
  shows "loop_guard p l'"
proof -
  note i = inv_ofD [OF assms(1)]
  have "u \<noteq> t" using assms(2,3) by auto
  then have "bit_owner (f u) \<Longrightarrow> b" "upgrade_owner (f u) \<Longrightarrow> \<not> b" using i(1,2) assms(2) unfolding token_def by (metis bit_owner.simps(1), metis upgrade_owner.simps(1))
  moreover have "b \<longleftrightarrow> want_upgrade l" using held_writerD(5) [OF i(3) assms(2)] tokenD [OF i(2), of t] assms(2) by auto
  moreover have "upgrade_owner (f u) \<Longrightarrow> want_upgrade l" using tokenD [OF i(2)] by blast
  ultimately show ?thesis using assms(3-6) by (cases p) auto
qed

lemma recursion_inv:
  assumes "inv_of l f" "f t = Writer b r d" "want_write l' = want_write l" "want_upgrade l' = want_upgrade l"
    and "counts (read_count l') r'" "counts (recursion_depth l') d'" "thread l' = t \<or> thread l' = 0 \<and> d' = 0"
    and "lock_wakeup l' = lock_wakeup l \<and> waiting l' = waiting l \<or> (\<exists>m. l' = wake_up m \<and> lock_wakeup m = lock_wakeup l \<and> waiting m = waiting l)"
  shows "inv_of l' (f(t := Writer b r' d'))"
proof -
  note i = inv_ofD [OF assms(1)]
  have "held_by l' (f(t := Writer b r' d'))" using held_same_writer [OF i(3) assms(2) sole_writer [OF assms(1,2)] assms(5-7,4)] .
  moreover have "sleepers_ok l' (f(t := Writer b r' d'))"
    using assms(8)
  proof (elim disjE exE conjE)
    assume "lock_wakeup l' = lock_wakeup l" "waiting l' = waiting l"
    then show ?thesis
      using writer_guards [OF assms(1,2) _ _ assms(3,4)] awake_not_queued [OF i(4), of t] assms(2) by (intro sleepers_kept [OF i(4)]) auto
  next
    fix m assume "l' = wake_up m" "lock_wakeup m = lock_wakeup l" "waiting m = waiting l"
    then show ?thesis using sleepers_woken [OF i(4)] by blast
  qed
  ultimately show ?thesis
    using token_kept [OF i(1), of "Writer b r' d'" t] token_kept [OF i(2), of "Writer b r' d'" t] assms(2-4) by (intro inv_ofI) simp_all
qed

lemma writer_out_inv:
  assumes "inv_of l f" "f t = Writer b 0 0" "thread l \<noteq> t" "st = Out \<and> n = read_count l \<or> st = Reader \<and> n = read_count l + 1"
  shows "inv_of (wake_up (if want_upgrade l then l\<lparr>read_count := n, want_upgrade := False\<rparr> else l\<lparr>read_count := n, want_write := False\<rparr>)) (f(t := st))"
    (is "inv_of (wake_up ?l) _")
proof -
  note i = inv_ofD [OF assms(1)] and w = held_writerD [OF inv_ofD(3) [OF assms(1)] assms(2)]
  have b: "b \<longleftrightarrow> want_upgrade l" using w(5) tokenD [OF i(2), of t] assms(2) by auto
  have n: "counts n (if st = Reader then 1 else 0)" using w(2) assms(4) by (auto simp: counts_def)
  have "recursion_depth l = 0" "thread l = 0" using w(3,4) assms(3) by (auto simp: counts_def)
  then have "held_by (wake_up ?l) (f(t := st))"
    using held_writer_leaves [OF i(3) assms(2) sole_writer [OF assms(1,2)], of st "wake_up ?l"] n assms(4) by auto
  moreover have "sleepers_ok (wake_up ?l) (f(t := st))" by (rule sleepers_woken [OF i(4)]) simp_all
  moreover have "token bit_owner (f(t := st)) (want_write ?l)"
    using token_given [OF i(1), of t st] token_kept [OF i(1), of st t] assms(2,4) b by auto
  moreover have "token upgrade_owner (f(t := st)) (want_upgrade ?l)"
    using token_given [OF i(2), of t st] token_kept [OF i(2), of st t] assms(2,4) b by auto
  ultimately show ?thesis by (intro inv_ofI) simp_all
qed

lemma writer_done_inv:
  assumes "inv_of l f" "f t = Writer b 0 0" "thread l \<noteq> t"
  shows "inv_of (wake_up (if want_upgrade l then l\<lparr>want_upgrade := False\<rparr> else l\<lparr>want_write := False\<rparr>)) (f(t := Out))"
  using writer_out_inv [OF assms, of Out "read_count l"] by (cases "want_upgrade l") (simp_all del: fun_upd_apply)

section \<open>Every call keeps the invariant\<close>

lemma recursive_writer:
  assumes "inv_of l f" "thread l = t" "0 < t"
  shows "is_writer (f t)"
proof (rule ccontr)
  assume not: "\<not> is_writer (f t)"
  obtain k where k: "is_writer (f k)" using held_readersD(3) [OF inv_ofD(3) [OF assms(1)]] assms(2,3) by (metis less_irrefl)
  then obtain b r d where "f k = Writer b r d" by (cases "f k") auto
  from held_writerD(4) [OF inv_ofD(3) [OF assms(1)] this] have "k = t" using assms(2,3) by simp
  then show False using not k by simp
qed

lemma not_recursive: "inv_of l f \<Longrightarrow> 0 < t \<Longrightarrow> f t = Out \<or> f t = Reader \<Longrightarrow> thread l \<noteq> t"
  using recursive_writer [of l f t] by auto

lemma not_queued: "inv_of l f \<Longrightarrow> f t = Out \<or> f t = Reader \<Longrightarrow> t \<notin> set (lock_wakeup l)"
  using awake_not_queued [OF inv_ofD(4), of l f t] by auto

lemma deeper_inv:
  assumes "inv_of l f" "f t = Writer b r d" "thread l = t" "counters_fit l"
  shows "inv_of (l\<lparr>recursion_depth := recursion_depth l + 1\<rparr>) (f(t := Writer b r (d + 1)))"
  using held_writerD(2,3) [OF inv_ofD(3) [OF assms(1)] assms(2)] assms counts_up [of "recursion_depth l" d]
  by (intro recursion_inv [OF assms(1,2)]) (simp_all add: counters_fit_def)

lemma reread_inv:
  assumes "inv_of l f" "f t = Writer b r d" "thread l = t" "counters_fit l"
  shows "inv_of (l\<lparr>read_count := read_count l + 1\<rparr>) (f(t := Writer b (r + 1) d))"
  using held_writerD(2,3) [OF inv_ofD(3) [OF assms(1)] assms(2)] assms counts_up [of "read_count l" r]
  by (intro recursion_inv [OF assms(1,2)]) (simp_all add: counters_fit_def)

lemma write_inv:
  assumes "inv_of l f" "0 < t" "call_allowed Write (thread l = t) (f t)" "counters_fit l" "lock_write t l = (out, l')"
  shows "inv_of l' (f(t := status_after Write (f t) out))"
proof (cases "f t")
  case Out
  then have "inv_of l' (f(t := status_resumed Write_Bit out))"
    using wait_write_bit_inv [OF assms(1) _ not_queued [OF assms(1)] assms(2)] not_recursive [OF assms(1,2)] assms(5) by (simp add: lock_write_def)
  moreover have "status_resumed Write_Bit out = status_after Write Out out" by (cases out) simp_all
  ultimately show ?thesis using Out by simp
next
  case (Writer b r d)
  then show ?thesis using deeper_inv [OF assms(1) Writer _ assms(4)] assms(3,5) by (auto simp: lock_write_def)
qed (use assms in simp_all)

lemma read_inv:
  assumes "inv_of l f" "0 < t" "call_allowed Read (thread l = t) (f t)" "counters_fit l" "lock_read t l = (out, l')"
  shows "inv_of l' (f(t := status_after Read (f t) out))"
proof (cases "f t")
  case Out
  then have "inv_of l' (f(t := status_resumed Read_Bits out))"
    using wait_bits_inv [OF assms(1) _ not_queued [OF assms(1)] assms(2,4)] not_recursive [OF assms(1,2)] assms(5) by (simp add: lock_read_def)
  moreover have "status_resumed Read_Bits out = status_after Read Out out" by (cases out) simp_all
  ultimately show ?thesis using Out by simp
next
  case (Writer b r d)
  then show ?thesis using reread_inv [OF assms(1) Writer _ assms(4)] assms(3,5) by (auto simp: lock_read_def)
qed (use assms in simp_all)

lemma try_write_inv:
  assumes "inv_of l f" "0 < t" "call_allowed Try_Write (thread l = t) (f t)" "counters_fit l" "lock_try_write t l = (out, l')"
  shows "inv_of l' (f(t := status_after Try_Write (f t) out))"
proof (cases "f t")
  case Out
  have not: "thread l \<noteq> t" using not_recursive [OF assms(1,2)] Out by simp
  show ?thesis
  proof (cases "want_write l \<or> want_upgrade l \<or> read_count l \<noteq> 0")
    case True
    then have "out = Answered False" "l' = l" using assms(5) not by (auto simp: lock_try_write_def)
    then show ?thesis using Out assms(1) by (simp add: fun_upd_idem)
  next
    case False
    then have "wait_write_bit t l = (Returned, l')" "out = Answered True"
      using assms(5) not by (auto simp: lock_try_write_def wait_write_bit_def wait_readers_def)
    then show ?thesis using wait_write_bit_inv [OF assms(1) _ not_queued [OF assms(1)] assms(2)] Out by fastforce
  qed
next
  case (Writer b r d)
  then show ?thesis using deeper_inv [OF assms(1) Writer _ assms(4)] assms(3,5) by (auto simp: lock_try_write_def)
qed (use assms in simp_all)

lemma try_read_inv:
  assumes "inv_of l f" "0 < t" "call_allowed Try_Read (thread l = t) (f t)" "counters_fit l" "lock_try_read t l = (out, l')"
  shows "inv_of l' (f(t := status_after Try_Read (f t) out))"
proof (cases "f t")
  case Out
  have not: "thread l \<noteq> t" using not_recursive [OF assms(1,2)] Out by simp
  show ?thesis
  proof (cases "want_write l \<or> want_upgrade l")
    case True
    then have "out = Answered False" "l' = l" using assms(5) not by (auto simp: lock_try_read_def)
    then show ?thesis using Out assms(1) by (simp add: fun_upd_idem)
  next
    case False
    then have "wait_bits t l = (Returned, l')" "out = Answered True" using assms(5) not by (auto simp: lock_try_read_def wait_bits_def)
    then show ?thesis using wait_bits_inv [OF assms(1) _ not_queued [OF assms(1)] assms(2,4)] Out by fastforce
  qed
next
  case (Writer b r d)
  then show ?thesis using reread_inv [OF assms(1) Writer _ assms(4)] assms(3,5) by (auto simp: lock_try_read_def)
qed (use assms in simp_all)

lemma done_inv:
  assumes "inv_of l f" "call_allowed Done (thread l = t) (f t)" "lock_done l = (out, l')"
  shows "inv_of l' (f(t := status_after Done (f t) out))"
proof (cases "f t")
  case Reader
  have "\<forall>k. \<not> is_writer (f k)" "t \<in> reader_set f" "finite (reader_set f)"
    using no_writer [OF assms(1)] Reader held_byD(2) [OF inv_ofD(3) [OF assms(1)]] by (auto simp: reader_set_def)
  then have "read_count l \<noteq> 0" using counts_eq_0 [OF held_readersD(1) [OF inv_ofD(3) [OF assms(1)]]] by (auto simp: card_eq_0_iff)
  then show ?thesis using reader_out_inv [OF assms(1) Reader] assms(3) Reader by (auto simp: lock_done_def)
next
  case (Writer b r d)
  note w = held_writerD [OF inv_ofD(3) [OF assms(1)] Writer]
  have out: "out = Returned" using assms(3) by (simp add: lock_done_def)
  consider "r \<noteq> 0" | "r = 0" "d \<noteq> 0" | "r = 0" "d = 0" by blast
  then show ?thesis
  proof cases
    case 1
    then have "l' = wake_up (l\<lparr>read_count := read_count l - 1\<rparr>)" using assms(3) counts_eq_0 [OF w(2)] by (auto simp: lock_done_def)
    then have "inv_of l' (f(t := Writer b (r - 1) d))"
      using w counts_down [OF w(2)] 1 by (intro recursion_inv [OF assms(1) Writer]) auto
    then show ?thesis using Writer 1 out by simp
  next
    case 2
    then have "l' = wake_up (l\<lparr>recursion_depth := recursion_depth l - 1\<rparr>)"
      using assms(3) counts_eq_0 [OF w(2)] counts_eq_0 [OF w(3)] by (auto simp: lock_done_def)
    then have "inv_of l' (f(t := Writer b r (d - 1)))"
      using w counts_down [OF w(3)] 2 by (intro recursion_inv [OF assms(1) Writer]) auto
    then show ?thesis using Writer 2 out by simp
  next
    case 3
    then have z: "read_count l = 0" "recursion_depth l = 0" "thread l \<noteq> t" using counts_eq_0 w assms(2) Writer by auto
    then have "l' = wake_up (if want_upgrade l then l\<lparr>want_upgrade := False\<rparr> else l\<lparr>want_write := False\<rparr>)"
      using assms(3) by (auto simp: lock_done_def)
    then show ?thesis using writer_done_inv [OF assms(1) _ z(3), of b] Writer 3 out by simp
  qed
qed (use assms in simp_all)

lemma write_to_read_inv:
  assumes "inv_of l f" "call_allowed Write_To_Read (thread l = t) (f t)" "counters_fit l" "lock_write_to_read l = (out, l')"
  shows "inv_of l' (f(t := status_after Write_To_Read (f t) out))"
proof (cases "f t")
  case (Writer b r d)
  note w = held_writerD [OF inv_ofD(3) [OF assms(1)] Writer]
  have out: "out = Returned" using assms(4) by (simp add: lock_write_to_read_def Let_def)
  have up: "counts (read_count l + 1) (r + 1)" using counts_up [OF w(2)] assms(3) by (simp add: counters_fit_def)
  show ?thesis
  proof (cases "d = 0")
    case False
    then have "l' = wake_up (l\<lparr>read_count := read_count l + 1, recursion_depth := recursion_depth l - 1\<rparr>)"
      using assms(4) counts_eq_0 [OF w(3)] by (auto simp: lock_write_to_read_def Let_def)
    then have "inv_of l' (f(t := Writer b (r + 1) (d - 1)))"
      using w up counts_down [OF w(3)] False by (intro recursion_inv [OF assms(1) Writer]) auto
    then show ?thesis using Writer False out by simp
  next
    case True
    then have z: "r = 0" "recursion_depth l = 0" "thread l \<noteq> t" using counts_eq_0 w assms(2) Writer by (auto split: if_splits)
    then have "l' = wake_up (if want_upgrade l then l\<lparr>read_count := read_count l + 1, want_upgrade := False\<rparr> else l\<lparr>read_count := read_count l + 1, want_write := False\<rparr>)"
      using assms(4) by (auto simp: lock_write_to_read_def Let_def)
    then show ?thesis using writer_out_inv [OF assms(1) _ z(3), of b Reader "read_count l + 1"] Writer True z(1) out by simp
  qed
qed (use assms in simp_all)

text \<open>A recursive writer gives up a read lock for a write lock.\<close>

lemma exchange_inv:
  assumes "inv_of l f" "f t = Writer b r d" "thread l = t" "r \<noteq> 0" "counters_fit l"
  shows "inv_of (l\<lparr>read_count := read_count l - 1, recursion_depth := recursion_depth l + 1\<rparr>) (f(t := Writer b (r - 1) (d + 1)))"
proof -
  note w = held_writerD [OF inv_ofD(3) [OF assms(1)] assms(2)]
  show ?thesis using counts_down [OF w(2)] counts_up [OF w(3)] assms(3-5) by (intro recursion_inv [OF assms(1,2)]) (simp_all add: counters_fit_def)
qed

lemma read_to_write_inv:
  assumes "inv_of l f" "0 < t" "call_allowed Read_To_Write (thread l = t) (f t)" "counters_fit l" "lock_read_to_write t l = (out, l')"
  shows "inv_of l' (f(t := status_after Read_To_Write (f t) out))"
proof (cases "f t")
  case Reader
  have not: "thread l \<noteq> t" using not_recursive [OF assms(1,2)] Reader by simp
  show ?thesis
  proof (cases "want_upgrade l")
    case True
    then have "out = Answered True" "l' = wake_up (l\<lparr>read_count := read_count l - 1\<rparr>)" using assms(5) not by (auto simp: lock_read_to_write_def)
    then show ?thesis using reader_out_inv [OF assms(1) Reader] Reader by simp
  next
    case False
    then have w: "wait_upgrade t (l\<lparr>read_count := read_count l - 1, want_upgrade := True\<rparr>) = (out, l')" using assms(5) not by (simp add: lock_read_to_write_def)
    have "inv_of l' ((f(t := Looping Upgrade_Readers))(t := status_resumed Upgrade_Readers out))"
      using wait_upgrade_inv [OF upgrade_inv [OF assms(1) Reader False disjI1 [OF refl]] _ _ _ assms(2)] not_queued [OF assms(1)] Reader w
      by (simp add: wait_upgrade_def)
    moreover have "status_resumed Upgrade_Readers out = status_after Read_To_Write Reader out"
      using w by (auto simp: wait_upgrade_def sleep_on_def split: if_splits)
    ultimately show ?thesis using Reader by simp
  qed
next
  case (Writer b r d)
  then show ?thesis using exchange_inv [OF assms(1) Writer _ _ assms(4)] assms(3,5) by (auto simp: lock_read_to_write_def)
qed (use assms in simp_all)

lemma try_read_to_write_inv:
  assumes "inv_of l f" "0 < t" "call_allowed Try_Read_To_Write (thread l = t) (f t)" "counters_fit l" "lock_try_read_to_write t l = (out, l')"
  shows "inv_of l' (f(t := status_after Try_Read_To_Write (f t) out))"
proof (cases "f t")
  case Reader
  have not: "thread l \<noteq> t" using not_recursive [OF assms(1,2)] Reader by simp
  show ?thesis
  proof (cases "want_upgrade l")
    case True
    then have "out = Answered False" "l' = l" using assms(5) not by (auto simp: lock_try_read_to_write_def)
    then show ?thesis using Reader assms(1) by (simp add: fun_upd_idem)
  next
    case False
    have order: "l\<lparr>read_count := read_count l - 1, want_upgrade := True\<rparr> = l\<lparr>want_upgrade := True, read_count := read_count l - 1\<rparr>" by (cases l) simp
    have w: "wait_try_upgrade t (l\<lparr>read_count := read_count l - 1, want_upgrade := True\<rparr>) = (out, l')"
      unfolding order using False assms(5) not by (simp add: lock_try_read_to_write_def)
    have "inv_of l' ((f(t := Looping Try_Upgrade_Readers))(t := status_resumed Try_Upgrade_Readers out))"
      using wait_upgrade_inv [OF upgrade_inv [OF assms(1) Reader False disjI2 [OF refl]] _ _ _ assms(2)] not_queued [OF assms(1)] Reader w
      by (simp add: wait_try_upgrade_def)
    moreover have "status_resumed Try_Upgrade_Readers out = status_after Try_Read_To_Write Reader out"
      using w by (auto simp: wait_try_upgrade_def sleep_on_def split: if_splits)
    ultimately show ?thesis using Reader by simp
  qed
next
  case (Writer b r d)
  then show ?thesis using exchange_inv [OF assms(1) Writer _ _ assms(4)] assms(3,5) by (auto simp: lock_try_read_to_write_def)
qed (use assms in simp_all)

lemma set_recursive_inv:
  assumes "inv_of l f" "call_allowed Set_Recursive own (f t)" "lock_set_recursive t l = (out, l')" "out \<noteq> Panicked"
  shows "inv_of l' (f(t := status_after Set_Recursive (f t) out))"
proof (cases "f t")
  case (Writer b r d)
  note w = held_writerD [OF inv_ofD(3) [OF assms(1)] Writer]
  have "out = Returned" "l' = l\<lparr>thread := t\<rparr>" using assms(3,4) by (auto simp: lock_set_recursive_def split: if_splits)
  moreover have "inv_of (l\<lparr>thread := t\<rparr>) (f(t := Writer b r d))" using w by (intro recursion_inv [OF assms(1) Writer]) simp_all
  ultimately show ?thesis using Writer by simp
qed (use assms in simp_all)

lemma clear_recursive_inv:
  assumes "inv_of l f" "0 < t" "call_allowed Clear_Recursive (thread l = t) (f t)" "lock_clear_recursive t l = (out, l')" "out \<noteq> Panicked"
  shows "inv_of l' (f(t := status_after Clear_Recursive (f t) out))"
proof (cases "f t")
  case (Writer b r d)
  note w = held_writerD [OF inv_ofD(3) [OF assms(1)] Writer]
  have "out = Returned" "l' = (if d = 0 then l\<lparr>thread := 0\<rparr> else l)"
    using assms(4,5) counts_eq_0 [OF w(3)] by (auto simp: lock_clear_recursive_def split: if_splits)
  moreover have "inv_of (if d = 0 then l\<lparr>thread := 0\<rparr> else l) (f(t := Writer b r d))" using w by (intro recursion_inv [OF assms(1) Writer]) auto
  ultimately show ?thesis using Writer by simp
qed (use assms in simp_all)

lemmas call_invs = write_inv read_inv done_inv read_to_write_inv write_to_read_inv try_write_inv try_read_inv try_read_to_write_inv
  set_recursive_inv clear_recursive_inv

lemma call_inv:
  assumes "inv_of l f" "0 < t" "call_allowed c (thread l = t) (f t)" "c \<in> {Done, Set_Recursive, Clear_Recursive} \<or> counters_fit l"
    and "lock_run c t l = (out, l')" "out \<noteq> Panicked"
  shows "inv_of l' (f(t := status_after c (f t) out))"
  using assms by (cases c) (simp_all add: call_invs del: fun_upd_apply)

lemma go_on_inv:
  assumes "inv_of l f" "f t = Looping p" "t \<notin> set (lock_wakeup l)" "counters_fit l" "lock_resume p t l = (out, l')"
  shows "inv_of l' (f(t := status_resumed p out))"
proof -
  have t: "0 < t" using held_byD(1) [OF inv_ofD(3) [OF assms(1)]] assms(2) by (cases "t = 0") simp_all
  show ?thesis
  proof (cases p)
    case Write_Bit
    then show ?thesis using wait_write_bit_inv [OF assms(1) _ assms(3) t] assms(2,5) by simp
  next
    case Write_Readers
    then show ?thesis using wait_readers_inv [OF assms(1) _ assms(3) t] assms(2,5) by simp
  next
    case Read_Bits
    then show ?thesis using wait_bits_inv [OF assms(1) _ assms(3) t assms(4)] assms(2,5) by simp
  next
    case Upgrade_Readers
    then show ?thesis using wait_upgrade_inv [OF assms(1), of t Upgrade_Readers False] assms(2,3,5) t by (simp add: wait_upgrade_def)
  next
    case Try_Upgrade_Readers
    then show ?thesis using wait_upgrade_inv [OF assms(1), of t Try_Upgrade_Readers True] assms(2,3,5) t by (simp add: wait_try_upgrade_def)
  qed
qed

interpretation lock_machine: state_machine "lock_step C" lock_start lock_inv
proof
  show "lock_inv lock_start" by (rule lock_inv_start)
  fix s t assume inv: "lock_inv s" and step: "lock_step C s t"
  have "inv_of (lk s) (status s)" using inv by (cases s) simp
  with step show "lock_inv t" by (cases rule: lock_step.cases) (auto intro: call_inv go_on_inv)
qed

end
