(* ===== verification/Ufs_Lock_Safe.thy ===== *)
theory Ufs_Lock_Safe
  imports Ufs_Lock_Inv
begin

text \<open>
  What the locks promise: a writer excludes everybody else, and from every state the lock can
  become free again, with every thread that waited having had it.
\<close>

section \<open>Release\<close>

lemma reachable_trans: "reachable step t u \<Longrightarrow> reachable step s t \<Longrightarrow> reachable step s u"
  by (induction rule: reachable.induct) (auto intro: reachable_step)

lemma reachable_one: "step s t \<Longrightarrow> reachable step s t"
  by (rule reachable_step [OF reachable_start])

lemma lock_inv_of: "lock_inv s \<longleftrightarrow> inv_of (lk s) (status s)"
  by (cases s) simp

text \<open>Threads that only release what they have.\<close>

definition releases :: "lock_call set" where
  "releases = {Done, Clear_Recursive}"

lemma done_step:
  assumes "0 < t" "call_allowed Done (thread (lk s) = t) (status s t)"
  shows "\<exists>s'. lock_step releases s s' \<and> status s' = (status s)(t := status_after Done (status s t) Returned)"
proof -
  obtain l where "lock_run Done t (lk s) = (Returned, l)" by (simp add: lock_done_def)
  from lock_call [OF _ assms _ this, of releases] show ?thesis by (fastforce simp: releases_def)
qed

lemma release_reader:
  assumes "lock_inv s" "status s t = Reader"
  shows "\<exists>s'. reachable (lock_step releases) s s' \<and> status s' = (status s)(t := Out)"
proof -
  have "0 < t" using reader_leaves(2) [of "lk s" "status s" t] assms by (cases "t = 0") (auto simp: lock_inv_def held_by_def)
  then show ?thesis using done_step [of t s] assms(2) reachable_one by fastforce
qed

lemma release_writer:
  assumes "lock_inv s" "status s t = Writer b r d"
  shows "\<exists>s'. reachable (lock_step releases) s s' \<and> status s' = (status s)(t := Out)"
  using assms
proof (induction "r + d" arbitrary: s r d)
  case 0
  note w = held_writerD [OF inv_ofD(3) [OF iffD1 [OF lock_inv_of 0(2)]] 0(3)]
  have zero: "r = 0" "d = 0" using 0(1) by simp_all
  have last: "\<exists>s'. reachable (lock_step releases) u s' \<and> status s' = (status u)(t := Out)" if "status u t = Writer b 0 0" "thread (lk u) \<noteq> t" for u
    using done_step [of t u] that w(6) reachable_one by fastforce
  show ?case
  proof (cases "thread (lk s) = t")
    case False
    then show ?thesis using last [of s] 0(3) zero by (simp del: fun_upd_apply)
  next
    case True
    let ?u = "\<lparr>lk = (lk s)\<lparr>thread := 0\<rparr>, status = status s\<rparr>"
    have "lock_run Clear_Recursive t (lk s) = (Returned, (lk s)\<lparr>thread := 0\<rparr>)"
      using True counts_eq_0 [OF w(3)] zero by (simp add: lock_clear_recursive_def)
    from lock_call [OF _ w(6) _ _ this, of releases] have "lock_step releases s ?u" using 0(3) True by (simp add: fun_upd_idem releases_def)
    moreover have "\<exists>s'. reachable (lock_step releases) ?u s' \<and> status s' = (status ?u)(t := Out)" using last [of ?u] 0(3) zero w(6) by (simp del: fun_upd_apply)
    ultimately show ?thesis using reachable_trans [OF _ reachable_one] by fastforce
  qed
next
  case (Suc n)
  note w = held_writerD [OF inv_ofD(3) [OF iffD1 [OF lock_inv_of Suc(3)]] Suc(4)]
  obtain r' d' where rd: "status_after Done (Writer b r d) Returned = Writer b r' d'" "n = r' + d'" using Suc(2) by (cases "r = 0") (auto)
  have "call_allowed Done (thread (lk s) = t) (status s t)" using Suc(2,4) by (cases "r = 0") auto
  from done_step [OF w(6) this] obtain u where u: "lock_step releases s u" "status u = (status s)(t := Writer b r' d')"
    using Suc(4) rd(1) by auto
  have "lock_inv u" using lock_machine.step_inv [OF Suc(3) u(1)] .
  from Suc(1) [OF rd(2) this] obtain s' where "reachable (lock_step releases) u s'" "status s' = (status u)(t := Out)" using u(2) by auto
  then show ?case using u reachable_trans [OF _ reachable_one [of "lock_step releases", OF u(1)]] by (intro exI [of _ s']) simp
qed

section \<open>Entry\<close>

definition holds_lock :: "lock_status \<Rightarrow> bool" where
  "holds_lock st \<longleftrightarrow> st = Reader \<or> is_writer st"

lemma enter_step:
  assumes "lock_inv s" "\<forall>u. \<not> holds_lock (status s u)" "status s t = Looping p"
  shows "\<exists>u st s'. (\<exists>q. status s u = Looping q) \<and> holds_lock st \<and> lock_step releases s s' \<and> status s' = (status s)(u := st)"
proof -
  note i = inv_ofD [OF iffD1 [OF lock_inv_of assms(1)]]
  have none: "\<forall>k. \<not> is_writer (status s k)" "reader_set (status s) = {}" using assms(2) by (auto simp: holds_lock_def reader_set_def)
  have l: "read_count (lk s) = 0" "recursion_depth (lk s) = 0"
    using held_readersD [OF i(3) none(1)] none(2) by (auto simp: counts_def)
  have enter: ?thesis if u: "status s u = Looping q" "\<not> loop_guard q (lk s)" "q = Write_Bit \<longrightarrow> \<not> want_upgrade (lk s)" for u q
  proof -
    have "u \<notin> set (lock_wakeup (lk s))" using i(4) u by (auto simp: sleepers_ok_def)
    moreover obtain out l where out: "lock_resume q u (lk s) = (out, l)" by fastforce
    moreover have "counters_fit (lk s)" using l by (simp add: counters_fit_def)
    moreover have "\<not> (\<exists>q'. out = Sleeping q')"
      using out u(2,3) l(1) by (cases q) (auto simp: wait_write_bit_def wait_readers_def wait_bits_def wait_upgrade_def wait_try_upgrade_def)
    then have "holds_lock (status_resumed q out)" by (cases q; cases out) (auto simp: holds_lock_def)
    ultimately show ?thesis using lock_go_on [OF u(1)] u(1) by fastforce
  qed
  consider "want_upgrade (lk s)" | "\<not> want_upgrade (lk s)" "want_write (lk s)" | "\<not> want_upgrade (lk s)" "\<not> want_write (lk s)" by blast
  then show ?thesis
  proof cases
    case 1
    then obtain u where "upgrade_owner (status s u)" using i(2) by (auto simp: token_def)
    then obtain q where "status s u = Looping q" "q = Upgrade_Readers \<or> q = Try_Upgrade_Readers" using spec [OF none(1), of u] by (cases "status s u") auto
    then show ?thesis using enter [of u q] l(1) by auto
  next
    case 2
    then obtain u where "bit_owner (status s u)" using i(1) by (auto simp: token_def)
    then have "status s u = Looping Write_Readers" using spec [OF none(1), of u] by (cases "status s u") auto
    then show ?thesis using enter 2 l(1) by auto
  next
    case 3
    then show ?thesis using enter [OF assms(3)] l(1) by (cases p) auto
  qed
qed

section \<open>The lock can always become free\<close>

lemma busy_finite: "reachable (lock_step C) lock_start s \<Longrightarrow> finite {t. status s t \<noteq> Out}"
proof (induction rule: reachable.induct)
  case (reachable_step s u)
  from reachable_step(2) obtain t st where "status u = (status s)(t := st)" by (cases rule: lock_step.cases) auto
  then have "{t. status u t \<noteq> Out} \<subseteq> insert t {t. status s t \<noteq> Out}" by auto
  then show ?case using reachable_step(3) finite_subset by blast
qed (simp add: lock_start_def)

lemma releases_inv: "reachable (lock_step C) s t \<Longrightarrow> lock_inv s \<Longrightarrow> lock_inv t"
  by (induction rule: reachable.induct) (auto intro: lock_machine.step_inv)

lemma all_out:
  assumes "lock_inv s" "\<forall>t. status s t = Out"
  shows "\<not> want_write (lk s)" "\<not> want_upgrade (lk s)" "read_count (lk s) = 0" "thread (lk s) = 0" "lock_wakeup (lk s) = []"
proof -
  note i = inv_ofD [OF iffD1 [OF lock_inv_of assms(1)]]
  show "\<not> want_write (lk s)" "\<not> want_upgrade (lk s)" using i(1,2) assms(2) by (simp_all add: token_def)
  have "reader_set (status s) = {}" "\<forall>k. \<not> is_writer (status s k)" using assms(2) by (simp_all add: reader_set_def)
  then show "read_count (lk s) = 0" "thread (lk s) = 0" using held_readersD [OF i(3)] by (auto simp: counts_def)
  show "lock_wakeup (lk s) = []" using i(4) assms(2) by (cases "lock_wakeup (lk s)") (auto simp: sleepers_ok_def)
qed

lemma one_leaves:
  assumes "lock_inv s" "status s t \<noteq> Out"
  shows "\<exists>u s'. reachable (lock_step releases) s s' \<and> status s u \<noteq> Out \<and> status s' = (status s)(u := Out)"
proof -
  have leave: "\<exists>s'. reachable (lock_step releases) s s' \<and> status s' = (status s)(u := Out)" if "lock_inv s" "holds_lock (status s u)" for s u
    using that release_reader [OF that(1)] release_writer [OF that(1)] by (cases "status s u") (auto simp: holds_lock_def)
  show ?thesis
  proof (cases "\<exists>u. holds_lock (status s u)")
    case True
    then obtain u where u: "holds_lock (status s u)" by blast
    then have "status s u \<noteq> Out" by (auto simp: holds_lock_def)
    then show ?thesis using leave [OF assms(1) u] by blast
  next
    case False
    then have "\<not> holds_lock (status s t)" by blast
    then obtain p where "status s t = Looping p" using assms(2) by (cases "status s t") (auto simp: holds_lock_def)
    then obtain u st s1 q where e: "status s u = Looping q" "holds_lock st" "lock_step releases s s1" "status s1 = (status s)(u := st)"
      using enter_step [OF assms(1)] False by blast
    then obtain s' where "reachable (lock_step releases) s1 s'" "status s' = (status s1)(u := Out)"
      using leave [of s1 u] lock_machine.step_inv [OF assms(1) e(3)] by auto
    then show ?thesis using e reachable_trans [OF _ reachable_one [of "lock_step releases", OF e(3)]] by (intro exI [of _ u] exI [of _ s']) simp
  qed
qed

lemma drain:
  assumes "lock_inv s" "finite {t. status s t \<noteq> Out}"
  shows "\<exists>s'. reachable (lock_step releases) s s' \<and> (\<forall>t. status s' t = Out)"
  using assms
proof (induction "card {t. status s t \<noteq> Out}" arbitrary: s)
  case 0
  then show ?case by (auto intro: reachable_start)
next
  case (Suc n)
  then obtain t where "status s t \<noteq> Out" by fastforce
  from one_leaves [OF Suc(3) this] obtain u s1 where u: "reachable (lock_step releases) s s1" "status s u \<noteq> Out" "status s1 = (status s)(u := Out)" by blast
  have "{t. status s1 t \<noteq> Out} = {t. status s t \<noteq> Out} - {u}" using u(3) by auto
  then have c: "n = card {t. status s1 t \<noteq> Out}" "finite {t. status s1 t \<noteq> Out}" using Suc(2,4) u(2) by simp_all
  have "lock_inv s1" by (rule releases_inv [OF u(1) Suc(3)])
  then show ?case using Suc(1) [OF c(1) _ c(2)] reachable_trans [OF _ u(1)] by blast
qed

section \<open>States of a lock\<close>

text \<open>Thread 1 writes; thread 1 reads while thread 2 waits to write; thread 1 writes after an upgrade.\<close>

definition writing :: lock_system where
  "writing = \<lparr>lk = lock_init\<lparr>want_write := True\<rparr>, status = (\<lambda>_. Out)(1 := Writer False 0 0)\<rparr>"

definition reading :: lock_system where
  "reading = \<lparr>lk = lock_init\<lparr>read_count := 1, want_write := True, waiting := True, lock_wakeup := [2]\<rparr>,
     status = (\<lambda>_. Out)(1 := Reader, 2 := Looping Write_Readers)\<rparr>"

definition upgraded :: lock_system where
  "upgraded = \<lparr>lk = lock_init\<lparr>want_upgrade := True\<rparr>, status = (\<lambda>_. Out)(1 := Writer True 0 0)\<rparr>"

lemma reader_reachable:
  "reachable (lock_step UNIV) lock_start \<lparr>lk = lock_init\<lparr>read_count := 1\<rparr>, status = (\<lambda>_. Out)(1 := Reader)\<rparr>"
proof -
  have "lock_run Read 1 (lk lock_start) = (Returned, lock_init\<lparr>read_count := 1\<rparr>)" by (simp add: lock_start_def lock_init_def lock_read_def wait_bits_def)
  from lock_call [OF UNIV_I _ _ _ this] show ?thesis by (intro reachable_one) (simp add: lock_start_def lock_init_def counters_fit_def)
qed

lemma writing_reachable: "reachable (lock_step UNIV) lock_start writing"
proof -
  have "lock_run Write 1 (lk lock_start) = (Returned, lock_init\<lparr>want_write := True\<rparr>)"
    by (simp add: lock_start_def lock_init_def lock_write_def wait_write_bit_def wait_readers_def)
  from lock_call [OF UNIV_I _ _ _ this] show ?thesis by (intro reachable_one) (simp add: writing_def lock_start_def lock_init_def counters_fit_def)
qed

lemma reading_reachable: "reachable (lock_step UNIV) lock_start reading"
proof -
  let ?s = "\<lparr>lk = lock_init\<lparr>read_count := 1\<rparr>, status = (\<lambda>_. Out)(1 := Reader)\<rparr>"
  have "lock_run Write 2 (lk ?s) = (Sleeping Write_Readers, lk reading)"
    by (simp add: reading_def lock_init_def lock_write_def wait_write_bit_def wait_readers_def sleep_on_def)
  from lock_call [OF UNIV_I _ _ _ this] have "lock_step UNIV ?s reading" by (simp add: reading_def lock_init_def counters_fit_def)
  then show ?thesis by (rule reachable_step [OF reader_reachable])
qed

lemma upgraded_reachable: "reachable (lock_step UNIV) lock_start upgraded"
proof -
  let ?s = "\<lparr>lk = lock_init\<lparr>read_count := 1\<rparr>, status = (\<lambda>_. Out)(1 := Reader)\<rparr>"
  have "lock_run Read_To_Write 1 (lk ?s) = (Answered False, lk upgraded)"
    by (simp add: upgraded_def lock_init_def lock_read_to_write_def wait_upgrade_def)
  from lock_call [OF UNIV_I _ _ _ this] have "lock_step UNIV ?s upgraded" by (simp add: upgraded_def lock_init_def counters_fit_def)
  then show ?thesis by (rule reachable_step [OF reader_reachable])
qed

text \<open>
  A thread that has the lock for writing by an upgrade cannot make it recursive: the check of
  \<open>lock_set_recursive\<close> looks at the write bit only, and the server stops.
\<close>

lemma set_recursive_upgraded: "is_writer (status upgraded 1) \<and> fst (lock_set_recursive 1 (lk upgraded)) = Panicked"
  by (simp add: upgraded_def lock_init_def lock_set_recursive_def)

section \<open>The properties\<close>

text \<open>
  C7. Exclusion. Over every interleaving of the callers of a lock (with recursion, upgrades,
  downgrades and attempts) that keep to its rules, a thread that has the lock for writing is
  the only one that has it: no other thread reads and no other writes, be it by the write bit
  or by an upgrade.
\<close>

theorem lock_exclusion:
  assumes "reachable (lock_step C) lock_start s" "is_writer (status s t)" "u \<noteq> t"
  shows "status s u \<noteq> Reader \<and> \<not> is_writer (status s u)"
proof -
  have inv: "inv_of (lk s) (status s)" using lock_machine.reachable_inv [OF assms(1)] lock_inv_of by blast
  obtain b r d where w: "status s t = Writer b r d" using assms(2) by (cases "status s t") auto
  have "status s u \<noteq> Reader" using held_writerD(1) [OF inv_ofD(3) [OF inv] w] by (auto simp: reader_set_def)
  moreover have "\<not> is_writer (status s u)" using sole_writer [OF inv w] assms(3) by blast
  ultimately show ?thesis by blast
qed

theorem lock_exclusion_witness:
  "reachable (lock_step UNIV) lock_start writing \<and> is_writer (status writing 1) \<and> status writing 2 \<noteq> Reader \<and> \<not> is_writer (status writing 2)"
proof -
  have "is_writer (status writing 1)" by (simp add: writing_def)
  then show ?thesis using writing_reachable lock_exclusion [OF writing_reachable, of 1 2] by simp
qed

text \<open>
  C14. No deadlock and no lost wakeup. From every state the callers can bring a lock into, there are
  steps in which only threads that have the lock release it and only threads that are
  awake go on, and which end with the lock free and nobody waiting: a sleeping thread is always
  woken when it can go on.
\<close>

theorem lock_drains:
  assumes "reachable (lock_step C) lock_start s"
  shows "\<exists>s'. reachable (lock_step {Done, Clear_Recursive}) s s' \<and> (\<forall>t. status s' t = Out) \<and>
    \<not> want_write (lk s') \<and> \<not> want_upgrade (lk s') \<and> read_count (lk s') = 0 \<and> thread (lk s') = 0 \<and> lock_wakeup (lk s') = []"
proof -
  obtain s' where s': "reachable (lock_step releases) s s'" "\<forall>t. status s' t = Out"
    using drain [OF lock_machine.reachable_inv [OF assms] busy_finite [OF assms]] by blast
  then show ?thesis using all_out [OF releases_inv [OF s'(1) lock_machine.reachable_inv [OF assms]] s'(2)] unfolding releases_def by blast
qed

theorem lock_drains_witness:
  "reachable (lock_step UNIV) lock_start reading \<and> status reading 2 = Looping Write_Readers \<and> lock_wakeup (lk reading) = [2] \<and>
   (\<exists>s'. reachable (lock_step {Done, Clear_Recursive}) reading s' \<and> (\<forall>t. status s' t = Out) \<and>
    \<not> want_write (lk s') \<and> \<not> want_upgrade (lk s') \<and> read_count (lk s') = 0 \<and> thread (lk s') = 0 \<and> lock_wakeup (lk s') = [])"
  using reading_reachable lock_drains [OF reading_reachable] by (simp add: reading_def)

end
