(* ===== verification/Spec2Isabelle.thy ===== *)
theory Spec2Isabelle
  imports Dlong_Ascii Hash_Table Las_Session Encrypt_Db Cthread_Spec Cthread_Queue Cprocs_Safe Cthread_Pool_Safe Ufs_Lock_Safe
begin

text \<open>
  A verification of parts of Mach-US, a multi-server operating system on the Mach 3.0 kernel.
  The development covers the authentication service of the system (server/as), in C, with the
  library routines for 64-bit integers and hash tables of lib/mach3/us; the thread library
  (lib/threads) with its memory allocator, queues, condition variables and the forking and joining of threads;
  and the locks of the UNIX file server (server/ufs).

  \<^bold>\<open>The program.\<close> The central authentication server (cas) keeps the groups of the system, users
  being primary groups, in memory and in a text file. Tasks log in with a name and a password
  and get a private port that stands for their session; with it they register tokens, which
  others verify to learn who the bearer is and which groups it belongs to, and change groups.
  The server offers its central interface (c_auth.defs, cas_procs.c) and the interface of the
  service (auth.defs, clas_procs.c). A local authentication server (las) offers the same service
  on one machine: it maps its own private ports to central ones, caches verifications and sends
  everything else on. The program encrypt_db prepares the text file. All programs take their
  memory from the allocator, which cuts blocks of powers of two from pages of the kernel.
  Servers are multi-threaded: a thread is a request that one of a few kernel threads runs, threads
  meet at mutexes and condition variables, and the file server builds its reader/writer locks on these.

  \<^bold>\<open>Theories and sources.\<close>
    \<^item> \<open>Mach_Prelude\<close>: machine types, faults of C programs and their sequencing, facts on words.
    \<^item> \<open>Dlong\<close>, \<open>Dlong_Div\<close>, \<open>Dlong_Ascii\<close>: lib/mach3/us/dlong.c, dlong_ascii.c and
      local_include/dlong.h. A dlong is its four 16-bit digits; every function and macro is a
      definition over digits with the carries of the code. The operations are shown to be 64-bit
      two's complement arithmetic; division is algorithm D with its correction steps.
    \<^item> \<open>Newdes\<close>: server/as/newdes.c and \<open>encrypt_password\<close> of cas_utils.c.
    \<^item> \<open>Hash_Table\<close>: lib/mach3/us/hash.c over a heap of cells, a refinement of finite maps.
    \<^item> \<open>Probing\<close>, \<open>Port_Table\<close>: linear probing, and what the two macros \<open>HASH_PORT\<close> have in common
      (locales \<open>probing\<close> and \<open>port_table\<close>).
    \<^item> \<open>Cas_State\<close>, \<open>Cas_Names\<close>, \<open>Name_Table\<close>, \<open>Cas_Closure\<close>, \<open>Cas_Ports\<close>: the state of the central
      server (cas_defs.h, the static variables) and cas_utils.c: the name table, the id map, the
      search for transitive memberships; the port maps of cas_procs.c.
    \<^item> \<open>Cas_Db\<close>, \<open>Cas_Db_Roundtrip\<close>: cas_db.c, byte for byte. \<open>Encrypt_Db\<close>: encrypt_db.c.
    \<^item> \<open>Cas_Procs\<close>, \<open>Clas_Procs\<close>, \<open>Cas_Server\<close>: the handlers of cas_procs.c and clas_procs.c, the
      requests and replies of both interfaces, startup and main loop of cas_main.c.
    \<^item> \<open>Service\<close>: servers as state machines with an invariant (locale \<open>service\<close>).
    \<^item> \<open>Cas_Invariant\<close>, \<open>Cas_Behaviour\<close>, \<open>Cas_Security\<close>: the central server over all sequences of
      messages, what its requests achieve, and who can open sessions.
    \<^item> \<open>Las_Procs\<close>, \<open>Las_Server\<close>, \<open>Las_Behaviour\<close>: las_procs.c and las_main.c over an arbitrary
      central server, and what holds of it whatever that server answers.
    \<^item> \<open>Las_Central\<close>, \<open>Las_Session\<close>: the local server in front of the central one, over a transport
      that may lose messages (locale \<open>authority\<close>, interpreted on the model of the central server).
    \<^item> \<open>Cthread_Malloc\<close>: lib/threads/malloc.c on a memory of bytes: headers, free lists and pools are
      words in that memory. \<open>Cthread_Heap\<close>: the invariant, by an owner for every byte, and the free
      lists. \<open>Cthread_Pools\<close>: \<open>more_memory\<close>. \<open>Cthread_Alloc\<close>: \<open>malloc\<close> and \<open>free\<close>. \<open>Cthread_Spec\<close>: \<open>realloc\<close>, the
      specification by byte arrays and its clients (locales \<open>byte_arrays\<close>, \<open>honest_kernel\<close>).
    \<^item> \<open>State_Machine\<close>: steps, reachable states and runs with events; invariants, refinement and schedules
      (locales \<open>state_machine\<close>, \<open>event_refinement\<close>, \<open>schedule\<close>).
    \<^item> \<open>Cthread_Queue\<close>: the queue macros of lib/threads/cthreads.h, a refinement of lists.
    \<^item> \<open>Cprocs\<close>: condition variables and mutexes, lib/threads/cprocs.c and cthreads.h, in the variant for kernel
      threads. \<open>Cprocs_Inv\<close>: the invariant. \<open>Cprocs_Spec\<close>: the specification with atomic operations and
      the abstraction. \<open>Cprocs_Safe\<close>: refinement, and what becomes of a woken thread.
    \<^item> \<open>Cthread_Pool\<close>: fork, join, detach and exit, lib/threads/cthreads.c, over atomic condition variables.
      \<open>Cthread_Pool_Inv\<close>: counters and conditions. \<open>Cthread_Pool_Spec\<close>: the structures of threads.
      \<open>Cthread_Pool_Safe\<close>: the table of threads that the library implements.
    \<^item> \<open>Ufs_Lock\<close>: server/ufs/lock.c over atomic condition variables. \<open>Ufs_Lock_Inv\<close>: the invariant. \<open>Ufs_Lock_Safe\<close>:
      exclusion, and that a lock can always become free.

  \<^bold>\<open>How the code is modelled.\<close> A function of the code is a definition of the same name (the
  procedures of clas_procs.c, which share the names of those in las_procs.c, begin with
  \<open>clas_\<close>; constants and macros that both servers define differently begin with \<open>las_\<close> or
  \<open>LAS_\<close>). It takes and returns the state of the server, a record, and yields a fault or its
  results: dereferencing a null or dangling pointer, indexing out of bounds, dividing by zero and
  looping for ever are values of the type \<open>fault\<close>. Group records live in a heap, as three tables
  share pointers to them. Strings are lists of bytes without the terminating zero, id lists with
  their counts are lists; arrays in C whose bounds matter are checked against their size. What
  the kernel, the name server and the file system answer is an argument (\<open>kernel\<close>,
  \<open>name_server\<close>, \<open>vm\<close> for the pages of the allocator); so is what an uninitialised variable holds. The code that MIG generates from
  the interface descriptions is not modelled: a request is what reaches the handler, and for the
  local server the argument \<open>rpc\<close> stands for the stubs and everything behind them.

  Concurrent code is a relation of steps. A step is what one thread does between two points where others can
  see or change what it uses; a point is a constructor of a datatype, and every thread is at one.
  In Cprocs these are the sections under the spin lock of a condition, single looks at a
  shared word and single messages; the specification proved there, with waits and
  signals as one step, is what Cthread_Pool and Ufs_Lock start from, where a step is a section under a mutex.
  It does not hold for a condition that is cleared while a signal works on it, as happens to the condition \<open>done\<close> of the
  structure of a thread when the structure is used again: there Cthread_Pool also has a step in which the signal is lost.
  The owner of a mutex and what callers hold (\<open>handle\<close>, \<open>lock_status\<close>) are added to state the rules for callers.

  \<^bold>\<open>What is shown.\<close>
    \<^item> The central server keeps its tables consistent over every sequence of messages, from any
      database it could read. A session exists only through a login that was entitled to it in the state it was
      served in. A
      login with the right password succeeds, the closure it computes is exact and computed in
      bounds and in finite time; tokens verify to what they were registered with, logout revokes
      them. The database is read back as it was saved, and encrypt_db writes what is to be read.
    \<^item> The requests on groups pass through the local server unchanged; a login, a token
      and its verification work through both servers. The cache of the local server never
      changes its mind, which also means that deleting a token and logging out have no effect
      there; privileged logins fail; the null port verifies.
    \<^item> The name table finds what was entered and the growth of the table faults; the encryption is
      a bijection on blocks; the hash table is a dictionary for every size whose bytes can be counted in 32 bits; the 64-bit routines compute the
      quotient and remainder of C, and numbers survive printing and reading.
    \<^item> The allocator implements a collection of byte arrays: a client that keeps to the rules of
      that collection never makes it fault, its blocks are disjoint and keep their bytes, for
      every sequence of calls and every kernel whose pages are new. \<open>malloc\<close> fails only for bad sizes
      or without pages; \<open>realloc\<close> copies what both blocks hold and gives the old one back to its free list, also
      when there is no new one.
    \<^item> Waits, signals and broadcasts are atomic for their users, whatever the interleaving, and no
      wakeup is lost between the last look of a thread and its receive. The queues are lists. A join
      returns the result of its thread, structures of threads are used again only when no handle and no running
      thread refers to them, a request waits only for busy kernel threads at the limit, the program ends only after its
      threads, and the main thread that waits for them is woken by the last. That every joiner is woken is not
      shown: it fails when the signal is lost.
    \<^item> A writer of a lock of the file server excludes all others, through recursion, upgrades and
      downgrades, and releases alone always lead to the free lock.
  Where the code does something its comments deny, the theorem states what it does.

  \<^bold>\<open>Bounds and fuel.\<close> Loops over a table run over its index range. A probe of a port map gives
  \<open>Diverges\<close> after as many steps as the map has slots: a full map without the port is searched for
  ever. The search for transitive memberships has fuel one more than the number of ids, which is
  shown to suffice, as each step marks another group. The loops over ids in a database line and
  over the lists of a deleted group have fuel for the characters of the line and the length of the
  list. The search through the pools has fuel for one more than the regions the kernel gave out,
  shown to suffice as every pool is a region. The search for the central server (\<open>find_cas\<close>) may run for ever and is a partial function;
  \<open>las_init\<close> is shown to return exactly when it gives up before the search or the name server comes to know the
  central server.

  \<^bold>\<open>Not modelled.\<close> In server/as: the secure startup (AS_SM_INIT) and argument parsing of the main
  programs, debugging output and messages on stderr, releasing port rights and asking for
  notifications, and the test program astest.c. Elsewhere: the C++ parts of the system
  (lib/us++, lib/emul, lib/ux, the servers built on them), which the development does not treat;
  of the thread library its stacks and contexts, the variants for tasks (MTASK) and coroutines, the
  calls around a fork of the task, thread data and names, and the statistics of the allocator; fairness of
  mutexes, so that what is shown of progress is that steps exist; of the UNIX file server all but its
  locks, and the terminal server, which are largely derived from 4.3BSD and depend on device input and output; the x-kernel (server/net/az_xkernel), which
  is third-party code; and the command line programs under bin.
\<close>

end
